(* ===== verification/Prelude.thy ===== *)
theory Prelude
  imports Main "HOL-Library.Multiset" "HOL-Library.Word"
begin

text \<open>
  What the components share: the collections of facts the proofs rewrite with, and lemmas on
  lists of optional cells, on maps and on sums of multisets that no component owns.

  \<^item> \<open>wp_simps\<close> collects the equations of the weakest-precondition calculus (theory Machine);
  \<^item> \<open>limit_simps\<close> collects the numeric facts about the size limits (theory Alloc);
  \<^item> \<open>owns_simps\<close> collects rearrangements of the ownership invariant (theory Ownership).
\<close>

named_theorems wp_simps "equations of the weakest-precondition calculus"
named_theorems limit_simps "facts about the size limits of the runtime"
named_theorems owns_simps "rearrangements of the ownership invariant"

section \<open>Fully initialised rows of cells\<close>

text \<open>A C buffer is a row of cells, a cell being \<open>None\<close> until it is written.\<close>

lemma those_map_Some [simp]: "those (map Some xs) = Some xs"
  by (induction xs) auto

lemma those_eq_Some: "those cs = Some xs \<longleftrightarrow> cs = map Some xs"
proof (induction cs arbitrary: xs)
  case Nil
  then show ?case by auto
next
  case (Cons c cs)
  then show ?case by (cases xs) (auto split: option.splits)
qed

lemma those_append_Some:
  "those xs = Some a \<Longrightarrow> those ys = Some b \<Longrightarrow> those (xs @ ys) = Some (a @ b)"
  by (simp add: those_eq_Some)

lemma length_those: "those cs = Some xs \<Longrightarrow> length xs = length cs"
  by (simp add: those_eq_Some)

lemma those_take_drop:
  "those (take n (drop m cs)) = Some v \<Longrightarrow> i + k \<le> n \<Longrightarrow> m + n \<le> length cs \<Longrightarrow>
     those (take k (drop (m + i) cs)) = Some (take k (drop i v))"
proof -
  assume those: "those (take n (drop m cs)) = Some v" and bounds: "i + k \<le> n" "m + n \<le> length cs"
  from those have v: "take n (drop m cs) = map Some v" by (simp add: those_eq_Some)
  have "take k (drop (m + i) cs) = take k (drop i (take n (drop m cs)))"
    using bounds by (simp add: drop_take add.commute min_def)
  also have "\<dots> = map Some (take k (drop i v))"
    by (simp add: v take_map drop_map)
  finally show ?thesis by simp
qed

section \<open>Overwriting a stretch of a list\<close>

definition overwrite :: "'a list \<Rightarrow> nat \<Rightarrow> 'a list \<Rightarrow> 'a list" where
  "overwrite xs off ys = take off xs @ ys @ drop (off + length ys) xs"

lemma length_overwrite [simp]:
  "off + length ys \<le> length xs \<Longrightarrow> length (overwrite xs off ys) = length xs"
  by (simp add: overwrite_def)

lemma overwrite_Nil [simp]: "overwrite xs off [] = xs"
  by (simp add: overwrite_def)

lemma overwrite_at_end:
  "length xs = off \<Longrightarrow> length zs = length ys \<Longrightarrow> overwrite (xs @ zs @ ws) off ys = xs @ ys @ ws"
  by (simp add: overwrite_def)

lemma overwrite_replicate:
  "length ys \<le> n \<Longrightarrow> overwrite (xs @ replicate n c) (length xs) ys
     = xs @ ys @ replicate (n - length ys) c"
  by (simp add: overwrite_def)

lemma overwrite_replicate0:
  "length ys \<le> n \<Longrightarrow> overwrite (replicate n c) 0 ys = ys @ replicate (n - length ys) c"
  using overwrite_replicate [of ys n "[]" c] by simp

lemma overwrite_one: "off < length xs \<Longrightarrow> overwrite xs off [y] = xs[off := y]"
  by (simp add: overwrite_def upd_conv_take_nth_drop)

section \<open>Maps and multisets\<close>

text \<open>Folding an update that the simplifier has expanded.\<close>

lemma fold_fun_upd [simp]:
  "(\<lambda>a. if a = b then x else R a) = R(b := x)"
  "(\<lambda>a. if a = b then x else if a = b then y else R a) = R(b := x)"
  by (auto simp: fun_eq_iff)

lemma map_add_upd_commute: "b \<notin> dom n \<Longrightarrow> (m(b \<mapsto> x)) ++ n = (m ++ n)(b \<mapsto> x)"
  by (auto simp: map_add_def fun_eq_iff split: option.splits)

lemma map_add_None_left: "m b = None \<Longrightarrow> n b = None \<Longrightarrow> (m ++ n) b = None"
  by (simp add: map_add_def)

lemma fun_upd_None_same [simp]: "m b = None \<Longrightarrow> m(b := None) = m"
  by (auto simp: fun_eq_iff)

lemma filter_mset_add_size:
  "size (filter_mset P (add_mset x M)) = (if P x then Suc (size (filter_mset P M)) else size (filter_mset P M))"
  by simp

lemma size_filter_mset_pos: "x \<in># M \<Longrightarrow> P x \<Longrightarrow> 0 < size (filter_mset P M)"
  by (auto simp: nonempty_has_size [symmetric] filter_mset_eq_mempty_iff)

end
