(* ===== verification/Runtime_Types.thy ===== *)
theory Runtime_Types
  imports Prelude
begin

text \<open>
  The data of \<open>stdlib/runtime.h\<close> and the constants of the platform it is built for (Linux,
  LP64, the errno numbers of the kernel ABI).

  Machine integers. A C \<open>int32_t\<close>, \<open>int64_t\<close> or \<open>intptr_t\<close> held in a struct is an \<open>int\<close>
  and a \<open>size_t\<close> is a \<open>nat\<close>; every place where the code converts between widths or could
  wrap writes the conversion out (\<open>to_i32\<close>, \<open>to_size\<close>). The arithmetic the compiler emits
  (\<open>nq_i32_add\<close> and its kin) is modelled on \<open>32 word\<close> and \<open>64 word\<close> in theory Integers.

  Bytes. A byte is a \<open>char\<close> (8 bits).

  Pointers. \<open>PNull\<close> is NULL, \<open>PHeap b i\<close> points \<open>i\<close> cells into the heap block \<open>b\<close>, and
  \<open>PLit xs i\<close> points \<open>i\<close> bytes into storage the runtime neither owns nor writes (a string
  literal, an entry of \<open>argv\<close> or of the environment) that holds the bytes \<open>xs\<close> and then a NUL.
\<close>

section \<open>Pointers and strings\<close>

datatype ptr = PNull | PLit string nat | PHeap nat nat

record nqstr =
  s_data :: ptr
  s_len :: int
  s_owner :: "nat option"

record nqbytes =
  b_data :: ptr
  b_len :: int
  b_cap :: int

record nqioerr =
  e_code :: int
  e_os_code :: int
  e_text :: nqstr
  e_kind :: nqstr
  e_operation :: nqstr
  e_path :: nqstr
  e_other_path :: nqstr
  e_has_path :: bool
  e_has_other_path :: bool

record nq_path_metadata_t =
  m_is_file :: bool
  m_is_directory :: bool
  m_is_symlink :: bool
  m_size :: int
  m_modified_ns :: int
  m_mode :: int

record nq_process_result_t =
  pr_exit_code :: int
  pr_stdout :: nqstr
  pr_stderr :: nqstr

record nq_duration = d_ns :: int

record nq_instant = i_ns :: int

record nq_process_outcome_t =
  po_exit_code :: int
  po_stdout :: nqstr
  po_stderr :: nqstr
  po_timed_out :: bool
  po_cancelled :: bool

record nq_list_str =
  l_data :: ptr
  l_len :: int
  l_cap :: int

record nq_byte_buffer =
  bb_data :: ptr
  bb_len :: nat
  bb_cap :: nat

text \<open>\<open>NQ_process\<close> is a handle: the heap block of its \<open>NQProcessState\<close>, or NULL.\<close>

type_synonym nq_process = "nat option"

record nq_process_state =
  ps_pid :: int
  ps_group :: bool
  ps_ready :: bool
  ps_signalled :: bool
  ps_terminal_signalled :: bool
  ps_input_fd :: int
  ps_output_fd :: int
  ps_error_fd :: int
  ps_input :: nqstr
  ps_sent :: nat
  ps_limit :: nat
  ps_output :: nq_byte_buffer
  ps_error :: nq_byte_buffer
  ps_outcome :: nq_process_outcome_t

section \<open>Options and results\<close>

text \<open>
  Every \<open>NQ_Option__T\<close> is a tag and the payload of \<open>Some\<close>: HOL's \<open>option\<close>. Every
  \<open>NQ_Result__T__io_err\<close> is a tag, the payload of \<open>Ok\<close> and the error of \<open>Err\<close>.
\<close>

datatype 'a nq_result = Ok 'a | Err nqioerr

type_synonym nq_option_i32 = "int option"
type_synonym nq_option_i64 = "int option"
type_synonym nq_option_str = "nqstr option"
type_synonym nq_option_duration = "nq_duration option"
type_synonym nq_option_instant = "nq_instant option"
type_synonym nq_result_i64 = "int nq_result"
type_synonym nq_result_instant = "nq_instant nq_result"
type_synonym nq_result_process = "nq_process nq_result"
type_synonym nq_result_process_outcome = "nq_process_outcome_t nq_result"
type_synonym nq_result_str = "nqstr nq_result"
type_synonym nq_result_unit = "unit nq_result"
type_synonym nq_result_bytes = "nqbytes nq_result"
type_synonym nq_result_option_str = "nqstr option nq_result"
type_synonym nq_result_process_result = "nq_process_result_t nq_result"
type_synonym nq_result_path_metadata = "nq_path_metadata_t nq_result"
type_synonym nq_result_list_str = "nq_list_str nq_result"

text \<open>\<open>memset(value, 0, sizeof *value)\<close>: all fields zero, pointers NULL, tag 0 (\<open>Some\<close>, \<open>Ok\<close>).\<close>

definition zero_str :: nqstr where
  "zero_str = \<lparr>s_data = PNull, s_len = 0, s_owner = None\<rparr>"

definition zero_outcome :: nq_process_outcome_t where
  "zero_outcome = \<lparr>po_exit_code = 0, po_stdout = zero_str, po_stderr = zero_str,
                   po_timed_out = False, po_cancelled = False\<rparr>"

definition zero_ioerr :: nqioerr where
  "zero_ioerr = \<lparr>e_code = 0, e_os_code = 0, e_text = zero_str, e_kind = zero_str,
     e_operation = zero_str, e_path = zero_str, e_other_path = zero_str,
     e_has_path = False, e_has_other_path = False\<rparr>"

section \<open>Widths and conversions\<close>

definition INT32_MAX :: int where "INT32_MAX = 2147483647"
definition INT32_MIN :: int where "INT32_MIN = - 2147483648"
definition INT64_MAX :: int where "INT64_MAX = 9223372036854775807"
definition INT64_MIN :: int where "INT64_MIN = - 9223372036854775808"
definition SIZE_MAX :: nat where "SIZE_MAX = 18446744073709551615"

lemmas width_defs = INT32_MAX_def INT32_MIN_def INT64_MAX_def INT64_MIN_def SIZE_MAX_def

text \<open>\<open>(int32_t)x\<close>, \<open>(int64_t)x\<close> and \<open>(size_t)x\<close>: two's complement reduction.\<close>

definition to_i32 :: "int \<Rightarrow> int" where
  "to_i32 x = (x + 2147483648) mod 4294967296 - 2147483648"

definition to_i64 :: "int \<Rightarrow> int" where
  "to_i64 x = (x + 9223372036854775808) mod 18446744073709551616 - 9223372036854775808"

definition to_size :: "int \<Rightarrow> nat" where
  "to_size x = nat (x mod 18446744073709551616)"

text \<open>Arithmetic on \<open>size_t\<close> wraps.\<close>

definition size_plus :: "nat \<Rightarrow> nat \<Rightarrow> nat" where
  "size_plus a b = (a + b) mod (SIZE_MAX + 1)"

definition size_times :: "nat \<Rightarrow> nat \<Rightarrow> nat" where
  "size_times a b = (a * b) mod (SIZE_MAX + 1)"

definition size_minus :: "nat \<Rightarrow> nat \<Rightarrow> nat" where
  "size_minus a b = nat ((int a - int b) mod (int SIZE_MAX + 1))"

lemma to_i32_id: "INT32_MIN \<le> x \<Longrightarrow> x \<le> INT32_MAX \<Longrightarrow> to_i32 x = x"
  by (simp add: to_i32_def width_defs)

lemma to_size_id: "0 \<le> x \<Longrightarrow> x \<le> int SIZE_MAX \<Longrightarrow> to_size x = nat x"
  by (simp add: to_size_def SIZE_MAX_def)

lemma to_size_of_nat: "n \<le> SIZE_MAX \<Longrightarrow> to_size (int n) = n"
  by (simp add: to_size_def SIZE_MAX_def)

lemma size_plus_id: "a + b \<le> SIZE_MAX \<Longrightarrow> size_plus a b = a + b"
  by (simp add: size_plus_def)

lemma size_times_id: "a * b \<le> SIZE_MAX \<Longrightarrow> size_times a b = a * b"
  by (simp add: size_times_def)

lemma size_minus_id: "b \<le> a \<Longrightarrow> a \<le> SIZE_MAX \<Longrightarrow> size_minus a b = a - b"
  by (simp add: size_minus_def SIZE_MAX_def)

text \<open>\<open>sizeof\<close> under LP64.\<close>

definition sizeof_owner :: nat where "sizeof_owner = 16"
definition sizeof_str :: nat where "sizeof_str = 24"
definition sizeof_ptr :: nat where "sizeof_ptr = 8"
definition sizeof_process_state :: nat where "sizeof_process_state = 176"

section \<open>errno\<close>

definition EPERM :: int where "EPERM = 1"
definition ENOENT :: int where "ENOENT = 2"
definition ESRCH :: int where "ESRCH = 3"
definition EINTR :: int where "EINTR = 4"
definition EIO :: int where "EIO = 5"
definition EBADF :: int where "EBADF = 9"
definition ECHILD :: int where "ECHILD = 10"
definition EAGAIN :: int where "EAGAIN = 11"
definition ENOMEM :: int where "ENOMEM = 12"
definition EACCES :: int where "EACCES = 13"
definition EEXIST :: int where "EEXIST = 17"
definition EXDEV :: int where "EXDEV = 18"
definition ENOTDIR :: int where "ENOTDIR = 20"
definition EISDIR :: int where "EISDIR = 21"
definition EINVAL :: int where "EINVAL = 22"
definition EPIPE :: int where "EPIPE = 32"
definition ERANGE :: int where "ERANGE = 34"
definition ENOTEMPTY :: int where "ENOTEMPTY = 39"
definition ENOTSUP :: int where "ENOTSUP = 95"

lemmas errno_defs = EPERM_def ENOENT_def ESRCH_def EINTR_def EIO_def EBADF_def ECHILD_def
  EAGAIN_def ENOMEM_def EACCES_def EEXIST_def EXDEV_def ENOTDIR_def EISDIR_def EINVAL_def
  EPIPE_def ERANGE_def ENOTEMPTY_def ENOTSUP_def

end
