(* ===== verification/Machine.thy ===== *)
theory Machine
  imports Runtime_Types
begin

text \<open>
  The machine the C code runs on: an explicit store, the C library and the kernel as an
  environment that answers calls, and the calculus (\<open>wp\<close>) the proofs use.

  A C function is a function from the machine state to an \<open>outcome\<close>: it returns a value and
  a state (\<open>Ret\<close>), or the process stops (\<open>Stop\<close>): \<open>exit\<close>, \<open>_exit\<close>, \<open>abort\<close>, a successful
  \<open>exec\<close>, undefined behaviour (a wild or dangling pointer, a read of uninitialised bytes, a
  double \<open>free\<close>), an endless loop (\<open>Diverged\<close>), or \<open>Blocked\<close>: the environment has not
  answered the next call.

  The environment is part of the state: \<open>mallocs\<close> says which of the coming \<open>malloc\<close> and
  \<open>realloc\<close> calls of the C library succeed, and \<open>script\<close> holds its replies to the coming
  system calls. A theorem about every state is therefore a theorem about every behaviour of
  the operating system. \<open>trace\<close> records the calls made, in order.
\<close>

section \<open>State and outcomes\<close>

datatype block =
    BUninit nat
  | BBytes "char option list"
  | BOwner nat ptr
  | BStrs "nqstr option list"
  | BPtrs "ptr option list"
  | BProc nq_process_state

record reply =
  r_ret :: int
  r_errno :: int
  r_bytes :: string
  r_ints :: "int list"

datatype (plugins only: code) event =
    Fputs string
  | Fread int nat | Ferror int | Fgetc int | Fwrite int string | Fflush int
  | Fopen string string | Fclose int | SignalIgnore | SignalRestore
  | Open string | Close int | Mkdir string | Stat string | Lstat string
  | Opendir string | Readdir int | Closedir int
  | Unlink string | Rmdir string | Rename string string
  | Mkstemp string | Mkdtemp string | Fchmod int int | Chmod string int
  | WriteFd int string | ReadFd int nat
  | Getcwd nat | Getenv string | ClockGettime bool | ClockNanosleep int int
  | Fork | Waitpid int | Waitid int bool | Kill int
  | FcntlDup int int | FcntlSetCloexec int | FcntlGetFlags int | FcntlSetNonblock int int
  | Pipe | Dup2 int int | Chdir string | Setpgid int int
  | Execvp string "string list" | Execve string "string list" "string list"
  | Poll "(int \<times> bool) list" int | IoctlQueued int
  | SigBlock | SigPending | SigTimedwait | SigRestore
  | Newlocale | Uselocale | Freelocale
  | GetTempPath | GetTempFileName string string | DeleteFile string | CreateFile string | CloseHandle int
  | GetStdHandle | CreateProcess string "string option" "int list" | WaitForSingleObject int | GetExitCodeProcess int

record nqstate =
  heap :: "nat \<Rightarrow> block option"
  next_block :: nat
  mallocs :: "bool list"
  alloc_count :: nat
  errno :: int
  process_args :: "string list option"
  process_argc :: int
  environ :: "string list option"
  script :: "reply list"
  trace :: "event list"

datatype stop = Exit int | QuickExit int | Aborted | Execed | Blocked | Diverged | Undefined

datatype 'a outcome = Ret 'a nqstate | Stop stop nqstate

type_synonym 'a nq = "nqstate \<Rightarrow> 'a outcome"

section \<open>Sequencing\<close>

definition ret :: "'a \<Rightarrow> 'a nq" where
  "ret a = (\<lambda>s. Ret a s)"

definition bind :: "'a nq \<Rightarrow> ('a \<Rightarrow> 'b nq) \<Rightarrow> 'b nq" where
  "bind m f = (\<lambda>s. case m s of Ret a s' \<Rightarrow> f a s' | Stop r s' \<Rightarrow> Stop r s')"

definition andthen :: "'a nq \<Rightarrow> 'b nq \<Rightarrow> 'b nq" where
  "andthen m n = bind m (\<lambda>_. n)"

definition stop :: "stop \<Rightarrow> 'a nq" where
  "stop r = (\<lambda>s. Stop r s)"

definition only_if :: "bool \<Rightarrow> unit nq \<Rightarrow> unit nq" where
  "only_if b m = (if b then m else ret ())"

definition gets :: "(nqstate \<Rightarrow> 'a) \<Rightarrow> 'a nq" where
  "gets f = (\<lambda>s. Ret (f s) s)"

definition modify :: "(nqstate \<Rightarrow> nqstate) \<Rightarrow> unit nq" where
  "modify f = (\<lambda>s. Ret () (f s))"

text \<open>
  A function that takes a pointer to one of the caller's variables, possibly NULL, is
  modelled on the variable's value: \<open>None\<close> is the NULL pointer, \<open>Some v\<close> a pointer to a
  variable that holds \<open>v\<close>, and the result is what the variable holds afterwards.
  \<open>nullable\<close> is the test \<open>if (p == NULL) return;\<close>, \<open>at_ptr f v\<close> the call \<open>f(&v)\<close>.
\<close>

definition nullable :: "'a option \<Rightarrow> ('a \<Rightarrow> 'a nq) \<Rightarrow> 'a option nq" where
  "nullable p body = (case p of None \<Rightarrow> ret None | Some v \<Rightarrow> bind (body v) (\<lambda>v'. ret (Some v')))"

definition at_ptr :: "('a option \<Rightarrow> 'a option nq) \<Rightarrow> 'a \<Rightarrow> 'a nq" where
  "at_ptr f v = bind (f (Some v)) (\<lambda>r. case r of Some v' \<Rightarrow> ret v' | None \<Rightarrow> stop Undefined)"

text \<open>A loop modelled as a partial function: \<open>None\<close> is a loop that never ends.\<close>

definition from_loop :: "'a option \<Rightarrow> 'a nq" where
  "from_loop x = (case x of Some v \<Rightarrow> ret v | None \<Rightarrow> stop Diverged)"

section \<open>Memory\<close>

fun read_bytes :: "(nat \<Rightarrow> block option) \<Rightarrow> ptr \<Rightarrow> nat \<Rightarrow> string option" where
  "read_bytes h PNull n = (if n = 0 then Some [] else None)"
| "read_bytes h (PLit xs i) n =
     (if i + n \<le> length xs + 1 then Some (take n (drop i (xs @ [CHR 0x00]))) else None)"
| "read_bytes h (PHeap b i) n =
     (case h b of
        Some (BBytes cs) \<Rightarrow> if i + n \<le> length cs then those (take n (drop i cs)) else None
      | _ \<Rightarrow> None)"

definition load_bytes :: "ptr \<Rightarrow> nat \<Rightarrow> string nq" where
  "load_bytes p n = (\<lambda>s. case read_bytes (heap s) p n of
     Some bs \<Rightarrow> Ret bs s | None \<Rightarrow> Stop Undefined s)"

definition put_block :: "nat \<Rightarrow> block \<Rightarrow> nqstate \<Rightarrow> nqstate" where
  "put_block b blk s = s\<lparr>heap := (heap s)(b \<mapsto> blk)\<rparr>"

text \<open>A store of \<open>bs\<close> through a byte pointer, \<open>memcpy(p, bs, length bs)\<close>.\<close>

definition store_bytes :: "ptr \<Rightarrow> string \<Rightarrow> unit nq" where
  "store_bytes p bs = (\<lambda>s. case p of
     PHeap b i \<Rightarrow> (case heap s b of
         Some (BBytes cs) \<Rightarrow>
           if i + length bs \<le> length cs
           then Ret () (put_block b (BBytes (overwrite cs i (map Some bs))) s) else Stop Undefined s
       | _ \<Rightarrow> Stop Undefined s)
   | _ \<Rightarrow> Stop Undefined s)"

fun ptr_plus :: "ptr \<Rightarrow> nat \<Rightarrow> ptr" where
  "ptr_plus PNull n = PNull"
| "ptr_plus (PLit xs i) n = PLit xs (i + n)"
| "ptr_plus (PHeap b i) n = PHeap b (i + n)"

text \<open>The C string a byte pointer points at: the bytes before the first NUL.\<close>

fun c_string :: "(nat \<Rightarrow> block option) \<Rightarrow> ptr \<Rightarrow> string option" where
  "c_string h PNull = None"
| "c_string h (PLit xs i) =
     (if i \<le> length xs then Some (takeWhile (\<lambda>c. c \<noteq> CHR 0x00) (drop i xs)) else None)"
| "c_string h (PHeap b i) =
     (case h b of
        Some (BBytes cs) \<Rightarrow>
          let row = takeWhile (\<lambda>c. c \<noteq> Some (CHR 0x00)) (drop i cs) in
          if i + length row < length cs then those row else None
      | _ \<Rightarrow> None)"

definition load_c_string :: "ptr \<Rightarrow> string nq" where
  "load_c_string p = (\<lambda>s. case c_string (heap s) p of
     Some bs \<Rightarrow> Ret bs s | None \<Rightarrow> Stop Undefined s)"

definition load_owner :: "nat \<Rightarrow> (nat \<times> ptr) nq" where
  "load_owner b = (\<lambda>s. case heap s b of
     Some (BOwner n p) \<Rightarrow> Ret (n, p) s | _ \<Rightarrow> Stop Undefined s)"

text \<open>Stores to a struct cell also initialise fresh memory of at least its size.\<close>

definition store_owner :: "nat \<Rightarrow> nat \<Rightarrow> ptr \<Rightarrow> unit nq" where
  "store_owner b n p = (\<lambda>s. case heap s b of
     Some (BOwner _ _) \<Rightarrow> Ret () (put_block b (BOwner n p) s)
   | Some (BUninit k) \<Rightarrow>
       if sizeof_owner \<le> k then Ret () (put_block b (BOwner n p) s) else Stop Undefined s
   | _ \<Rightarrow> Stop Undefined s)"

definition load_str :: "ptr \<Rightarrow> nat \<Rightarrow> nqstr nq" where
  "load_str p i = (\<lambda>s. case p of
     PHeap b k \<Rightarrow> (case heap s b of
         Some (BStrs cs) \<Rightarrow>
           if k + i < length cs
           then (case cs ! (k + i) of Some t \<Rightarrow> Ret t s | None \<Rightarrow> Stop Undefined s)
           else Stop Undefined s
       | _ \<Rightarrow> Stop Undefined s)
   | _ \<Rightarrow> Stop Undefined s)"

definition store_str :: "ptr \<Rightarrow> nat \<Rightarrow> nqstr \<Rightarrow> unit nq" where
  "store_str p i t = (\<lambda>s. case p of
     PHeap b k \<Rightarrow> (case heap s b of
         Some (BStrs cs) \<Rightarrow>
           if k + i < length cs
           then Ret () (put_block b (BStrs (cs[k + i := Some t])) s) else Stop Undefined s
       | _ \<Rightarrow> Stop Undefined s)
   | _ \<Rightarrow> Stop Undefined s)"

definition load_cell :: "ptr \<Rightarrow> nat \<Rightarrow> ptr nq" where
  "load_cell p i = (\<lambda>s. case p of
     PHeap b k \<Rightarrow> (case heap s b of
         Some (BPtrs cs) \<Rightarrow>
           if k + i < length cs
           then (case cs ! (k + i) of Some t \<Rightarrow> Ret t s | None \<Rightarrow> Stop Undefined s)
           else Stop Undefined s
       | _ \<Rightarrow> Stop Undefined s)
   | _ \<Rightarrow> Stop Undefined s)"

definition store_cell :: "ptr \<Rightarrow> nat \<Rightarrow> ptr \<Rightarrow> unit nq" where
  "store_cell p i t = (\<lambda>s. case p of
     PHeap b k \<Rightarrow> (case heap s b of
         Some (BPtrs cs) \<Rightarrow>
           if k + i < length cs
           then Ret () (put_block b (BPtrs (cs[k + i := Some t])) s) else Stop Undefined s
       | _ \<Rightarrow> Stop Undefined s)
   | _ \<Rightarrow> Stop Undefined s)"

definition load_proc :: "nat \<Rightarrow> nq_process_state nq" where
  "load_proc b = (\<lambda>s. case heap s b of
     Some (BProc p) \<Rightarrow> Ret p s | _ \<Rightarrow> Stop Undefined s)"

definition store_proc :: "nat \<Rightarrow> nq_process_state \<Rightarrow> unit nq" where
  "store_proc b p = (\<lambda>s. case heap s b of
     Some (BProc _) \<Rightarrow> Ret () (put_block b (BProc p) s)
   | Some (BUninit k) \<Rightarrow>
       if sizeof_process_state \<le> k then Ret () (put_block b (BProc p) s) else Stop Undefined s
   | _ \<Rightarrow> Stop Undefined s)"

section \<open>malloc, realloc, free\<close>

text \<open>
  The C code casts what the allocator returns to the type it stores there; the cast is the
  argument \<open>kind\<close>. A call of \<open>realloc\<close> that succeeds moves the block, so that every use of
  the old pointer afterwards is undefined, as the C standard has it. \<open>free\<close> and a successful
  \<open>malloc\<close> keep \<open>errno\<close> (POSIX.1-2024, glibc).
\<close>

datatype kind = KBytes | KStruct | KStrs | KPtrs

fun fresh_cells :: "kind \<Rightarrow> nat \<Rightarrow> block" where
  "fresh_cells KBytes n = BBytes (replicate n None)"
| "fresh_cells KStruct n = BUninit n"
| "fresh_cells KStrs n = BStrs (replicate (n div sizeof_str) None)"
| "fresh_cells KPtrs n = BPtrs (replicate (n div sizeof_ptr) None)"

definition resize_cells :: "nat \<Rightarrow> 'a option list \<Rightarrow> 'a option list" where
  "resize_cells n cs = take n cs @ replicate (n - length cs) None"

definition c_malloc :: "kind \<Rightarrow> nat \<Rightarrow> ptr nq" where
  "c_malloc k n = (\<lambda>s.
     if mallocs s \<noteq> [] \<and> \<not> hd (mallocs s)
     then Ret PNull (s\<lparr>mallocs := tl (mallocs s), errno := ENOMEM\<rparr>)
     else Ret (PHeap (next_block s) 0)
            (s\<lparr>mallocs := tl (mallocs s), next_block := Suc (next_block s),
               heap := (heap s)(next_block s \<mapsto> fresh_cells k n)\<rparr>))"

definition c_realloc :: "ptr \<Rightarrow> nat \<Rightarrow> ptr nq" where
  "c_realloc p n = (\<lambda>s. case p of
     PHeap b 0 \<Rightarrow>
       (let moved = (\<lambda>blk. Ret (PHeap (next_block s) 0)
              (s\<lparr>mallocs := tl (mallocs s), next_block := Suc (next_block s),
                 heap := (heap s)(b := None, next_block s := Some blk)\<rparr>)) in
        if heap s b = None then Stop Undefined s
        else if mallocs s \<noteq> [] \<and> \<not> hd (mallocs s)
        then Ret PNull (s\<lparr>mallocs := tl (mallocs s), errno := ENOMEM\<rparr>)
        else (case heap s b of
           Some (BBytes cs) \<Rightarrow> moved (BBytes (resize_cells n cs))
         | Some (BStrs cs) \<Rightarrow> moved (BStrs (resize_cells (n div sizeof_str) cs))
         | Some (BPtrs cs) \<Rightarrow> moved (BPtrs (resize_cells (n div sizeof_ptr) cs))
         | _ \<Rightarrow> Stop Undefined s))
   | _ \<Rightarrow> Stop Undefined s)"

definition c_free :: "ptr \<Rightarrow> unit nq" where
  "c_free p = (\<lambda>s. case p of
     PNull \<Rightarrow> Ret () s
   | PHeap b 0 \<Rightarrow>
       if heap s b = None then Stop Undefined s
       else Ret () (s\<lparr>heap := (heap s)(b := None)\<rparr>)
   | _ \<Rightarrow> Stop Undefined s)"

section \<open>Calls that leave the program\<close>

text \<open>
  \<open>sys ev\<close> makes the call \<open>ev\<close> and takes the environment's next reply; \<open>errno\<close> is whatever
  the environment leaves there. \<open>emit ev\<close> is a call whose reply the code ignores.
\<close>

definition sys :: "event \<Rightarrow> reply nq" where
  "sys ev = (\<lambda>s. case script s of
     [] \<Rightarrow> Stop Blocked s
   | r # rs \<Rightarrow> Ret r (s\<lparr>script := rs, trace := trace s @ [ev], errno := r_errno r\<rparr>))"

definition emit :: "event \<Rightarrow> unit nq" where
  "emit ev = modify (\<lambda>s. s\<lparr>trace := trace s @ [ev]\<rparr>)"

definition set_errno :: "int \<Rightarrow> unit nq" where
  "set_errno e = modify (\<lambda>s. s\<lparr>errno := e\<rparr>)"

definition get_errno :: "int nq" where
  "get_errno = gets errno"

text \<open>A call that leaves \<open>errno\<close> alone, such as \<open>ferror\<close>.\<close>

definition sys_quiet :: "event \<Rightarrow> reply nq" where
  "sys_quiet ev = (\<lambda>s. case script s of
     [] \<Rightarrow> Stop Blocked s
   | r # rs \<Rightarrow> Ret r (s\<lparr>script := rs, trace := trace s @ [ev]\<rparr>))"

section \<open>Loops around calls\<close>

text \<open>
  A loop of which every round makes a call: the body returns \<open>Inl\<close> to go on and \<open>Inr\<close> to leave.
  A round that goes on without having taken a reply from the environment counts as divergence,
  so the loop ends on every state; that no loop of the runtime diverges is part of what the
  rules prove. \<open>loop_unfold\<close> is the equation of the C loop.
\<close>

function loop :: "('a \<Rightarrow> ('a + 'b) nq) \<Rightarrow> 'a \<Rightarrow> 'b nq" where
  "loop body a s = (case body a s of
     Stop r s' \<Rightarrow> Stop r s'
   | Ret (Inr b) s' \<Rightarrow> Ret b s'
   | Ret (Inl a') s' \<Rightarrow>
       if length (script s') < length (script s) then loop body a' s' else Stop Diverged s')"
  by pat_completeness auto

termination
  by (relation "measure (\<lambda>(body, a, s). length (script s))") auto

declare loop.simps [simp del]

lemma loop_unfold:
  assumes "\<And>a s a' s'. body a s = Ret (Inl a') s' \<Longrightarrow> length (script s') < length (script s)"
  shows "loop body a = bind (body a) (\<lambda>r. case r of Inl a' \<Rightarrow> loop body a' | Inr b \<Rightarrow> ret b)"
proof
  fix s show "loop body a s = bind (body a) (\<lambda>r. case r of Inl a' \<Rightarrow> loop body a' | Inr b \<Rightarrow> ret b) s"
    using assms [of a s]
    by (subst loop.simps) (auto simp: bind_def ret_def split: outcome.split sum.split)
qed

text \<open>\<open>do { result = call; } while (result < 0 && errno == EINTR);\<close>\<close>

definition retry_eintr :: "int nq \<Rightarrow> int nq" where
  "retry_eintr call = loop (\<lambda>_::unit.
     bind call (\<lambda>r. bind get_errno (\<lambda>e. ret (if r < 0 \<and> e = EINTR then Inl () else Inr r)))) ()"

section \<open>Weakest preconditions\<close>

text \<open>
  \<open>wp E m Q s\<close>: started in \<open>s\<close>, \<open>m\<close> either returns a value and a state for which \<open>Q\<close> holds, or
  stops for a reason that \<open>E\<close> allows. Four choices of \<open>E\<close> matter:
  \<^item> \<open>safe_stop\<close>: no undefined behaviour, no \<open>abort\<close>, no endless loop; the process may still
    leave by \<open>exit\<close>;
  \<^item> \<open>fails_fast\<close>: the function returns, or ends the process with status 1 after a message;
  \<^item> \<open>only_blocks\<close>: the function returns as soon as the environment has answered its calls; it
    never ends the process;
  \<^item> \<open>no_stop\<close>: it returns, whatever happens.
\<close>

definition safe_stop :: "stop \<Rightarrow> bool" where
  "safe_stop r \<longleftrightarrow> r \<noteq> Undefined \<and> r \<noteq> Aborted \<and> r \<noteq> Diverged"

definition only_blocks :: "stop \<Rightarrow> bool" where
  "only_blocks r \<longleftrightarrow> r = Blocked"

definition fails_fast :: "stop \<Rightarrow> bool" where
  "fails_fast r \<longleftrightarrow> r = Exit 1"

definition no_stop :: "stop \<Rightarrow> bool" where
  "no_stop r \<longleftrightarrow> False"

lemma safe_stop_simps [simp]:
  "safe_stop (Exit n)" "safe_stop (QuickExit n)" "safe_stop Execed" "safe_stop Blocked"
  "\<not> safe_stop Undefined" "\<not> safe_stop Aborted" "\<not> safe_stop Diverged"
  by (simp_all add: safe_stop_def)

lemma fails_fast_simps [simp]: "fails_fast (Exit 1)" "fails_fast r \<Longrightarrow> safe_stop r"
  by (auto simp: fails_fast_def)

lemma only_blocks_simps [simp]: "only_blocks Blocked" "only_blocks r \<Longrightarrow> safe_stop r"
  by (auto simp: only_blocks_def)

definition wp :: "(stop \<Rightarrow> bool) \<Rightarrow> 'a nq \<Rightarrow> ('a \<Rightarrow> nqstate \<Rightarrow> bool) \<Rightarrow> nqstate \<Rightarrow> bool" where
  "wp E m Q s = (case m s of Ret a s' \<Rightarrow> Q a s' | Stop r s' \<Rightarrow> E r)"

lemma wp_ret [wp_simps]: "wp E (ret a) Q = Q a"
  by (simp add: wp_def ret_def fun_eq_iff)

lemma wp_bind [wp_simps]: "wp E (bind m f) Q = wp E m (\<lambda>a. wp E (f a) Q)"
  by (simp add: wp_def bind_def fun_eq_iff split: outcome.splits)

lemma wp_andthen [wp_simps]: "wp E (andthen m n) Q = wp E m (\<lambda>_. wp E n Q)"
  by (simp add: andthen_def wp_bind)

lemma wp_stop [wp_simps]: "wp E (stop r) Q s = E r"
  by (simp add: wp_def stop_def)

lemma wp_only_if [wp_simps]: "wp E (only_if b m) Q s = (if b then wp E m Q s else Q () s)"
  by (simp add: only_if_def wp_ret)

lemma wp_gets [wp_simps]: "wp E (gets f) Q s = Q (f s) s"
  by (simp add: wp_def gets_def)

lemma wp_modify [wp_simps]: "wp E (modify f) Q s = Q () (f s)"
  by (simp add: wp_def modify_def)

lemma wp_get_errno [wp_simps]: "wp E get_errno Q s = Q (errno s) s"
  by (simp add: get_errno_def wp_gets)

lemma wp_set_errno [wp_simps]: "wp E (set_errno e) Q s = Q () (s\<lparr>errno := e\<rparr>)"
  by (simp add: set_errno_def wp_modify)

lemma wp_emit [wp_simps]: "wp E (emit ev) Q s = Q () (s\<lparr>trace := trace s @ [ev]\<rparr>)"
  by (simp add: emit_def wp_modify)

lemma wp_sys [wp_simps]:
  "wp E (sys ev) Q s = (case script s of [] \<Rightarrow> E Blocked
     | r # rs \<Rightarrow> Q r (s\<lparr>script := rs, trace := trace s @ [ev], errno := r_errno r\<rparr>))"
  by (simp add: wp_def sys_def split: list.splits)

lemma wp_from_loop [wp_simps]:
  "wp E (from_loop x) Q s = (case x of Some v \<Rightarrow> Q v s | None \<Rightarrow> E Diverged)"
  by (simp add: from_loop_def wp_ret wp_stop split: option.splits)

lemma wp_nullable [wp_simps]:
  "wp E (nullable p body) Q =
     (case p of None \<Rightarrow> Q None | Some v \<Rightarrow> wp E (body v) (\<lambda>v'. Q (Some v')))"
  by (simp add: nullable_def wp_ret wp_bind split: option.splits)

lemma wp_mono: "wp E m Q s \<Longrightarrow> (\<And>a s'. Q a s' \<Longrightarrow> Q' a s') \<Longrightarrow> wp E m Q' s"
  by (auto simp: wp_def split: outcome.splits)

lemma wp_at_ptr:
  "wp E (at_ptr f v) Q =
     wp E (f (Some v)) (\<lambda>r s'. case r of Some v' \<Rightarrow> Q v' s' | None \<Rightarrow> E Undefined)"
  by (simp add: at_ptr_def wp_def bind_def ret_def stop_def fun_eq_iff
      split: outcome.splits option.splits)

lemma wp_weaken: "wp E m Q s \<Longrightarrow> (\<And>r. E r \<Longrightarrow> E' r) \<Longrightarrow> wp E' m Q s"
  by (simp add: wp_def split: outcome.splits)

lemma wp_conj: "wp E m Q s \<Longrightarrow> wp E' m Q' s \<Longrightarrow> wp E m (\<lambda>a s'. Q a s' \<and> Q' a s') s"
  by (simp add: wp_def split: outcome.splits)

lemma wp_returns: "wp no_stop m Q s \<Longrightarrow> \<exists>a s'. m s = Ret a s' \<and> Q a s'"
  by (simp add: wp_def no_stop_def split: outcome.splits)

lemma wp_result: "wp E m Q s \<Longrightarrow> m s = Ret a s' \<Longrightarrow> Q a s'"
  by (simp add: wp_def)

lemma wp_no_undefined:
  "wp safe_stop m Q s \<Longrightarrow>
     m s \<noteq> Stop Undefined s' \<and> m s \<noteq> Stop Aborted s' \<and> m s \<noteq> Stop Diverged s'"
  by (auto simp: wp_def)

lemma wp_sys_quiet [wp_simps]:
  "wp E (sys_quiet ev) Q s = (case script s of [] \<Rightarrow> E Blocked
     | r # rs \<Rightarrow> Q r (s\<lparr>script := rs, trace := trace s @ [ev]\<rparr>))"
  by (simp add: wp_def sys_quiet_def split: list.splits)

text \<open>
  Loops: an invariant that every round keeps, taking a reply, and that gives the postcondition
  on leaving.
\<close>

lemma wp_loop:
  assumes "I a s"
    and "\<And>a s. I a s \<Longrightarrow> wp E (body a) (\<lambda>r s'. case r of
      Inl a' \<Rightarrow> I a' s' \<and> length (script s') < length (script s) | Inr b \<Rightarrow> Q b s') s"
  shows "wp E (loop body a) Q s"
  using assms(1)
proof (induction "length (script s)" arbitrary: a s rule: less_induct)
  case less
  from assms(2) [OF less.prems] show ?case
    unfolding wp_def by (subst loop.simps) (auto split: outcome.splits sum.splits dest: less.hyps simp: wp_def)
qed

text \<open>A retried call satisfies what a single call guarantees whenever it does not say EINTR.\<close>

lemma wp_retry_eintr:
  assumes "I s"
    and "\<And>s. I s \<Longrightarrow> wp E call (\<lambda>r s'. if r < 0 \<and> errno s' = EINTR
      then I s' \<and> length (script s') < length (script s) else Q r s') s"
  shows "wp E (retry_eintr call) Q s"
  unfolding retry_eintr_def
proof (rule wp_loop [where I = "\<lambda>_. I", OF assms(1)])
  fix a :: unit and s assume "I s"
  from assms(2) [OF this]
  show "wp E (bind call (\<lambda>r. bind get_errno (\<lambda>e. ret (if r < 0 \<and> e = EINTR then Inl () else Inr r))))
      (\<lambda>r s'. case r of Inl a' \<Rightarrow> I s' \<and> length (script s') < length (script s) | Inr b \<Rightarrow> Q b s') s"
    unfolding wp_bind by (rule wp_mono) (auto simp: wp_simps split: if_splits)
qed

end
