(* ===== verification/Integers.thy ===== *)
theory Integers
  imports Machine "HOL-Library.Signed_Division"
begin

text \<open>
  Integer arithmetic of the language: the constant-expression macros and the inline functions
  of \<open>stdlib/runtime.h\<close> (\<open>NQ_I32_CONST_BITS\<close> to \<open>nq_i64_rem\<close>), the two fail-fast functions of
  \<open>stdlib/runtime.c\<close> and its conversions between \<open>i32\<close> and \<open>i64\<close>.

  An \<open>int32_t\<close> or \<open>int64_t\<close> is an \<open>int\<close>, a \<open>uint32_t\<close> a \<open>32 word\<close> and a \<open>uint64_t\<close> a
  \<open>64 word\<close>, so that the casts of the macros are \<open>word_of_int\<close> and \<open>uint\<close>. The division and
  the remainder of C (\<open>c_div\<close>, \<open>c_rem\<close>) truncate, and are undefined for a zero divisor and
  for a quotient out of range; the signed sum of the macros (\<open>c_sum\<close>) is undefined when it
  leaves the type.
\<close>

unbundle bit_operations_syntax

section \<open>The operators of C\<close>

definition c_div :: "int \<Rightarrow> int \<Rightarrow> int \<Rightarrow> int nq" where
  "c_div lowest a b = (if b = 0 \<or> a = lowest \<and> b = -1 then stop Undefined else ret (a sdiv b))"

definition c_rem :: "int \<Rightarrow> int \<Rightarrow> int \<Rightarrow> int nq" where
  "c_rem lowest a b = (if b = 0 \<or> a = lowest \<and> b = -1 then stop Undefined else ret (a smod b))"

definition c_sum :: "int \<Rightarrow> int \<Rightarrow> int \<Rightarrow> int nq" where
  "c_sum lowest a b =
     (if a + b < lowest \<or> a + b > - lowest - 1 then stop Undefined else ret (a + b))"

section \<open>The macros\<close>

definition NQ_I32_CONST_BITS :: "32 word \<Rightarrow> int nq" where
  "NQ_I32_CONST_BITS x =
     c_sum INT32_MIN (uint (x AND word_of_int INT32_MAX))
       (if x > word_of_int INT32_MAX then INT32_MIN else 0)"

definition NQ_I64_CONST_BITS :: "64 word \<Rightarrow> int nq" where
  "NQ_I64_CONST_BITS x =
     c_sum INT64_MIN (uint (x AND word_of_int INT64_MAX))
       (if x > word_of_int INT64_MAX then INT64_MIN else 0)"

definition NQ_I32_CONST_ADD :: "int \<Rightarrow> int \<Rightarrow> int nq" where
  "NQ_I32_CONST_ADD a b = NQ_I32_CONST_BITS (word_of_int a + word_of_int b)"

definition NQ_I32_CONST_SUB :: "int \<Rightarrow> int \<Rightarrow> int nq" where
  "NQ_I32_CONST_SUB a b = NQ_I32_CONST_BITS (word_of_int a - word_of_int b)"

definition NQ_I32_CONST_MUL :: "int \<Rightarrow> int \<Rightarrow> int nq" where
  "NQ_I32_CONST_MUL a b =
     NQ_I32_CONST_BITS (ucast ((ucast (word_of_int a :: 32 word) :: 64 word) * ucast (word_of_int b :: 32 word)))"

definition NQ_I32_CONST_NEG :: "int \<Rightarrow> int nq" where
  "NQ_I32_CONST_NEG a = NQ_I32_CONST_BITS (0 - word_of_int a)"

definition NQ_I64_CONST_ADD :: "int \<Rightarrow> int \<Rightarrow> int nq" where
  "NQ_I64_CONST_ADD a b = NQ_I64_CONST_BITS (word_of_int a + word_of_int b)"

definition NQ_I64_CONST_SUB :: "int \<Rightarrow> int \<Rightarrow> int nq" where
  "NQ_I64_CONST_SUB a b = NQ_I64_CONST_BITS (word_of_int a - word_of_int b)"

definition NQ_I64_CONST_MUL :: "int \<Rightarrow> int \<Rightarrow> int nq" where
  "NQ_I64_CONST_MUL a b = NQ_I64_CONST_BITS (word_of_int a * word_of_int b)"

definition NQ_I64_CONST_NEG :: "int \<Rightarrow> int nq" where
  "NQ_I64_CONST_NEG a = NQ_I64_CONST_BITS (0 - word_of_int a)"

definition NQ_I32_CONST_DIV :: "int \<Rightarrow> int \<Rightarrow> int nq" where
  "NQ_I32_CONST_DIV a b =
     c_div INT32_MIN a (if b = 0 \<or> a = INT32_MIN \<and> b = -1 then 1 else b)"

definition NQ_I64_CONST_DIV :: "int \<Rightarrow> int \<Rightarrow> int nq" where
  "NQ_I64_CONST_DIV a b =
     c_div INT64_MIN a (if b = 0 \<or> a = INT64_MIN \<and> b = -1 then 1 else b)"

definition NQ_I32_CONST_REM :: "int \<Rightarrow> int \<Rightarrow> int nq" where
  "NQ_I32_CONST_REM a b =
     c_rem INT32_MIN a (if b = 0 \<or> a = INT32_MIN \<and> b = -1 then 1 else b)"

definition NQ_I64_CONST_REM :: "int \<Rightarrow> int \<Rightarrow> int nq" where
  "NQ_I64_CONST_REM a b =
     c_rem INT64_MIN a (if b = 0 \<or> a = INT64_MIN \<and> b = -1 then 1 else b)"

section \<open>The functions\<close>

definition nq_integer_division_fail :: "bool \<Rightarrow> 'a nq" where
  "nq_integer_division_fail zero =
     andthen (emit (Fputs (if zero then ''nauqtype runtime: integer division by zero\<newline>''
                           else ''nauqtype runtime: integer division overflow\<newline>'')))
       (stop (Exit 1))"

definition nq_integer_remainder_fail :: "bool \<Rightarrow> 'a nq" where
  "nq_integer_remainder_fail zero =
     andthen (emit (Fputs (if zero then ''nauqtype runtime: integer remainder by zero\<newline>''
                           else ''nauqtype runtime: integer remainder overflow\<newline>'')))
       (stop (Exit 1))"

definition nq_i32_add :: "int \<Rightarrow> int \<Rightarrow> int nq" where "nq_i32_add a b = NQ_I32_CONST_ADD a b"
definition nq_i32_sub :: "int \<Rightarrow> int \<Rightarrow> int nq" where "nq_i32_sub a b = NQ_I32_CONST_SUB a b"
definition nq_i32_mul :: "int \<Rightarrow> int \<Rightarrow> int nq" where "nq_i32_mul a b = NQ_I32_CONST_MUL a b"
definition nq_i32_neg :: "int \<Rightarrow> int nq" where "nq_i32_neg a = NQ_I32_CONST_NEG a"
definition nq_i64_add :: "int \<Rightarrow> int \<Rightarrow> int nq" where "nq_i64_add a b = NQ_I64_CONST_ADD a b"
definition nq_i64_sub :: "int \<Rightarrow> int \<Rightarrow> int nq" where "nq_i64_sub a b = NQ_I64_CONST_SUB a b"
definition nq_i64_mul :: "int \<Rightarrow> int \<Rightarrow> int nq" where "nq_i64_mul a b = NQ_I64_CONST_MUL a b"
definition nq_i64_neg :: "int \<Rightarrow> int nq" where "nq_i64_neg a = NQ_I64_CONST_NEG a"

definition nq_i32_div :: "int \<Rightarrow> int \<Rightarrow> int nq" where
  "nq_i32_div a b =
     (if b = 0 \<or> a = INT32_MIN \<and> b = -1 then nq_integer_division_fail (b = 0)
      else c_div INT32_MIN a b)"

definition nq_i64_div :: "int \<Rightarrow> int \<Rightarrow> int nq" where
  "nq_i64_div a b =
     (if b = 0 \<or> a = INT64_MIN \<and> b = -1 then nq_integer_division_fail (b = 0)
      else c_div INT64_MIN a b)"

definition nq_i32_rem :: "int \<Rightarrow> int \<Rightarrow> int nq" where
  "nq_i32_rem a b =
     (if b = 0 \<or> a = INT32_MIN \<and> b = -1 then nq_integer_remainder_fail (b = 0)
      else c_rem INT32_MIN a b)"

definition nq_i64_rem :: "int \<Rightarrow> int \<Rightarrow> int nq" where
  "nq_i64_rem a b =
     (if b = 0 \<or> a = INT64_MIN \<and> b = -1 then nq_integer_remainder_fail (b = 0)
      else c_rem INT64_MIN a b)"

definition nq_i64_from_i32 :: "int \<Rightarrow> int" where
  "nq_i64_from_i32 v = v"

definition nq_i32_from_i64 :: "int \<Rightarrow> nq_option_i32" where
  "nq_i32_from_i64 v = (if v \<ge> INT32_MIN \<and> v \<le> INT32_MAX then Some (to_i32 v) else None)"

section \<open>What they compute\<close>

text \<open>The macro rebuilds the signed value of the bits, and its sum never overflows.\<close>

lemma mod_top: "0 \<le> u \<Longrightarrow> u < 2 * m \<Longrightarrow> u mod m = (if u < m then u else u - m)" for u m :: int
  using mod_add_self2 [of "u - m" m] mod_pos_pos_trivial [of u m] mod_pos_pos_trivial [of "u - m" m]
  by auto

lemma const_bits32: "NQ_I32_CONST_BITS x = ret (to_i32 (uint x))"
proof -
  have "uint (x AND word_of_int INT32_MAX) = uint x AND mask 31"
    by (simp add: unsigned_and_eq width_defs mask_eq_exp_minus_1)
  then have low: "uint (x AND word_of_int INT32_MAX) = uint x mod 2147483648"
    by (simp add: take_bit_eq_mask [symmetric] take_bit_eq_mod)
  have high: "x > word_of_int INT32_MAX \<longleftrightarrow> uint x > 2147483647"
    by (simp add: width_defs word_less_def)
  have range: "0 \<le> uint x" "uint x < 4294967296" using uint_lt2p [of x] by simp_all
  have "uint x mod 2147483648 = (if uint x < 2147483648 then uint x else uint x - 2147483648)"
    by (rule mod_top) (use range in auto)
  moreover obtain u where u: "uint x = u" by blast
  ultimately show ?thesis
    unfolding NQ_I32_CONST_BITS_def low high c_sum_def
    using range mod_top [of "uint x + 2147483648" 4294967296]
    unfolding u by (auto simp: width_defs to_i32_def)
qed

lemma const_bits64: "NQ_I64_CONST_BITS x = ret (to_i64 (uint x))"
proof -
  have "uint (x AND word_of_int INT64_MAX) = uint x AND mask 63"
    by (simp add: unsigned_and_eq width_defs mask_eq_exp_minus_1)
  then have low: "uint (x AND word_of_int INT64_MAX) = uint x mod 9223372036854775808"
    by (simp add: take_bit_eq_mask [symmetric] take_bit_eq_mod)
  have high: "x > word_of_int INT64_MAX \<longleftrightarrow> uint x > 9223372036854775807"
    by (simp add: width_defs word_less_def)
  have range: "0 \<le> uint x" "uint x < 18446744073709551616" using uint_lt2p [of x] by simp_all
  have "uint x mod 9223372036854775808
      = (if uint x < 9223372036854775808 then uint x else uint x - 9223372036854775808)"
    by (rule mod_top) (use range in auto)
  moreover obtain u where u: "uint x = u" by blast
  ultimately show ?thesis
    unfolding NQ_I64_CONST_BITS_def low high c_sum_def
    using range mod_top [of "uint x + 9223372036854775808" 18446744073709551616]
    unfolding u by (auto simp: width_defs to_i64_def)
qed

lemma to_i32_mod: "to_i32 (x mod 4294967296) = to_i32 x"
  by (simp add: to_i32_def mod_simps)

lemma to_i64_mod: "to_i64 (x mod 18446744073709551616) = to_i64 x"
  by (simp add: to_i64_def mod_simps)

lemma to_i32_range: "INT32_MIN \<le> to_i32 x" "to_i32 x \<le> INT32_MAX"
  by (simp_all add: to_i32_def width_defs)

lemma to_i64_range: "INT64_MIN \<le> to_i64 x" "to_i64 x \<le> INT64_MAX"
  by (simp_all add: to_i64_def width_defs)

lemma to_i64_id: "INT64_MIN \<le> x \<Longrightarrow> x \<le> INT64_MAX \<Longrightarrow> to_i64 x = x"
  by (simp add: to_i64_def width_defs)

text \<open>Addition, subtraction, multiplication and negation are exact modulo the width.\<close>

lemma to_i32_word: "to_i32 (uint (word_of_int x :: 32 word)) = to_i32 x"
  by (simp add: uint_word_of_int to_i32_mod)

lemma to_i64_word: "to_i64 (uint (word_of_int x :: 64 word)) = to_i64 x"
  by (simp add: uint_word_of_int to_i64_mod)

lemma word_mul_32:
  "(ucast ((ucast (word_of_int a :: 32 word) :: 64 word) * ucast (word_of_int b :: 32 word)) :: 32 word)
     = word_of_int (a * b)"
proof -
  have low: "uint (ucast z :: 32 word) = uint z mod 4294967296" for z :: "64 word"
    by (simp add: unsigned_ucast_eq take_bit_eq_mod)
  have "uint (x * y) mod 4294967296 = (uint x * uint y) mod 4294967296" for x y :: "64 word"
    by (simp add: uint_word_ariths mod_mod_cancel)
  moreover have "uint (v * w) = (uint v * uint w) mod 4294967296" for v w :: "32 word"
    by (simp add: uint_word_ariths)
  ultimately have "(ucast (x * y :: 64 word) :: 32 word) = ucast x * ucast y" for x y
    by (simp only: word_uint_eq_iff low mod_mult_eq)
  moreover have "(ucast (ucast x :: 64 word) :: 32 word) = x" for x :: "32 word"
    by (simp add: ucast_down_ucast_id is_down)
  ultimately show ?thesis by simp
qed

lemma i32_arith:
  "nq_i32_add a b = ret (to_i32 (a + b))" "nq_i32_sub a b = ret (to_i32 (a - b))"
  "nq_i32_mul a b = ret (to_i32 (a * b))" "nq_i32_neg a = ret (to_i32 (- a))"
  using to_i32_word [of "a + b"] to_i32_word [of "a - b"] to_i32_word [of "a * b"] to_i32_word [of "- a"]
  by (simp_all add: nq_i32_add_def nq_i32_sub_def nq_i32_mul_def nq_i32_neg_def NQ_I32_CONST_ADD_def
      NQ_I32_CONST_SUB_def NQ_I32_CONST_MUL_def NQ_I32_CONST_NEG_def const_bits32 word_mul_32)

lemma i64_arith:
  "nq_i64_add a b = ret (to_i64 (a + b))" "nq_i64_sub a b = ret (to_i64 (a - b))"
  "nq_i64_mul a b = ret (to_i64 (a * b))" "nq_i64_neg a = ret (to_i64 (- a))"
  using to_i64_word [of "a + b"] to_i64_word [of "a - b"] to_i64_word [of "a * b"] to_i64_word [of "- a"]
  by (simp_all add: nq_i64_add_def nq_i64_sub_def nq_i64_mul_def nq_i64_neg_def NQ_I64_CONST_ADD_def
      NQ_I64_CONST_SUB_def NQ_I64_CONST_MUL_def NQ_I64_CONST_NEG_def const_bits64)

section \<open>Properties\<close>

definition wraps_to :: "int \<Rightarrow> int \<Rightarrow> int nq \<Rightarrow> int \<Rightarrow> bool" where
  "wraps_to lowest width m x \<longleftrightarrow>
     (\<exists>r. m = ret r \<and> lowest \<le> r \<and> r \<le> - lowest - 1 \<and> r mod width = x mod width)"

lemma wraps_to_i32: "m = ret (to_i32 x) \<Longrightarrow> wraps_to INT32_MIN (2 ^ 32) m x"
  using to_i32_range [of x] by (auto simp: wraps_to_def width_defs to_i32_def mod_simps)

lemma wraps_to_i64: "m = ret (to_i64 x) \<Longrightarrow> wraps_to INT64_MIN (2 ^ 64) m x"
  using to_i64_range [of x] by (auto simp: wraps_to_def width_defs to_i64_def mod_simps)

text \<open>
  C38: \<open>i32\<close> and \<open>i64\<close> addition, subtraction, multiplication and negation return on all
  operands, without undefined behaviour: the result is the representative, in the range of the
  type, of the exact result modulo the width.
\<close>

theorem integer_arithmetic_wraps:
  "wraps_to INT32_MIN (2 ^ 32) (nq_i32_add a b) (a + b) \<and>
   wraps_to INT32_MIN (2 ^ 32) (nq_i32_sub a b) (a - b) \<and>
   wraps_to INT32_MIN (2 ^ 32) (nq_i32_mul a b) (a * b) \<and>
   wraps_to INT32_MIN (2 ^ 32) (nq_i32_neg a) (- a) \<and>
   wraps_to INT64_MIN (2 ^ 64) (nq_i64_add a b) (a + b) \<and>
   wraps_to INT64_MIN (2 ^ 64) (nq_i64_sub a b) (a - b) \<and>
   wraps_to INT64_MIN (2 ^ 64) (nq_i64_mul a b) (a * b) \<and>
   wraps_to INT64_MIN (2 ^ 64) (nq_i64_neg a) (- a)"
  by (intro conjI wraps_to_i32 wraps_to_i64 i32_arith i64_arith)

text \<open>
  Division as the language has it: the quotient is truncated, the remainder has the sign of the
  dividend, and the two operands for which C is undefined end the process with status 1.
\<close>

definition truncated_division ::
  "int \<Rightarrow> (int \<Rightarrow> int \<Rightarrow> int nq) \<Rightarrow> (int \<Rightarrow> int \<Rightarrow> int nq) \<Rightarrow> int \<Rightarrow> int \<Rightarrow> bool" where
  "truncated_division lowest quo rmd a b \<longleftrightarrow>
     (if b = 0 \<or> a = lowest \<and> b = -1
      then (\<forall>s. (\<exists>s'. quo a b s = Stop (Exit 1) s') \<and> (\<exists>s'. rmd a b s = Stop (Exit 1) s'))
      else \<exists>q r. quo a b = ret q \<and> rmd a b = ret r \<and> a = q * b + r \<and> \<bar>r\<bar> < \<bar>b\<bar> \<and>
        (r = 0 \<or> sgn r = sgn a) \<and> lowest \<le> q \<and> q \<le> - lowest - 1)"

lemma sdiv_range:
  fixes a b :: int
  assumes "b \<noteq> 0" and "\<not> (a = lowest \<and> b = -1)" and "lowest \<le> a" and "a \<le> - lowest - 1"
  shows "lowest \<le> a sdiv b" and "a sdiv b \<le> - lowest - 1"
proof -
  have bound: "- \<bar>a\<bar> \<le> a sdiv b" "a sdiv b \<le> \<bar>a\<bar>" using sdiv_int_range [of a b] by auto
  show "lowest \<le> a sdiv b" using bound assms by auto
  show "a sdiv b \<le> - lowest - 1"
  proof (cases "a = lowest")
    case False
    then show ?thesis using bound assms by auto
  next
    case True
    then have "b \<noteq> -1" using assms by simp
    then consider "b = 1" | "2 \<le> \<bar>b\<bar>" using assms(1) by linarith
    then show ?thesis
    proof cases
      case 1
      then show ?thesis using assms by simp
    next
      case 2
      show ?thesis
      proof (cases "a = 0")
        case True
        then show ?thesis using assms by simp
      next
        case False
        have "\<bar>a\<bar> div \<bar>b\<bar> < \<bar>a\<bar>"
          using 2 False by (intro int_div_less_self) auto
        moreover have "a sdiv b \<le> \<bar>a\<bar> div \<bar>b\<bar>"
          using pos_imp_zdiv_nonneg_iff [of "\<bar>b\<bar>" "\<bar>a\<bar>"] assms(1)
          by (auto simp: signed_divide_int_def sgn_if split: if_splits)
        ultimately show ?thesis using \<open>a = lowest\<close> assms by auto
      qed
    qed
  qed
qed

lemma smod_sign:
  fixes a b :: int
  assumes "b \<noteq> 0"
  shows "\<bar>a smod b\<bar> < \<bar>b\<bar>" and "a smod b = 0 \<or> sgn (a smod b) = sgn a"
proof -
  have range: "0 \<le> \<bar>a\<bar> mod \<bar>b\<bar>" "\<bar>a\<bar> mod \<bar>b\<bar> < \<bar>b\<bar>" using assms by simp_all
  then show "\<bar>a smod b\<bar> < \<bar>b\<bar>"
    by (cases "a = 0") (simp_all add: signed_modulo_int_def abs_mult assms)
  from range(1) show "a smod b = 0 \<or> sgn (a smod b) = sgn a"
    unfolding signed_modulo_int_def sgn_mult by (cases "\<bar>a\<bar> mod \<bar>b\<bar> = 0") (simp_all add: sgn_pos)
qed

lemma truncated_divisionI:
  assumes "\<And>a b. quo a b = (if b = 0 \<or> a = lowest \<and> b = -1 then nq_integer_division_fail (b = 0)
      else c_div lowest a b)"
    and "\<And>a b. rmd a b = (if b = 0 \<or> a = lowest \<and> b = -1 then nq_integer_remainder_fail (b = 0)
      else c_rem lowest a b)"
    and "lowest \<le> a" and "a \<le> - lowest - 1"
  shows "truncated_division lowest quo rmd a b"
proof (cases "b = 0 \<or> a = lowest \<and> b = -1")
  case True
  then show ?thesis
    by (auto simp: truncated_division_def assms(1,2) nq_integer_division_fail_def
        nq_integer_remainder_fail_def andthen_def bind_def emit_def modify_def stop_def)
next
  case False
  then have "b \<noteq> 0" "\<not> (a = lowest \<and> b = -1)" by auto
  with sdiv_range [OF this assms(3,4)] smod_sign [of b a] show ?thesis
    unfolding truncated_division_def assms(1,2) c_div_def c_rem_def if_not_P [OF False]
    by (intro exI [of _ "a sdiv b"] exI [of _ "a smod b"] conjI) (simp_all add: sdiv_mult_smod_eq)
qed

text \<open>
  C37: Division and remainder of \<open>i32\<close> and \<open>i64\<close> never reach the undefined operands of C: on
  zero divisors and on the lowest value over minus one the process fails fast, and everywhere
  else quotient and remainder satisfy the division equation, truncated, within the type.
\<close>

theorem integer_division_truncates:
  assumes "INT32_MIN \<le> a" "a \<le> INT32_MAX" "INT64_MIN \<le> x" "x \<le> INT64_MAX"
  shows "truncated_division INT32_MIN nq_i32_div nq_i32_rem a b \<and>
         truncated_division INT64_MIN nq_i64_div nq_i64_rem x y"
  using assms
  by (intro conjI truncated_divisionI)
    (simp_all add: nq_i32_div_def nq_i64_div_def nq_i32_rem_def nq_i64_rem_def width_defs)

theorem integer_division_truncates_witness:
  "truncated_division INT32_MIN nq_i32_div nq_i32_rem (-2147483648) (-1) \<and>
   truncated_division INT64_MIN nq_i64_div nq_i64_rem (-7) 2"
  by (rule integer_division_truncates) (simp_all add: width_defs)

text \<open>
  C39: The constant-expression macros are defined for every operand, also where the expression is
  never evaluated, and agree with the functions wherever those return.
\<close>

theorem constant_division_agrees:
  "(\<exists>q. NQ_I32_CONST_DIV a b = ret q \<and> (nq_i32_div a b s = Ret r s' \<longrightarrow> q = r)) \<and>
   (\<exists>q. NQ_I32_CONST_REM a b = ret q \<and> (nq_i32_rem a b s = Ret r s' \<longrightarrow> q = r)) \<and>
   (\<exists>q. NQ_I64_CONST_DIV a b = ret q \<and> (nq_i64_div a b s = Ret r s' \<longrightarrow> q = r)) \<and>
   (\<exists>q. NQ_I64_CONST_REM a b = ret q \<and> (nq_i64_rem a b s = Ret r s' \<longrightarrow> q = r))"
  by (auto simp: NQ_I32_CONST_DIV_def NQ_I32_CONST_REM_def NQ_I64_CONST_DIV_def NQ_I64_CONST_REM_def
      c_div_def c_rem_def nq_i32_div_def nq_i32_rem_def nq_i64_div_def nq_i64_rem_def ret_def
      nq_integer_division_fail_def nq_integer_remainder_fail_def andthen_def bind_def emit_def
      modify_def stop_def width_defs split: if_splits)

theorem constant_division_agrees_witness:
  "\<exists>q. NQ_I32_CONST_DIV 7 (-2) = ret q \<and> q = -3"
  using constant_division_agrees [of 7 "-2" s "-3" s]
  by (auto simp: nq_i32_div_def c_div_def ret_def signed_divide_int_def)

text \<open>
  \<open>i32_from_i64\<close> is the partial inverse of \<open>i64_from_i32\<close>: it returns the number exactly
  when it is in the range of \<open>i32\<close>, and then unchanged.
\<close>

lemma i32_from_i64_exact:
  "nq_i32_from_i64 v = (if INT32_MIN \<le> v \<and> v \<le> INT32_MAX then Some v else None) \<and>
   (\<forall>w. nq_i32_from_i64 v = Some w \<longleftrightarrow> nq_i64_from_i32 w = v \<and> INT32_MIN \<le> w \<and> w \<le> INT32_MAX)"
  by (auto simp: nq_i32_from_i64_def nq_i64_from_i32_def to_i32_id)
end
