(* ===== verification/Alloc.thy ===== *)
theory Alloc
  imports Machine
begin

text \<open>
  Size limits, checked size arithmetic, growth of buffers and the allocator entry point of
  \<open>stdlib/runtime.c\<close> (\<open>nq_size_fail\<close> to \<open>nq_cstr_length\<close>, and \<open>nq_realloc\<close>).

  The preprocessor symbols that bound a test build (\<open>NQ_TEST_MAX_ALLOCATION_BYTES\<close>,
  \<open>NQ_TEST_MAX_SEQUENCE_LENGTH\<close>, \<open>NQ_TEST_ALLOC_FAIL_AFTER\<close>) are the optional fields of
  \<open>config\<close>: \<open>None\<close> is an undefined symbol. \<open>strerror_text\<close> is the C library's \<open>strerror\<close>.
  \<open>good_config\<close> is what the \<open>#error\<close> at the head of the file demands.

  \<open>NQAllocStatus\<close>: \<open>NQ_ALLOC_OK\<close> is \<open>Inr\<close> of what the function hands out, the other two
  values are \<open>Inl\<close> of an \<open>alloc_failure\<close>.
\<close>

record config =
  max_allocation_bytes :: "nat option"
  max_sequence_length :: "nat option"
  alloc_fail_after :: "nat option"
  strerror_text :: "int \<Rightarrow> string option"

definition good_config :: "config \<Rightarrow> bool" where
  "good_config c \<longleftrightarrow> (case max_sequence_length c of None \<Rightarrow> True | Some m \<Rightarrow> 128 \<le> m)"

datatype alloc_failure = ALLOC_SIZE | ALLOC_OOM

section \<open>Failing fast\<close>

definition nq_size_fail :: "'a nq" where
  "nq_size_fail =
     andthen (emit (Fputs ''nauqtype runtime: size limit exceeded\<newline>'')) (stop (Exit 1))"

definition nq_alloc_fail :: "alloc_failure \<Rightarrow> 'a nq" where
  "nq_alloc_fail status =
     (if status = ALLOC_SIZE then nq_size_fail
      else andthen (emit (Fputs ''nauqtype runtime: out of memory\<newline>'')) (stop (Exit 1)))"

section \<open>Limits\<close>

definition nq_allocation_limit :: "config \<Rightarrow> nat" where
  "nq_allocation_limit c =
     (case max_allocation_bytes c of
        None \<Rightarrow> SIZE_MAX | Some m \<Rightarrow> if m < SIZE_MAX then m else SIZE_MAX)"

definition nq_sequence_limit :: "config \<Rightarrow> nat \<Rightarrow> nat" where
  "nq_sequence_limit c maximum =
     (let maximum = (if maximum > SIZE_MAX then SIZE_MAX else maximum) in
      case max_sequence_length c of
        None \<Rightarrow> maximum | Some m \<Rightarrow> if m < maximum then m else maximum)"

definition nq_str_limit :: "config \<Rightarrow> nat" where
  "nq_str_limit c = nq_sequence_limit c (nat INT32_MAX)"

definition nq_bytes_limit :: "config \<Rightarrow> nat" where
  "nq_bytes_limit c =
     (let limit = nq_sequence_limit c (nat INT64_MAX) in
      if limit < nq_allocation_limit c then limit else nq_allocation_limit c)"

section \<open>Checked size arithmetic\<close>

definition nq_size_add :: "nat \<Rightarrow> nat \<Rightarrow> nat \<Rightarrow> nat option" where
  "nq_size_add a b limit =
     (if a > limit \<or> b > size_minus limit a then None else Some (size_plus a b))"

definition nq_size_mul :: "config \<Rightarrow> nat \<Rightarrow> nat \<Rightarrow> nat option" where
  "nq_size_mul c n sz =
     (if sz \<noteq> 0 \<and> n > nq_allocation_limit c div sz then None
      else Some (size_times n sz))"

text \<open>The doubling loop of \<open>nq_growth\<close>; \<open>None\<close> would be a loop that never ends.\<close>

partial_function (option) nq_growth_loop :: "nat \<Rightarrow> nat \<Rightarrow> nat \<Rightarrow> nat option" where
  "nq_growth_loop nxt needed limit =
     (if nxt < needed
      then nq_growth_loop (if nxt > size_minus limit nxt then limit else size_times nxt 2)
             needed limit
      else Some nxt)"

definition nq_growth :: "nat \<Rightarrow> nat \<Rightarrow> nat \<Rightarrow> nat \<Rightarrow> nat option" where
  "nq_growth cap needed limit initial =
     (if needed \<le> cap then Some cap
      else nq_growth_loop
             (if cap = 0 then (if initial < limit then initial else limit) else cap)
             needed limit)"

definition nq_list_capacity :: "config \<Rightarrow> int \<Rightarrow> int \<Rightarrow> nat \<Rightarrow> nat \<Rightarrow> (alloc_failure + int) nq" where
  "nq_list_capacity c cap len extra item_size =
     (let limit = nq_sequence_limit c (nat INT32_MAX) in
      if item_size = 0 then ret (Inl ALLOC_SIZE)
      else
        let limit = (if limit > nq_allocation_limit c div item_size
                     then nq_allocation_limit c div item_size else limit) in
        if len < 0 \<or> cap < len \<or> nat cap > limit then ret (Inl ALLOC_SIZE)
        else case nq_size_add (nat len) extra limit of
          None \<Rightarrow> ret (Inl ALLOC_SIZE)
        | Some needed \<Rightarrow>
            bind (from_loop (nq_growth (nat cap) needed limit 4)) (\<lambda>grown.
              ret (Inr (to_i32 (int grown)))))"

definition nq_allocation_size :: "config \<Rightarrow> nat \<Rightarrow> nat \<Rightarrow> nat nq" where
  "nq_allocation_size c n item_size =
     (case nq_size_mul c n item_size of None \<Rightarrow> nq_size_fail | Some sz \<Rightarrow> ret sz)"

definition nq_list_grow_capacity :: "config \<Rightarrow> int \<Rightarrow> int \<Rightarrow> nat \<Rightarrow> nat \<Rightarrow> int nq" where
  "nq_list_grow_capacity c cap len extra item_size =
     bind (nq_list_capacity c cap len extra item_size)
       (\<lambda>r. case r of Inl _ \<Rightarrow> nq_size_fail | Inr nxt \<Rightarrow> ret nxt)"

section \<open>The allocator entry point\<close>

definition nq_try_realloc :: "config \<Rightarrow> kind \<Rightarrow> ptr \<Rightarrow> nat \<Rightarrow> (alloc_failure + ptr) nq" where
  "nq_try_realloc c kind p sz =
     (if sz > nq_allocation_limit c then ret (Inl ALLOC_SIZE)
      else if sz = 0 then andthen (c_free p) (ret (Inr PNull))
      else bind (gets alloc_count) (\<lambda>made.
        if alloc_fail_after c = Some made then ret (Inl ALLOC_OOM)
        else bind (if p = PNull then c_malloc kind sz else c_realloc p sz) (\<lambda>nxt.
          if nxt = PNull then ret (Inl ALLOC_OOM)
          else andthen
            (only_if (alloc_fail_after c \<noteq> None)
              (modify (\<lambda>s. s\<lparr>alloc_count := (alloc_count s + 1) mod (SIZE_MAX + 1)\<rparr>)))
            (ret (Inr nxt)))))"

text \<open>When a request for new memory is refused, and with which status.\<close>

definition request_refused :: "config \<Rightarrow> nqstate \<Rightarrow> nat \<Rightarrow> alloc_failure \<Rightarrow> bool" where
  "request_refused c s n status \<longleftrightarrow>
     (if nq_allocation_limit c < n then status = ALLOC_SIZE
      else status = ALLOC_OOM \<and>
        (alloc_fail_after c = Some (alloc_count s) \<or> mallocs s \<noteq> [] \<and> \<not> hd (mallocs s)))"

definition nq_realloc :: "config \<Rightarrow> kind \<Rightarrow> ptr \<Rightarrow> nat \<Rightarrow> ptr nq" where
  "nq_realloc c kind p sz =
     bind (nq_try_realloc c kind p sz)
       (\<lambda>r. case r of Inl status \<Rightarrow> nq_alloc_fail status | Inr nxt \<Rightarrow> ret nxt)"

section \<open>Lengths of C strings\<close>

definition nq_str_size :: "config \<Rightarrow> int \<Rightarrow> bool" where
  "nq_str_size c len \<longleftrightarrow> len \<ge> 0 \<and> nat len \<le> nq_str_limit c"

text \<open>The scan \<open>while (text[n] != 0)\<close> over the bytes that follow, up to the limit.\<close>

fun cstr_scan :: "nat \<Rightarrow> nat \<Rightarrow> string \<Rightarrow> nat option" where
  "cstr_scan limit n [] = Some n"
| "cstr_scan limit n (ch # rest) =
     (if ch = CHR 0x00 then Some n
      else if n = limit then None
      else cstr_scan limit (n + 1) rest)"

definition nq_cstr_length :: "config \<Rightarrow> string \<Rightarrow> nat option" where
  "nq_cstr_length c bs = cstr_scan (nq_str_limit c) 0 bs"

section \<open>The limits as numbers\<close>

lemma allocation_limit_le [limit_simps]: "nq_allocation_limit c \<le> SIZE_MAX"
  by (simp add: nq_allocation_limit_def split: option.splits)

lemma sequence_limit_le [limit_simps]: "nq_sequence_limit c m \<le> m"
  by (simp add: nq_sequence_limit_def Let_def split: option.splits)

lemma str_limit_le [limit_simps]: "nq_str_limit c \<le> 2147483647"
  using sequence_limit_le [of c "nat INT32_MAX"] by (simp add: nq_str_limit_def INT32_MAX_def)

lemma str_limit_ge [limit_simps]: "good_config c \<Longrightarrow> 128 \<le> nq_str_limit c"
  by (auto simp: nq_str_limit_def nq_sequence_limit_def Let_def good_config_def width_defs
      split: option.splits)

lemma bytes_limit_le [limit_simps]:
  "nq_bytes_limit c \<le> nq_allocation_limit c" "nq_bytes_limit c \<le> 9223372036854775807"
  using sequence_limit_le [of c "nat INT64_MAX"]
  by (auto simp: nq_bytes_limit_def Let_def INT64_MAX_def)

lemma str_limit_size [limit_simps]: "nq_str_limit c \<le> SIZE_MAX"
  using str_limit_le [of c] by (simp add: SIZE_MAX_def)

section \<open>Checked arithmetic is exact\<close>

lemma nq_size_add_eq:
  assumes "limit \<le> SIZE_MAX"
  shows "nq_size_add a b limit = (if a + b \<le> limit then Some (a + b) else None)"
proof (cases "a \<le> limit")
  case True
  then show ?thesis using assms by (auto simp: nq_size_add_def size_minus_id size_plus_id)
qed (auto simp: nq_size_add_def)

lemma nq_size_mul_eq:
  "nq_size_mul c a b = (if a * b \<le> nq_allocation_limit c then Some (a * b) else None)"
proof (cases "b = 0")
  case True
  then show ?thesis by (simp add: nq_size_mul_def size_times_def)
next
  case False
  then have "a \<le> nq_allocation_limit c div b \<longleftrightarrow> a * b \<le> nq_allocation_limit c"
    by (simp add: less_eq_div_iff_mult_less_eq)
  with False show ?thesis
    using allocation_limit_le [of c] by (auto simp: nq_size_mul_def not_less size_times_id)
qed

section \<open>Growth\<close>

lemma growth_step_grows:
  assumes "0 < nxt" and "nxt < limit" and "limit \<le> SIZE_MAX"
  shows "(if nxt > size_minus limit nxt then limit else size_times nxt 2)
           = (if nxt > limit - nxt then limit else 2 * nxt)"
  using assms by (auto simp: size_minus_id size_times_id)

text \<open>From a positive start not above the limit the loop ends as soon as the need fits.\<close>

lemma nq_growth_loop_total:
  assumes "0 < nxt" and "nxt \<le> limit" and "needed \<le> limit" and "limit \<le> SIZE_MAX"
  shows "\<exists>r. nq_growth_loop nxt needed limit = Some r \<and> needed \<le> r \<and> nxt \<le> r \<and> r \<le> limit"
  using assms
proof (induction "limit - nxt" arbitrary: nxt rule: less_induct)
  case less
  show ?case
  proof (cases "nxt < needed")
    case False
    then show ?thesis using less.prems by (simp add: nq_growth_loop.simps)
  next
    case True
    then have "nxt < limit" using less.prems by simp
    define nxt' where "nxt' = (if nxt > limit - nxt then limit else 2 * nxt)"
    have bounds: "nxt < nxt'" "nxt' \<le> limit"
      using less.prems \<open>nxt < limit\<close> by (auto simp: nxt'_def)
    have "nq_growth_loop nxt needed limit = nq_growth_loop nxt' needed limit"
      using True growth_step_grows [OF less.prems(1) \<open>nxt < limit\<close> less.prems(4)]
      by (simp add: nq_growth_loop.simps [of nxt] nxt'_def)
    moreover have "\<exists>r. nq_growth_loop nxt' needed limit = Some r
        \<and> needed \<le> r \<and> nxt' \<le> r \<and> r \<le> limit"
      using less.hyps [of nxt'] less.prems bounds by simp
    ultimately show ?thesis using bounds by auto
  qed
qed

lemma nq_growth_total:
  assumes "cap \<le> limit" and "needed \<le> limit" and "limit \<le> SIZE_MAX" and "0 < initial"
  shows "\<exists>r. nq_growth cap needed limit initial = Some r \<and> needed \<le> r \<and> cap \<le> r \<and> r \<le> limit"
proof (cases "needed \<le> cap")
  case True
  then show ?thesis using assms by (simp add: nq_growth_def)
next
  case False
  let ?start = "if cap = 0 then (if initial < limit then initial else limit) else cap"
  have "0 < ?start" "?start \<le> limit" "cap \<le> ?start" using False assms by auto
  with nq_growth_loop_total [of ?start limit needed] assms False show ?thesis
    by (fastforce simp: nq_growth_def)
qed

text \<open>One step of growth at least doubles the capacity, or reaches the limit.\<close>

lemma nq_growth_loop_doubles:
  assumes "nq_growth_loop nxt needed limit = Some r"
    and "0 < nxt" and "nxt < needed" and "needed \<le> limit" and "limit \<le> SIZE_MAX"
  shows "r = limit \<or> 2 * nxt \<le> r"
proof -
  define nxt' where "nxt' = (if nxt > limit - nxt then limit else 2 * nxt)"
  have "nxt < limit" using assms by simp
  then have loop: "nq_growth_loop nxt' needed limit = Some r"
    using assms growth_step_grows [OF assms(2) _ assms(5)]
    by (simp add: nq_growth_loop.simps [of nxt] nxt'_def)
  have "0 < nxt'" "nxt' \<le> limit" using assms \<open>nxt < limit\<close> by (auto simp: nxt'_def)
  with nq_growth_loop_total [of nxt' limit needed] assms loop
  have "nxt' \<le> r" "r \<le> limit" by auto
  then show ?thesis by (auto simp: nxt'_def split: if_splits)
qed

text \<open>Past the limit the loop spins at the limit for ever.\<close>

lemma nq_growth_loop_at_limit:
  assumes "limit < needed"
  shows "nq_growth_loop limit needed limit = None"
proof (rule ccontr)
  assume "nq_growth_loop limit needed limit \<noteq> None"
  then obtain r where ret: "nq_growth_loop limit needed limit = Some r" by auto
  have "nxt = limit \<longrightarrow> l = limit \<longrightarrow> n = needed \<longrightarrow> False"
    if "nq_growth_loop nxt n l = Some r" for nxt n l r
  proof (rule nq_growth_loop.raw_induct
      [where P = "\<lambda>nxt n l r. nxt = limit \<longrightarrow> l = limit \<longrightarrow> n = needed \<longrightarrow> False", OF _ that])
    fix f :: "nat \<Rightarrow> nat \<Rightarrow> nat \<Rightarrow> nat option" and nxt n l r
    assume IH: "\<And>nxt n l r. f nxt n l = Some r
        \<Longrightarrow> nxt = limit \<longrightarrow> l = limit \<longrightarrow> n = needed \<longrightarrow> False"
      and eq: "(if nxt < n then f (if nxt > size_minus l nxt then l else size_times nxt 2) n l
         else Some nxt) = Some r"
    show "nxt = limit \<longrightarrow> l = limit \<longrightarrow> n = needed \<longrightarrow> False"
    proof (intro impI)
      assume same: "nxt = limit" "l = limit" "n = needed"
      have step: "(if limit > size_minus limit limit then limit else size_times limit 2) = limit"
        by (simp add: size_minus_def size_times_def)
      have "f limit needed limit = Some r" using eq assms by (simp only: same step if_True)
      with IH show False by blast
    qed
  qed
  with ret show False by blast
qed

lemma nq_growth_loop_past_limit:
  assumes "0 < nxt" and "nxt \<le> limit" and "limit < needed" and "limit \<le> SIZE_MAX"
  shows "nq_growth_loop nxt needed limit = None"
  using assms
proof (induction "limit - nxt" arbitrary: nxt rule: less_induct)
  case less
  show ?case
  proof (cases "nxt = limit")
    case True
    then show ?thesis using nq_growth_loop_at_limit less.prems by simp
  next
    case False
    then have lt: "nxt < limit" using less.prems by simp
    let ?n = "if nxt > limit - nxt then limit else 2 * nxt"
    have "nq_growth_loop nxt needed limit = nq_growth_loop ?n needed limit"
      using lt less.prems growth_step_grows [OF less.prems(1) lt less.prems(4)]
      by (simp add: nq_growth_loop.simps [of nxt])
    moreover have "nq_growth_loop ?n needed limit = None"
      using less.hyps [of ?n] less.prems lt by auto
    ultimately show ?thesis by simp
  qed
qed

section \<open>Capacities\<close>

definition list_limit :: "config \<Rightarrow> nat \<Rightarrow> nat" where
  "list_limit c item_size = min (nq_sequence_limit c (nat INT32_MAX)) (nq_allocation_limit c div item_size)"

lemma list_limit_le [limit_simps]: "list_limit c item_size \<le> 2147483647"
  using sequence_limit_le [of c "nat INT32_MAX"] by (simp add: list_limit_def INT32_MAX_def)

lemma list_limit_bytes: "0 < item_size \<Longrightarrow> n \<le> list_limit c item_size \<Longrightarrow>
    n * item_size \<le> nq_allocation_limit c"
  by (simp add: list_limit_def less_eq_div_iff_mult_less_eq)

text \<open>
  A request that fits gives a capacity that holds it; a list that breaks its own bounds
  (a negative length, a capacity below the length) is rejected.
\<close>

lemma wp_nq_list_capacity:
  assumes "0 < item_size"
    and ok: "\<And>cap'. 0 \<le> len \<Longrightarrow> len \<le> cap \<Longrightarrow> len + int extra \<le> cap' \<Longrightarrow> cap \<le> cap' \<Longrightarrow>
               nat cap' \<le> list_limit c item_size \<Longrightarrow> nat len + extra \<le> list_limit c item_size \<Longrightarrow>
               (nat len + extra \<le> nat cap \<Longrightarrow> cap' = cap) \<Longrightarrow> Q (Inr cap') s"
    and err: "Q (Inl ALLOC_SIZE) s"
  shows "wp E (nq_list_capacity c cap len extra item_size) Q s"
proof -
  let ?l = "list_limit c item_size"
  have limit: "(if nq_sequence_limit c (nat INT32_MAX) > nq_allocation_limit c div item_size
      then nq_allocation_limit c div item_size else nq_sequence_limit c (nat INT32_MAX)) = ?l"
    by (simp add: list_limit_def)
  have lsize: "?l \<le> SIZE_MAX" using list_limit_le [of c item_size] by (simp add: SIZE_MAX_def)
  show ?thesis
  proof (cases "len < 0 \<or> cap < len \<or> nat cap > ?l \<or> nat len + extra > ?l")
    case True
    then show ?thesis
      using assms by (auto simp: nq_list_capacity_def Let_def limit wp_simps nq_size_add_eq [OF lsize])
  next
    case False
    then obtain grown where grown: "nq_growth (nat cap) (nat len + extra) ?l 4 = Some grown"
      "nat len + extra \<le> grown" "nat cap \<le> grown" "grown \<le> ?l"
      using nq_growth_total [of "nat cap" ?l "nat len + extra" 4] lsize by auto
    have same: "nat len + extra \<le> nat cap \<Longrightarrow> grown = nat cap"
      using grown(1) by (simp add: nq_growth_def)
    have "to_i32 (int grown) = int grown"
      using grown(4) list_limit_le [of c item_size] by (simp add: to_i32_id width_defs)
    then have run: "wp E (nq_list_capacity c cap len extra item_size) Q s = Q (Inr (int grown)) s"
      using False assms(1) grown(1)
      by (auto simp: nq_list_capacity_def Let_def limit wp_simps nq_size_add_eq [OF lsize])
    show ?thesis
      unfolding run by (rule ok) (use False grown same in auto)
  qed
qed

lemma list_capacity_rejects:
  assumes "len < 0 \<or> cap < len \<or> nat cap > list_limit c item_size \<or>
      nat len + extra > list_limit c item_size"
  shows "nq_list_capacity c cap len extra item_size s = Ret (Inl ALLOC_SIZE) s"
proof -
  have limit: "(if nq_sequence_limit c (nat INT32_MAX) > nq_allocation_limit c div item_size
      then nq_allocation_limit c div item_size else nq_sequence_limit c (nat INT32_MAX)) = list_limit c item_size"
    by (simp add: list_limit_def)
  have "list_limit c item_size \<le> SIZE_MAX"
    using list_limit_le [of c item_size] by (simp add: SIZE_MAX_def)
  then show ?thesis
    using assms by (auto simp: nq_list_capacity_def Let_def limit ret_def nq_size_add_eq)
qed

lemma wp_nq_list_capacity_fits:
  assumes "0 < item_size" and "0 \<le> len" and "len \<le> cap" and "nat cap \<le> list_limit c item_size"
    and "nat len + extra \<le> list_limit c item_size"
    and "\<And>cap'. len + int extra \<le> cap' \<Longrightarrow> cap \<le> cap' \<Longrightarrow> nat cap' \<le> list_limit c item_size \<Longrightarrow> Q (Inr cap') s"
  shows "wp E (nq_list_capacity c cap len extra item_size) Q s"
proof -
  have "list_limit c item_size \<le> SIZE_MAX"
    using list_limit_le [of c item_size] by (simp add: SIZE_MAX_def)
  moreover have limit: "(if nq_sequence_limit c (nat INT32_MAX) > nq_allocation_limit c div item_size
      then nq_allocation_limit c div item_size else nq_sequence_limit c (nat INT32_MAX)) = list_limit c item_size"
    by (simp add: list_limit_def)
  ultimately have not_small: "nq_list_capacity c cap len extra item_size s \<noteq> Ret (Inl ALLOC_SIZE) s"
    using assms(1-5) nq_growth_total [of "nat cap" "list_limit c item_size" "nat len + extra" 4]
    by (auto simp: nq_list_capacity_def Let_def nq_size_add_eq from_loop_def bind_def ret_def)
  have "wp E (nq_list_capacity c cap len extra item_size)
      (\<lambda>r s'. (s' = s \<and> r = Inl ALLOC_SIZE) \<or> Q r s') s"
    by (rule wp_nq_list_capacity [OF assms(1)]) (auto intro: assms(6))
  then show ?thesis using not_small by (auto simp: wp_def split: outcome.splits)
qed

text \<open>\<open>nq_cstr_length\<close> measures up to the first NUL and gives up beyond the limit.\<close>

lemma cstr_scan_eq:
  "n \<le> limit \<Longrightarrow> cstr_scan limit n bs =
     (let len = n + length (takeWhile (\<lambda>ch. ch \<noteq> CHR 0x00) bs)
      in if len \<le> limit then Some len else None)"
  by (induction limit n bs rule: cstr_scan.induct) (auto simp: Let_def)

lemma nq_cstr_length_eq:
  "nq_cstr_length c bs =
     (let len = length (takeWhile (\<lambda>ch. ch \<noteq> CHR 0x00) bs)
      in if len \<le> nq_str_limit c then Some len else None)"
  by (simp add: nq_cstr_length_def cstr_scan_eq)

section \<open>Properties\<close>

text \<open>
  \<open>nq_list_capacity\<close> always returns, without touching the state. It rejects exactly the
  lists that break their own bounds and the requests that exceed the sequence or the
  allocation limit; otherwise the new capacity holds what is asked for, never shrinks, and its
  size in bytes is within the allocation limit.
\<close>

theorem list_capacity_exact:
  "\<exists>r. nq_list_capacity c cap len extra item_size s = Ret r s \<and>
     (let bad = (item_size = 0 \<or> len < 0 \<or> cap < len \<or> nat cap > list_limit c item_size \<or>
                 nat len + extra > list_limit c item_size) in
      case r of
        Inl e \<Rightarrow> e = ALLOC_SIZE \<and> bad
      | Inr cap' \<Rightarrow> \<not> bad \<and> len + int extra \<le> cap' \<and> cap \<le> cap' \<and>
          nat cap' * item_size \<le> nq_allocation_limit c \<and> cap' \<le> INT32_MAX)"
proof (cases "item_size = 0")
  case True
  then show ?thesis by (simp add: nq_list_capacity_def Let_def ret_def)
next
  case False
  let ?bad = "item_size = 0 \<or> len < 0 \<or> cap < len \<or> nat cap > list_limit c item_size \<or>
      nat len + extra > list_limit c item_size"
  show ?thesis
  proof (cases ?bad)
    case True
    with False show ?thesis by (simp add: list_capacity_rejects)
  next
    case fits: False
    have "wp no_stop (nq_list_capacity c cap len extra item_size)
        (\<lambda>r s'. s' = s \<and> (\<exists>cap'. r = Inr cap' \<and> len + int extra \<le> cap' \<and> cap \<le> cap' \<and>
           nat cap' \<le> list_limit c item_size)) s"
      using fits by (intro wp_nq_list_capacity_fits) auto
    from wp_returns [OF this] obtain cap' where run:
      "nq_list_capacity c cap len extra item_size s = Ret (Inr cap') s"
      "len + int extra \<le> cap'" "cap \<le> cap'" "nat cap' \<le> list_limit c item_size" by auto
    moreover have "cap' \<le> INT32_MAX"
      using run(4) list_limit_le [of c item_size] by (simp add: width_defs)
    moreover have "nat cap' * item_size \<le> nq_allocation_limit c"
      using list_limit_bytes [OF _ run(4)] False by simp
    ultimately show ?thesis using fits by (simp add: Let_def)
  qed
qed

text \<open>
  C40: \<open>nq_growth\<close> ends, within the limit, at a capacity that holds the request; when it has to
  grow a non-empty buffer it at least doubles it or goes to the limit. A request beyond the
  limit would make its loop run for ever: every caller checks the request first.
\<close>

theorem growth_total_and_geometric:
  assumes "cap \<le> limit" and "limit \<le> SIZE_MAX" and "0 < initial"
  shows "(case nq_growth cap needed limit initial of
            Some r \<Rightarrow> needed \<le> limit \<and> needed \<le> r \<and> cap \<le> r \<and> r \<le> limit \<and>
              (r = cap \<or> r = limit \<or> 2 * cap \<le> r)
          | None \<Rightarrow> limit < needed)"
proof (cases "needed \<le> limit")
  case True
  then obtain r where r: "nq_growth cap needed limit initial = Some r" "needed \<le> r" "cap \<le> r" "r \<le> limit"
    using nq_growth_total [OF assms(1) _ assms(2,3)] by blast
  have "r = cap \<or> r = limit \<or> 2 * cap \<le> r"
    using nq_growth_loop_doubles [of cap needed limit r] r True assms
    by (cases "cap = 0") (auto simp: nq_growth_def split: if_splits)
  with r True show ?thesis by simp
next
  case False
  then have "nq_growth cap needed limit initial = None"
    using assms nq_growth_loop_at_limit [of limit needed]
    by (auto simp: nq_growth_def intro!: nq_growth_loop_past_limit)
  with False show ?thesis by simp
qed

theorem growth_total_and_geometric_witness:
  "case nq_growth 4096 5000 100000 4096 of
     Some r \<Rightarrow> 5000 \<le> r \<and> r \<le> 100000 \<and> 8192 \<le> r | None \<Rightarrow> False"
  using growth_total_and_geometric [of 4096 100000 4096 5000]
  by (simp add: SIZE_MAX_def split: option.splits) auto

end
