(* ===== verification/Ownership.thy ===== *)
theory Ownership
  imports Alloc
begin

text \<open>
  Who owns what on the heap: the invariant the memory-safety and leak-freedom theorems of the
  other components are about.

  \<open>owns L R s\<close> describes the whole heap of \<open>s\<close>. \<open>L\<close> is the multiset of live string handles,
  each with the bytes it denotes; \<open>R\<close> maps every block owned directly (a buffer, the array of
  a list, a process state) to its exact contents. The invariant says that each live handle can
  be read and denotes its bytes, that each \<open>NQStrOwner\<close> counts exactly the live handles that
  share it and owns a storage block of its own, and that there is no other block on the heap.
  So an operation that takes \<open>owns (L1 + L) R\<close> to \<open>owns (L2 + L) R'\<close> frees what it should free,
  frees nothing else, leaks nothing, and leaves every other string as it was.
\<close>

section \<open>Handles and their bytes\<close>

type_synonym strs = "(nqstr \<times> string) multiset"
type_synonym raws = "nat \<Rightarrow> block option"

definition str_view :: "(nat \<Rightarrow> block option) \<Rightarrow> nqstr \<Rightarrow> string option" where
  "str_view h t = (if s_len t < 0 then None else read_bytes h (s_data t) (nat (s_len t)))"

definition refs :: "strs \<Rightarrow> nat \<Rightarrow> nat" where
  "refs L ow = size (filter_mset (\<lambda>x. s_owner (fst x) = Some ow) L)"

definition placed :: "(nat \<Rightarrow> block option) \<Rightarrow> nqstr \<Rightarrow> bool" where
  "placed h t = (case s_owner t of
     None \<Rightarrow> (\<forall>b i. s_data t \<noteq> PHeap b i)
   | Some ow \<Rightarrow> (\<exists>n b i. h ow = Some (BOwner n (PHeap b 0)) \<and> s_data t = PHeap b i))"

definition is_owner :: "block \<Rightarrow> bool" where
  "is_owner blk \<longleftrightarrow> (\<exists>n p. blk = BOwner n p)"

lemma is_owner_simps [simp]:
  "is_owner (BOwner n p)" "\<not> is_owner (BUninit k)" "\<not> is_owner (BBytes cs)"
  "\<not> is_owner (BStrs ts)" "\<not> is_owner (BPtrs ps)" "\<not> is_owner (BProc st)"
  by (auto simp: is_owner_def)

lemma is_owner_fresh [simp]: "\<not> is_owner (fresh_cells k n)"
  by (cases k) auto

definition owner_ok :: "strs \<Rightarrow> raws \<Rightarrow> (nat \<Rightarrow> block option) \<Rightarrow> nat \<Rightarrow> nat \<Rightarrow> ptr \<Rightarrow> bool" where
  "owner_ok L R h ow n p \<longleftrightarrow> n = refs L ow \<and> 0 < n \<and>
     (\<exists>b cs. p = PHeap b 0 \<and> h b = Some (BBytes cs) \<and> R b = None)"

definition accounted :: "raws \<Rightarrow> (nat \<Rightarrow> block option) \<Rightarrow> nat \<Rightarrow> bool" where
  "accounted R h b \<longleftrightarrow> R b \<noteq> None \<or> (\<exists>n p. h b = Some (BOwner n p)) \<or>
     (\<exists>ow n. h ow = Some (BOwner n (PHeap b 0)))"

definition owns :: "strs \<Rightarrow> raws \<Rightarrow> nqstate \<Rightarrow> bool" where
  "owns L R s \<longleftrightarrow>
     (\<forall>t v. (t, v) \<in># L \<longrightarrow> str_view (heap s) t = Some v \<and> placed (heap s) t) \<and>
     (\<forall>ow n p. heap s ow = Some (BOwner n p) \<longrightarrow> owner_ok L R (heap s) ow n p) \<and>
     (\<forall>ow ow' n n' b. heap s ow = Some (BOwner n (PHeap b 0)) \<longrightarrow>
        heap s ow' = Some (BOwner n' (PHeap b 0)) \<longrightarrow> ow = ow') \<and>
     (\<forall>b blk. R b = Some blk \<longrightarrow> heap s b = Some blk \<and> \<not> is_owner blk) \<and>
     (\<forall>b. heap s b \<noteq> None \<longrightarrow> accounted R (heap s) b) \<and>
     (\<forall>b. next_block s \<le> b \<longrightarrow> heap s b = None)"

text \<open>What the memory operations leave alone: the environment and the trace.\<close>

definition world :: "nqstate \<Rightarrow> reply list \<times> event list \<times> string list option \<times> string list option \<times> int" where
  "world s = (script s, trace s, environ s, process_args s, process_argc s)"

lemma world_simps [simp]:
  "world (s\<lparr>heap := h\<rparr>) = world s" "world (s\<lparr>next_block := k\<rparr>) = world s"
  "world (s\<lparr>mallocs := ms\<rparr>) = world s" "world (s\<lparr>alloc_count := n\<rparr>) = world s"
  "world (s\<lparr>errno := e\<rparr>) = world s" "world (put_block b blk s) = world s"
  by (simp_all add: world_def put_block_def)

lemma world_fields:
  "world s' = world s \<Longrightarrow> script s' = script s" "world s' = world s \<Longrightarrow> trace s' = trace s"
  "world s' = world s \<Longrightarrow> environ s' = environ s"
  by (simp_all add: world_def)

section \<open>Reading the invariant\<close>

lemma owns_cong:
  "heap s' = heap s \<Longrightarrow> next_block s' = next_block s \<Longrightarrow> owns L R s' = owns L R s"
  by (simp add: owns_def)

lemma owns_fields [simp]:
  "owns L R (s\<lparr>mallocs := ms\<rparr>) = owns L R s" "owns L R (s\<lparr>alloc_count := n\<rparr>) = owns L R s"
  "owns L R (s\<lparr>errno := e\<rparr>) = owns L R s" "owns L R (s\<lparr>script := rs\<rparr>) = owns L R s"
  "owns L R (s\<lparr>trace := es\<rparr>) = owns L R s"
  by (simp_all add: owns_def)

lemma owns_view: "owns L R s \<Longrightarrow> (t, v) \<in># L \<Longrightarrow> str_view (heap s) t = Some v"
  by (simp add: owns_def)

lemma owns_placed: "owns L R s \<Longrightarrow> (t, v) \<in># L \<Longrightarrow> placed (heap s) t"
  by (simp add: owns_def)

lemma owns_owner: "owns L R s \<Longrightarrow> heap s ow = Some (BOwner n p) \<Longrightarrow> owner_ok L R (heap s) ow n p"
  by (simp add: owns_def)

lemma owns_storage_inj:
  "owns L R s \<Longrightarrow> heap s ow = Some (BOwner n (PHeap b 0)) \<Longrightarrow>
     heap s ow' = Some (BOwner n' (PHeap b 0)) \<Longrightarrow> ow = ow'"
  by (auto simp: owns_def)

lemma owns_raw: "owns L R s \<Longrightarrow> R b = Some blk \<Longrightarrow> heap s b = Some blk"
  by (simp add: owns_def)

lemma owns_raw_not_owner: "owns L R s \<Longrightarrow> R b = Some blk \<Longrightarrow> \<not> is_owner blk"
  by (simp add: owns_def)

lemma owns_fresh: "owns L R s \<Longrightarrow> next_block s \<le> b \<Longrightarrow> heap s b = None"
  by (simp add: owns_def)

lemma owns_accounted: "owns L R s \<Longrightarrow> heap s b \<noteq> None \<Longrightarrow> accounted R (heap s) b"
  by (simp add: owns_def)

lemma owns_fresh_raw: "owns L R s \<Longrightarrow> next_block s \<le> b \<Longrightarrow> R b = None"
  using owns_raw owns_fresh by (metis option.exhaust option.distinct(1))

lemma owns_owner_storage:
  assumes "owns L R s" and "heap s ow = Some (BOwner n p)"
  obtains b cs where "p = PHeap b 0" "heap s b = Some (BBytes cs)" "R b = None" "b \<noteq> ow"
proof -
  from owns_owner [OF assms] obtain b cs where
    "p = PHeap b 0" "heap s b = Some (BBytes cs)" "R b = None"
    by (auto simp: owner_ok_def)
  moreover from this assms(2) have "b \<noteq> ow" by auto
  ultimately show thesis by (rule that)
qed

text \<open>A block owned directly is neither an owner nor the storage of one.\<close>

lemma owns_raw_apart:
  assumes "owns L R s" and "R b = Some blk" and "heap s ow = Some (BOwner n p)"
  shows "ow \<noteq> b" and "p \<noteq> PHeap b 0"
proof -
  have "heap s b = Some blk" "\<not> is_owner blk" using assms by (simp_all add: owns_def)
  with assms(3) show "ow \<noteq> b" by auto
  show "p \<noteq> PHeap b 0" using owns_owner [OF assms(1,3)] assms(2) by (auto simp: owner_ok_def)
qed

text \<open>The block a live string reads from is the storage of an owner.\<close>

lemma owns_data_block:
  assumes "owns L R s" and "(t, v) \<in># L" and "s_data t = PHeap b i"
  obtains ow n where "s_owner t = Some ow" "heap s ow = Some (BOwner n (PHeap b 0))"
proof (cases "s_owner t")
  case None
  then show thesis using owns_placed [OF assms(1,2)] assms(3) by (simp add: placed_def)
next
  case (Some ow)
  then obtain n where "heap s ow = Some (BOwner n (PHeap b 0))"
    using owns_placed [OF assms(1,2)] assms(3) by (auto simp: placed_def)
  with Some show thesis by (rule that)
qed

lemma read_bytes_cong:
  "(\<And>b i. p = PHeap b i \<Longrightarrow> h' b = h b) \<Longrightarrow> read_bytes h' p n = read_bytes h p n"
  by (cases p) auto

lemma str_view_cong:
  "(\<And>b i. s_data t = PHeap b i \<Longrightarrow> h' b = h b) \<Longrightarrow> str_view h' t = str_view h t"
  by (simp add: str_view_def read_bytes_cong [of "s_data t" h' h])

text \<open>
  The heap may change on blocks that are neither owners nor storage (owned directly before
  and after, or fresh) without any effect on the strings.
\<close>

lemma owns_change_raw:
  assumes owns: "owns L R s"
    and R': "\<And>b. b \<notin> D \<Longrightarrow> R' b = R b" and heap': "\<And>b. b \<notin> D \<Longrightarrow> heap s' b = heap s b"
    and old: "\<And>b. b \<in> D \<Longrightarrow> R b \<noteq> None \<or> heap s b = None"
    and new: "\<And>b. b \<in> D \<Longrightarrow> heap s' b = R' b"
    and not_owner: "\<And>b blk. b \<in> D \<Longrightarrow> R' b = Some blk \<Longrightarrow> \<not> is_owner blk"
    and fresh: "\<And>b. next_block s' \<le> b \<Longrightarrow> heap s' b = None"
  shows "owns L R' s'"
proof -
  have owner_D: "ow \<notin> D" "p = PHeap b i \<Longrightarrow> b \<notin> D"
    if "heap s ow = Some (BOwner n p)" for ow n p b i
  proof -
    show "ow \<notin> D" using old [of ow] owns_raw_apart(1) [OF owns _ that] that by auto
    show "b \<notin> D" if "p = PHeap b i"
    proof -
      obtain b' cs where "p = PHeap b' 0" "heap s b' = Some (BBytes cs)" "R b' = None"
        using owns_owner_storage [OF owns \<open>heap s ow = Some (BOwner n p)\<close>] by blast
      with old [of b] that show ?thesis by auto
    qed
  qed
  have owner_eq: "heap s' ow = Some (BOwner n p) \<longleftrightarrow> heap s ow = Some (BOwner n p)" for ow n p
  proof (cases "ow \<in> D")
    case True
    then show ?thesis using new [of ow] not_owner [of ow] owner_D(1) [of ow] by (auto simp: is_owner_def)
  qed (simp add: heap')
  have data_eq: "heap s' b = heap s b" if "(t, v) \<in># L" "s_data t = PHeap b i" for t v b i
    using owns_data_block [OF owns that] owner_D(2) heap' by metis
  show ?thesis
    unfolding owns_def
  proof (intro conjI allI impI)
    fix t v assume live: "(t, v) \<in># L"
    show "str_view (heap s') t = Some v"
      using owns_view [OF owns live] str_view_cong [of t "heap s'" "heap s"] data_eq [OF live] by simp
    show "placed (heap s') t"
      using owns_placed [OF owns live] owner_eq by (auto simp: placed_def split: option.splits)
  next
    fix ow n p assume "heap s' ow = Some (BOwner n p)"
    then have ow: "heap s ow = Some (BOwner n p)" by (simp add: owner_eq)
    then obtain b cs where p: "p = PHeap b 0" "heap s b = Some (BBytes cs)" "R b = None"
      using owns_owner_storage [OF owns] by blast
    then have "b \<notin> D" using owner_D(2) [OF ow] by blast
    with p owns_owner [OF owns ow] show "owner_ok L R' (heap s') ow n p"
      by (simp add: owner_ok_def heap' R')
  next
    fix ow ow' n n' b
    assume "heap s' ow = Some (BOwner n (PHeap b 0))" "heap s' ow' = Some (BOwner n' (PHeap b 0))"
    then show "ow = ow'" by (simp add: owner_eq owns_storage_inj [OF owns])
  next
    fix b blk assume "R' b = Some blk"
    then have "heap s' b = Some blk \<and> \<not> is_owner blk"
      using new [of b] not_owner [of b blk] R' [of b] heap' [of b]
        owns_raw [OF owns, of b blk] owns_raw_not_owner [OF owns, of b blk]
      by (cases "b \<in> D") simp_all
    then show "heap s' b = Some blk" "\<not> is_owner blk" by auto
  next
    fix b assume "heap s' b \<noteq> None"
    then show "accounted R' (heap s') b"
      using new [of b] owns_accounted [OF owns, of b] R' [of b] heap' [of b]
      by (cases "b \<in> D") (auto simp: accounted_def owner_eq)
  next
    fix b assume "next_block s' \<le> b"
    then show "heap s' b = None" by (rule fresh)
  qed
qed

section \<open>The invariant under each primitive\<close>

lemma owns_alloc:
  assumes "owns L R s" and "\<not> is_owner blk"
    and "heap s' = (heap s)(next_block s \<mapsto> blk)" and "next_block s' = Suc (next_block s)"
  shows "owns L (R(next_block s \<mapsto> blk)) s'"
  by (rule owns_change_raw [OF assms(1), where D = "{next_block s}"])
    (use assms owns_fresh [OF assms(1)] in auto)

lemma owns_put_raw:
  assumes "owns L R s" and "R b = Some blk" and "\<not> is_owner blk'"
  shows "owns L (R(b \<mapsto> blk')) (put_block b blk' s)"
  by (rule owns_change_raw [OF assms(1), where D = "{b}"])
    (use assms owns_fresh [OF assms(1)] owns_raw [OF assms(1,2)] in \<open>auto simp: put_block_def\<close>)

lemma owns_free_raw:
  assumes "owns L R s" and "R b = Some blk"
  shows "owns L (R(b := None)) (s\<lparr>heap := (heap s)(b := None)\<rparr>)"
  by (rule owns_change_raw [OF assms(1), where D = "{b}"])
    (use assms owns_fresh [OF assms(1)] in auto)

lemma owns_move_raw:
  assumes "owns L R s" and "R b = Some blk" and "\<not> is_owner blk'"
    and "heap s' = (heap s)(b := None, next_block s := Some blk')"
    and "next_block s' = Suc (next_block s)"
  shows "owns L (R(b := None, next_block s := Some blk')) s'"
  by (rule owns_change_raw [OF assms(1), where D = "{b, next_block s}"])
    (use assms owns_fresh [OF assms(1)] in \<open>auto split: if_splits\<close>)

lemma refs_add [simp]:
  "refs (add_mset x L) ow = (if s_owner (fst x) = Some ow then Suc (refs L ow) else refs L ow)"
  by (simp add: refs_def)

lemma refs_empty [simp]: "refs {#} ow = 0"
  by (simp add: refs_def)

lemma refs_pos: "(t, v) \<in># L \<Longrightarrow> s_owner t = Some ow \<Longrightarrow> 0 < refs L ow"
  by (auto simp: refs_def nonempty_has_size [symmetric] filter_mset_eq_mempty_iff)

lemma refs_zero: "owns L R s \<Longrightarrow> (\<And>n p. heap s ow \<noteq> Some (BOwner n p)) \<Longrightarrow> refs L ow = 0"
proof -
  assume owns: "owns L R s" and no: "\<And>n p. heap s ow \<noteq> Some (BOwner n p)"
  have "s_owner (fst x) \<noteq> Some ow" if "x \<in># L" for x
    using that no owns_placed [OF owns, of "fst x" "snd x"] by (auto simp: placed_def)
  then show ?thesis by (auto simp: refs_def filter_mset_eq_mempty_iff)
qed

text \<open>A string without an owner adds no block.\<close>

lemma owns_add_static:
  assumes "owns L R s" and "s_owner t = None" and "\<And>b i. s_data t \<noteq> PHeap b i"
    and "str_view (heap s) t = Some v"
  shows "owns (add_mset (t, v) L) R s"
  using assms by (auto simp: owns_def placed_def owner_ok_def)

lemma owns_remove_static:
  assumes "owns (add_mset (t, v) L) R s" and "s_owner t = None"
  shows "owns L R s"
  using assms by (auto simp: owns_def owner_ok_def)

text \<open>A fresh owner over a block of bytes: the two blocks become one live string.\<close>

lemma owns_make_owner:
  assumes owns: "owns L R s" and b: "R b = Some (BBytes cs)" and ow: "R ow = Some (BUninit k)"
    and len: "n \<le> length cs" and v: "those (take n cs) = Some v"
  shows "owns (add_mset (\<lparr>s_data = PHeap b 0, s_len = int n, s_owner = Some ow\<rparr>, v) L)
           (R(b := None, ow := None)) (put_block ow (BOwner 1 (PHeap b 0)) s)"
    (is "owns (add_mset (?t, v) L) ?R ?s")
proof -
  have "b \<noteq> ow" using b ow by auto
  have hb: "heap s b = Some (BBytes cs)" and hw: "heap s ow = Some (BUninit k)"
    using owns_raw [OF owns] b ow by auto
  have apart: "ow' \<noteq> ow" "ow' \<noteq> b" "p \<noteq> PHeap b 0" "p \<noteq> PHeap ow 0"
    if "heap s ow' = Some (BOwner m p)" for ow' m p
    using owns_raw_apart [OF owns b that] owns_raw_apart [OF owns ow that] by auto
  have refs0: "refs L ow = 0" by (rule refs_zero [OF owns]) (simp add: hw)
  have live: "s_owner t \<noteq> Some ow" "s_data t = PHeap b' i \<Longrightarrow> b' \<noteq> ow"
    if "(t, u) \<in># L" for t u b' i
  proof -
    show "s_owner t \<noteq> Some ow" using refs_pos [OF that] refs0 by auto
    show "b' \<noteq> ow" if "s_data t = PHeap b' i"
      using owns_data_block [OF owns \<open>(t, u) \<in># L\<close> that] apart(4) by metis
  qed
  show ?thesis
    unfolding owns_def
  proof (intro conjI allI impI)
    fix t u assume "(t, u) \<in># add_mset (?t, v) L"
    then consider "t = ?t" "u = v" | "(t, u) \<in># L" by auto
    then have "str_view (heap ?s) t = Some u \<and> placed (heap ?s) t"
    proof cases
      case 1
      then show ?thesis using len v hb \<open>b \<noteq> ow\<close>
        by (simp add: str_view_def placed_def put_block_def)
    next
      case 2
      have "str_view (heap ?s) t = str_view (heap s) t"
        by (rule str_view_cong) (use live(2) [OF 2] in \<open>auto simp: put_block_def\<close>)
      moreover have "placed (heap ?s) t"
        using owns_placed [OF owns 2] live(1) [OF 2]
        by (auto simp: placed_def put_block_def split: option.splits)
      ultimately show ?thesis using owns_view [OF owns 2] by simp
    qed
    then show "str_view (heap ?s) t = Some u" "placed (heap ?s) t" by auto
  next
    fix ow' m p assume h: "heap ?s ow' = Some (BOwner m p)"
    show "owner_ok (add_mset (?t, v) L) ?R (heap ?s) ow' m p"
    proof (cases "ow' = ow")
      case True
      then have "m = 1" "p = PHeap b 0" using h by (simp_all add: put_block_def)
      then show ?thesis using True hb \<open>b \<noteq> ow\<close> refs0
        unfolding owner_ok_def by (intro conjI exI [of _ b] exI [of _ cs]) (simp_all add: put_block_def)
    next
      case False
      then have "heap s ow' = Some (BOwner m p)" using h by (simp add: put_block_def)
      with owns_owner [OF owns this] obtain b' cs' where
        "m = refs L ow'" "0 < m" "p = PHeap b' 0" "heap s b' = Some (BBytes cs')" "R b' = None"
        by (auto simp: owner_ok_def)
      moreover from this hw have "b' \<noteq> ow" by auto
      ultimately show ?thesis using False
        unfolding owner_ok_def by (intro conjI exI [of _ b'] exI [of _ cs']) (simp_all add: put_block_def)
    qed
  next
    fix ow1 ow2 n1 n2 b'
    assume h: "heap ?s ow1 = Some (BOwner n1 (PHeap b' 0))" "heap ?s ow2 = Some (BOwner n2 (PHeap b' 0))"
    have old: "heap s o1 = Some (BOwner m (PHeap b' 0)) \<and> b' \<noteq> b"
      if "heap ?s o1 = Some (BOwner m (PHeap b' 0))" "o1 \<noteq> ow" for o1 m
      using that apart(3) [of o1 m] by (auto simp: put_block_def)
    have own: "b' = b" if "heap ?s ow = Some (BOwner m (PHeap b' 0))" for m
      using that by (simp add: put_block_def)
    show "ow1 = ow2"
    proof (cases "ow1 = ow \<or> ow2 = ow")
      case True
      then show ?thesis using h old own by metis
    next
      case False
      then have "heap s ow1 = Some (BOwner n1 (PHeap b' 0))" "heap s ow2 = Some (BOwner n2 (PHeap b' 0))"
        using old h by blast+
      then show ?thesis by (rule owns_storage_inj [OF owns])
    qed
  next
    fix b' blk assume "?R b' = Some blk"
    then show "heap ?s b' = Some blk" "\<not> is_owner blk"
      using owns_raw [OF owns] owns_raw_not_owner [OF owns]
      by (auto simp: put_block_def split: if_splits)
  next
    fix b' assume alloc: "heap ?s b' \<noteq> None"
    have keep: "heap ?s o1 = Some (BOwner m p)" if "heap s o1 = Some (BOwner m p)" for o1 m p
      using that apart(1) [OF that] by (simp add: put_block_def)
    have "heap ?s ow = Some (BOwner 1 (PHeap b 0))" by (simp add: put_block_def)
    moreover have "accounted ?R (heap ?s) b'" if "b' \<noteq> ow" "b' \<noteq> b"
    proof -
      have "heap s b' \<noteq> None" using that alloc by (simp add: put_block_def)
      then have "accounted R (heap s) b'" by (rule owns_accounted [OF owns])
      moreover have "?R b' = R b'" using that by simp
      ultimately show ?thesis using keep unfolding accounted_def by metis
    qed
    ultimately show "accounted ?R (heap ?s) b'"
      unfolding accounted_def by blast
  next
    fix b' assume "next_block ?s \<le> b'"
    then show "heap ?s b' = None" using owns_fresh [OF owns] hw by (auto simp: put_block_def)
  qed
qed

text \<open>
  A new reference count on an owner: sound when it counts the handles of the new multiset of
  live strings.
\<close>

lemma recount_bytes:
  "heap s ow = Some (BOwner n p) \<Longrightarrow>
     heap (put_block ow (BOwner m p) s) b = Some (BBytes cs) \<longleftrightarrow> heap s b = Some (BBytes cs)"
  by (auto simp: put_block_def)

lemma recount_view:
  "heap s ow = Some (BOwner n p) \<Longrightarrow>
     str_view (heap (put_block ow (BOwner m p) s)) u = str_view (heap s) u"
  by (cases "s_data u") (auto simp: str_view_def put_block_def)

lemma recount_owner:
  "heap s ow = Some (BOwner n p) \<Longrightarrow>
     (\<exists>k. heap (put_block ow (BOwner m p) s) o1 = Some (BOwner k q)) \<longleftrightarrow>
     (\<exists>k. heap s o1 = Some (BOwner k q))"
  by (auto simp: put_block_def)

lemma owns_recount:
  assumes owns: "owns L R s" and ow: "heap s ow = Some (BOwner n p)"
    and live: "\<And>u w. (u, w) \<in># L' \<Longrightarrow> str_view (heap s) u = Some w \<and> placed (heap s) u"
    and m: "m = refs L' ow" "0 < m" and other: "\<And>o1. o1 \<noteq> ow \<Longrightarrow> refs L' o1 = refs L o1"
  shows "owns L' R (put_block ow (BOwner m p) s)"
    (is "owns _ _ ?s")
proof -
  have raw: "R ow = None" using owns_raw [OF owns] owns_raw_not_owner [OF owns] ow
    by (metis is_owner_simps(1) option.exhaust option.inject)
  note bytes_eq = recount_bytes [OF ow] and view_eq = recount_view [OF ow]
    and owner_eq = recount_owner [OF ow]
  show ?thesis
    unfolding owns_def
  proof (intro conjI allI impI)
    fix u w assume "(u, w) \<in># L'"
    from live [OF this] show "str_view (heap ?s) u = Some w" "placed (heap ?s) u"
      using owner_eq by (auto simp: view_eq placed_def split: option.splits)
  next
    fix o1 k q assume h: "heap ?s o1 = Some (BOwner k q)"
    then obtain k' where k': "heap s o1 = Some (BOwner k' q)" using owner_eq by blast
    obtain b cs where "k' = refs L o1" "0 < k'" "q = PHeap b 0" "heap s b = Some (BBytes cs)" "R b = None"
      using owns_owner [OF owns k'] by (auto simp: owner_ok_def)
    moreover have "k = refs L' o1 \<and> 0 < k"
      using h k' m other [of o1] owns_owner [OF owns k']
      by (cases "o1 = ow") (auto simp: put_block_def owner_ok_def)
    ultimately show "owner_ok L' R (heap ?s) o1 k q" by (auto simp: owner_ok_def bytes_eq)
  next
    fix o1 o2 n1 n2 b'
    assume "heap ?s o1 = Some (BOwner n1 (PHeap b' 0))" "heap ?s o2 = Some (BOwner n2 (PHeap b' 0))"
    then show "o1 = o2" using owner_eq owns_storage_inj [OF owns] by metis
  next
    fix b' blk assume "R b' = Some blk"
    then show "heap ?s b' = Some blk" "\<not> is_owner blk"
      using owns_raw [OF owns] owns_raw_not_owner [OF owns] raw by (auto simp: put_block_def)
  next
    fix b' assume "heap ?s b' \<noteq> None"
    then have "heap s b' \<noteq> None" using ow by (auto simp: put_block_def split: if_splits)
    then show "accounted R (heap ?s) b'"
      using owns_accounted [OF owns, of b'] owner_eq unfolding accounted_def by metis
  next
    fix b' assume "next_block ?s \<le> b'"
    then show "heap ?s b' = None" using owns_fresh [OF owns] ow by (auto simp: put_block_def)
  qed
qed

text \<open>A further handle on a live string's storage: the count goes up by one.\<close>

lemma owns_share:
  assumes owns: "owns L R s" and ow: "heap s ow = Some (BOwner n (PHeap b 0))"
    and t: "s_owner t = Some ow" "s_data t = PHeap b i" "str_view (heap s) t = Some v"
  shows "owns (add_mset (t, v) L) R (put_block ow (BOwner (n + 1) (PHeap b 0)) s)"
  by (rule owns_recount [OF owns ow])
    (use owns_view [OF owns] owns_placed [OF owns] owns_owner [OF owns ow] t ow in
      \<open>auto simp: placed_def owner_ok_def\<close>)

text \<open>Dropping one of several handles.\<close>

lemma owns_unshare:
  assumes owns: "owns (add_mset (t, v) L) R s" and ow: "heap s ow = Some (BOwner (Suc n) p)"
    and t: "s_owner t = Some ow" and n: "0 < n"
  shows "owns L R (put_block ow (BOwner n p) s)"
  by (rule owns_recount [OF owns ow])
    (use owns_view [OF owns] owns_placed [OF owns] owns_owner [OF owns ow] t n in
      \<open>auto simp: owner_ok_def\<close>)

text \<open>Dropping the last handle frees the owner and its storage.\<close>

lemma owns_release:
  assumes owns: "owns (add_mset (t, v) L) R s" and ow: "heap s ow = Some (BOwner 1 (PHeap b 0))"
    and t: "s_owner t = Some ow"
  shows "owns L R (s\<lparr>heap := (heap s)(b := None, ow := None)\<rparr>)"
    (is "owns _ _ ?s")
proof -
  have refs: "refs L ow = 0" using owns_owner [OF owns ow] t by (auto simp: owner_ok_def)
  obtain cs where hb: "heap s b = Some (BBytes cs)" and Rb: "R b = None" and bo: "b \<noteq> ow"
    using owns_owner_storage [OF owns ow] by auto
  have raw: "R ow = None" using owns_raw [OF owns] owns_raw_not_owner [OF owns] ow
    by (metis is_owner_simps(1) option.exhaust option.inject)
  have other: "o1 \<noteq> b" "p \<noteq> PHeap ow 0" "o1 \<noteq> ow \<Longrightarrow> p \<noteq> PHeap b 0"
    if "heap s o1 = Some (BOwner m p)" for o1 m p
  proof -
    show "o1 \<noteq> b" using that hb by auto
    show "p \<noteq> PHeap ow 0" using owns_owner [OF owns that] ow by (auto simp: owner_ok_def)
    show "p \<noteq> PHeap b 0" if "o1 \<noteq> ow"
      using that \<open>heap s o1 = Some (BOwner m p)\<close> ow owns_storage_inj [OF owns] by blast
  qed
  have owners: "heap ?s o1 = Some (BOwner m p) \<longleftrightarrow> o1 \<noteq> ow \<and> heap s o1 = Some (BOwner m p)" for o1 m p
    using other(1) by auto
  have live: "s_owner u \<noteq> Some ow" "s_data u = PHeap b' i \<Longrightarrow> b' \<noteq> b \<and> b' \<noteq> ow"
    if "(u, w) \<in># L" for u w b' i
  proof -
    show no: "s_owner u \<noteq> Some ow" using refs_pos [OF that] refs by auto
    have mem: "(u, w) \<in># add_mset (t, v) L" using that by simp
    assume data: "s_data u = PHeap b' i"
    obtain o1 m where "s_owner u = Some o1" "heap s o1 = Some (BOwner m (PHeap b' 0))"
      by (rule owns_data_block [OF owns mem data])
    with no other(2,3) [of o1 m "PHeap b' 0"] show "b' \<noteq> b \<and> b' \<noteq> ow" by auto
  qed
  show ?thesis
    unfolding owns_def
  proof (intro conjI allI impI)
    fix u w assume u: "(u, w) \<in># L"
    have "str_view (heap ?s) u = str_view (heap s) u"
      by (rule str_view_cong) (use live(2) [OF u] in auto)
    then show "str_view (heap ?s) u = Some w" using owns_view [OF owns] u by simp
    show "placed (heap ?s) u"
      using owns_placed [OF owns, of u w] live(1) [OF u] u other(1)
      by (auto simp: placed_def split: option.splits)
  next
    fix o1 m p assume "heap ?s o1 = Some (BOwner m p)"
    then have o1: "o1 \<noteq> ow" "heap s o1 = Some (BOwner m p)" using owners by blast+
    then obtain b' cs' where "m = refs L o1" "0 < m" "p = PHeap b' 0"
      "heap s b' = Some (BBytes cs')" "R b' = None"
      using owns_owner [OF owns o1(2)] t by (auto simp: owner_ok_def)
    moreover from this o1 other(2,3) [OF o1(2)] have "b' \<noteq> b" "b' \<noteq> ow" by auto
    ultimately show "owner_ok L R (heap ?s) o1 m p" by (simp add: owner_ok_def)
  next
    fix o1 o2 n1 n2 b'
    assume "heap ?s o1 = Some (BOwner n1 (PHeap b' 0))" "heap ?s o2 = Some (BOwner n2 (PHeap b' 0))"
    then show "o1 = o2" using owns_storage_inj [OF owns] by (metis owners)
  next
    fix b' blk assume "R b' = Some blk"
    then show "heap ?s b' = Some blk" "\<not> is_owner blk"
      using owns_raw [OF owns] owns_raw_not_owner [OF owns] raw Rb by auto
  next
    fix b' assume "heap ?s b' \<noteq> None"
    then have b': "b' \<noteq> b" "b' \<noteq> ow" "heap s b' \<noteq> None" by (auto split: if_splits)
    have "o1 \<noteq> ow" if "heap s o1 = Some (BOwner m (PHeap b' 0))" for o1 m
      using that ow b'(1) by auto
    with owns_accounted [OF owns b'(3)] b' show "accounted R (heap ?s) b'"
      unfolding accounted_def owners by blast
  next
    fix b' assume "next_block ?s \<le> b'"
    then show "heap ?s b' = None" using owns_fresh [OF owns] by auto
  qed
qed

text \<open>Nothing live, nothing owned: the heap is empty.\<close>

lemma owns_empty_heap: "owns {#} Map.empty s \<Longrightarrow> heap s = Map.empty"
proof (rule ext)
  fix b assume owns: "owns {#} Map.empty s"
  have no_owner: "heap s ow \<noteq> Some (BOwner n p)" for ow n p
    using owns_owner [OF owns, of ow n p] by (auto simp: owner_ok_def)
  show "heap s b = None"
    using owns_accounted [OF owns, of b] no_owner unfolding accounted_def by blast
qed

section \<open>Borrowed bytes\<close>

text \<open>
  \<open>readable L R p n v\<close>: wherever the strings \<open>L\<close> are live and the blocks \<open>R\<close> owned, the \<open>n\<close>
  bytes at \<open>p\<close> are \<open>v\<close>. It is how a callee may rely on bytes it only borrows.
\<close>

definition readable :: "strs \<Rightarrow> raws \<Rightarrow> ptr \<Rightarrow> nat \<Rightarrow> string \<Rightarrow> bool" where
  "readable L R p n v \<longleftrightarrow>
     (\<forall>L' R' s. L \<subseteq># L' \<longrightarrow> R \<subseteq>\<^sub>m R' \<longrightarrow> owns L' R' s \<longrightarrow> read_bytes (heap s) p n = Some v)"

lemma readableD: "readable L R p n v \<Longrightarrow> owns L R s \<Longrightarrow> read_bytes (heap s) p n = Some v"
  unfolding readable_def using map_le_refl subset_mset.order_refl by blast

lemma readable_mono:
  "readable L R p n v \<Longrightarrow> L \<subseteq># L' \<Longrightarrow> R \<subseteq>\<^sub>m R' \<Longrightarrow> readable L' R' p n v"
  unfolding readable_def by (meson map_le_trans subset_mset.order_trans)

lemma readable_upd: "readable L R p n v \<Longrightarrow> R b = None \<Longrightarrow> readable L (R(b \<mapsto> blk)) p n v"
  by (erule readable_mono) (auto simp: map_le_def)

lemma readable_add: "readable L R p n v \<Longrightarrow> readable (add_mset x L) R p n v"
  by (erule readable_mono) auto

lemma readable_lit: "i + n \<le> length xs \<Longrightarrow> readable L R (PLit xs i) n (take n (drop i xs))"
  by (simp add: readable_def)

lemma readable_lit0: "n = length xs \<Longrightarrow> readable L R (PLit xs 0) n xs"
  using readable_lit [of 0 n xs] by simp

lemma readable_none: "readable L R PNull 0 []"
  by (simp add: readable_def)

lemma readable_live:
  "(t, v) \<in># L \<Longrightarrow> 0 \<le> s_len t \<Longrightarrow> readable L R (s_data t) (nat (s_len t)) v"
  unfolding readable_def
  using owns_view by (fastforce simp: str_view_def dest: mset_subset_eqD split: if_splits)

lemma readable_raw:
  "R b = Some (BBytes cs) \<Longrightarrow> i + n \<le> length cs \<Longrightarrow> those (take n (drop i cs)) = Some v \<Longrightarrow>
     readable L R (PHeap b i) n v"
  unfolding readable_def by (auto simp: map_le_def dom_def dest!: owns_raw)

lemma read_bytes_length: "read_bytes h p n = Some v \<Longrightarrow> length v = n"
  by (induction h p n rule: read_bytes.induct)
    (auto split: if_splits option.splits block.splits dest: length_those)

text \<open>A stretch of readable bytes is readable.\<close>

lemma read_bytes_part:
  assumes "read_bytes h p n = Some v" and "i + k \<le> n"
  shows "read_bytes h (ptr_plus p i) k = Some (take k (drop i v))"
proof (cases p)
  case PNull
  then show ?thesis using assms by (auto split: if_splits)
next
  case (PLit xs j)
  with assms have v: "v = take n (drop j (xs @ [CHR 0x00]))" and len: "j + n \<le> length xs + 1"
    by (simp_all split: if_splits)
  have "take k (drop i v) = take k (drop (j + i) (xs @ [CHR 0x00]))"
    unfolding v using assms(2) by (simp add: drop_take add.commute min_def del: drop_append take_append)
  with PLit len assms(2) show ?thesis by (simp del: drop_append take_append)
next
  case (PHeap b j)
  then show ?thesis using assms those_take_drop [of n j _ v i k]
    by (auto simp: add.assoc split: option.splits block.splits if_splits)
qed

lemma owns_live_len: "owns L R s \<Longrightarrow> (t, v) \<in># L \<Longrightarrow> s_len t = int (length v)"
  using owns_view [of L R s t v] read_bytes_length [of "heap s" "s_data t" "nat (s_len t)" v]
  by (auto simp: str_view_def split: if_splits)

section \<open>Rules for the primitives\<close>

lemma wp_load_bytes:
  "owns L R s \<Longrightarrow> readable L R p n v \<Longrightarrow> Q v s \<Longrightarrow> wp E (load_bytes p n) Q s"
  by (simp add: wp_def load_bytes_def readableD)

lemma wp_c_malloc:
  assumes "owns L R s"
    and ok: "\<And>b s'. owns L (R(b \<mapsto> fresh_cells k n)) s' \<Longrightarrow> R b = None \<Longrightarrow> world s' = world s \<Longrightarrow>
               alloc_count s' = alloc_count s \<Longrightarrow> Q (PHeap b 0) s'"
    and err: "\<And>s'. owns L R s' \<Longrightarrow> world s' = world s \<Longrightarrow>
               mallocs s \<noteq> [] \<Longrightarrow> \<not> hd (mallocs s) \<Longrightarrow> Q PNull s'"
  shows "wp E (c_malloc k n) Q s"
proof (cases "mallocs s \<noteq> [] \<and> \<not> hd (mallocs s)")
  case True
  then show ?thesis using assms(1) by (simp add: wp_def c_malloc_def err)
next
  case False
  have "R (next_block s) = None" using owns_fresh_raw [OF assms(1)] by simp
  moreover have "owns L (R(next_block s \<mapsto> fresh_cells k n))
      (s\<lparr>mallocs := tl (mallocs s), next_block := Suc (next_block s),
         heap := (heap s)(next_block s \<mapsto> fresh_cells k n)\<rparr>)"
    by (rule owns_alloc [OF assms(1)]) simp_all
  ultimately show ?thesis using False by (auto simp: wp_def c_malloc_def intro!: ok)
qed

text \<open>Fresh memory through the allocator entry point.\<close>

lemma wp_nq_try_realloc_new:
  assumes "owns L R s" and "0 < n"
    and ok: "\<And>b s'. owns L (R(b \<mapsto> fresh_cells k n)) s' \<Longrightarrow> R b = None \<Longrightarrow> world s' = world s \<Longrightarrow>
               n \<le> nq_allocation_limit c \<Longrightarrow> Q (Inr (PHeap b 0)) s'"
    and err: "\<And>e s'. owns L R s' \<Longrightarrow> world s' = world s \<Longrightarrow>
               (e = ALLOC_SIZE \<longleftrightarrow> nq_allocation_limit c < n) \<Longrightarrow> request_refused c s n e \<Longrightarrow> Q (Inl e) s'"
  shows "wp E (nq_try_realloc c k PNull n) Q s"
proof -
  have "wp E (c_malloc k n) (\<lambda>p s'. (p = PNull \<longrightarrow> owns L R s' \<and> world s' = world s \<and>
        mallocs s \<noteq> [] \<and> \<not> hd (mallocs s)) \<and>
      (p \<noteq> PNull \<longrightarrow> (\<exists>b. p = PHeap b 0 \<and> R b = None \<and> owns L (R(b \<mapsto> fresh_cells k n)) s'
         \<and> world s' = world s))) s"
    by (rule wp_c_malloc [OF assms(1)]) auto
  then show ?thesis
    using assms(1,2)
    by (auto simp: nq_try_realloc_def request_refused_def wp_simps intro!: err elim!: wp_mono)
      (auto intro!: ok)
qed

lemma wp_nq_realloc_new:
  assumes "owns L R s" and "0 < n" and "E (Exit 1)"
    and ok: "\<And>b s'. owns L (R(b \<mapsto> fresh_cells k n)) s' \<Longrightarrow> R b = None \<Longrightarrow> world s' = world s \<Longrightarrow>
               n \<le> nq_allocation_limit c \<Longrightarrow> Q (PHeap b 0) s'"
  shows "wp E (nq_realloc c k PNull n) Q s"
  unfolding nq_realloc_def wp_bind
  by (rule wp_nq_try_realloc_new [OF assms(1,2)])
    (auto simp: wp_simps nq_alloc_fail_def nq_size_fail_def assms(3) intro!: ok)

lemma wp_store_bytes:
  assumes "owns L R s" and "R b = Some (BBytes cs)" and "i + length bs \<le> length cs"
    and "\<And>s'. owns L (R(b \<mapsto> BBytes (overwrite cs i (map Some bs)))) s' \<Longrightarrow> world s' = world s \<Longrightarrow> Q () s'"
  shows "wp E (store_bytes (PHeap b i) bs) Q s"
  using assms owns_raw [OF assms(1,2)] owns_put_raw [OF assms(1,2)]
  by (simp add: wp_def store_bytes_def)

lemma wp_c_free_raw:
  assumes "owns L R s" and "R b = Some blk"
    and "\<And>s'. owns L (R(b := None)) s' \<Longrightarrow> world s' = world s \<Longrightarrow> errno s' = errno s \<Longrightarrow> Q () s'"
  shows "wp E (c_free (PHeap b 0)) Q s"
  using assms owns_raw [OF assms(1,2)] owns_free_raw [OF assms(1,2)]
  by (simp add: wp_def c_free_def)

lemma wp_c_free_null: "wp E (c_free PNull) Q s = Q () s"
  by (simp add: wp_def c_free_def)

text \<open>Growing a block through the allocator moves its cells to a fresh block.\<close>

lemma wp_c_realloc:
  assumes "owns L R s" and "R b = Some blk"
    and grow: "(\<exists>cs. blk = BBytes cs \<and> blk' = BBytes (resize_cells n cs)) \<or>
      (\<exists>ts. blk = BStrs ts \<and> blk' = BStrs (resize_cells (n div sizeof_str) ts)) \<or>
      (\<exists>ps. blk = BPtrs ps \<and> blk' = BPtrs (resize_cells (n div sizeof_ptr) ps))"
    and ok: "\<And>b' s'. owns L (R(b := None, b' \<mapsto> blk')) s' \<Longrightarrow> R b' = None \<Longrightarrow> world s' = world s \<Longrightarrow>
               Q (PHeap b' 0) s'"
    and err: "\<And>s'. owns L R s' \<Longrightarrow> world s' = world s \<Longrightarrow> Q PNull s'"
  shows "wp E (c_realloc (PHeap b 0) n) Q s"
proof (cases "mallocs s \<noteq> [] \<and> \<not> hd (mallocs s)")
  case True
  then show ?thesis using assms(1) owns_raw [OF assms(1,2)] by (simp add: wp_def c_realloc_def err)
next
  case False
  let ?s = "s\<lparr>mallocs := tl (mallocs s), next_block := Suc (next_block s),
              heap := (heap s)(b := None, next_block s := Some blk')\<rparr>"
  have none: "R (next_block s) = None" using owns_fresh_raw [OF assms(1)] by simp
  have "\<not> is_owner blk'" using grow by auto
  then have "owns L (R(b := None, next_block s := Some blk')) ?s"
    by (rule owns_move_raw [OF assms(1,2)]) simp_all
  then have "Q (PHeap (next_block s) 0) ?s" by (rule ok [OF _ none]) simp
  moreover have "c_realloc (PHeap b 0) n s = Ret (PHeap (next_block s) 0) ?s"
    using False grow owns_raw [OF assms(1,2)] by (auto simp: c_realloc_def)
  ultimately show ?thesis by (simp add: wp_def)
qed

lemma wp_nq_try_realloc_grow:
  assumes "owns L R s" and "R b = Some blk" and "0 < n"
    and grow: "(\<exists>cs. blk = BBytes cs \<and> blk' = BBytes (resize_cells n cs)) \<or>
      (\<exists>ts. blk = BStrs ts \<and> blk' = BStrs (resize_cells (n div sizeof_str) ts)) \<or>
      (\<exists>ps. blk = BPtrs ps \<and> blk' = BPtrs (resize_cells (n div sizeof_ptr) ps))"
    and ok: "\<And>b' s'. owns L (R(b := None, b' \<mapsto> blk')) s' \<Longrightarrow> R b' = None \<Longrightarrow> world s' = world s \<Longrightarrow>
               n \<le> nq_allocation_limit c \<Longrightarrow> Q (Inr (PHeap b' 0)) s'"
    and err: "\<And>e s'. owns L R s' \<Longrightarrow> world s' = world s \<Longrightarrow>
               (e = ALLOC_SIZE \<longleftrightarrow> nq_allocation_limit c < n) \<Longrightarrow> Q (Inl e) s'"
  shows "wp E (nq_try_realloc c k (PHeap b 0) n) Q s"
proof -
  have "wp E (c_realloc (PHeap b 0) n) (\<lambda>p s'. (p = PNull \<longrightarrow> owns L R s' \<and> world s' = world s) \<and>
      (p \<noteq> PNull \<longrightarrow> (\<exists>b'. p = PHeap b' 0 \<and> R b' = None \<and> owns L (R(b := None, b' \<mapsto> blk')) s'
         \<and> world s' = world s))) s"
    by (rule wp_c_realloc [OF assms(1,2) grow]) auto
  then show ?thesis
    using assms(1,3)
    by (auto simp: nq_try_realloc_def wp_simps intro!: err elim!: wp_mono)
      (auto intro!: ok)
qed

section \<open>System calls and ownership\<close>

lemma wp_sys_owns:
  assumes "owns L R s" and "E Blocked"
    and "\<And>r s'. owns L R s' \<Longrightarrow> script s = r # script s' \<Longrightarrow> trace s' = trace s @ [ev] \<Longrightarrow>
        errno s' = r_errno r \<Longrightarrow> Q r s'"
  shows "wp E (sys ev) Q s"
  using assms by (auto simp: wp_sys split: list.splits)

lemma wp_sys_quiet_owns:
  assumes "owns L R s" and "E Blocked"
    and "\<And>r s'. owns L R s' \<Longrightarrow> script s = r # script s' \<Longrightarrow> trace s' = trace s @ [ev] \<Longrightarrow>
        errno s' = errno s \<Longrightarrow> Q r s'"
  shows "wp E (sys_quiet ev) Q s"
  using assms by (auto simp: wp_sys_quiet split: list.splits)

end
