(* ===== verification/Strings.thy ===== *)
theory Strings
  imports Ownership
begin

text \<open>
  \<open>NQStr\<close>: reference-counted byte strings (\<open>nq_str\<close> to \<open>nq_owned_str_copy\<close>, \<open>nq_empty_str\<close>,
  \<open>nq_str_clone\<close>, \<open>nq_str_drop\<close>, \<open>nq_str_len\<close>, \<open>nq_str_concat\<close>, \<open>nq_str_get\<close>, \<open>nq_str_slice\<close> of
  \<open>stdlib/runtime.c\<close> and \<open>nq_str_eq\<close> of \<open>stdlib/runtime.h\<close>).

  A handle is three words: where its bytes are, how many, and the \<open>NQStrOwner\<close> that counts the
  handles sharing the storage (NULL for bytes the runtime does not own). For every operation a
  rule \<open>wp_...\<close> says what it does to the ownership invariant and which bytes the result denotes.
\<close>

section \<open>Operations\<close>

definition block_of :: "ptr \<Rightarrow> nat nq" where
  "block_of p = (case p of PHeap b 0 \<Rightarrow> ret b | _ \<Rightarrow> stop Undefined)"

definition nq_empty_str :: nqstr where
  "nq_empty_str = \<lparr>s_data = PLit [] 0, s_len = 0, s_owner = None\<rparr>"

text \<open>Called on bytes the runtime does not own: string literals and entries of \<open>argv\<close>.\<close>

definition nq_str :: "config \<Rightarrow> string \<Rightarrow> nqstr nq" where
  "nq_str c data =
     (case nq_cstr_length c data of
        None \<Rightarrow> nq_size_fail
      | Some len \<Rightarrow> ret \<lparr>s_data = PLit data 0, s_len = int len, s_owner = None\<rparr>)"

definition nq_try_str_take :: "config \<Rightarrow> ptr \<Rightarrow> nat \<Rightarrow> (alloc_failure + nqstr) nq" where
  "nq_try_str_take c storage len =
     (if len > nq_str_limit c \<or> len \<ge> nq_allocation_limit c
      then andthen (c_free storage) (ret (Inl ALLOC_SIZE))
      else bind (nq_try_realloc c KStruct PNull sizeof_owner) (\<lambda>r.
        case r of
          Inl status \<Rightarrow> andthen (c_free storage) (ret (Inl status))
        | Inr owner \<Rightarrow>
            bind (block_of owner) (\<lambda>ow.
            andthen (store_owner ow 1 storage)
              (ret (Inr \<lparr>s_data = storage, s_len = int len, s_owner = Some ow\<rparr>)))))"

definition nq_try_cstr_copy :: "config \<Rightarrow> ptr \<Rightarrow> nat \<Rightarrow> (alloc_failure + ptr) nq" where
  "nq_try_cstr_copy c data len =
     (if len > nq_str_limit c then ret (Inl ALLOC_SIZE)
      else case nq_size_add len 1 (nq_allocation_limit c) of
        None \<Rightarrow> ret (Inl ALLOC_SIZE)
      | Some sz \<Rightarrow>
          bind (nq_try_realloc c KBytes PNull sz) (\<lambda>r.
            case r of
              Inl status \<Rightarrow> ret (Inl status)
            | Inr out \<Rightarrow>
                andthen (only_if (len \<noteq> 0) (bind (load_bytes data len) (store_bytes out)))
                (andthen (store_bytes (ptr_plus out len) [CHR 0x00])
                (ret (Inr out)))))"

text \<open>When a copy of \<open>n\<close> bytes is refused: it is too long, or memory is.\<close>

definition copy_refused :: "config \<Rightarrow> nqstate \<Rightarrow> nat \<Rightarrow> alloc_failure \<Rightarrow> bool" where
  "copy_refused c s n status \<longleftrightarrow>
     nq_str_limit c < n \<and> status = ALLOC_SIZE \<or> request_refused c s (n + 1) status"

definition nq_try_str_copy :: "config \<Rightarrow> ptr \<Rightarrow> nat \<Rightarrow> (alloc_failure + nqstr) nq" where
  "nq_try_str_copy c data len =
     (if sizeof_owner > nq_allocation_limit c then ret (Inl ALLOC_SIZE)
      else bind (nq_try_cstr_copy c data len) (\<lambda>r.
        case r of
          Inl status \<Rightarrow> ret (Inl status)
        | Inr storage \<Rightarrow> nq_try_str_take c storage len))"

definition nq_owned_str_copy :: "config \<Rightarrow> ptr \<Rightarrow> int \<Rightarrow> nqstr nq" where
  "nq_owned_str_copy c data len =
     (if \<not> nq_str_size c len then nq_size_fail
      else bind (nq_try_str_copy c data (nat len)) (\<lambda>r.
        case r of Inl status \<Rightarrow> nq_alloc_fail status | Inr out \<Rightarrow> ret out))"

definition nq_str_has_nul :: "nqstr \<Rightarrow> bool nq" where
  "nq_str_has_nul t =
     (if s_len t > 0
      then bind (load_bytes (s_data t) (nat (s_len t))) (\<lambda>bs. ret (CHR 0x00 \<in> set bs))
      else ret False)"

definition nq_str_storage_is_valid :: "config \<Rightarrow> nqstr \<Rightarrow> bool" where
  "nq_str_storage_is_valid c t \<longleftrightarrow> nq_str_size c (s_len t) \<and> (s_len t = 0 \<or> s_data t \<noteq> PNull)"

definition nq_str_clone :: "config \<Rightarrow> nqstr \<Rightarrow> nqstr nq" where
  "nq_str_clone c t =
     (if \<not> nq_str_size c (s_len t) then nq_size_fail
      else case s_owner t of
        None \<Rightarrow> ret t
      | Some ow \<Rightarrow> bind (load_owner ow) (\<lambda>(ref_count, storage).
          if ref_count = SIZE_MAX then nq_size_fail
          else andthen (store_owner ow (ref_count + 1) storage) (ret t)))"

definition nq_str_drop :: "nqstr option \<Rightarrow> nqstr option nq" where
  "nq_str_drop p = nullable p (\<lambda>t.
     andthen
       (case s_owner t of
          None \<Rightarrow> ret ()
        | Some ow \<Rightarrow> bind (load_owner ow) (\<lambda>(ref_count, storage).
            if ref_count = 0
            then andthen (emit (Fputs ''nauqtype runtime: invalid string reference count\<newline>''))
                   (stop Aborted)
            else andthen (store_owner ow (ref_count - 1) storage)
              (only_if (ref_count - 1 = 0)
                (andthen (c_free storage) (c_free (PHeap ow 0))))))
       (ret nq_empty_str))"

definition nq_str_len :: "config \<Rightarrow> nqstr \<Rightarrow> int nq" where
  "nq_str_len c t = (if \<not> nq_str_size c (s_len t) then nq_size_fail else ret (to_i32 (s_len t)))"

definition nq_str_eq :: "nqstr \<Rightarrow> nqstr \<Rightarrow> bool nq" where
  "nq_str_eq l r =
     (if s_len l \<noteq> s_len r then ret False
      else bind (load_bytes (s_data l) (to_size (s_len l))) (\<lambda>a.
           bind (load_bytes (s_data r) (to_size (s_len l))) (\<lambda>b. ret (a = b))))"

definition nq_str_concat :: "config \<Rightarrow> nqstr \<Rightarrow> nqstr \<Rightarrow> nqstr nq" where
  "nq_str_concat c l r =
     (if \<not> nq_str_size c (s_len l) \<or> \<not> nq_str_size c (s_len r) then nq_size_fail
      else case nq_size_add (nat (s_len l)) (nat (s_len r)) (nq_str_limit c) of
        None \<Rightarrow> nq_size_fail
      | Some len \<Rightarrow>
        (case nq_size_add len 1 (nq_allocation_limit c) of
           None \<Rightarrow> nq_size_fail
         | Some sz \<Rightarrow>
           if sizeof_owner > nq_allocation_limit c then nq_size_fail
           else
             bind (nq_realloc c KBytes PNull sz) (\<lambda>buffer.
             andthen (only_if (s_len l \<noteq> 0)
               (bind (load_bytes (s_data l) (nat (s_len l))) (store_bytes buffer)))
             (andthen (only_if (s_len r \<noteq> 0)
               (bind (load_bytes (s_data r) (nat (s_len r)))
                 (store_bytes (ptr_plus buffer (nat (s_len l))))))
             (andthen (store_bytes (ptr_plus buffer len) [CHR 0x00])
             (bind (nq_try_str_take c buffer len) (\<lambda>res.
                case res of Inl status \<Rightarrow> nq_alloc_fail status | Inr t \<Rightarrow> ret t)))))))"

definition nq_str_get :: "config \<Rightarrow> nqstr \<Rightarrow> int \<Rightarrow> nq_option_i32 nq" where
  "nq_str_get c t index =
     (if \<not> nq_str_size c (s_len t) then nq_size_fail
      else if index < 0 \<or> index \<ge> to_i32 (s_len t) then ret None
      else bind (load_bytes (ptr_plus (s_data t) (nat index)) 1)
             (\<lambda>bs. ret (Some (of_char (hd bs)))))"

definition nq_str_slice :: "config \<Rightarrow> nqstr \<Rightarrow> int \<Rightarrow> int \<Rightarrow> nq_option_str nq" where
  "nq_str_slice c t start stp =
     (if \<not> nq_str_size c (s_len t) then nq_size_fail
      else if start < 0 \<or> stp < start \<or> stp > to_i32 (s_len t) then ret None
      else
        let slice = \<lparr>s_data = (if start = 0 then s_data t else ptr_plus (s_data t) (nat start)),
                     s_len = stp - start, s_owner = s_owner t\<rparr>
        in bind (nq_str_clone c slice) (\<lambda>r. ret (Some r)))"

section \<open>Rules\<close>

lemma wp_nq_size_fail [wp_simps]:
  "wp E nq_size_fail Q s = E (Exit 1)"
  by (simp add: nq_size_fail_def wp_simps)

lemma wp_nq_alloc_fail [wp_simps]: "wp E (nq_alloc_fail st) Q s = E (Exit 1)"
  by (simp add: nq_alloc_fail_def wp_simps)

lemma str_size_live: "nq_str_size c (s_len t) \<Longrightarrow> 0 \<le> s_len t \<and> nat (s_len t) \<le> nq_str_limit c"
  by (simp add: nq_str_size_def)

lemma wp_store_owner_new:
  assumes "owns L R s" and "R b = Some (BBytes cs)" and "R ow = Some (BUninit sizeof_owner)"
    and "n \<le> length cs" and "those (take n cs) = Some v"
    and "\<And>s'. owns (add_mset (\<lparr>s_data = PHeap b 0, s_len = int n, s_owner = Some ow\<rparr>, v) L)
           (R(b := None, ow := None)) s' \<Longrightarrow> world s' = world s \<Longrightarrow> Q () s'"
  shows "wp E (store_owner ow 1 (PHeap b 0)) Q s"
  using assms(6) owns_raw [OF assms(1,3)] owns_make_owner [OF assms(1-5)]
  by (simp add: wp_def store_owner_def)

text \<open>Taking a buffer: the storage is consumed, on success by the new string.\<close>

lemma wp_nq_try_str_take:
  assumes "owns L R s" and "R b = Some (BBytes cs)"
    and "n \<le> length cs" and "those (take n cs) = Some v"
    and ok: "\<And>t s'. owns (add_mset (t, v) L) (R(b := None)) s' \<Longrightarrow> world s' = world s \<Longrightarrow>
               s_len t = int n \<Longrightarrow> s_data t = PHeap b 0 \<Longrightarrow> n \<le> nq_str_limit c \<Longrightarrow> Q (Inr t) s'"
    and err: "\<And>e s'. owns L (R(b := None)) s' \<Longrightarrow> world s' = world s \<Longrightarrow> Q (Inl e) s'"
  shows "wp E (nq_try_str_take c (PHeap b 0) n) Q s"
proof -
  have free: "wp E (andthen (c_free (PHeap b 0)) (ret (Inl e))) Q s'"
    if "owns L R s'" "world s' = world s" for e s'
    using that assms(2) err by (auto simp: wp_simps intro!: wp_c_free_raw [where R = R])
  show ?thesis
  proof (cases "n > nq_str_limit c \<or> n \<ge> nq_allocation_limit c")
    case True
    then show ?thesis using free [OF assms(1) refl] by (simp add: nq_try_str_take_def)
  next
    case False
    then have limits: "n \<le> nq_str_limit c" by simp
    show ?thesis
      unfolding nq_try_str_take_def if_not_P [OF False] wp_bind
    proof (rule wp_nq_try_realloc_new [OF assms(1)], goal_cases)
      case 1
      then show ?case by (simp add: sizeof_owner_def)
    next
      case (2 ow s')
      then have "b \<noteq> ow" using assms(2) by auto
      then show ?case
        using 2 assms(2)
        by (auto simp: block_of_def wp_simps fun_upd_twist limits simp del: One_nat_def
            intro!: wp_store_owner_new [OF 2(1) _ _ assms(3,4)] ok)
    next
      case (3 e s')
      then show ?case by (simp add: free)
    qed
  qed
qed

text \<open>A fresh NUL-terminated copy.\<close>

lemma wp_nq_try_cstr_copy:
  assumes "owns L R s" and "readable L R p n v"
    and ok: "\<And>b s'. owns L (R(b \<mapsto> BBytes (map Some v @ [Some CHR 0x00]))) s' \<Longrightarrow> R b = None \<Longrightarrow>
               world s' = world s \<Longrightarrow> n \<le> nq_str_limit c \<Longrightarrow> Q (Inr (PHeap b 0)) s'"
    and err: "\<And>e s'. owns L R s' \<Longrightarrow> world s' = world s \<Longrightarrow> copy_refused c s n e \<Longrightarrow> Q (Inl e) s'"
  shows "wp E (nq_try_cstr_copy c p n) Q s"
proof (cases "n > nq_str_limit c \<or> n + 1 > nq_allocation_limit c")
  case True
  then show ?thesis
    using assms(1) by (auto simp: nq_try_cstr_copy_def nq_size_add_eq [OF allocation_limit_le] wp_simps
        copy_refused_def request_refused_def intro!: err)
next
  case False
  have len: "length v = n" using readableD [OF assms(2,1)] by (rule read_bytes_length)
  have add: "nq_size_add n 1 (nq_allocation_limit c) = Some (n + 1)"
    using False by (simp add: nq_size_add_eq [OF allocation_limit_le])
  have nle: "\<not> n > nq_str_limit c" using False by simp
  show ?thesis
    unfolding nq_try_cstr_copy_def if_not_P [OF nle] add option.case wp_bind
  proof (rule wp_nq_try_realloc_new [OF assms(1)], goal_cases)
    case 1
    then show ?case by simp
  next
    case (2 b s')
    let ?cells = "replicate (n + 1) None :: char option list"
    have new: "owns L (R(b \<mapsto> BBytes ?cells)) s'" using 2(1) by simp
    have fin: "wp E (store_bytes (PHeap b n) [CHR 0x00]) (\<lambda>_. Q (Inr (PHeap b 0))) s''"
      if "owns L (R(b \<mapsto> BBytes (map Some v @ [None]))) s''" "world s'' = world s" for s''
    proof (rule wp_store_bytes [OF that(1), where cs = "map Some v @ [None]"], goal_cases)
      case (3 u)
      have "overwrite (map Some v @ [None]) n (map Some [CHR 0x00]) = map Some v @ [Some CHR 0x00]"
        using len by (simp add: overwrite_def)
      with 3 that 2 nle show ?case by (auto intro!: ok)
    qed (use len in auto)
    show ?case
    proof (cases "n = 0")
      case True
      then show ?thesis using new len 2 fin [of s'] by (simp add: wp_simps)
    next
      case False
      have "wp E (load_bytes p n) (\<lambda>bs. wp E (store_bytes (PHeap b 0) bs)
          (\<lambda>_. wp E (store_bytes (PHeap b n) [CHR 0x00]) (\<lambda>_. Q (Inr (PHeap b 0))))) s'"
      proof (rule wp_load_bytes [OF new readable_upd [OF assms(2) 2(2)]],
          rule wp_store_bytes [OF new, where cs = ?cells], goal_cases)
        case (3 u)
        have "overwrite ?cells 0 (map Some v) = map Some v @ [None]"
          using overwrite_replicate0 [of "map Some v" "n + 1" None] len by simp
        with 3 2 show ?case by (auto intro!: fin)
      qed (use len in auto)
      with False show ?thesis by (simp add: wp_simps)
    qed
  next
    case (3 e s')
    then show ?case by (simp add: wp_simps err copy_refused_def)
  qed
qed

lemma wp_nq_try_str_copy:
  assumes "owns L R s" and "readable L R p n v"
    and ok: "\<And>t s'. owns (add_mset (t, v) L) R s' \<Longrightarrow> world s' = world s \<Longrightarrow>
               s_len t = int n \<Longrightarrow> n \<le> nq_str_limit c \<Longrightarrow> Q (Inr t) s'"
    and err: "\<And>e s'. owns L R s' \<Longrightarrow> world s' = world s \<Longrightarrow> Q (Inl e) s'"
  shows "wp E (nq_try_str_copy c p n) Q s"
proof (cases "sizeof_owner > nq_allocation_limit c")
  case True
  then show ?thesis using assms by (simp add: nq_try_str_copy_def wp_simps)
next
  case False
  have len: "length v = n" using readableD [OF assms(2,1)] by (rule read_bytes_length)
  show ?thesis
    unfolding nq_try_str_copy_def if_not_P [OF False] wp_bind
  proof (rule wp_nq_try_cstr_copy [OF assms(1,2)], goal_cases)
    case (1 b s')
    have "R(b := None) = R" using 1(2) by simp
    with 1 show ?case
      by (auto simp: len intro!: wp_nq_try_str_take [OF 1(1), of b] ok err)
  next
    case (2 e s')
    then show ?case by (simp add: wp_simps err)
  qed
qed

lemma wp_nq_owned_str_copy:
  assumes "owns L R s" and "0 \<le> n \<Longrightarrow> readable L R p (nat n) v" and "E (Exit 1)"
    and ok: "\<And>t s'. owns (add_mset (t, v) L) R s' \<Longrightarrow> world s' = world s \<Longrightarrow> Q t s'"
  shows "wp E (nq_owned_str_copy c p n) Q s"
proof (cases "nq_str_size c n")
  case True
  then have "0 \<le> n" by (simp add: nq_str_size_def)
  then show ?thesis
    using True assms(3)
    by (auto simp: nq_owned_str_copy_def wp_simps intro!: wp_nq_try_str_copy [OF assms(1,2)] ok)
qed (simp add: nq_owned_str_copy_def wp_simps assms(3))

text \<open>Cloning a live handle, and cloning a slice of one.\<close>

lemma wp_nq_str_clone_view:
  assumes "owns L R s" and "E (Exit 1)"
    and view: "str_view (heap s) t = Some v" and placed: "placed (heap s) t"
    and ok: "\<And>s'. owns (add_mset (t, v) L) R s' \<Longrightarrow> world s' = world s \<Longrightarrow>
               nq_str_size c (s_len t) \<Longrightarrow> Q t s'"
  shows "wp E (nq_str_clone c t) Q s"
proof (cases "nq_str_size c (s_len t)")
  case False
  then show ?thesis by (simp add: nq_str_clone_def wp_simps assms(2))
next
  case True
  show ?thesis
  proof (cases "s_owner t")
    case None
    with True placed owns_add_static [OF assms(1) None _ view] show ?thesis
      by (simp add: nq_str_clone_def wp_simps placed_def ok)
  next
    case (Some ow)
    with placed obtain n b i where h: "heap s ow = Some (BOwner n (PHeap b 0))" "s_data t = PHeap b i"
      by (auto simp: placed_def)
    have "owns (add_mset (t, v) L) R (put_block ow (BOwner (n + 1) (PHeap b 0)) s)"
      by (rule owns_share [OF assms(1) h(1) Some h(2) view])
    with True Some h assms(2) show ?thesis
      by (auto simp: nq_str_clone_def wp_def bind_def andthen_def ret_def load_owner_def store_owner_def
          nq_size_fail_def emit_def modify_def stop_def intro!: ok)
  qed
qed

lemma wp_nq_str_clone:
  assumes "owns L R s" and "(t, v) \<in># L" and "E (Exit 1)"
    and "\<And>s'. owns (add_mset (t, v) L) R s' \<Longrightarrow> world s' = world s \<Longrightarrow> Q t s'"
  shows "wp E (nq_str_clone c t) Q s"
  by (rule wp_nq_str_clone_view [where E = E, OF assms(1,3) owns_view [OF assms(1,2)] owns_placed [OF assms(1,2)]])
    (rule assms(4))

text \<open>Dropping a live handle never aborts, and leaves the inert empty string.\<close>

lemma wp_nq_str_drop:
  assumes "owns (add_mset (t, v) L) R s"
    and ok: "\<And>s'. owns L R s' \<Longrightarrow> world s' = world s \<Longrightarrow> Q (Some nq_empty_str) s'"
  shows "wp E (nq_str_drop (Some t)) Q s"
proof (cases "s_owner t")
  case None
  then show ?thesis using owns_remove_static [OF assms(1) None] by (simp add: nq_str_drop_def wp_simps ok)
next
  case (Some ow)
  have "placed (heap s) t" by (rule owns_placed [OF assms(1), of t v]) simp
  with Some obtain n b where h: "heap s ow = Some (BOwner n (PHeap b 0))"
    by (auto simp: placed_def)
  obtain cs where cs: "heap s b = Some (BBytes cs)" "0 < n"
    using owns_owner [OF assms(1) h] by (auto simp: owner_ok_def)
  show ?thesis
  proof (cases "n = 1")
    case True
    then have "owns L R (s\<lparr>heap := (heap s)(b := None, ow := None)\<rparr>)"
      using owns_release [OF assms(1) _ Some] h by simp
    moreover have "(heap s)(ow \<mapsto> blk, b := None, ow := None) = (heap s)(b := None, ow := None)" for blk
      by (auto simp: fun_eq_iff)
    ultimately show ?thesis using True Some h cs
      by (auto simp: nq_str_drop_def nullable_def wp_def bind_def andthen_def ret_def load_owner_def
          store_owner_def only_if_def c_free_def put_block_def intro!: ok)
  next
    case False
    then obtain m where m: "n = Suc m" "0 < m" using cs(2) by (cases n) auto
    then have "owns L R (put_block ow (BOwner m (PHeap b 0)) s)"
      using owns_unshare [OF assms(1) _ Some] h by simp
    with m Some h show ?thesis
      by (auto simp: nq_str_drop_def nullable_def wp_def bind_def andthen_def ret_def load_owner_def
          store_owner_def only_if_def intro!: ok)
  qed
qed

lemma wp_at_nq_str_drop:
  assumes "owns (add_mset (t, v) L) R s"
    and "\<And>s'. owns L R s' \<Longrightarrow> world s' = world s \<Longrightarrow> Q nq_empty_str s'"
  shows "wp E (at_ptr nq_str_drop t) Q s"
  unfolding wp_at_ptr by (rule wp_nq_str_drop [OF assms(1)]) (simp add: assms(2))

text \<open>The inert strings (empty, and all zero) own nothing: dropping them changes nothing.\<close>

definition inert :: "nqstr \<Rightarrow> bool" where
  "inert t \<longleftrightarrow> s_owner t = None \<and> s_len t = 0 \<and> (\<forall>b i. s_data t \<noteq> PHeap b i) \<and>
     (\<forall>xs i. s_data t = PLit xs i \<longrightarrow> i \<le> length xs)"

lemma inert_simps [simp]: "inert nq_empty_str" "inert zero_str"
  by (simp_all add: inert_def nq_empty_str_def zero_str_def)

lemma wp_nq_str_drop_inert: "inert t \<Longrightarrow> wp E (nq_str_drop (Some t)) Q s = Q (Some nq_empty_str) s"
  by (simp add: nq_str_drop_def wp_simps inert_def)

lemma owns_add_inert: "owns L R s \<Longrightarrow> inert t \<Longrightarrow> owns (add_mset (t, []) L) R s"
  by (rule owns_add_static, simp_all add: inert_def str_view_def) (cases "s_data t"; simp)

lemma owns_remove_inert: "owns (add_mset (t, v) L) R s \<Longrightarrow> inert t \<Longrightarrow> owns L R s"
  by (rule owns_remove_static) (auto simp: inert_def)

text \<open>Concatenation: a fresh string with the bytes of both.\<close>

lemma store_after:
  assumes "owns L (R(b \<mapsto> BBytes (map Some xs @ replicate k None))) s" and "length ys \<le> k"
    and "\<And>s'. owns L (R(b \<mapsto> BBytes (map Some (xs @ ys) @ replicate (k - length ys) None))) s' \<Longrightarrow>
           world s' = world s \<Longrightarrow> Q () s'"
  shows "wp E (store_bytes (PHeap b (length xs)) ys) Q s"
proof (rule wp_store_bytes [OF assms(1), where cs = "map Some xs @ replicate k None"], goal_cases)
  case (3 s')
  have "overwrite (map Some xs @ replicate k None) (length xs) (map Some ys)
      = map Some (xs @ ys) @ replicate (k - length ys) None"
    using overwrite_replicate [of "map Some ys" k "map Some xs" None] assms(2) by simp
  with 3 show ?case by (auto intro: assms(3))
qed (use assms(2) in auto)

text \<open>Appending borrowed bytes to a partly filled buffer, the empty case skipped as in the code.\<close>

lemma wp_append_bytes:
  assumes "owns L (R(b \<mapsto> BBytes (map Some xs @ replicate k None))) s" and "R b = None"
    and "readable L R p n ys" and "n \<le> k"
    and "\<And>s'. owns L (R(b \<mapsto> BBytes (map Some (xs @ ys) @ replicate (k - n) None))) s' \<Longrightarrow>
           world s' = world s \<Longrightarrow> Q () s'"
  shows "wp E (only_if (n \<noteq> 0) (bind (load_bytes p n) (store_bytes (PHeap b (length xs))))) Q s"
proof -
  have r: "readable L (R(b \<mapsto> blk)) p n ys" for blk by (rule readable_upd [OF assms(3,2)])
  have len: "length ys = n" using readableD [OF r assms(1)] by (rule read_bytes_length)
  show ?thesis
  proof (cases "n = 0")
    case True
    then show ?thesis using assms len by (simp add: wp_simps)
  next
    case False
    show ?thesis
      unfolding wp_only_if wp_bind if_P [OF False]
      by (rule wp_load_bytes [OF assms(1) r], rule store_after [OF assms(1)])
        (use len assms in auto)
  qed
qed

lemma wp_nq_str_concat:
  assumes "owns L R s" and "(l, v1) \<in># L" and "(r, v2) \<in># L" and "E (Exit 1)"
    and ok: "\<And>t s'. owns (add_mset (t, v1 @ v2) L) R s' \<Longrightarrow> world s' = world s \<Longrightarrow>
               length v1 + length v2 \<le> nq_str_limit c \<Longrightarrow> Q t s'"
  shows "wp E (nq_str_concat c l r) Q s"
proof -
  have lens: "s_len l = int (length v1)" "s_len r = int (length v2)"
    using owns_live_len [OF assms(1)] assms(2,3) by auto
  have reads: "readable L R (s_data l) (length v1) v1" "readable L R (s_data r) (length v2) v2"
    using readable_live [OF assms(2), of R] readable_live [OF assms(3), of R] by (simp_all add: lens)
  let ?n = "length v1 + length v2"
  show ?thesis
  proof (cases "?n \<le> nq_str_limit c \<and> ?n + 1 \<le> nq_allocation_limit c \<and> sizeof_owner \<le> nq_allocation_limit c")
    case False
    then show ?thesis using assms(4)
      by (auto simp: nq_str_concat_def wp_simps lens nq_size_add_eq str_limit_size allocation_limit_le)
  next
    case True
    have step1: "\<not> (\<not> nq_str_size c (s_len l) \<or> \<not> nq_str_size c (s_len r))"
      using True by (simp add: nq_str_size_def lens)
    have step2: "nq_size_add (nat (s_len l)) (nat (s_len r)) (nq_str_limit c) = Some ?n"
      "nq_size_add ?n 1 (nq_allocation_limit c) = Some (?n + 1)"
      using True by (simp_all add: lens nq_size_add_eq str_limit_size allocation_limit_le)
    have step3: "\<not> sizeof_owner > nq_allocation_limit c" using True by simp
    show ?thesis
      unfolding nq_str_concat_def if_not_P [OF step1] step2 option.case if_not_P [OF step3] wp_bind
    proof (rule wp_nq_realloc_new [where E = E, OF assms(1) _ assms(4)], goal_cases)
      case 1
      then show ?case by simp
    next
      case (2 b s1)
      have s1: "owns L (R(b \<mapsto> BBytes (map Some [] @ replicate (?n + 1) None))) s1" using 2(1) by simp
      show ?case
        unfolding wp_andthen lens nat_int of_nat_eq_0_iff ptr_plus.simps add_0
      proof (rule wp_append_bytes [OF s1 2(2) reads(1), simplified list.size, unfolded add_0], goal_cases)
        case 1
        then show ?case by simp
      next
        case (2 s2)
        then have s2: "owns L (R(b \<mapsto> BBytes (map Some v1 @ replicate (length v2 + 1) None))) s2" by simp
        show ?case
        proof (rule wp_append_bytes [OF s2 _ reads(2)], goal_cases)
          case (3 s3)
          then have s3: "owns L (R(b \<mapsto> BBytes (map Some (v1 @ v2) @ replicate 1 None))) s3" by simp
          have at: "?n = length (v1 @ v2)" by simp
          show ?case
            unfolding at
          proof (rule store_after [OF s3], goal_cases)
            case (2 s4)
            have "R(b := None) = R" using \<open>R b = None\<close> by simp
            with 2 3 \<open>world s2 = world s1\<close> \<open>world s1 = world s\<close> True show ?case
              by (auto simp: wp_simps assms(4) those_eq_Some intro!: ok
                  wp_nq_try_str_take [OF 2(1), where cs = "map Some (v1 @ v2 @ [CHR 0x00])" and v = "v1 @ v2"])
          qed simp
        qed (use \<open>R b = None\<close> in auto)
      qed
    qed
  qed
qed

lemma wp_nq_str_slice:
  assumes "owns L R s" and "(t, v) \<in># L" and "E (Exit 1)"
    and none: "start < 0 \<or> stp < start \<or> stp > int (length v) \<Longrightarrow> Q None s"
    and ok: "\<And>u s'. 0 \<le> start \<Longrightarrow> start \<le> stp \<Longrightarrow> stp \<le> int (length v) \<Longrightarrow>
               owns (add_mset (u, take (nat (stp - start)) (drop (nat start) v)) L) R s' \<Longrightarrow>
               world s' = world s \<Longrightarrow> s_owner u = s_owner t \<Longrightarrow> Q (Some u) s'"
  shows "wp E (nq_str_slice c t start stp) Q s"
proof -
  have len: "s_len t = int (length v)" using owns_live_len [OF assms(1,2)] .
  show ?thesis
  proof (cases "nq_str_size c (s_len t)")
    case False
    then show ?thesis by (simp add: nq_str_slice_def wp_simps assms(3))
  next
    case True
    then have i32: "to_i32 (s_len t) = int (length v)"
      using str_limit_le [of c] by (simp add: nq_str_size_def len to_i32_id width_defs)
    show ?thesis
    proof (cases "start < 0 \<or> stp < start \<or> stp > int (length v)")
      case outside: True
      with True i32 none show ?thesis by (simp add: nq_str_slice_def wp_simps)
    next
      case False
      let ?u = "\<lparr>s_data = (if start = 0 then s_data t else ptr_plus (s_data t) (nat start)),
                  s_len = stp - start, s_owner = s_owner t\<rparr>"
      have view: "str_view (heap s) t = Some v" by (rule owns_view [OF assms(1,2)])
      have data: "s_data ?u = ptr_plus (s_data t) (nat start)"
        by (cases "s_data t") auto
      have "str_view (heap s) ?u = Some (take (nat (stp - start)) (drop (nat start) v))"
        using view False data read_bytes_part [of "heap s" "s_data t" "nat (s_len t)" v "nat start" "nat (stp - start)"]
        by (auto simp: str_view_def len)
      moreover have "placed (heap s) ?u"
        using owns_placed [OF assms(1,2)] by (cases "s_data t") (auto simp: placed_def split: option.splits)
      ultimately have "wp E (nq_str_clone c ?u) (\<lambda>r. Q (Some r)) s"
        by (rule wp_nq_str_clone_view [where E = E, OF assms(1,3)]) (use False in \<open>auto intro!: ok\<close>)
      with True False i32 show ?thesis by (simp add: nq_str_slice_def wp_simps Let_def)
    qed
  qed
qed

text \<open>Reading a live string: its length, one byte, a search for NUL, equality.\<close>

lemma wp_nq_str_len:
  assumes "owns L R s" and "(t, v) \<in># L" and "E (Exit 1)"
    and "length v \<le> nq_str_limit c \<Longrightarrow> Q (int (length v)) s"
  shows "wp E (nq_str_len c t) Q s"
  using assms str_limit_le [of c] owns_live_len [OF assms(1,2)]
  by (auto simp: nq_str_len_def nq_str_size_def wp_simps to_i32_id width_defs)

lemma wp_nq_str_get:
  assumes "owns L R s" and "(t, v) \<in># L" and "E (Exit 1)"
    and "Q (if 0 \<le> i \<and> i < int (length v) then Some (of_char (v ! nat i)) else None) s"
  shows "wp E (nq_str_get c t i) Q s"
proof -
  have len: "s_len t = int (length v)" using owns_live_len [OF assms(1,2)] .
  show ?thesis
  proof (cases "nq_str_size c (s_len t) \<and> 0 \<le> i \<and> i < int (length v)")
    case False
    then show ?thesis
      using assms(3,4) str_limit_le [of c] len
      by (auto simp: nq_str_get_def nq_str_size_def wp_simps to_i32_id width_defs split: if_splits)
  next
    case True
    then have i32: "to_i32 (s_len t) = int (length v)"
      using str_limit_le [of c] by (simp add: nq_str_size_def len to_i32_id width_defs)
    have "read_bytes (heap s) (s_data t) (length v) = Some v"
      using owns_view [OF assms(1,2)] by (simp add: str_view_def len)
    then have "read_bytes (heap s) (ptr_plus (s_data t) (nat i)) 1 = Some (take 1 (drop (nat i) v))"
      by (rule read_bytes_part) (use True in linarith)
    moreover have "take 1 (drop (nat i) v) = [v ! nat i]"
      using True by (subst Cons_nth_drop_Suc [symmetric]) (simp_all add: nat_less_iff)
    ultimately show ?thesis
      using True assms(4) i32 by (simp add: nq_str_get_def wp_simps) (simp add: wp_def load_bytes_def)
  qed
qed

lemma wp_nq_str_has_nul:
  assumes "owns L R s" and "(t, v) \<in># L" and "Q (CHR 0x00 \<in> set v) s"
  shows "wp E (nq_str_has_nul t) Q s"
  using assms owns_live_len [OF assms(1,2)] readable_live [OF assms(2), of R]
  by (auto simp: nq_str_has_nul_def wp_simps intro: wp_load_bytes)

lemma wp_nq_str_eq:
  assumes "owns L R s" and "(l, v1) \<in># L" and "(r, v2) \<in># L" and "length v1 \<le> SIZE_MAX"
    and "Q (v1 = v2) s"
  shows "wp E (nq_str_eq l r) Q s"
proof -
  have lens: "s_len l = int (length v1)" "s_len r = int (length v2)"
    using owns_live_len [OF assms(1)] assms(2,3) by auto
  have "readable L R (s_data l) (length v1) v1" "readable L R (s_data r) (length v2) v2"
    using readable_live [OF assms(2), of R] readable_live [OF assms(3), of R] by (simp_all add: lens)
  then show ?thesis
    using assms
    by (cases "v1 = v2")
      (auto simp: nq_str_eq_def wp_simps lens to_size_of_nat intro!: wp_load_bytes [OF assms(1)])
qed

lemma live_storage_valid:
  "owns L R s \<Longrightarrow> (t, v) \<in># L \<Longrightarrow> nq_str_storage_is_valid c t \<longleftrightarrow> length v \<le> nq_str_limit c"
  using owns_live_len [of L R s t v] owns_view [of L R s t v]
  by (auto simp: nq_str_storage_is_valid_def nq_str_size_def str_view_def)

section \<open>A fresh process\<close>

text \<open>The state a process starts in, and a string literal of the program; used by the examples.\<close>

definition boot :: "bool list \<Rightarrow> reply list \<Rightarrow> nqstate" where
  "boot ms rs = \<lparr>heap = Map.empty, next_block = 0, mallocs = ms, alloc_count = 0, errno = 0,
     process_args = None, process_argc = 0, environ = None, script = rs, trace = []\<rparr>"

definition literal :: "string \<Rightarrow> nqstr" where
  "literal v = \<lparr>s_data = PLit v 0, s_len = int (length v), s_owner = None\<rparr>"

definition plain_config :: config where
  "plain_config = \<lparr>max_allocation_bytes = None, max_sequence_length = None, alloc_fail_after = None,
     strerror_text = (\<lambda>_. None)\<rparr>"

lemma good_plain_config: "good_config plain_config"
  by (simp add: good_config_def plain_config_def)

lemma boot_fields [simp]: "script (boot ms rs) = rs" "heap (boot ms rs) = Map.empty" "trace (boot ms rs) = []"
  by (simp_all add: boot_def)

lemma owns_boot: "owns {#} Map.empty (boot ms rs)"
  by (simp add: owns_def boot_def)

lemma owns_literal: "owns L R s \<Longrightarrow> owns (add_mset (literal v, v) L) R s"
  by (rule owns_add_static) (simp_all add: literal_def str_view_def)

section \<open>Properties\<close>

text \<open>
  C3: Concatenating two live strings returns a new string that denotes the bytes of both, in
  order; the operands and every other string stay as they were, nothing leaks, and the only
  other outcome is the process failing fast.
\<close>

theorem str_concat_denotes_append:
  assumes "owns L R s" and "(l, v) \<in># L" and "(r, w) \<in># L"
  shows "wp fails_fast (nq_str_concat c l r)
     (\<lambda>t s'. owns (add_mset (t, v @ w) L) R s' \<and> world s' = world s) s"
  by (rule wp_nq_str_concat [where E = fails_fast, OF assms]) simp_all

theorem str_concat_denotes_append_witness:
  "wp fails_fast (nq_str_concat plain_config (literal ''ab'') (literal ''c''))
     (\<lambda>t s'. owns {#(t, ''abc''), (literal ''ab'', ''ab''), (literal ''c'', ''c'')#} Map.empty s' \<and>
        world s' = world (boot [] [])) (boot [] [])"
  by (rule wp_mono [OF str_concat_denotes_append
      [where v = "''ab''" and w = "''c''", OF owns_literal [OF owns_literal [OF owns_boot]]]]) simp_all

text \<open>
  C4: Slicing returns \<open>None\<close> exactly for bounds outside the string; otherwise a string that
  shares the storage and denotes the bytes between the bounds.
\<close>

theorem str_slice_denotes_sublist:
  assumes "owns L R s" and "(t, v) \<in># L"
  shows "wp fails_fast (nq_str_slice c t from til)
     (\<lambda>r s'. world s' = world s \<and> (case r of
        None \<Rightarrow> (from < 0 \<or> til < from \<or> int (length v) < til) \<and> s' = s
      | Some u \<Rightarrow> 0 \<le> from \<and> from \<le> til \<and> til \<le> int (length v) \<and> s_owner u = s_owner t \<and>
          owns (add_mset (u, take (nat (til - from)) (drop (nat from) v)) L) R s')) s"
  by (rule wp_nq_str_slice [where E = fails_fast, OF assms]) auto

theorem str_slice_denotes_sublist_witness:
  "wp fails_fast (nq_str_slice plain_config (literal ''abc'') 1 3)
     (\<lambda>r s'. world s' = world (boot [] []) \<and> (case r of
        None \<Rightarrow> False
      | Some u \<Rightarrow> s_owner u = None \<and> owns {#(u, ''bc''), (literal ''abc'', ''abc'')#} Map.empty s')) (boot [] [])"
  by (rule wp_mono [OF str_slice_denotes_sublist [where v = "''abc''", OF owns_literal [OF owns_boot]]])
    (auto simp: literal_def split: option.splits)

text \<open>
  C2: Dropping a live string always returns, releases exactly that handle and leaves the inert
  empty string behind, so that dropping the variable again changes nothing; a string and the
  clones of it can be dropped in any order, and after the last one the heap is empty.
\<close>

theorem str_drop_releases_one_handle:
  assumes "owns (add_mset (t, v) L) R s"
  shows "wp no_stop (bind (nq_str_drop (Some t)) nq_str_drop)
     (\<lambda>p s'. p = Some nq_empty_str \<and> owns L R s' \<and> world s' = world s \<and>
        (L = {#} \<longrightarrow> R = Map.empty \<longrightarrow> heap s' = Map.empty)) s"
  unfolding wp_bind
  by (rule wp_nq_str_drop [OF assms]) (auto simp: wp_nq_str_drop_inert dest: owns_empty_heap)

theorem str_drop_releases_one_handle_witness:
  "wp no_stop (bind (nq_str_drop (Some (literal ''x''))) nq_str_drop)
     (\<lambda>p s'. p = Some nq_empty_str \<and> heap s' = Map.empty) (boot [] [])"
  by (rule wp_mono [OF str_drop_releases_one_handle [OF owns_literal [OF owns_boot], of "''x''"]]) simp

end
