(* ===== verification/Errors.thy ===== *)
theory Errors
  imports Strings
begin

text \<open>
  \<open>NQIoErr\<close>: the error value of every fallible operation of \<open>stdlib/runtime.c\<close>
  (\<open>nq_allocation_io_err\<close>, \<open>nq_io_kind_for_code\<close>, \<open>nq_make_io_err_details\<close>, \<open>nq_errno_io_err\<close>,
  \<open>nq_errno_io_err_with_detail\<close>, \<open>nq_os_string\<close>, \<open>nq_io_err_clone\<close>, \<open>nq_io_err_drop\<close> and the
  accessors), and the constructors of results.

  An error owns five strings. Building one allocates; when memory or a size limit stands in the
  way the functions fall back on \<open>nq_allocation_io_err\<close>, which allocates nothing. The rules show
  that building an error always returns, leaks nothing whatever allocation fails, and yields
  either the error asked for or the fallback.

  A C string that is a literal or NULL is a \<open>string option\<close>; the \<open>detail\<close>, which may be a
  buffer on the heap, is a pointer.
\<close>

section \<open>Building errors\<close>

definition nq_allocation_io_err :: "config \<Rightarrow> string option \<Rightarrow> alloc_failure \<Rightarrow> nqioerr nq" where
  "nq_allocation_io_err c operation status =
     (let sz = (status = ALLOC_SIZE) in
      bind (nq_str c (if sz then ''size limit exceeded'' else ''out of memory'')) (\<lambda>body.
      bind (nq_str c (if sz then ''invalid_input'' else ''other'')) (\<lambda>kind.
      bind (nq_str c (case operation of None \<Rightarrow> '''' | Some op \<Rightarrow> op)) (\<lambda>op.
      ret \<lparr>e_code = (if sz then 0 else ENOMEM), e_os_code = (if sz then 0 else ENOMEM),
           e_text = body, e_kind = kind, e_operation = op,
           e_path = nq_empty_str, e_other_path = nq_empty_str,
           e_has_path = False, e_has_other_path = False\<rparr>))))"

definition nq_io_kind_for_code :: "int \<Rightarrow> string" where
  "nq_io_kind_for_code code =
     (if code = ENOENT then ''not_found''
      else if code = EACCES \<or> code = EPERM then ''permission_denied''
      else if code = EEXIST then ''already_exists''
      else if code = EINTR then ''interrupted''
      else if code = EXDEV then ''cross_device''
      else if code = ENOTSUP then ''unsupported''
      else if code = EINVAL then ''invalid_input''
      else if code = ENOTDIR then ''not_directory''
      else if code = EISDIR then ''is_directory''
      else if code = ENOTEMPTY then ''directory_not_empty''
      else if code = EPIPE then ''broken_pipe''
      else ''other'')"

definition nq_io_err_drop :: "nqioerr option \<Rightarrow> nqioerr option nq" where
  "nq_io_err_drop p = nullable p (\<lambda>err.
     bind (at_ptr nq_str_drop (e_text err)) (\<lambda>a.
     bind (at_ptr nq_str_drop (e_kind err)) (\<lambda>b.
     bind (at_ptr nq_str_drop (e_operation err)) (\<lambda>c.
     bind (at_ptr nq_str_drop (e_path err)) (\<lambda>d.
     bind (at_ptr nq_str_drop (e_other_path err)) (\<lambda>e.
     ret \<lparr>e_code = 0, e_os_code = 0, e_text = a, e_kind = b, e_operation = c, e_path = d,
          e_other_path = e, e_has_path = False, e_has_other_path = False\<rparr>))))))"

definition nq_io_err_clone :: "config \<Rightarrow> nqioerr \<Rightarrow> nqioerr nq" where
  "nq_io_err_clone c err =
     bind (nq_str_clone c (e_text err)) (\<lambda>t. let err = err\<lparr>e_text := t\<rparr> in
     bind (nq_str_clone c (e_kind err)) (\<lambda>t. let err = err\<lparr>e_kind := t\<rparr> in
     bind (nq_str_clone c (e_operation err)) (\<lambda>t. let err = err\<lparr>e_operation := t\<rparr> in
     bind (nq_str_clone c (e_path err)) (\<lambda>t. let err = err\<lparr>e_path := t\<rparr> in
     bind (nq_str_clone c (e_other_path err)) (\<lambda>t. let err = err\<lparr>e_other_path := t\<rparr> in
     ret err)))))"

text \<open>\<open>if (status == NQ_ALLOC_OK && wanted) status = f(..., &err.field);\<close>\<close>

definition then_field :: "bool \<Rightarrow> (alloc_failure + nqstr) nq \<Rightarrow> (nqstr \<Rightarrow> nqioerr \<Rightarrow> nqioerr) \<Rightarrow>
    nqioerr \<times> alloc_failure option \<Rightarrow> (nqioerr \<times> alloc_failure option) nq" where
  "then_field wanted produce put = (\<lambda>(err, status).
     if status = None \<and> wanted
     then bind produce (\<lambda>r. case r of
         Inl st \<Rightarrow> ret (err, Some st) | Inr t \<Rightarrow> ret (put t err, None))
     else ret (err, status))"

definition bytes_of :: "nqstr option \<Rightarrow> ptr" where
  "bytes_of p = (case p of None \<Rightarrow> PNull | Some t \<Rightarrow> s_data t)"

definition length_of :: "nqstr option \<Rightarrow> nat" where
  "length_of p = (case p of None \<Rightarrow> 0 | Some t \<Rightarrow> to_size (s_len t))"

text \<open>The middle of \<open>nq_make_io_err_details\<close>: writing the message, and filling the fields.\<close>

definition write_message :: "ptr \<Rightarrow> string \<Rightarrow> nat \<Rightarrow> ptr \<Rightarrow> nat \<Rightarrow> nat \<Rightarrow> unit nq" where
  "write_message message operation operation_len detail detail_len separator_len =
     andthen (only_if (operation_len > 0)
       (andthen (store_bytes message (take operation_len operation))
          (store_bytes (ptr_plus message operation_len) '': '')))
     (andthen (bind (load_bytes detail detail_len)
         (store_bytes (ptr_plus message (operation_len + separator_len))))
     (store_bytes (ptr_plus message (operation_len + separator_len + detail_len)) [CHR 0x00]))"

definition fill_fields ::
  "config \<Rightarrow> ptr \<Rightarrow> nat \<Rightarrow> string \<Rightarrow> nat \<Rightarrow> string \<Rightarrow> nat \<Rightarrow> nqstr option \<Rightarrow> nqstr option \<Rightarrow>
     (nqioerr \<times> alloc_failure option) nq" where
  "fill_fields c message message_len kind kind_len operation operation_len path other_path =
     bind (then_field True (nq_try_str_take c message message_len)
             (\<lambda>t e. e\<lparr>e_text := t\<rparr>) (zero_ioerr, None)) (\<lambda>x.
     bind (then_field True (nq_try_str_copy c (PLit kind 0) kind_len)
             (\<lambda>t e. e\<lparr>e_kind := t\<rparr>) x) (\<lambda>x.
     bind (then_field True (nq_try_str_copy c (PLit operation 0) operation_len)
             (\<lambda>t e. e\<lparr>e_operation := t\<rparr>) x) (\<lambda>x.
     bind (then_field (path \<noteq> None) (nq_try_str_copy c (bytes_of path) (length_of path))
             (\<lambda>t e. e\<lparr>e_path := t\<rparr>) x) (\<lambda>x.
     then_field (other_path \<noteq> None)
             (nq_try_str_copy c (bytes_of other_path) (length_of other_path))
             (\<lambda>t e. e\<lparr>e_other_path := t\<rparr>) x))))"

definition nq_make_io_err_details ::
  "config \<Rightarrow> int \<Rightarrow> string \<Rightarrow> string option \<Rightarrow> nqstr option \<Rightarrow> nqstr option \<Rightarrow> ptr \<Rightarrow> nqioerr nq" where
  "nq_make_io_err_details c os_code kind operation path other_path detail =
     (let actual_operation = (case operation of None \<Rightarrow> '''' | Some op \<Rightarrow> op);
          actual_detail = (if detail = PNull then PLit ''I/O operation failed'' 0 else detail);
          failed = nq_allocation_io_err c (Some actual_operation);
          invalid = (\<lambda>p. p \<noteq> None \<and> \<not> nq_str_storage_is_valid c (the p));
          too_long = (\<lambda>p. p \<noteq> None \<and> length_of p \<ge> nq_allocation_limit c)
      in bind (load_c_string actual_detail) (\<lambda>detail_text.
      case (nq_cstr_length c actual_operation, nq_cstr_length c detail_text, nq_cstr_length c kind) of
        (Some operation_len, Some detail_len, Some kind_len) \<Rightarrow>
          (let separator_len = (if operation_len = 0 then 0 else 2) in
           case Option.bind (nq_size_add operation_len separator_len (nq_str_limit c)) (\<lambda>n.
                nq_size_add n detail_len (nq_str_limit c)) of
             None \<Rightarrow> failed ALLOC_SIZE
           | Some message_len \<Rightarrow>
           (case nq_size_add message_len 1 (nq_allocation_limit c) of
             None \<Rightarrow> failed ALLOC_SIZE
           | Some sz \<Rightarrow>
             if sizeof_owner > nq_allocation_limit c \<or> invalid path \<or> invalid other_path
             then failed ALLOC_SIZE
             else if too_long path \<or> too_long other_path \<or> kind_len \<ge> nq_allocation_limit c
             then failed ALLOC_SIZE
             else bind (nq_try_realloc c KBytes PNull sz) (\<lambda>r. case r of
               Inl status \<Rightarrow> failed status
             | Inr message \<Rightarrow>
               andthen (write_message message actual_operation operation_len
                          actual_detail detail_len separator_len)
               (bind (fill_fields c message message_len kind kind_len
                        actual_operation operation_len path other_path) (\<lambda>(err, status).
                case status of
                  Some st \<Rightarrow> bind (nq_io_err_drop (Some err)) (\<lambda>_. failed st)
                | None \<Rightarrow>
                    ret (err\<lparr>e_code := os_code, e_os_code := os_code,
                             e_has_path := (path \<noteq> None), e_has_other_path := (other_path \<noteq> None),
                             e_path := (if path = None then nq_empty_str else e_path err),
                             e_other_path := (if other_path = None then nq_empty_str
                                              else e_other_path err)\<rparr>))))))
      | _ \<Rightarrow> failed ALLOC_SIZE))"

definition strerror :: "config \<Rightarrow> int \<Rightarrow> ptr" where
  "strerror c code = (case strerror_text c code of None \<Rightarrow> PNull | Some t \<Rightarrow> PLit t 0)"

definition nq_errno_io_err ::
  "config \<Rightarrow> string option \<Rightarrow> nqstr option \<Rightarrow> nqstr option \<Rightarrow> int \<Rightarrow> nqioerr nq" where
  "nq_errno_io_err c operation path other_path error_code =
     (if error_code = ENOMEM then nq_allocation_io_err c operation ALLOC_OOM
      else
        let detail = strerror c error_code
        in nq_make_io_err_details c (to_i32 error_code) (nq_io_kind_for_code error_code)
             operation path other_path
             (if detail = PNull then PLit ''I/O operation failed'' 0 else detail))"

definition nq_errno_io_err_with_detail ::
  "config \<Rightarrow> string option \<Rightarrow> nqstr option \<Rightarrow> nqstr option \<Rightarrow> int \<Rightarrow> string \<Rightarrow> nqioerr nq" where
  "nq_errno_io_err_with_detail c operation path other_path error_code details =
     (if error_code = ENOMEM then nq_allocation_io_err c operation ALLOC_OOM
      else
        let failed = nq_allocation_io_err c operation;
            system_len = (case strerror_text c error_code of
              None \<Rightarrow> Some 0 | Some t \<Rightarrow> nq_cstr_length c t);
            system_detail = (case strerror_text c error_code of None \<Rightarrow> '''' | Some t \<Rightarrow> t)
        in case (nq_cstr_length c details, system_len) of
             (Some context_len, Some system_len) \<Rightarrow>
               (case Option.bind (nq_size_add context_len (if system_len = 0 then 0 else 2) (nq_str_limit c))
                   (\<lambda>n. nq_size_add n system_len (nq_str_limit c)) of
                  None \<Rightarrow> failed ALLOC_SIZE
                | Some detail_len \<Rightarrow>
                (case nq_size_add detail_len 1 (nq_allocation_limit c) of
                  None \<Rightarrow> failed ALLOC_SIZE
                | Some sz \<Rightarrow>
                  bind (nq_try_realloc c KBytes PNull sz) (\<lambda>r. case r of
                    Inl status \<Rightarrow> failed status
                  | Inr detail \<Rightarrow>
                    andthen (store_bytes detail (take context_len details))
                    (andthen (only_if (system_len > 0)
                      (andthen (store_bytes (ptr_plus detail context_len) '': '')
                        (store_bytes (ptr_plus detail (context_len + 2)) (take system_len system_detail))))
                    (andthen (store_bytes (ptr_plus detail detail_len) [CHR 0x00])
                    (bind (nq_make_io_err_details c (to_i32 error_code) (nq_io_kind_for_code error_code)
                             operation path other_path detail) (\<lambda>err.
                    andthen (c_free detail) (ret err))))))))
           | _ \<Rightarrow> failed ALLOC_SIZE)"

definition nq_invalid_input_io_err ::
  "config \<Rightarrow> string option \<Rightarrow> nqstr option \<Rightarrow> nqstr option \<Rightarrow> string \<Rightarrow> nqioerr nq" where
  "nq_invalid_input_io_err c operation path other_path detail =
     nq_make_io_err_details c 0 ''invalid_input'' operation path other_path (PLit detail 0)"

definition nq_invalid_data_io_err :: "config \<Rightarrow> string option \<Rightarrow> nqstr option \<Rightarrow> string \<Rightarrow> nqioerr nq" where
  "nq_invalid_data_io_err c operation path detail =
     nq_make_io_err_details c 0 ''invalid_data'' operation path None (PLit detail 0)"

definition nq_make_io_err :: "config \<Rightarrow> int \<Rightarrow> string \<Rightarrow> nqioerr nq" where
  "nq_make_io_err c code body = nq_make_io_err_details c code ''other'' (Some '''') None None (PLit body 0)"

text \<open>The bytes handed to the kernel: a fresh NUL-terminated copy, or the error.\<close>

definition nq_os_string ::
  "config \<Rightarrow> nqstr \<Rightarrow> string option \<Rightarrow> nqstr option \<Rightarrow> nqstr option \<Rightarrow> (nqioerr + ptr) nq" where
  "nq_os_string c v operation path other_path =
     (let safe = (\<lambda>p. if p \<noteq> None \<and> nq_str_storage_is_valid c (the p) then p else None);
          safe_path = safe path; safe_other_path = safe other_path;
          failed = (\<lambda>m. bind m (\<lambda>err. ret (Inl err)))
      in if \<not> nq_str_size c (s_len v) \<or> nat (s_len v) \<ge> nq_allocation_limit c
         then failed (nq_allocation_io_err c operation ALLOC_SIZE)
         else if \<not> nq_str_storage_is_valid c v
         then failed (nq_invalid_input_io_err c operation safe_path safe_other_path ''invalid string storage'')
         else bind (nq_str_has_nul v) (\<lambda>nul.
           if nul
           then failed (nq_invalid_input_io_err c operation safe_path safe_other_path
                  ''embedded NUL is not allowed'')
           else bind (nq_try_cstr_copy c (s_data v) (nat (s_len v))) (\<lambda>r.
             case r of Inl status \<Rightarrow> failed (nq_allocation_io_err c operation status)
                     | Inr out \<Rightarrow> ret (Inr out))))"

section \<open>Accessors\<close>

definition nq_io_err_text :: "config \<Rightarrow> nqioerr \<Rightarrow> nqstr nq" where
  "nq_io_err_text c err = nq_str_clone c (e_text err)"

definition nq_io_err_kind :: "config \<Rightarrow> nqioerr option \<Rightarrow> nqstr nq" where
  "nq_io_err_kind c p = (case p of None \<Rightarrow> ret nq_empty_str | Some err \<Rightarrow> nq_str_clone c (e_kind err))"

definition nq_io_err_operation :: "config \<Rightarrow> nqioerr option \<Rightarrow> nqstr nq" where
  "nq_io_err_operation c p =
     (case p of None \<Rightarrow> ret nq_empty_str | Some err \<Rightarrow> nq_str_clone c (e_operation err))"

definition nq_io_err_path :: "config \<Rightarrow> nqioerr option \<Rightarrow> nq_option_str nq" where
  "nq_io_err_path c p =
     (case p of
        None \<Rightarrow> ret None
      | Some err \<Rightarrow>
          if \<not> e_has_path err then ret None
          else bind (nq_str_clone c (e_path err)) (\<lambda>t. ret (Some t)))"

definition nq_io_err_other_path :: "config \<Rightarrow> nqioerr option \<Rightarrow> nq_option_str nq" where
  "nq_io_err_other_path c p =
     (case p of
        None \<Rightarrow> ret None
      | Some err \<Rightarrow>
          if \<not> e_has_other_path err then ret None
          else bind (nq_str_clone c (e_other_path err)) (\<lambda>t. ret (Some t)))"

definition nq_io_err_os_code :: "nqioerr option \<Rightarrow> int" where
  "nq_io_err_os_code p = (case p of None \<Rightarrow> 0 | Some err \<Rightarrow> e_os_code err)"

section \<open>Constructors of results\<close>

definition nq_unit_ok :: nq_result_unit where "nq_unit_ok = Ok ()"
definition nq_unit_err :: "nqioerr \<Rightarrow> nq_result_unit" where "nq_unit_err err = Err err"
definition nq_str_ok :: "nqstr \<Rightarrow> nq_result_str" where "nq_str_ok v = Ok v"
definition nq_str_err :: "nqioerr \<Rightarrow> nq_result_str" where "nq_str_err err = Err err"
definition nq_bytes_ok :: "nqbytes \<Rightarrow> nq_result_bytes" where "nq_bytes_ok v = Ok v"
definition nq_bytes_err :: "nqioerr \<Rightarrow> nq_result_bytes" where "nq_bytes_err err = Err err"

definition nq_option_str_ok :: "nq_option_str \<Rightarrow> nq_result_option_str" where
  "nq_option_str_ok v = Ok v"

definition nq_option_str_err :: "nqioerr \<Rightarrow> nq_result_option_str" where
  "nq_option_str_err err = Err err"

definition nq_process_err :: "nqioerr \<Rightarrow> nq_result_process_result" where
  "nq_process_err err = Err err"

definition nq_process_ok :: "int \<Rightarrow> nqstr \<Rightarrow> nqstr \<Rightarrow> nq_result_process_result" where
  "nq_process_ok exit_code stdout_text stderr_text =
     Ok \<lparr>pr_exit_code = exit_code, pr_stdout = stdout_text, pr_stderr = stderr_text\<rparr>"

definition nq_process_io_err :: "config \<Rightarrow> int \<Rightarrow> ptr \<Rightarrow> nq_result_process_result nq" where
  "nq_process_io_err c code body =
     bind (if code = ENOMEM then nq_allocation_io_err c (Some ''run_process'') ALLOC_OOM
           else nq_make_io_err_details c code (nq_io_kind_for_code code) (Some ''run_process'')
                  None None body) (\<lambda>err. ret (Err err))"

lemmas result_defs = nq_unit_ok_def nq_unit_err_def nq_str_ok_def nq_str_err_def nq_bytes_ok_def
  nq_bytes_err_def nq_option_str_ok_def nq_option_str_err_def nq_process_err_def nq_process_ok_def

section \<open>Live errors\<close>

text \<open>The five strings an error owns, with the bytes they denote.\<close>

record err_view =
  v_text :: string
  v_kind :: string
  v_operation :: string
  v_path :: string
  v_other_path :: string

definition with_err :: "nqioerr \<Rightarrow> err_view \<Rightarrow> strs \<Rightarrow> strs" where
  "with_err e v L =
     add_mset (e_text e, v_text v) (add_mset (e_kind e, v_kind v)
     (add_mset (e_operation e, v_operation v) (add_mset (e_path e, v_path v)
     (add_mset (e_other_path e, v_other_path v) L))))"

definition empty_err :: nqioerr where
  "empty_err = \<lparr>e_code = 0, e_os_code = 0, e_text = nq_empty_str, e_kind = nq_empty_str,
     e_operation = nq_empty_str, e_path = nq_empty_str, e_other_path = nq_empty_str,
     e_has_path = False, e_has_other_path = False\<rparr>"

definition inert_err :: "nqioerr \<Rightarrow> bool" where
  "inert_err e \<longleftrightarrow> (\<forall>t \<in> {e_text e, e_kind e, e_operation e, e_path e, e_other_path e}. inert t)"

lemma inert_err_simps [simp]: "inert_err empty_err" "inert_err zero_ioerr"
  by (simp_all add: inert_err_def empty_err_def zero_ioerr_def)

lemma with_err_cong:
  "e_text e = e_text e' \<Longrightarrow> e_kind e = e_kind e' \<Longrightarrow> e_operation e = e_operation e' \<Longrightarrow>
     e_path e = e_path e' \<Longrightarrow> e_other_path e = e_other_path e' \<Longrightarrow> with_err e v L = with_err e' v L"
  by (simp add: with_err_def)

lemma with_err_subset: "L \<subseteq># with_err e v L"
  by (simp add: with_err_def subset_mset.order_trans [OF _ mset_subset_eq_add_right])

definition empty_view :: err_view where
  "empty_view = \<lparr>v_text = [], v_kind = [], v_operation = [], v_path = [], v_other_path = []\<rparr>"

lemma owns_add_inert_err: "owns L R s \<Longrightarrow> inert_err e \<Longrightarrow> owns (with_err e empty_view L) R s"
  by (simp add: with_err_def empty_view_def inert_err_def owns_add_inert)

text \<open>Dropping an error drops its strings; a dropped error owns nothing.\<close>

lemma wp_nq_io_err_drop:
  assumes "owns (with_err e v L) R s"
    and "\<And>s'. owns L R s' \<Longrightarrow> world s' = world s \<Longrightarrow> Q (Some empty_err) s'"
  shows "wp E (nq_io_err_drop (Some e)) Q s"
  unfolding nq_io_err_drop_def wp_nullable option.case wp_bind
  apply (rule wp_at_nq_str_drop [OF assms(1) [unfolded with_err_def]])
  apply (erule wp_at_nq_str_drop)+
  using assms(2) by (simp add: wp_simps empty_err_def)

lemma wp_nq_io_err_drop_inert:
  "inert_err e \<Longrightarrow> wp E (nq_io_err_drop (Some e)) Q s = Q (Some empty_err) s"
  by (simp add: nq_io_err_drop_def wp_simps wp_at_ptr inert_err_def wp_nq_str_drop_inert empty_err_def)

lemma wp_nq_io_err_clone:
  assumes "owns (with_err e v L) R s" and "E (Exit 1)"
    and "\<And>s'. owns (with_err e v (with_err e v L)) R s' \<Longrightarrow> world s' = world s \<Longrightarrow> Q e s'"
  shows "wp E (nq_io_err_clone c e) Q s"
proof -
  let ?M = "with_err e v L"
  have mem: "(e_text e, v_text v) \<in># ?M" "(e_kind e, v_kind v) \<in># ?M"
    "(e_operation e, v_operation v) \<in># ?M" "(e_path e, v_path v) \<in># ?M"
    "(e_other_path e, v_other_path v) \<in># ?M"
    by (simp_all add: with_err_def)
  have same: "e\<lparr>e_text := e_text e, e_kind := e_kind e, e_operation := e_operation e,
      e_path := e_path e, e_other_path := e_other_path e\<rparr> = e" by simp
  have all: "add_mset (e_other_path e, v_other_path v) (add_mset (e_path e, v_path v)
      (add_mset (e_operation e, v_operation v) (add_mset (e_kind e, v_kind v)
      (add_mset (e_text e, v_text v) ?M)))) = with_err e v ?M"
    by (simp add: with_err_def add_mset_commute)
  show ?thesis
    unfolding nq_io_err_clone_def wp_bind Let_def
    apply (rule wp_nq_str_clone [where E = E, OF assms(1) mem(1) assms(2)], simp)
    apply (rule wp_nq_str_clone [where E = E and v = "v_kind v"], assumption, simp add: mem, rule assms(2), simp)
    apply (rule wp_nq_str_clone [where E = E and v = "v_operation v"], assumption, simp add: mem, rule assms(2), simp)
    apply (rule wp_nq_str_clone [where E = E and v = "v_path v"], assumption, simp add: mem, rule assms(2), simp)
    apply (rule wp_nq_str_clone [where E = E and v = "v_other_path v"], assumption, simp add: mem, rule assms(2), simp)
    by (simp add: wp_simps all assms(3))
qed

section \<open>Borrowed C strings\<close>

definition c_readable :: "strs \<Rightarrow> raws \<Rightarrow> ptr \<Rightarrow> string \<Rightarrow> bool" where
  "c_readable L R p body \<longleftrightarrow>
     (\<forall>L' R' s. L \<subseteq># L' \<longrightarrow> R \<subseteq>\<^sub>m R' \<longrightarrow> owns L' R' s \<longrightarrow> c_string (heap s) p = Some body)"

lemma c_string_reads:
  assumes "c_string h p = Some body"
  shows "read_bytes h p (length body) = Some body"
proof (cases p)
  case (PLit xs i)
  with assms have i: "i \<le> length xs" and t: "body = takeWhile (\<lambda>ch. ch \<noteq> CHR 0x00) (drop i xs)"
    by (auto split: if_splits)
  have "length body \<le> length (drop i xs)" unfolding t by (rule length_takeWhile_le)
  moreover have "take (length body) (drop i xs) = body"
    unfolding t by (metis takeWhile_eq_take)
  ultimately show ?thesis using i PLit by simp
next
  case (PHeap b i)
  with assms obtain cs where cs: "h b = Some (BBytes cs)" by (auto split: option.splits block.splits)
  let ?row = "takeWhile (\<lambda>ch. ch \<noteq> Some (CHR 0x00)) (drop i cs)"
  have row: "i + length ?row < length cs" "those ?row = Some body"
    using assms PHeap cs by (auto simp: Let_def split: if_splits)
  then have "length body = length ?row" by (simp add: length_those)
  then have "take (length body) (drop i cs) = ?row" by (metis takeWhile_eq_take)
  with row cs PHeap \<open>length body = length ?row\<close> show ?thesis by simp
qed (use assms in simp)

lemma c_readableD: "c_readable L R p body \<Longrightarrow> owns L R s \<Longrightarrow> c_string (heap s) p = Some body"
  unfolding c_readable_def using map_le_refl subset_mset.order_refl by blast

lemma c_readable_bytes: "c_readable L R p body \<Longrightarrow> readable L R p (length body) body"
  unfolding readable_def c_readable_def by (blast intro: c_string_reads)

lemma takeWhile_plain: "z \<notin> set xs \<Longrightarrow> takeWhile (\<lambda>ch. ch \<noteq> z) xs = xs"
  by (auto simp: takeWhile_eq_all_conv)

lemma c_readable_lit: "CHR 0x00 \<notin> set xs \<Longrightarrow> c_readable L R (PLit xs 0) xs"
  by (auto simp: c_readable_def takeWhile_eq_all_conv)

lemma c_readable_raw:
  assumes "R b = Some (BBytes (map Some xs @ Some (CHR 0x00) # ws))" and "CHR 0x00 \<notin> set xs"
  shows "c_readable L R (PHeap b 0) xs"
proof -
  have "takeWhile (\<lambda>ch. ch \<noteq> Some (CHR 0x00)) (map Some xs @ Some (CHR 0x00) # ws) = map Some xs"
    using assms(2) by (subst takeWhile_append2) auto
  then show ?thesis
    using assms(1) by (auto simp: c_readable_def map_le_def dom_def Let_def dest!: owns_raw)
qed

lemma wp_load_c_string:
  "owns L R s \<Longrightarrow> c_readable L R p body \<Longrightarrow> Q body s \<Longrightarrow> wp E (load_c_string p) Q s"
  by (simp add: wp_def load_c_string_def c_readableD)

text \<open>Labels: the literals the runtime names operations and kinds with.\<close>

definition label :: "string \<Rightarrow> bool" where
  "label xs \<longleftrightarrow> CHR 0x00 \<notin> set xs \<and> length xs \<le> 128"

lemma cstr_length_plain:
  "CHR 0x00 \<notin> set xs \<Longrightarrow> nq_cstr_length c xs = (if length xs \<le> nq_str_limit c then Some (length xs) else None)"
  by (simp add: nq_cstr_length_eq Let_def takeWhile_plain)

lemma cstr_length_label: "good_config c \<Longrightarrow> label xs \<Longrightarrow> nq_cstr_length c xs = Some (length xs)"
  using str_limit_ge [of c] by (simp add: label_def cstr_length_plain)

lemma wp_nq_str_label:
  "good_config c \<Longrightarrow> label xs \<Longrightarrow> wp E (nq_str c xs) Q s =
     Q \<lparr>s_data = PLit xs 0, s_len = int (length xs), s_owner = None\<rparr> s"
  by (simp add: nq_str_def cstr_length_label wp_simps)

lemma label_kind [simp]: "label (nq_io_kind_for_code code)"
  by (simp add: nq_io_kind_for_code_def label_def)

section \<open>The error built when memory is short\<close>

definition static_str :: "string \<Rightarrow> nqstr" where
  "static_str xs = \<lparr>s_data = PLit xs 0, s_len = int (length xs), s_owner = None\<rparr>"

definition fallback :: "string \<Rightarrow> alloc_failure \<Rightarrow> nqioerr" where
  "fallback op status =
     \<lparr>e_code = (if status = ALLOC_SIZE then 0 else ENOMEM),
      e_os_code = (if status = ALLOC_SIZE then 0 else ENOMEM),
      e_text = static_str (if status = ALLOC_SIZE then ''size limit exceeded'' else ''out of memory''),
      e_kind = static_str (if status = ALLOC_SIZE then ''invalid_input'' else ''other''),
      e_operation = static_str op, e_path = nq_empty_str, e_other_path = nq_empty_str,
      e_has_path = False, e_has_other_path = False\<rparr>"

definition fallback_view :: "string \<Rightarrow> alloc_failure \<Rightarrow> err_view" where
  "fallback_view op status =
     \<lparr>v_text = (if status = ALLOC_SIZE then ''size limit exceeded'' else ''out of memory''),
      v_kind = (if status = ALLOC_SIZE then ''invalid_input'' else ''other''),
      v_operation = op, v_path = '''', v_other_path = ''''\<rparr>"

definition op_name :: "string option \<Rightarrow> string" where
  "op_name operation = (case operation of None \<Rightarrow> '''' | Some op \<Rightarrow> op)"

lemma op_name_simps [simp]: "op_name None = ''''" "op_name (Some op) = op"
  by (simp_all add: op_name_def)

lemma wp_nq_allocation_io_err:
  assumes "good_config c" and "label (op_name operation)"
  shows "wp E (nq_allocation_io_err c operation status) Q s = Q (fallback (op_name operation) status) s"
proof -
  have "label ''size limit exceeded''" "label ''out of memory''" "label ''invalid_input''" "label ''other''"
    by (simp_all add: label_def)
  with assms show ?thesis
    by (simp add: nq_allocation_io_err_def Let_def wp_simps wp_nq_str_label fallback_def
        static_str_def op_name_def split: option.splits)
qed

lemma str_view_static: "str_view h (static_str xs) = Some xs"
  by (simp add: str_view_def static_str_def)

lemma owns_add_static_str: "owns L R s \<Longrightarrow> owns (add_mset (static_str xs, xs) L) R s"
  by (rule owns_add_static) (simp_all add: str_view_static, simp_all add: static_str_def)

lemma owns_fallback: "owns L R s \<Longrightarrow> owns (with_err (fallback op status) (fallback_view op status) L) R s"
  by (simp add: with_err_def fallback_def fallback_view_def owns_add_inert owns_add_static_str)

section \<open>The error asked for\<close>

definition message :: "string \<Rightarrow> string \<Rightarrow> string" where
  "message op detail = (if op = '''' then detail else op @ '': '' @ detail)"

definition asked_view :: "string \<Rightarrow> string \<Rightarrow> string option \<Rightarrow> string option \<Rightarrow> string \<Rightarrow> err_view" where
  "asked_view kind op path other detail =
     \<lparr>v_text = message op detail, v_kind = kind, v_operation = op,
      v_path = (case path of None \<Rightarrow> '''' | Some x \<Rightarrow> x),
      v_other_path = (case other of None \<Rightarrow> '''' | Some x \<Rightarrow> x)\<rparr>"

definition asked :: "int \<Rightarrow> string \<Rightarrow> string \<Rightarrow> string option \<Rightarrow> string option \<Rightarrow> string \<Rightarrow> nqioerr \<Rightarrow> err_view \<Rightarrow> bool" where
  "asked code kind op path other detail e v \<longleftrightarrow>
     v = asked_view kind op path other detail \<and> e_code e = code \<and> e_os_code e = code \<and>
     e_has_path e = (path \<noteq> None) \<and> e_has_other_path e = (other \<noteq> None)"

lemma readable_any_raws: "(t, v) \<in># L \<Longrightarrow> s_len t = int n \<Longrightarrow> readable L R (s_data t) n v"
  using readable_live [of t v L R] by simp

text \<open>
  A path argument: NULL, or a pointer to a string whose bytes can be read, such as a live one.
\<close>

definition path_view :: "strs \<Rightarrow> raws \<Rightarrow> nqstr option \<Rightarrow> string option \<Rightarrow> bool" where
  "path_view L R p pv \<longleftrightarrow> (case p of None \<Rightarrow> pv = None
     | Some t \<Rightarrow> \<exists>x. pv = Some x \<and> s_len t = int (length x) \<and> readable L R (s_data t) (length x) x)"

lemma path_view_simps [simp]:
  "path_view L R None pv \<longleftrightarrow> pv = None"
  "path_view L R (Some t) pv \<longleftrightarrow>
     (\<exists>x. pv = Some x \<and> s_len t = int (length x) \<and> readable L R (s_data t) (length x) x)"
  by (simp_all add: path_view_def)

lemma path_view_mono: "path_view L R p pv \<Longrightarrow> L \<subseteq># L' \<Longrightarrow> R \<subseteq>\<^sub>m R' \<Longrightarrow> path_view L' R' p pv"
  by (cases p) (auto dest: readable_mono)

lemma path_view_upd: "path_view L R p pv \<Longrightarrow> R b = None \<Longrightarrow> path_view L (R(b \<mapsto> blk)) p pv"
  by (cases p) (auto intro: readable_upd)

lemma path_view_live: "owns L R s \<Longrightarrow> (t, x) \<in># L \<Longrightarrow> path_view L R (Some t) (Some x)"
  using owns_live_len [of L R s t x] readable_live [of t x L R] by simp

lemma path_view_valid:
  assumes "owns L R s" and "path_view L R (Some t) (Some x)"
  shows "nq_str_storage_is_valid c t \<longleftrightarrow> length x \<le> nq_str_limit c"
  using assms readableD [of L R "s_data t" "length x" x s]
  by (auto simp: nq_str_storage_is_valid_def nq_str_size_def)

lemma wp_then_field:
  assumes "status = None \<Longrightarrow> wanted \<Longrightarrow>
      wp E produce (\<lambda>r. case r of Inl st \<Rightarrow> Q (err, Some st) | Inr t \<Rightarrow> Q (put t err, None)) s"
    and "\<not> (status = None \<and> wanted) \<Longrightarrow> Q (err, status) s"
  shows "wp E (then_field wanted produce put (err, status)) Q s"
proof (cases "status = None \<and> wanted")
  case True
  have "(\<lambda>r. wp E (case r of Inl st \<Rightarrow> ret (err, Some st) | Inr t \<Rightarrow> ret (put t err, None)) Q)
      = (\<lambda>r. case r of Inl st \<Rightarrow> Q (err, Some st) | Inr t \<Rightarrow> Q (put t err, None))"
    by (auto simp: fun_eq_iff wp_simps split: sum.split)
  with True assms(1) show ?thesis by (simp add: then_field_def wp_bind)
qed (use assms(2) in \<open>auto simp: then_field_def wp_simps\<close>)

text \<open>
  The chain of allocations that fills an error. Until one fails, the error holds the strings
  made so far; whatever happens it can be dropped.
\<close>

definition filling :: "strs \<Rightarrow> raws \<Rightarrow> nqstate \<Rightarrow> err_view \<Rightarrow> nqioerr \<times> alloc_failure option \<Rightarrow> nqstate \<Rightarrow> bool" where
  "filling L R s0 v x s \<longleftrightarrow> world s = world s0 \<and>
     (\<exists>v'. owns (with_err (fst x) v' L) R s \<and> (snd x = None \<longrightarrow> v' = v))"

lemma wp_fill_step:
  assumes fill: "filling L R s0 v (err, status) s"
    and path: "wanted \<Longrightarrow> readable L R p n x"
    and put: "status = None \<Longrightarrow> wanted \<Longrightarrow> (\<And>t s'. owns (add_mset (t, x) (with_err err v L)) R s' \<Longrightarrow>
                owns (with_err (put t err) v' L) R s')"
    and skip: "\<not> wanted \<Longrightarrow> v' = v"
    and ok: "\<And>err' status' s'. filling L R s0 v' (err', status') s' \<Longrightarrow>
        (status' = None \<Longrightarrow> status = None \<and> (err' = err \<and> \<not> wanted \<or> wanted \<and> (\<exists>t. err' = put t err))) \<Longrightarrow>
        Q (err', status') s'"
  shows "wp E (then_field wanted (nq_try_str_copy c p n) put (err, status)) Q s"
proof (rule wp_then_field)
  assume none: "status = None" "wanted"
  then have owns: "owns (with_err err v L) R s" and world: "world s = world s0"
    using fill by (auto simp: filling_def)
  have "readable (with_err err v L) R p n x"
    by (rule readable_mono [OF path [OF none(2)] with_err_subset]) simp
  then show "wp E (nq_try_str_copy c p n)
      (\<lambda>r. case r of Inl st \<Rightarrow> Q (err, Some st) | Inr t \<Rightarrow> Q (put t err, None)) s"
    by (rule wp_nq_try_str_copy [OF owns])
      (use none world put in \<open>auto simp: filling_def intro!: ok\<close>)
next
  assume "\<not> (status = None \<and> wanted)"
  then show "Q (err, status) s"
    using fill skip by (intro ok) (auto simp: filling_def)
qed

lemma owns_put_field:
  "inert (e_text e) \<Longrightarrow> owns (add_mset (t, x) (with_err e v L)) R s \<Longrightarrow>
     owns (with_err (e\<lparr>e_text := t\<rparr>) (v\<lparr>v_text := x\<rparr>) L) R s"
  "inert (e_kind e) \<Longrightarrow> owns (add_mset (t, x) (with_err e v L)) R s \<Longrightarrow>
     owns (with_err (e\<lparr>e_kind := t\<rparr>) (v\<lparr>v_kind := x\<rparr>) L) R s"
  "inert (e_operation e) \<Longrightarrow> owns (add_mset (t, x) (with_err e v L)) R s \<Longrightarrow>
     owns (with_err (e\<lparr>e_operation := t\<rparr>) (v\<lparr>v_operation := x\<rparr>) L) R s"
  "inert (e_path e) \<Longrightarrow> owns (add_mset (t, x) (with_err e v L)) R s \<Longrightarrow>
     owns (with_err (e\<lparr>e_path := t\<rparr>) (v\<lparr>v_path := x\<rparr>) L) R s"
  "inert (e_other_path e) \<Longrightarrow> owns (add_mset (t, x) (with_err e v L)) R s \<Longrightarrow>
     owns (with_err (e\<lparr>e_other_path := t\<rparr>) (v\<lparr>v_other_path := x\<rparr>) L) R s"
proof -
  have move: "add_mset a (add_mset b M) = add_mset b (add_mset a M)" for a b :: "nqstr \<times> string" and M
    by (rule add_mset_commute)
  show "inert (e_text e) \<Longrightarrow> owns (add_mset (t, x) (with_err e v L)) R s \<Longrightarrow>
     owns (with_err (e\<lparr>e_text := t\<rparr>) (v\<lparr>v_text := x\<rparr>) L) R s"
    by (rule owns_remove_inert [where t = "e_text e" and v = "v_text v"]) (simp_all add: with_err_def add_mset_commute)
  show "inert (e_kind e) \<Longrightarrow> owns (add_mset (t, x) (with_err e v L)) R s \<Longrightarrow>
     owns (with_err (e\<lparr>e_kind := t\<rparr>) (v\<lparr>v_kind := x\<rparr>) L) R s"
    by (rule owns_remove_inert [where t = "e_kind e" and v = "v_kind v"]) (simp_all add: with_err_def add_mset_commute)
  show "inert (e_operation e) \<Longrightarrow> owns (add_mset (t, x) (with_err e v L)) R s \<Longrightarrow>
     owns (with_err (e\<lparr>e_operation := t\<rparr>) (v\<lparr>v_operation := x\<rparr>) L) R s"
    by (rule owns_remove_inert [where t = "e_operation e" and v = "v_operation v"]) (simp_all add: with_err_def add_mset_commute)
  show "inert (e_path e) \<Longrightarrow> owns (add_mset (t, x) (with_err e v L)) R s \<Longrightarrow>
     owns (with_err (e\<lparr>e_path := t\<rparr>) (v\<lparr>v_path := x\<rparr>) L) R s"
    by (rule owns_remove_inert [where t = "e_path e" and v = "v_path v"]) (simp_all add: with_err_def add_mset_commute)
  show "inert (e_other_path e) \<Longrightarrow> owns (add_mset (t, x) (with_err e v L)) R s \<Longrightarrow>
     owns (with_err (e\<lparr>e_other_path := t\<rparr>) (v\<lparr>v_other_path := x\<rparr>) L) R s"
    by (rule owns_remove_inert [where t = "e_other_path e" and v = "v_other_path v"]) (simp_all add: with_err_def add_mset_commute)
qed

lemma path_readable:
  assumes "path_view L R p pv" and "p \<noteq> None" and "owns L R s"
    and "length (case pv of None \<Rightarrow> '''' | Some x \<Rightarrow> x) \<le> SIZE_MAX"
  shows "readable L R (bytes_of p) (length_of p) (case pv of None \<Rightarrow> '''' | Some x \<Rightarrow> x)"
  using assms by (cases p) (auto simp: bytes_of_def length_of_def to_size_of_nat)

lemma wp_fill_rest:
  assumes "filling L R s0 \<lparr>v_text = msg, v_kind = '''', v_operation = '''', v_path = '''', v_other_path = ''''\<rparr>
      (err, status) s"
    and unset: "status = None \<Longrightarrow> inert (e_kind err) \<and> inert (e_operation err) \<and>
      inert (e_path err) \<and> inert (e_other_path err)"
    and path: "path \<noteq> None \<Longrightarrow> readable L R (bytes_of path) (length_of path) pv"
    and other: "other \<noteq> None \<Longrightarrow> readable L R (bytes_of other) (length_of other) ov"
    and none: "path = None \<Longrightarrow> pv = ''''" "other = None \<Longrightarrow> ov = ''''"
    and ok: "\<And>err status s'.
       filling L R s0 \<lparr>v_text = msg, v_kind = kind, v_operation = op, v_path = pv, v_other_path = ov\<rparr>
         (err, status) s' \<Longrightarrow>
       (status = None \<Longrightarrow> (path = None \<longrightarrow> inert (e_path err)) \<and> (other = None \<longrightarrow> inert (e_other_path err))) \<Longrightarrow>
       Q (err, status) s'"
  shows "wp E (bind (then_field True (nq_try_str_copy c (PLit kind 0) (length kind))
             (\<lambda>t e. e\<lparr>e_kind := t\<rparr>) (err, status)) (\<lambda>x.
     bind (then_field True (nq_try_str_copy c (PLit op 0) (length op))
             (\<lambda>t e. e\<lparr>e_operation := t\<rparr>) x) (\<lambda>x.
     bind (then_field (path \<noteq> None) (nq_try_str_copy c (bytes_of path) (length_of path))
             (\<lambda>t e. e\<lparr>e_path := t\<rparr>) x) (\<lambda>x.
     then_field (other \<noteq> None) (nq_try_str_copy c (bytes_of other) (length_of other))
             (\<lambda>t e. e\<lparr>e_other_path := t\<rparr>) x)))) Q s"
  unfolding wp_bind
proof (rule wp_fill_step [where v' = "\<lparr>v_text = msg, v_kind = kind, v_operation = '''', v_path = '''',
      v_other_path = ''''\<rparr>" and x = kind, OF assms(1)], goal_cases)
  case (2 t s')
  then show ?case using owns_put_field(2) [OF _ 2(3)] unset by simp
next
  case s1: (4 err1 status1 s1)
  show ?case
  proof (rule wp_fill_step [where v' = "\<lparr>v_text = msg, v_kind = kind, v_operation = op, v_path = '''',
      v_other_path = ''''\<rparr>" and x = op, OF s1(1)], goal_cases)
    case (2 t s')
    then show ?case using owns_put_field(3) [OF _ 2(3)] s1(2) unset by auto
  next
    case s2: (4 err2 status2 s2)
    show ?case
    proof (rule wp_fill_step [where v' = "\<lparr>v_text = msg, v_kind = kind, v_operation = op, v_path = pv,
        v_other_path = ''''\<rparr>" and x = pv, OF s2(1)], goal_cases)
      case (2 t s')
      then show ?case using owns_put_field(4) [OF _ 2(3)] s1(2) s2(2) unset by auto
    next
      case s3: (4 err3 status3 s3)
      show ?case
      proof (rule wp_fill_step [where v' = "\<lparr>v_text = msg, v_kind = kind, v_operation = op, v_path = pv,
          v_other_path = ov\<rparr>" and x = ov, OF s3(1)], goal_cases)
        case (2 t s')
        then show ?case using owns_put_field(5) [OF _ 2(3)] s1(2) s2(2) s3(2) unset by auto
      next
        case (4 err4 status4 s4)
        then show ?case using s1(2) s2(2) s3(2) unset by (intro ok) auto
      qed (use other none in auto)
    qed (use path none in auto)
  qed (auto intro: readable_lit0)
qed (auto intro: readable_lit0)

lemma zero_ioerr_fields [simp]:
  "e_text zero_ioerr = zero_str" "e_kind zero_ioerr = zero_str" "e_operation zero_ioerr = zero_str"
  "e_path zero_ioerr = zero_str" "e_other_path zero_ioerr = zero_str"
  by (simp_all add: zero_ioerr_def)

lemma owns_first_field:
  assumes "owns (add_mset (t, msg) L) R s"
  shows "owns (with_err (zero_ioerr\<lparr>e_text := t\<rparr>)
      \<lparr>v_text = msg, v_kind = '''', v_operation = '''', v_path = '''', v_other_path = ''''\<rparr> L) R s"
proof -
  let ?z = "(zero_str, '''') :: nqstr \<times> string"
  have "owns (add_mset ?z (add_mset ?z (add_mset ?z (add_mset ?z (add_mset (t, msg) L))))) R s"
    by (intro owns_add_inert assms) simp_all
  then show ?thesis by (simp add: with_err_def add_mset_commute)
qed

lemma wp_fill_fields:
  assumes "owns L (R(b \<mapsto> BBytes (map Some msg @ [Some (CHR 0x00)]))) s" and "R b = None"
    and path: "path \<noteq> None \<Longrightarrow> readable L R (bytes_of path) (length_of path) pv"
    and other: "other \<noteq> None \<Longrightarrow> readable L R (bytes_of other) (length_of other) ov"
    and none: "path = None \<Longrightarrow> pv = ''''" "other = None \<Longrightarrow> ov = ''''"
    and ok: "\<And>err status s'.
       filling L R s \<lparr>v_text = msg, v_kind = kind, v_operation = op, v_path = pv, v_other_path = ov\<rparr>
         (err, status) s' \<Longrightarrow>
       (status = None \<Longrightarrow> (path = None \<longrightarrow> inert (e_path err)) \<and> (other = None \<longrightarrow> inert (e_other_path err))) \<Longrightarrow>
       Q (err, status) s'"
  shows "wp E (fill_fields c (PHeap b 0) (length msg) kind (length kind) op (length op) path other) Q s"
proof -
  have same: "R(b := None) = R" using assms(2) by simp
  have "wp E (nq_try_str_take c (PHeap b 0) (length msg)) (\<lambda>r s'. world s' = world s \<and>
      (case r of Inl st \<Rightarrow> owns L R s' | Inr t \<Rightarrow> owns (add_mset (t, msg) L) R s')) s"
    by (rule wp_nq_try_str_take [OF assms(1), where v = msg]) (auto simp: same those_eq_Some)
  then have first: "wp E (then_field True (nq_try_str_take c (PHeap b 0) (length msg))
        (\<lambda>t e. e\<lparr>e_text := t\<rparr>) (zero_ioerr, None))
      (\<lambda>x s'. filling L R s
          \<lparr>v_text = msg, v_kind = '''', v_operation = '''', v_path = '''', v_other_path = ''''\<rparr>
          (fst x, snd x) s' \<and>
        (inert (e_kind (fst x)) \<and> inert (e_operation (fst x)) \<and>
          inert (e_path (fst x)) \<and> inert (e_other_path (fst x)))) s"
  proof (intro wp_then_field, goal_cases)
    case 1
    show ?case
      by (rule wp_mono [OF 1(1)])
        (auto simp: filling_def intro: owns_first_field
          intro!: exI [of _ empty_view] owns_add_inert_err split: sum.splits)
  qed simp
  show ?thesis
    unfolding fill_fields_def wp_bind
  proof (rule wp_mono [OF first], goal_cases)
    case (1 x s1)
    obtain err status where x: "x = (err, status)" by (cases x)
    show ?case
      unfolding x
      by (rule wp_fill_rest [unfolded wp_bind, where L = L and R = R and ?s0.0 = s and msg = msg
          and pv = pv and ov = ov]) (use 1 x path other none ok in auto)
  qed
qed

lemma wp_write_message:
  assumes "owns L (R(b \<mapsto> BBytes (replicate (n + 1) None))) s" and "R b = None"
    and "n = length (message op body)" and "readable L R p (length body) body"
    and "\<And>s'. owns L (R(b \<mapsto> BBytes (map Some (message op body) @ [Some (CHR 0x00)]))) s' \<Longrightarrow>
           world s' = world s \<Longrightarrow> Q () s'"
  shows "wp E (write_message (PHeap b 0) op (length op) p (length body) (if op = '''' then 0 else 2)) Q s"
proof -
  define pre where "pre = (if op = '''' then '''' else op @ '': '')"
  have msg: "message op body = pre @ body" and len: "length pre = length op + (if op = '''' then 0 else 2)"
    by (simp_all add: message_def pre_def)
  have rest: "wp E (andthen (bind (load_bytes p (length body)) (store_bytes (PHeap b (length pre))))
      (store_bytes (PHeap b (length pre + length body)) [CHR 0x00])) Q s'"
    if s': "owns L (R(b \<mapsto> BBytes (map Some pre @ replicate (length body + 1) None))) s'"
      and w: "world s' = world s" for s'
    unfolding wp_andthen wp_bind
  proof (rule wp_load_bytes [OF s' readable_upd [OF assms(4,2)]], rule store_after [OF s'], goal_cases)
    case (2 s2)
    then have s2: "owns L (R(b \<mapsto> BBytes (map Some (pre @ body) @ replicate 1 None))) s2" by simp
    have "length pre + length body = length (pre @ body)" by simp
    then show ?case
      using 2(2) w by (simp only:) (rule store_after [OF s2], auto simp: msg intro!: assms(5))
  qed simp
  show ?thesis
  proof (cases "op = ''''")
    case True
    then show ?thesis
      using rest [of s] assms(1,3)
      by (simp add: write_message_def wp_simps pre_def message_def)
  next
    case False
    have s: "owns L (R(b \<mapsto> BBytes (map Some [] @ replicate (n + 1) None))) s" using assms(1) by simp
    have "wp E (store_bytes (PHeap b (length ([] :: string))) op)
        (\<lambda>_. wp E (store_bytes (PHeap b (length op)) '': '')
        (\<lambda>_. wp E (andthen (bind (load_bytes p (length body)) (store_bytes (PHeap b (length pre))))
          (store_bytes (PHeap b (length pre + length body)) [CHR 0x00])) Q)) s"
    using s proof (rule store_after [where xs = "[]"], goal_cases)
      case (2 s1)
      then have s1: "owns L (R(b \<mapsto> BBytes (map Some op @ replicate (length body + 3) None))) s1"
        using assms(3) False by (simp add: message_def eval_nat_numeral)
      show ?case
      proof (rule store_after [OF s1], goal_cases)
        case (2 s2)
        then show ?case using \<open>world s1 = world s\<close> False
          by (intro rest) (auto simp: pre_def eval_nat_numeral)
      qed simp
    qed (use assms(3) False in \<open>simp add: message_def\<close>)
    with False show ?thesis by (simp add: write_message_def wp_simps len)
  qed
qed

text \<open>
  \<open>nq_make_io_err_details\<close> always returns, without leaving anything else behind, either the
  error asked for or the fallback.
\<close>

lemma owns_replace_inert:
  "inert t \<Longrightarrow> inert u \<Longrightarrow> owns (add_mset (t, v) L) R s \<Longrightarrow> owns (add_mset (u, []) L) R s"
  by (rule owns_add_inert, erule owns_remove_inert)

lemma owns_fill_default:
  assumes "owns (with_err e v L) R s"
    and "path \<Longrightarrow> inert (e_path e) \<and> v_path v = ''''"
    and "other \<Longrightarrow> inert (e_other_path e) \<and> v_other_path v = ''''"
  shows "owns (with_err (e\<lparr>e_code := n, e_os_code := m, e_has_path := p, e_has_other_path := q,
      e_path := (if path then nq_empty_str else e_path e),
      e_other_path := (if other then nq_empty_str else e_other_path e)\<rparr>) v L) R s"
proof -
  let ?rest = "\<lambda>M. add_mset (e_text e, v_text v) (add_mset (e_kind e, v_kind v) (add_mset (e_operation e, v_operation v) M))"
  let ?p = "if path then nq_empty_str else e_path e" and ?o = "if other then nq_empty_str else e_other_path e"
  have "owns (add_mset (e_path e, v_path v) (?rest (add_mset (e_other_path e, v_other_path v) L))) R s"
    using assms(1) by (simp add: with_err_def add_mset_commute)
  then have "owns (add_mset (?p, v_path v) (?rest (add_mset (e_other_path e, v_other_path v) L))) R s"
    using assms(2) owns_replace_inert [of "e_path e" nq_empty_str] by auto
  then have "owns (add_mset (e_other_path e, v_other_path v) (?rest (add_mset (?p, v_path v) L))) R s"
    by (simp add: add_mset_commute)
  then have "owns (add_mset (?o, v_other_path v) (?rest (add_mset (?p, v_path v) L))) R s"
    using assms(3) owns_replace_inert [of "e_other_path e" nq_empty_str] by auto
  then show ?thesis by (simp add: with_err_def add_mset_commute)
qed

definition err_outcome ::
  "int \<Rightarrow> string \<Rightarrow> string option \<Rightarrow> string option \<Rightarrow> string option \<Rightarrow> string \<Rightarrow> nqioerr \<Rightarrow> err_view \<Rightarrow> bool" where
  "err_outcome code kind operation path other detail e v \<longleftrightarrow>
     asked code kind (op_name operation) path other detail e v \<or>
     (\<exists>status. e = fallback (op_name operation) status \<and> v = fallback_view (op_name operation) status)"

lemma wp_if: "wp E (if b then m else n) Q s \<longleftrightarrow> (b \<longrightarrow> wp E m Q s) \<and> (\<not> b \<longrightarrow> wp E n Q s)"
  by simp

lemma message_sizes:
  "Option.bind (nq_size_add (length op) (if length op = 0 then 0 else 2) (nq_str_limit c))
      (\<lambda>n. nq_size_add n (length body) (nq_str_limit c))
   = (if length (message op body) \<le> nq_str_limit c then Some (length (message op body)) else None)"
  by (auto simp: nq_size_add_eq str_limit_size message_def)

lemma err_outcome_operation:
  "err_outcome code kind operation path other detail e v \<Longrightarrow> v_operation v = op_name operation"
  by (auto simp: err_outcome_def asked_def asked_view_def fallback_view_def)

lemma wp_nq_make_io_err_details:
  assumes "good_config c" and owns: "owns L R s"
    and op: "label (op_name operation)" and kind: "label kind"
    and detail: "if detail = PNull then body = ''I/O operation failed'' else c_readable L R detail body"
    and plain: "CHR 0x00 \<notin> set body"
    and path: "path_view L R path pv" and other: "path_view L R other ov"
    and ok: "\<And>e v s'. owns (with_err e v L) R s' \<Longrightarrow> world s' = world s \<Longrightarrow>
               err_outcome code kind operation pv ov body e v \<Longrightarrow> Q e s'"
  shows "wp E (nq_make_io_err_details c code kind operation path other detail) Q s"
proof -
  let ?op = "op_name operation"
  let ?detail = "if detail = PNull then PLit ''I/O operation failed'' 0 else detail"
  let ?msg = "message ?op body"
  have failed: "wp E (nq_allocation_io_err c (Some ?op) status) Q s'"
    if "owns L R s'" "world s' = world s" for s' status
    unfolding wp_nq_allocation_io_err [OF assms(1), of "Some ?op", unfolded op_name_simps, OF op]
    by (rule ok [OF owns_fallback [OF that(1)] that(2)]) (auto simp: err_outcome_def)
  have borrowed: "c_readable L R ?detail body"
    using detail c_readable_lit [of "''I/O operation failed''" L R] by (auto split: if_splits)
  have lens: "nq_cstr_length c ?op = Some (length ?op)" "nq_cstr_length c kind = Some (length kind)"
    using op kind by (simp_all add: cstr_length_label assms(1))
  have short: "p \<noteq> None \<and> \<not> nq_str_storage_is_valid c (the p) \<longleftrightarrow> \<not> length (op_name q) \<le> nq_str_limit c"
    if "path_view L R p q" for p q
    using that by (cases p) (auto simp: path_view_valid [OF owns, of _ "op_name q", simplified])
  let ?fits = "length ?msg \<le> nq_str_limit c \<and> length ?msg + 1 \<le> nq_allocation_limit c \<and>
      \<not> sizeof_owner > nq_allocation_limit c \<and>
      length (op_name pv) \<le> nq_str_limit c \<and> length (op_name ov) \<le> nq_str_limit c"
  show ?thesis
    unfolding nq_make_io_err_details_def Let_def wp_bind op_name_def [symmetric] lens
      short [OF path] short [OF other]
  proof (rule wp_load_c_string [OF owns borrowed], cases "length body \<le> nq_str_limit c", goal_cases)
    case 2
    then show ?case
      by (simp add: cstr_length_plain plain failed [OF owns])
  next
    case 1
    then have len: "nq_cstr_length c body = Some (length body)" by (simp add: cstr_length_plain plain)
    show ?case
      unfolding len option.case prod.case message_sizes
    proof (cases ?fits, goal_cases)
      case 2
      then show ?case
        by (auto simp: nq_size_add_eq allocation_limit_le failed [OF owns])
    next
      case 1
      then have fits: "(if length ?msg \<le> nq_str_limit c then Some (length ?msg) else None) = Some (length ?msg)"
        "nq_size_add (length ?msg) 1 (nq_allocation_limit c) = Some (length ?msg + 1)"
        "\<not> (sizeof_owner > nq_allocation_limit c \<or>
          \<not> length (op_name pv) \<le> nq_str_limit c \<or> \<not> length (op_name ov) \<le> nq_str_limit c)"
        by (simp_all add: nq_size_add_eq allocation_limit_le)
      have reads: "path \<noteq> None \<Longrightarrow> readable L R (bytes_of path) (length_of path) (op_name pv)"
        "other \<noteq> None \<Longrightarrow> readable L R (bytes_of other) (length_of other) (op_name ov)"
        using path_readable [OF path _ owns] path_readable [OF other _ owns] 1 str_limit_size [of c]
        by (auto simp: op_name_def)
      show ?case
        unfolding fits option.case if_not_P [OF fits(3)] wp_if
      proof (intro conjI impI failed [OF owns refl], unfold wp_bind, rule wp_nq_try_realloc_new [OF owns], goal_cases)
        case 1
        show ?case by simp
      next
        case (2 b s1)
        have s1: "owns L (R(b \<mapsto> BBytes (replicate (length ?msg + 1) None))) s1" using 2(2) by simp
        have text1: "readable L R ?detail (length body) body" by (rule c_readable_bytes [OF borrowed])
        have sep: "(if length ?op = 0 then 0 else 2) = (if ?op = [] then 0 else 2 :: nat)" by simp
        show ?case
          unfolding sum.case wp_andthen sep
        proof (rule wp_write_message [OF s1 2(3) refl text1], goal_cases)
          case w: (1 s2)
          show ?case
            unfolding wp_bind
          proof (rule wp_fill_fields [OF w(1) \<open>R b = None\<close> reads], goal_cases)
            case (5 err status s3)
            from 5(1) obtain v where err: "owns (with_err err v L) R s3" and w3: "world s3 = world s"
              and v: "status = None \<Longrightarrow> v = asked_view kind ?op pv ov body"
              using w(2) 2(4) by (auto simp: filling_def asked_view_def op_name_def)
            show ?case
            proof (cases status)
              case (Some st)
              show ?thesis
                unfolding Some prod.case option.case wp_bind
                by (rule wp_nq_io_err_drop [OF err]) (use w3 in \<open>simp add: failed\<close>)
            next
              case None
              have "path = None \<Longrightarrow> pv = None" "other = None \<Longrightarrow> ov = None" using path other by auto
              then have fin: "owns (with_err (err\<lparr>e_code := code, e_os_code := code,
                  e_has_path := path \<noteq> None, e_has_other_path := other \<noteq> None,
                  e_path := (if path = None then nq_empty_str else e_path err),
                  e_other_path := (if other = None then nq_empty_str else e_other_path err)\<rparr>) v L) R s3"
                by (intro owns_fill_default [OF err]) (use 5(2) v None in \<open>auto simp: asked_view_def\<close>)
              show ?thesis
                unfolding None prod.case option.case wp_ret
                by (rule ok [OF fin w3])
                  (use v None path other in \<open>auto simp: err_outcome_def asked_def path_view_def split: option.splits\<close>)
            qed
          qed (use path other in auto)
        qed
      next
        case (3 e s1)
        then show ?case by (simp add: failed)
      qed
    qed
  qed
qed

section \<open>Errors from an errno value\<close>

definition system_text :: "config \<Rightarrow> int \<Rightarrow> string" where
  "system_text c code =
     (case strerror_text c code of None \<Rightarrow> '''' | Some t \<Rightarrow> takeWhile (\<lambda>ch. ch \<noteq> CHR 0x00) t)"

definition errno_detail :: "config \<Rightarrow> int \<Rightarrow> string" where
  "errno_detail c code =
     (if strerror_text c code = None then ''I/O operation failed'' else system_text c code)"

definition context_detail :: "config \<Rightarrow> int \<Rightarrow> string \<Rightarrow> string" where
  "context_detail c code details =
     details @ (if system_text c code = '''' then '''' else '': '' @ system_text c code)"

lemma plain_takeWhile [simp]: "CHR 0x00 \<notin> set (takeWhile (\<lambda>ch. ch \<noteq> CHR 0x00) t)"
  by (auto dest: set_takeWhileD)

lemma plain_system_text [simp]: "CHR 0x00 \<notin> set (system_text c code)"
  by (simp add: system_text_def split: option.splits)

lemma err_outcome_fallback:
  "err_outcome code kind operation path other detail (fallback (op_name operation) status)
     (fallback_view (op_name operation) status)"
  by (auto simp: err_outcome_def)

lemma wp_nq_errno_io_err:
  assumes "good_config c" and owns: "owns L R s" and op: "label (op_name operation)"
    and path: "path_view L R path pv" and other: "path_view L R other ov"
    and ok: "\<And>e v s'. owns (with_err e v L) R s' \<Longrightarrow> world s' = world s \<Longrightarrow>
       err_outcome (to_i32 code) (nq_io_kind_for_code code) operation pv ov (errno_detail c code) e v \<Longrightarrow> Q e s'"
  shows "wp E (nq_errno_io_err c operation path other code) Q s"
proof (cases "code = ENOMEM")
  case True
  then show ?thesis
    using ok [OF owns_fallback [OF owns] refl err_outcome_fallback]
    by (simp add: nq_errno_io_err_def wp_nq_allocation_io_err assms(1) op)
next
  case False
  let ?detail = "if strerror c code = PNull then PLit ''I/O operation failed'' 0 else strerror c code"
  have "if ?detail = PNull then errno_detail c code = ''I/O operation failed''
      else c_readable L R ?detail (errno_detail c code)"
    by (auto simp: strerror_def errno_detail_def system_text_def c_readable_def takeWhile_plain split: option.splits)
  moreover have "CHR 0x00 \<notin> set (errno_detail c code)" by (simp add: errno_detail_def)
  ultimately have "wp E (nq_make_io_err_details c (to_i32 code) (nq_io_kind_for_code code) operation path other ?detail) Q s"
    by (intro wp_nq_make_io_err_details [OF assms(1) owns op label_kind _ _ path other]) (auto intro!: ok)
  with False show ?thesis by (simp add: nq_errno_io_err_def Let_def)
qed

lemma wp_nq_invalid_input_io_err:
  assumes "good_config c" and "owns L R s" and "label (op_name operation)"
    and "path_view L R path pv" and "path_view L R other ov" and "CHR 0x00 \<notin> set detail"
    and "\<And>e v s'. owns (with_err e v L) R s' \<Longrightarrow> world s' = world s \<Longrightarrow>
       err_outcome 0 ''invalid_input'' operation pv ov detail e v \<Longrightarrow> Q e s'"
  shows "wp E (nq_invalid_input_io_err c operation path other detail) Q s"
  unfolding nq_invalid_input_io_err_def
  by (rule wp_nq_make_io_err_details [OF assms(1-3) _ _ assms(6,4,5,7)])
    (auto simp: label_def c_readable_lit assms(6))

lemma wp_nq_invalid_data_io_err:
  assumes "good_config c" and "owns L R s" and "label (op_name operation)"
    and "path_view L R path pv" and "CHR 0x00 \<notin> set detail"
    and "\<And>e v s'. owns (with_err e v L) R s' \<Longrightarrow> world s' = world s \<Longrightarrow>
       err_outcome 0 ''invalid_data'' operation pv None detail e v \<Longrightarrow> Q e s'"
  shows "wp E (nq_invalid_data_io_err c operation path detail) Q s"
  unfolding nq_invalid_data_io_err_def
  by (rule wp_nq_make_io_err_details [OF assms(1-3) _ _ assms(5,4) _ assms(6)])
    (auto simp: label_def c_readable_lit assms(5))

text \<open>The buffer for the detail is built, read, and freed again.\<close>

lemma wp_nq_errno_io_err_with_detail:
  assumes "good_config c" and owns: "owns L R s" and op: "label (op_name operation)"
    and path: "path_view L R path pv" and other: "path_view L R other ov" and plain: "CHR 0x00 \<notin> set details"
    and ok: "\<And>e v s'. owns (with_err e v L) R s' \<Longrightarrow> world s' = world s \<Longrightarrow>
       err_outcome (to_i32 code) (nq_io_kind_for_code code) operation pv ov (context_detail c code details) e v \<Longrightarrow> Q e s'"
  shows "wp E (nq_errno_io_err_with_detail c operation path other code details) Q s"
proof -
  have failed: "wp E (nq_allocation_io_err c operation st) Q s'"
    if "owns L R s'" "world s' = world s" for s' st
    unfolding wp_nq_allocation_io_err [OF assms(1) op]
    by (rule ok [OF owns_fallback [OF that(1)] that(2) err_outcome_fallback])
  let ?sys = "system_text c code" and ?detail = "context_detail c code details"
  have sys_len: "(case strerror_text c code of None \<Rightarrow> Some 0 | Some t \<Rightarrow> nq_cstr_length c t)
      = (if length ?sys \<le> nq_str_limit c then Some (length ?sys) else None)"
    by (auto simp: system_text_def nq_cstr_length_eq Let_def split: option.splits)
  have sys_take: "take (length ?sys) (case strerror_text c code of None \<Rightarrow> '''' | Some t \<Rightarrow> t) = ?sys"
    by (auto simp: system_text_def takeWhile_eq_take [symmetric] split: option.splits)
  have sizes: "Option.bind (nq_size_add (length details) (if length ?sys = 0 then 0 else 2) (nq_str_limit c))
      (\<lambda>n. nq_size_add n (length ?sys) (nq_str_limit c))
      = (if length ?detail \<le> nq_str_limit c then Some (length ?detail) else None)"
    by (auto simp: nq_size_add_eq str_limit_size context_detail_def)
  show ?thesis
  proof (cases "code = ENOMEM \<or> \<not> (length details \<le> nq_str_limit c \<and> length ?sys \<le> nq_str_limit c)")
    case True
    then show ?thesis
      by (auto simp: nq_errno_io_err_with_detail_def Let_def sys_len cstr_length_plain plain failed owns)
  next
    case False
    then have lens: "\<not> code = ENOMEM" "nq_cstr_length c details = Some (length details)"
      "(if length ?sys \<le> nq_str_limit c then Some (length ?sys) else None) = Some (length ?sys)"
      by (auto simp: cstr_length_plain plain)
    show ?thesis
      unfolding nq_errno_io_err_with_detail_def Let_def if_not_P [OF lens(1)] sys_len lens(2,3)
        option.case prod.case sizes
    proof (cases "length ?detail \<le> nq_str_limit c \<and> length ?detail + 1 \<le> nq_allocation_limit c", goal_cases)
      case 2
      then show ?case by (auto simp: nq_size_add_eq allocation_limit_le failed owns)
    next
      case 1
      then have fits: "(if length ?detail \<le> nq_str_limit c then Some (length ?detail) else None) = Some (length ?detail)"
        "nq_size_add (length ?detail) 1 (nq_allocation_limit c) = Some (length ?detail + 1)"
        by (simp_all add: nq_size_add_eq allocation_limit_le)
      show ?case
        unfolding fits option.case wp_bind
      proof (rule wp_nq_try_realloc_new [OF owns], goal_cases)
        case (3 e s')
        then show ?case by (simp add: failed)
      next
        case (2 b s1)
        have same: "R(b := None) = R" using 2(2) by simp
        have fin: "wp E (andthen (store_bytes (PHeap b (length ?detail)) [CHR 0x00])
            (bind (nq_make_io_err_details c (to_i32 code) (nq_io_kind_for_code code) operation path other (PHeap b 0))
                (\<lambda>err. andthen (c_free (PHeap b 0)) (ret err)))) Q s'"
          if s': "owns L (R(b \<mapsto> BBytes (map Some ?detail @ replicate 1 None))) s'" "world s' = world s" for s'
          unfolding wp_andthen wp_bind
        proof (rule store_after [OF s'(1)], goal_cases)
          case n: (2 s2)
          have "c_readable L (R(b \<mapsto> BBytes (map Some (?detail @ [CHR 0x00]) @ replicate (1 - length [CHR 0x00]) None)))
              (PHeap b 0) ?detail"
            by (rule c_readable_raw [where ws = "[]"]) (simp_all add: context_detail_def plain)
          then show ?case
          proof (intro wp_nq_make_io_err_details [OF assms(1) n(1) op label_kind _ _
                path_view_upd [OF path 2(2)] path_view_upd [OF other 2(2)], where body = "?detail"],
              goal_cases)
            case (3 e v s3)
            then show ?case
              using n(2) s'(2) by (intro wp_c_free_raw [OF 3(2)]) (auto simp: same wp_simps intro!: ok)
          qed (simp_all add: context_detail_def plain)
        qed simp
        have s1: "owns L (R(b \<mapsto> BBytes (map Some [] @ replicate (length ?detail + 1) None))) s1"
          using 2(1) by simp
        show ?case
          unfolding sum.case
        proof (subst wp_andthen, subst take_all, simp, rule store_after [OF s1, simplified list.size], goal_cases)
          case (2 s2)
          then have s2: "owns L (R(b \<mapsto> BBytes (map Some details @ replicate (length ?detail + 1 - length details) None))) s2"
            by simp
          show ?case
          proof (cases "?sys = []")
            case True
            then have "?detail = details" by (simp add: context_detail_def)
            with True show ?thesis
              using fin [of s2] s2 2(2) \<open>world s1 = world s\<close>
              by (simp add: wp_andthen wp_only_if del: append_Cons)
          next
            case False
            have len: "length ?detail = length details + 2 + length ?sys"
              using False by (simp add: context_detail_def)
            have "wp E (store_bytes (PHeap b (length details)) '': '')
                (\<lambda>_. wp E (store_bytes (PHeap b (length details + 2)) ?sys)
                (\<lambda>_. wp E (andthen (store_bytes (PHeap b (length ?detail)) [CHR 0x00])
                  (bind (nq_make_io_err_details c (to_i32 code) (nq_io_kind_for_code code) operation path other (PHeap b 0))
                    (\<lambda>err. andthen (c_free (PHeap b 0)) (ret err)))) Q)) s2"
            proof (rule store_after [OF s2], goal_cases)
              case (2 s3)
              then have s3: "owns L (R(b \<mapsto> BBytes (map Some (details @ '': '') @ replicate (length ?sys + 1) None))) s3"
                by (simp add: len)
              have at: "length details + 2 = length (details @ '': '')" by simp
              show ?case
                unfolding at
              proof (rule store_after [OF s3], goal_cases)
                case n: (2 s4)
                show ?case
                  by (rule fin) (use n 2(2) \<open>world s2 = world s1\<close> \<open>world s1 = world s\<close> False in
                      \<open>simp_all add: context_detail_def\<close>)
              qed simp
            qed (simp add: len)
            with False show ?thesis
              unfolding sys_take by (simp add: wp_andthen wp_only_if)
          qed
        qed (simp add: context_detail_def)
      qed simp
    qed
  qed
qed

text \<open>
  \<open>nq_os_string\<close> hands out a NUL-terminated copy of a live string without a NUL in it, and
  an error for every other. \<open>os_string_refused\<close>: the reasons there are for the error, each with the
  error it gives. A path longer than strings may be is not repeated in an error.
\<close>

definition repeated :: "config \<Rightarrow> string option \<Rightarrow> string option" where
  "repeated c path = (if length (op_name path) \<le> nq_str_limit c then path else None)"

definition os_string_refused ::
  "config \<Rightarrow> string \<Rightarrow> string option \<Rightarrow> string option \<Rightarrow> string \<Rightarrow> nqstate \<Rightarrow> nqioerr \<Rightarrow> err_view \<Rightarrow> bool" where
  "os_string_refused c op path other v s e w \<longleftrightarrow>
     CHR 0x00 \<in> set v \<and> 
       err_outcome 0 ''invalid_input'' (Some op) (repeated c path) (repeated c other) ''embedded NUL is not allowed'' e w \<or>
     (\<exists>status. copy_refused c s (length v) status \<and> e = fallback op status \<and> w = fallback_view op status)"

lemma os_string_refused_operation: "os_string_refused c op path other v s e w \<Longrightarrow> v_operation w = op"
  by (auto simp: os_string_refused_def fallback_view_def dest: err_outcome_operation)

lemma wp_nq_os_string:
  assumes "good_config c" and owns: "owns L R s" and live: "(t, v) \<in># L" and op: "label (op_name operation)"
    and path: "path_view L R path pv" and other: "path_view L R other ov"
    and ok: "\<And>b s'. CHR 0x00 \<notin> set v \<Longrightarrow> R b = None \<Longrightarrow>
       owns L (R(b \<mapsto> BBytes (map Some v @ [Some (CHR 0x00)]))) s' \<Longrightarrow> world s' = world s \<Longrightarrow> Q (Inr (PHeap b 0)) s'"
    and err: "\<And>e w s'. owns (with_err e w L) R s' \<Longrightarrow> world s' = world s \<Longrightarrow>
       v_operation w = op_name operation \<Longrightarrow>
       os_string_refused c (op_name operation) pv ov v s e w \<Longrightarrow> Q (Inl e) s'"
  shows "wp E (nq_os_string c t operation path other) Q s"
proof -
  have len: "s_len t = int (length v)" using owns_live_len [OF owns live] .
  have failed: "wp E (nq_allocation_io_err c operation st) (\<lambda>e. Q (Inl e)) s'"
    if "owns L R s'" "world s' = world s" "copy_refused c s (length v) st" for s' st
    unfolding wp_nq_allocation_io_err [OF assms(1) op]
    by (rule err [OF owns_fallback [OF that(1)] that(2)])
      (use that(3) in \<open>auto simp: fallback_view_def os_string_refused_def\<close>)
  show ?thesis
  proof (cases "length v \<le> nq_str_limit c \<and> length v < nq_allocation_limit c")
    case False
    then show ?thesis
      by (auto simp: nq_os_string_def Let_def nq_str_size_def len wp_simps copy_refused_def request_refused_def
          intro!: failed [OF owns refl])
  next
    case True
    then have size: "\<not> (\<not> nq_str_size c (s_len t) \<or> nat (s_len t) \<ge> nq_allocation_limit c)"
      "\<not> \<not> nq_str_storage_is_valid c t" "nat (s_len t) = length v"
      using live_storage_valid [OF owns live, of c] by (simp_all add: nq_str_size_def len)
    have reads: "readable L R (s_data t) (length v) v" using live len by (rule readable_any_raws)
    have refused: "os_string_refused c (op_name operation) pv ov v s e w"
      if "CHR 0x00 \<in> set v" and "err_outcome 0 ''invalid_input'' operation (repeated c pv) (repeated c ov)
        ''embedded NUL is not allowed'' e w" for e w
      using that by (simp add: os_string_refused_def err_outcome_def)
    have safe: "path_view L R (if p \<noteq> None \<and> nq_str_storage_is_valid c (the p) then p else None) (repeated c q)"
      if "path_view L R p q" for p q
      using that by (cases p) (auto simp: repeated_def path_view_valid [OF owns, of _ "op_name q", simplified])
    show ?thesis
      unfolding nq_os_string_def Let_def if_not_P [OF size(1)] if_not_P [OF size(2)] wp_bind
      unfolding size(3)
    proof (rule wp_nq_str_has_nul [OF owns live], cases "CHR 0x00 \<in> set v", goal_cases)
      case 1
      show ?case
        unfolding if_P [OF 1] wp_bind wp_ret
        by (rule wp_nq_invalid_input_io_err [OF assms(1) owns op safe [OF path] safe [OF other]])
          (use refused 1 in \<open>auto intro: err err_outcome_operation\<close>)
    next
      case 2
      then have no: "\<not> CHR 0x00 \<in> set v" by simp
      show ?case
        unfolding if_not_P [OF no] wp_bind
        by (rule wp_nq_try_cstr_copy [OF owns reads]) (use no in \<open>auto simp: wp_simps failed intro!: ok\<close>)
    qed
  qed
qed

text \<open>The accessors hand out clones.\<close>

lemma wp_err_accessor:
  assumes "owns (with_err e v L) R s" and "E (Exit 1)"
    and "(get e, x) \<in># with_err e v {#}"
    and "\<And>t s'. owns (add_mset (t, x) (with_err e v L)) R s' \<Longrightarrow> world s' = world s \<Longrightarrow> Q t s'"
  shows "wp E (nq_str_clone c (get e)) Q s"
proof -
  have "(get e, x) \<in># with_err e v L" using assms(3) by (auto simp: with_err_def)
  from wp_nq_str_clone [where E = E, OF assms(1) this assms(2)] assms(4) show ?thesis by blast
qed

text \<open>
  Leaving a function with an error: every failure path of the runtime has one of these shapes,
  and on each of them the caller gets an error it owns, for the operation it asked for.
\<close>

lemma wp_fail_alloc:
  assumes "good_config c" and "owns L R s" and "label op"
    and "\<And>e w. owns (with_err e w L) R s \<Longrightarrow> v_operation w = op \<Longrightarrow> Q (f e) s"
  shows "wp E (bind (nq_allocation_io_err c (Some op) st) (\<lambda>e. ret (f e))) Q s"
  using assms(3) assms(4) [OF owns_fallback [OF assms(2)], of op st]
  by (simp add: wp_simps wp_nq_allocation_io_err [OF assms(1)] fallback_view_def)

lemma wp_fail_errno:
  assumes "good_config c" and "owns L R s" and "label op"
    and "path_view L R path pv" and "path_view L R other ov"
    and "\<And>e w s'. owns (with_err e w L) R s' \<Longrightarrow> world s' = world s \<Longrightarrow> v_operation w = op \<Longrightarrow>
       err_outcome (to_i32 code) (nq_io_kind_for_code code) (Some op) pv ov (errno_detail c code) e w \<Longrightarrow> Q (f e) s'"
  shows "wp E (bind (nq_errno_io_err c (Some op) path other code) (\<lambda>e. ret (f e))) Q s"
  unfolding wp_bind wp_ret
  by (rule wp_nq_errno_io_err [OF assms(1,2) _ assms(4,5)])
    (use assms(3) in \<open>auto intro!: assms(6) simp: err_outcome_operation\<close>)

lemma wp_fail_detail:
  assumes "good_config c" and "owns L R s" and "label op"
    and "path_view L R path pv" and "path_view L R other ov" and "CHR 0x00 \<notin> set details"
    and "\<And>e w s'. owns (with_err e w L) R s' \<Longrightarrow> world s' = world s \<Longrightarrow> v_operation w = op \<Longrightarrow>
       err_outcome (to_i32 code) (nq_io_kind_for_code code) (Some op) pv ov (context_detail c code details) e w \<Longrightarrow>
       Q (f e) s'"
  shows "wp E (bind (nq_errno_io_err_with_detail c (Some op) path other code details) (\<lambda>e. ret (f e))) Q s"
  unfolding wp_bind wp_ret
  by (rule wp_nq_errno_io_err_with_detail [OF assms(1,2) _ assms(4-6)])
    (use assms(3) in \<open>auto intro!: assms(7) simp: err_outcome_operation\<close>)

lemma wp_fail_invalid:
  assumes "good_config c" and "owns L R s" and "label op"
    and "path_view L R path pv" and "path_view L R other ov" and "CHR 0x00 \<notin> set detail"
    and "\<And>e w s'. owns (with_err e w L) R s' \<Longrightarrow> world s' = world s \<Longrightarrow> v_operation w = op \<Longrightarrow> Q (f e) s'"
  shows "wp E (bind (nq_invalid_input_io_err c (Some op) path other detail) (\<lambda>e. ret (f e))) Q s"
  unfolding wp_bind wp_ret
  by (rule wp_nq_invalid_input_io_err [OF assms(1,2) _ assms(4-6)])
    (use assms(3) in \<open>auto intro!: assms(7) simp: err_outcome_operation\<close>)

text \<open>What the kernel reads through the pointer that \<open>nq_os_string\<close> returns.\<close>

lemma c_string_os:
  assumes "owns L (R(b \<mapsto> BBytes (map Some v @ [Some (CHR 0x00)]))) s" and "CHR 0x00 \<notin> set v"
  shows "c_string (heap s) (PHeap b 0) = Some v"
proof -
  have block: "heap s b = Some (BBytes (map Some (v @ [CHR 0x00])))"
    using owns_raw [OF assms(1), of b] by simp
  have row: "takeWhile (\<lambda>ch. ch \<noteq> Some (CHR 0x00)) (map Some (v @ [CHR 0x00])) = map Some v"
    using assms(2) by (induction v) auto
  show ?thesis unfolding c_string.simps block option.case block.case drop_0 row Let_def by simp
qed

lemma wp_load_os_string:
  assumes "owns L (R(b \<mapsto> BBytes (map Some v @ [Some (CHR 0x00)]))) s" and "CHR 0x00 \<notin> set v" and "Q v s"
  shows "wp E (load_c_string (PHeap b 0)) Q s"
  using assms c_string_os [OF assms(1,2)] by (simp add: wp_def load_c_string_def)

section \<open>Properties\<close>

text \<open>
  C5: Building an error from an operation, a path, a second path and an errno never fails and
  never ends the process, whatever allocation fails on the way: the value is either the error
  asked for (its message \<open>operation: detail\<close>, the kind of the code, both paths copied) or the
  static \<open>out of memory\<close> / \<open>size limit exceeded\<close> error, and in both cases it owns exactly the
  strings it holds: the half-built error and every buffer have been released.
\<close>

theorem errno_error_always_returns:
  assumes "good_config c" and "owns L R s" and "label (op_name operation)"
    and "path_view L R path pv" and "path_view L R other ov"
  shows "wp no_stop (nq_errno_io_err c operation path other code)
     (\<lambda>e s'. world s' = world s \<and> (\<exists>v. owns (with_err e v L) R s' \<and>
        err_outcome (to_i32 code) (nq_io_kind_for_code code) operation pv ov (errno_detail c code) e v)) s"
  by (rule wp_nq_errno_io_err [OF assms]) auto

theorem errno_error_always_returns_witness:
  "wp no_stop (nq_errno_io_err plain_config (Some ''read_file'') (Some (literal ''a.nq'')) None ENOENT)
     (\<lambda>e s'. \<exists>v. owns (with_err e v {#(literal ''a.nq'', ''a.nq'')#}) Map.empty s' \<and>
        v_operation v = ''read_file'') (boot [True, False] [])"
  by (rule wp_mono [OF errno_error_always_returns [OF good_plain_config owns_literal [OF owns_boot] _
        path_view_live [OF owns_literal [OF owns_boot]]]])
    (auto 4 4 simp: label_def dest!: err_outcome_operation)

text \<open>
  C6: The string handed to the operating system is a fresh NUL-terminated copy, and a path with
  an embedded NUL is never passed on: it gives an error that names the operation. There is an error
  only for a NUL, for a string beyond the limits, or for a refused allocation, each with its own text.
\<close>

theorem os_string_has_no_embedded_nul:
  assumes "good_config c" and "owns L R s" and "(t, v) \<in># L" and "label (op_name operation)"
    and "path_view L R path pv" and "path_view L R other ov"
  shows "wp no_stop (nq_os_string c t operation path other)
     (\<lambda>r s'. world s' = world s \<and> (case r of
        Inl e \<Rightarrow> \<exists>w. owns (with_err e w L) R s' \<and> v_operation w = op_name operation \<and>
          os_string_refused c (op_name operation) pv ov v s e w
      | Inr p \<Rightarrow> CHR 0x00 \<notin> set v \<and> c_string (heap s') p = Some v \<and>
          (\<exists>b. p = PHeap b 0 \<and> R b = None \<and>
             owns L (R(b \<mapsto> BBytes (map Some v @ [Some (CHR 0x00)]))) s'))) s"
  by (rule wp_nq_os_string [OF assms]) (auto simp del: c_string.simps simp: c_string_os)

theorem os_string_has_no_embedded_nul_witness:
  "wp no_stop (nq_os_string plain_config (literal ''dir'') (Some ''remove_dir'') None None)
     (\<lambda>r s'. case r of Inl e \<Rightarrow> True | Inr p \<Rightarrow> c_string (heap s') p = Some ''dir'') (boot [] [])"
  by (rule wp_mono [OF os_string_has_no_embedded_nul [where v = "''dir''", OF good_plain_config owns_literal [OF owns_boot]]])
    (auto simp: label_def split: sum.splits)

end
