(* ===== verification/Owned.thy ===== *)
theory Owned
  imports Errors
begin

text \<open>
  The contract every value type of the runtime keeps with its users: a \<open>drop\<close> that releases
  what a live value owns and leaves a dead value, and for most types a \<open>clone\<close> that makes a
  second live value. The compiler emits calls of these functions for every value that leaves
  its scope, so the contract is what makes a compiled program free of leaks and double frees.

  \<open>live x v L R s\<close>: in state \<open>s\<close> the value \<open>x\<close> is live and denotes \<open>v\<close>, the strings \<open>L\<close> and
  the blocks \<open>R\<close> being owned by others. \<open>dead x\<close>: \<open>x\<close> owns nothing. Options and results
  lift the contract of their payload; the lifting is proved once, in the locales.
\<close>

locale owned_value =
  fixes live :: "'a \<Rightarrow> 'v \<Rightarrow> strs \<Rightarrow> raws \<Rightarrow> nqstate \<Rightarrow> bool"
    and dead :: "'a \<Rightarrow> bool"
    and drop :: "'a option \<Rightarrow> 'a option nq"
  assumes drop_null: "drop None = ret None"
    and drop_live: "live x v L R s \<Longrightarrow>
      (\<And>x' s'. dead x' \<Longrightarrow> owns L R s' \<Longrightarrow> world s' = world s \<Longrightarrow> Q (Some x') s') \<Longrightarrow>
      wp E (drop (Some x)) Q s"
    and drop_dead: "dead x \<Longrightarrow> (\<And>x'. dead x' \<Longrightarrow> Q (Some x') s) \<Longrightarrow> wp E (drop (Some x)) Q s"
begin

text \<open>Dropping returns, whatever the environment does; a second drop of the same variable is harmless.\<close>

lemma drop_twice:
  "live x v L R s \<Longrightarrow>
     wp no_stop (bind (drop (Some x)) drop)
       (\<lambda>p s'. (\<exists>x'. p = Some x' \<and> dead x') \<and> owns L R s' \<and> world s' = world s) s"
  unfolding wp_bind by (rule drop_live, assumption, rule drop_dead) auto

text \<open>Dropping the last live value leaves an empty heap.\<close>

lemma drop_last:
  "live x v {#} Map.empty s \<Longrightarrow> wp no_stop (drop (Some x)) (\<lambda>_ s'. heap s' = Map.empty) s"
  by (rule drop_live) (auto dest: owns_empty_heap)

lemma at_drop:
  "live x v L R s \<Longrightarrow>
     (\<And>x' s'. dead x' \<Longrightarrow> owns L R s' \<Longrightarrow> world s' = world s \<Longrightarrow> Q x' s') \<Longrightarrow>
     wp E (at_ptr drop x) Q s"
  unfolding wp_at_ptr by (rule drop_live) auto

end

locale cloneable = owned_value live dead drop
  for live :: "'a \<Rightarrow> 'v \<Rightarrow> strs \<Rightarrow> raws \<Rightarrow> nqstate \<Rightarrow> bool"
    and dead :: "'a \<Rightarrow> bool"
    and drop :: "'a option \<Rightarrow> 'a option nq" +
  fixes clone :: "config \<Rightarrow> 'a \<Rightarrow> 'a nq"
  assumes clone_live: "live x v L R s \<Longrightarrow> E (Exit 1) \<Longrightarrow>
      (\<And>y L' s'. live y v L' R s' \<Longrightarrow> (\<And>s2. owns L' R s2 \<Longrightarrow> live x v L R s2) \<Longrightarrow>
         world s' = world s \<Longrightarrow> Q y s') \<Longrightarrow>
      wp E (clone c x) Q s"
begin

text \<open>A clone that is dropped again leaves the original as it was.\<close>

lemma clone_drop:
  "live x v L R s \<Longrightarrow>
     wp safe_stop (bind (clone c x) (\<lambda>y. drop (Some y))) (\<lambda>_ s'. live x v L R s' \<and> world s' = world s) s"
  unfolding wp_bind by (rule clone_live, assumption, simp, rule drop_live) auto

end

section \<open>Strings and errors\<close>

definition live_str :: "nqstr \<Rightarrow> string \<Rightarrow> strs \<Rightarrow> raws \<Rightarrow> nqstate \<Rightarrow> bool" where
  "live_str t v L R s \<longleftrightarrow> owns (add_mset (t, v) L) R s"

interpretation str: cloneable live_str inert nq_str_drop nq_str_clone
proof unfold_locales
  show "nq_str_drop None = ret None" by (simp add: nq_str_drop_def nullable_def)
qed (auto simp: live_str_def wp_nq_str_drop_inert intro: wp_nq_str_drop wp_nq_str_clone)

definition live_err :: "nqioerr \<Rightarrow> err_view \<Rightarrow> strs \<Rightarrow> raws \<Rightarrow> nqstate \<Rightarrow> bool" where
  "live_err e v L R s \<longleftrightarrow> owns (with_err e v L) R s"

interpretation err: cloneable live_err inert_err nq_io_err_drop nq_io_err_clone
proof unfold_locales
  show "nq_io_err_drop None = ret None" by (simp add: nq_io_err_drop_def nullable_def)
qed (auto simp: live_err_def wp_nq_io_err_drop_inert intro: wp_nq_io_err_drop wp_nq_io_err_clone)

section \<open>Lifting the contract to options and results\<close>

fun live_option :: "('a \<Rightarrow> 'v \<Rightarrow> strs \<Rightarrow> raws \<Rightarrow> nqstate \<Rightarrow> bool) \<Rightarrow> 'a option \<Rightarrow> 'v option \<Rightarrow>
    strs \<Rightarrow> raws \<Rightarrow> nqstate \<Rightarrow> bool" where
  "live_option live (Some x) (Some v) L R s = live x v L R s"
| "live_option live None None L R s = owns L R s"
| "live_option live _ _ L R s = False"

fun dead_option :: "('a \<Rightarrow> bool) \<Rightarrow> 'a option \<Rightarrow> bool" where
  "dead_option dead (Some x) = dead x"
| "dead_option dead None = True"

fun live_result :: "('a \<Rightarrow> 'v \<Rightarrow> strs \<Rightarrow> raws \<Rightarrow> nqstate \<Rightarrow> bool) \<Rightarrow> 'a nq_result \<Rightarrow> 'v + err_view \<Rightarrow>
    strs \<Rightarrow> raws \<Rightarrow> nqstate \<Rightarrow> bool" where
  "live_result live (Ok x) (Inl v) L R s = live x v L R s"
| "live_result live (Err e) (Inr v) L R s = live_err e v L R s"
| "live_result live _ _ L R s = False"

fun dead_result :: "('a \<Rightarrow> bool) \<Rightarrow> 'a nq_result \<Rightarrow> bool" where
  "dead_result dead (Ok x) = dead x"
| "dead_result dead (Err e) = inert_err e"

text \<open>A type without resources, such as \<open>i64\<close> or the metadata of a path.\<close>

definition live_plain :: "'a \<Rightarrow> 'a \<Rightarrow> strs \<Rightarrow> raws \<Rightarrow> nqstate \<Rightarrow> bool" where
  "live_plain x v L R s \<longleftrightarrow> x = v \<and> owns L R s"

definition drop_plain :: "'a option \<Rightarrow> 'a option nq" where
  "drop_plain p = ret p"

definition clone_plain :: "config \<Rightarrow> 'a \<Rightarrow> 'a nq" where
  "clone_plain c x = ret x"

interpretation plain: cloneable live_plain "\<lambda>_. True" drop_plain clone_plain
  by unfold_locales (auto simp: live_plain_def drop_plain_def clone_plain_def wp_simps)

context owned_value begin

lemma result_owned:
  assumes "\<And>p. f p = nullable p (\<lambda>r. andthen
      (case r of Ok x \<Rightarrow> bind (drop (Some x)) (\<lambda>_. ret ())
               | Err e \<Rightarrow> bind (nq_io_err_drop (Some e)) (\<lambda>_. ret ()))
      (ret (Ok z)))" and "dead z"
  shows "owned_value (live_result live) (dead_result dead) f"
proof
  show "f None = ret None" by (simp add: assms(1) nullable_def)
next
  fix r v L R s Q E
  assume live: "live_result live r v L R s"
    and Q: "\<And>x' s'. dead_result dead x' \<Longrightarrow> owns L R s' \<Longrightarrow> world s' = world s \<Longrightarrow> Q (Some x') s'"
  have "wp E (drop (Some x)) (\<lambda>_. Q (Some (Ok z))) s" if "live x a L R s" for x a
    by (rule drop_live [OF that]) (simp add: Q assms(2))
  moreover have "wp E (nq_io_err_drop (Some e)) (\<lambda>_. Q (Some (Ok z))) s" if "live_err e w L R s" for e w
    by (rule err.drop_live [OF that]) (simp add: Q assms(2))
  ultimately show "wp E (f (Some r)) Q s"
    using live by (cases r; cases v) (auto simp: assms(1) wp_simps)
next
  fix r Q and s :: nqstate and E
  assume "dead_result dead r" and "\<And>x'. dead_result dead x' \<Longrightarrow> Q (Some x') s"
  then show "wp E (f (Some r)) Q s"
    by (cases r) (auto simp: assms wp_simps intro!: drop_dead err.drop_dead)
qed

lemma option_owned:
  assumes "\<And>p. f p = nullable p (\<lambda>r. andthen
      (case r of Some x \<Rightarrow> bind (drop (Some x)) (\<lambda>_. ret ()) | None \<Rightarrow> ret ())
      (ret (Some z)))" and "dead z"
  shows "owned_value (live_option live) (dead_option dead) f"
proof
  show "f None = ret None" by (simp add: assms(1) nullable_def)
next
  fix r v L R s Q E
  assume live: "live_option live r v L R s"
    and Q: "\<And>x' s'. dead_option dead x' \<Longrightarrow> owns L R s' \<Longrightarrow> world s' = world s \<Longrightarrow> Q (Some x') s'"
  have "wp E (drop (Some x)) (\<lambda>_. Q (Some (Some z))) s" if "live x a L R s" for x a
    by (rule drop_live [OF that]) (simp add: Q assms(2))
  then show "wp E (f (Some r)) Q s"
    using live by (cases r; cases v) (auto simp: assms wp_simps intro: Q)
next
  fix r Q and s :: nqstate and E
  assume "dead_option dead r" and "\<And>x'. dead_option dead x' \<Longrightarrow> Q (Some x') s"
  then show "wp E (f (Some r)) Q s"
    by (cases r) (auto simp: assms wp_simps intro!: drop_dead)
qed

end

context cloneable begin

lemma result_cloneable:
  assumes "owned_value (live_result live) (dead_result dead) f"
    and "\<And>c r. g c r = (case r of Ok x \<Rightarrow> bind (clone c x) (\<lambda>y. ret (Ok y))
                               | Err e \<Rightarrow> bind (nq_io_err_clone c e) (\<lambda>e'. ret (Err e')))"
  shows "cloneable (live_result live) (dead_result dead) f g"
proof (intro cloneable.intro assms(1) cloneable_axioms.intro)
  fix r v L R s E c Q
  assume live: "live_result live r v L R s" and exit: "E (Exit 1)"
    and Q: "\<And>y L' s'. live_result live y v L' R s' \<Longrightarrow>
      (\<And>s2. owns L' R s2 \<Longrightarrow> live_result live r v L R s2) \<Longrightarrow> world s' = world s \<Longrightarrow> Q y s'"
  show "wp E (g c r) Q s"
  proof (cases r)
    case (Ok x)
    with live obtain a where a: "v = Inl a" "live x a L R s" by (cases v) auto
    show ?thesis
      unfolding assms(2) Ok nq_result.case wp_bind wp_ret
      by (rule clone_live [where E = E, OF a(2) exit]) (use a(1) Ok in \<open>auto intro!: Q\<close>)
  next
    case (Err e)
    with live obtain a where a: "v = Inr a" "live_err e a L R s" by (cases v) auto
    show ?thesis
      unfolding assms(2) Err nq_result.case wp_bind wp_ret
      by (rule err.clone_live [where E = E, OF a(2) exit]) (use a(1) Err in \<open>auto intro!: Q\<close>)
  qed
qed

lemma option_cloneable:
  assumes "owned_value (live_option live) (dead_option dead) f"
    and "\<And>c r. g c r = (case r of Some x \<Rightarrow> bind (clone c x) (\<lambda>y. ret (Some y)) | None \<Rightarrow> ret None)"
  shows "cloneable (live_option live) (dead_option dead) f g"
proof (intro cloneable.intro assms(1) cloneable_axioms.intro)
  fix r v L R s E c Q
  assume live: "live_option live r v L R s" and exit: "E (Exit 1)"
    and Q: "\<And>y L' s'. live_option live y v L' R s' \<Longrightarrow>
      (\<And>s2. owns L' R s2 \<Longrightarrow> live_option live r v L R s2) \<Longrightarrow> world s' = world s \<Longrightarrow> Q y s'"
  show "wp E (g c r) Q s"
  proof (cases r)
    case (Some x)
    with live obtain a where a: "v = Some a" "live x a L R s" by (cases v) auto
    show ?thesis
      unfolding assms(2) Some option.case wp_bind wp_ret
      by (rule clone_live [where E = E, OF a(2) exit]) (use a(1) Some in \<open>auto intro!: Q\<close>)
  next
    case None
    with live have "v = None" "owns L R s" by (cases v; simp)+
    then show ?thesis using None by (auto simp: assms(2) wp_simps intro!: Q)
  qed
qed

end

section \<open>Growable sequences\<close>

text \<open>
  The contract of a sequence that grows at its end, on which the loops that collect bytes or
  strings rely. \<open>holds b xs R R'\<close>: the sequence \<open>b\<close> holds the elements \<open>xs\<close>, in a block that
  \<open>R'\<close> has over \<open>R\<close>. \<open>push\<close> reports an allocation failure as a value and then leaves the
  sequence as it was.
\<close>

locale growable =
  fixes holds :: "'b \<Rightarrow> 'e list \<Rightarrow> raws \<Rightarrow> raws \<Rightarrow> bool"
    and empty :: 'b
    and push :: "config \<Rightarrow> 'b \<Rightarrow> 'e \<Rightarrow> ('b \<times> alloc_failure option) nq"
  assumes holds_empty: "holds empty [] R R"
    and push_holds: "holds b xs R R' \<Longrightarrow> owns L R' s \<Longrightarrow>
      (\<And>b' R'' s'. holds b' (xs @ [x]) R R'' \<Longrightarrow> owns L R'' s' \<Longrightarrow> world s' = world s \<Longrightarrow> Q (b', None) s') \<Longrightarrow>
      (\<And>e s'. owns L R' s' \<Longrightarrow> world s' = world s \<Longrightarrow> Q (b, Some e) s') \<Longrightarrow>
      wp E (push c b x) Q s"
begin

text \<open>Pushing a list of elements one after the other, until one does not fit.\<close>

fun push_all :: "config \<Rightarrow> 'b \<Rightarrow> 'e list \<Rightarrow> ('b \<times> alloc_failure option) nq" where
  "push_all c b [] = ret (b, None)"
| "push_all c b (x # xs) = bind (push c b x) (\<lambda>(b', failed).
     case failed of None \<Rightarrow> push_all c b' xs | Some e \<Rightarrow> ret (b', Some e))"

text \<open>The elements end up in order; after a failure a prefix of them is there.\<close>

lemma push_all_holds:
  "holds b xs R R' \<Longrightarrow> owns L R' s \<Longrightarrow>
     wp no_stop (push_all c b ys) (\<lambda>(b', failed) s'.
       (\<exists>n R''. holds b' (xs @ take n ys) R R'' \<and> owns L R'' s' \<and> (failed = None \<longrightarrow> length ys \<le> n))
       \<and> world s' = world s) s"
proof (induction ys arbitrary: b xs R' s)
  case Nil
  then show ?case by (auto simp: wp_simps intro!: exI [of _ 0])
next
  case (Cons y ys)
  show ?case
    unfolding push_all.simps wp_bind
  proof (rule push_holds [OF Cons.prems], goal_cases)
    case (1 b' R'' s')
    have "wp no_stop (push_all c b' ys) (\<lambda>(b', failed) s'.
       (\<exists>n R''. holds b' (xs @ take n (y # ys)) R R'' \<and> owns L R'' s' \<and> (failed = None \<longrightarrow> length (y # ys) \<le> n))
       \<and> world s' = world s) s'"
    proof (rule wp_mono [OF Cons.IH [OF 1(1,2)]], clarsimp, goal_cases)
      case (1 b2 failed s2 n R2)
      then show ?case using \<open>world s' = world s\<close> by (auto intro!: exI [of _ "Suc n"] exI [of _ R2])
    qed
    then show ?case by simp
  next
    case (2 e s')
    then show ?case using Cons.prems(1) by (auto simp: wp_simps intro!: exI [of _ 0] exI [of _ R'])
  qed
qed

end

end
