(* ===== verification/Bytes.thy ===== *)
theory Bytes
  imports Owned
begin

text \<open>
  \<open>NQBytes\<close>: byte arrays of \<open>stdlib/runtime.c\<close> (\<open>nq_bytes_from_str\<close>, \<open>nq_str_from_bytes\<close>,
  \<open>nq_bytes_len\<close>, \<open>nq_bytes_get\<close>, \<open>nq_bytes_drop\<close>), and the two functions that print a line.

  \<open>holds_bytes b v R R'\<close>: the array \<open>b\<close> holds the bytes \<open>v\<close>, in a block of its own that \<open>R'\<close>
  has over \<open>R\<close>, or in none when it has no storage.
\<close>

definition zero_bytes :: nqbytes where
  "zero_bytes = \<lparr>b_data = PNull, b_len = 0, b_cap = 0\<rparr>"

definition nq_bytes_from_str :: "config \<Rightarrow> nqstr \<Rightarrow> nqbytes nq" where
  "nq_bytes_from_str c t =
     (if \<not> nq_str_size c (s_len t) \<or> nat (s_len t) > nq_bytes_limit c then nq_size_fail
      else if s_len t \<le> 0 then ret zero_bytes
      else bind (nq_realloc c KBytes PNull (nat (s_len t))) (\<lambda>data.
           andthen (bind (load_bytes (s_data t) (nat (s_len t))) (store_bytes data))
           (ret \<lparr>b_data = data, b_len = s_len t, b_cap = s_len t\<rparr>)))"

definition nq_str_from_bytes :: "config \<Rightarrow> nqbytes option \<Rightarrow> nqstr nq" where
  "nq_str_from_bytes c p =
     (case p of
        None \<Rightarrow> ret nq_empty_str
      | Some b \<Rightarrow>
          if \<not> nq_str_size c (b_len b) \<or> nat (b_len b) > nq_bytes_limit c then nq_size_fail
          else if b_len b \<le> 0 then ret nq_empty_str
          else nq_owned_str_copy c (b_data b) (b_len b))"

definition nq_bytes_len :: "config \<Rightarrow> nqbytes \<Rightarrow> int nq" where
  "nq_bytes_len c b =
     (if b_len b < 0 \<or> nat (b_len b) > nq_bytes_limit c then nq_size_fail else ret (b_len b))"

definition nq_bytes_get :: "config \<Rightarrow> nqbytes \<Rightarrow> int \<Rightarrow> nq_option_i32 nq" where
  "nq_bytes_get c b index =
     (if b_len b < 0 \<or> nat (b_len b) > nq_bytes_limit c then nq_size_fail
      else if index < 0 \<or> index \<ge> b_len b then ret None
      else bind (load_bytes (ptr_plus (b_data b) (nat index)) 1) (\<lambda>bs. ret (Some (of_char (hd bs)))))"

definition nq_bytes_drop :: "nqbytes option \<Rightarrow> nqbytes option nq" where
  "nq_bytes_drop p = nullable p (\<lambda>b. andthen (c_free (b_data b)) (ret zero_bytes))"

text \<open>Printing ignores what the C library replies.\<close>

definition nq_print_line :: "config \<Rightarrow> nqstr \<Rightarrow> unit nq" where
  "nq_print_line c t =
     (if \<not> nq_str_size c (s_len t) then nq_size_fail
      else bind (load_bytes (s_data t) (nat (s_len t))) (\<lambda>bs.
        andthen (emit (Fwrite 1 bs)) (andthen (emit (Fwrite 1 ''\<newline>'')) (emit (Fflush 1)))))"

definition nq_eprint_line :: "config \<Rightarrow> nqstr \<Rightarrow> unit nq" where
  "nq_eprint_line c t =
     (if \<not> nq_str_size c (s_len t) then nq_size_fail
      else bind (load_bytes (s_data t) (nat (s_len t))) (\<lambda>bs.
        andthen (emit (Fwrite 2 bs)) (andthen (emit (Fwrite 2 ''\<newline>'')) (emit (Fflush 2)))))"

section \<open>Live byte arrays\<close>

definition holds_bytes :: "nqbytes \<Rightarrow> string \<Rightarrow> raws \<Rightarrow> raws \<Rightarrow> bool" where
  "holds_bytes b v R R' \<longleftrightarrow>
     b = zero_bytes \<and> v = [] \<and> R' = R \<or>
     (\<exists>k junk. b_data b = PHeap k 0 \<and> b_len b = int (length v) \<and>
        b_cap b = int (length v + length junk) \<and> R k = None \<and>
        R' = R(k \<mapsto> BBytes (map Some v @ junk)))"

definition live_bytes :: "nqbytes \<Rightarrow> string \<Rightarrow> strs \<Rightarrow> raws \<Rightarrow> nqstate \<Rightarrow> bool" where
  "live_bytes b v L R s \<longleftrightarrow> (\<exists>R'. holds_bytes b v R R' \<and> owns L R' s)"

definition dead_bytes :: "nqbytes \<Rightarrow> bool" where
  "dead_bytes b \<longleftrightarrow> b = zero_bytes"

lemma holds_bytes_len: "holds_bytes b v R R' \<Longrightarrow> b_len b = int (length v)"
  by (auto simp: holds_bytes_def zero_bytes_def)

lemma holds_bytes_readable: "holds_bytes b v R R' \<Longrightarrow> readable L R' (b_data b) (length v) v"
  by (auto simp: holds_bytes_def zero_bytes_def intro!: readable_raw readable_none)

lemma holds_zero_bytes: "holds_bytes zero_bytes [] R R"
  by (simp add: holds_bytes_def)

interpretation bytes: owned_value live_bytes dead_bytes nq_bytes_drop
proof
  show "nq_bytes_drop None = ret None" by (simp add: nq_bytes_drop_def nullable_def)
next
  fix b v L R s Q E
  assume live: "live_bytes b v L R s"
    and Q: "\<And>x' s'. dead_bytes x' \<Longrightarrow> owns L R s' \<Longrightarrow> world s' = world s \<Longrightarrow> Q (Some x') s'"
  from live consider "b = zero_bytes" "owns L R s"
    | k junk where "b_data b = PHeap k 0" "R k = None" "owns L (R(k \<mapsto> BBytes (map Some v @ junk))) s"
    by (auto simp: live_bytes_def holds_bytes_def)
  then show "wp E (nq_bytes_drop (Some b)) Q s"
  proof cases
    case 1
    then show ?thesis
      by (simp add: nq_bytes_drop_def wp_simps zero_bytes_def wp_c_free_null) (simp add: Q dead_bytes_def zero_bytes_def)
  next
    case 2
    have "R(k := None) = R" using 2(2) by simp
    with 2 show ?thesis
      by (auto simp: nq_bytes_drop_def wp_simps dead_bytes_def intro!: wp_c_free_raw [OF 2(3)] Q)
  qed
next
  fix b Q and s :: nqstate and E
  assume "dead_bytes b" and "\<And>x'. dead_bytes x' \<Longrightarrow> Q (Some x') s"
  then show "wp E (nq_bytes_drop (Some b)) Q s"
    by (simp add: nq_bytes_drop_def wp_simps dead_bytes_def zero_bytes_def wp_c_free_null)
qed

section \<open>Rules\<close>

lemma wp_nq_bytes_from_str:
  assumes "owns L R s" and "(t, v) \<in># L" and "E (Exit 1)"
    and ok: "\<And>b s'. live_bytes b v L R s' \<Longrightarrow> world s' = world s \<Longrightarrow> Q b s'"
  shows "wp E (nq_bytes_from_str c t) Q s"
proof -
  have len: "s_len t = int (length v)" using owns_live_len [OF assms(1,2)] .
  have reads: "readable L R (s_data t) (length v) v" using assms(2) len by (rule readable_any_raws)
  show ?thesis
  proof (cases "\<not> nq_str_size c (s_len t) \<or> length v > nq_bytes_limit c \<or> v = []")
    case True
    then show ?thesis
      using assms(1,3) ok [of zero_bytes s]
      by (auto simp: nq_bytes_from_str_def wp_simps len live_bytes_def holds_bytes_def)
  next
    case False
    then have "wp E (nq_bytes_from_str c t) Q s = wp E (nq_realloc c KBytes PNull (length v))
        (\<lambda>data. wp E (load_bytes (s_data t) (length v)) (\<lambda>bs. wp E (store_bytes data bs)
          (\<lambda>_. Q \<lparr>b_data = data, b_len = int (length v), b_cap = int (length v)\<rparr>))) s"
      by (simp add: nq_bytes_from_str_def wp_simps len)
    also have "\<dots>"
    proof (rule wp_nq_realloc_new [where E = E, OF assms(1) _ assms(3)], goal_cases)
      case (2 k s1)
      then have s1: "owns L (R(k \<mapsto> BBytes (map Some [] @ replicate (length v) None))) s1" by simp
      show ?case
      proof (rule wp_load_bytes [OF s1 readable_upd [OF reads 2(2)]],
          rule store_after [OF s1, simplified list.size], goal_cases)
        case (2 s2)
        then show ?case
          using \<open>R k = None\<close> \<open>world s1 = world s\<close>
          by (intro ok) (auto simp: live_bytes_def holds_bytes_def)
      qed simp
    qed (use False in simp)
    finally show ?thesis .
  qed
qed

lemma wp_nq_str_from_bytes:
  assumes "holds_bytes b v R R'" and "owns L R' s" and "E (Exit 1)"
    and ok: "\<And>t s'. owns (add_mset (t, v) L) R' s' \<Longrightarrow> world s' = world s \<Longrightarrow> Q t s'"
  shows "wp E (nq_str_from_bytes c (Some b)) Q s"
proof (cases "\<not> nq_str_size c (b_len b) \<or> nat (b_len b) > nq_bytes_limit c \<or> b_len b \<le> 0")
  case True
  then show ?thesis
    using assms(2,3) ok [of nq_empty_str s] owns_add_inert [OF assms(2), of nq_empty_str] holds_bytes_len [OF assms(1)]
    by (auto simp: nq_str_from_bytes_def wp_simps)
next
  case False
  then show ?thesis
    using holds_bytes_readable [OF assms(1)] holds_bytes_len [OF assms(1)]
    by (auto simp: nq_str_from_bytes_def intro!: wp_nq_owned_str_copy [where E = E, OF assms(2) _ assms(3) ok])
qed

lemma wp_nq_bytes_get:
  assumes "holds_bytes b v R R'" and "owns L R' s" and "E (Exit 1)"
    and "Q (if 0 \<le> i \<and> i < int (length v) then Some (of_char (v ! nat i)) else None) s"
  shows "wp E (nq_bytes_get c b i) Q s"
proof (cases "0 \<le> i \<and> i < int (length v)")
  case False
  then show ?thesis
    using assms(3,4) holds_bytes_len [OF assms(1)] by (auto simp: nq_bytes_get_def wp_simps)
next
  case True
  have "read_bytes (heap s) (b_data b) (length v) = Some v"
    using readableD [OF holds_bytes_readable [OF assms(1)] assms(2)] .
  then have "read_bytes (heap s) (ptr_plus (b_data b) (nat i)) 1 = Some (take 1 (drop (nat i) v))"
    by (rule read_bytes_part) (use True in linarith)
  moreover have "take 1 (drop (nat i) v) = [v ! nat i]"
    using True by (subst Cons_nth_drop_Suc [symmetric]) (simp_all add: nat_less_iff)
  ultimately show ?thesis
    using True assms(3,4) holds_bytes_len [OF assms(1)]
    by (simp add: nq_bytes_get_def wp_simps) (simp add: wp_def load_bytes_def)
qed

lemma wp_nq_bytes_len:
  assumes "holds_bytes b v R R'" and "E (Exit 1)" and "length v \<le> nq_bytes_limit c \<Longrightarrow> Q (int (length v)) s"
  shows "wp E (nq_bytes_len c b) Q s"
  using assms holds_bytes_len [OF assms(1)] by (auto simp: nq_bytes_len_def wp_simps)

section \<open>Properties\<close>

text \<open>
  C12: Converting a string to a byte array and back gives a string with the same bytes; indexing
  the array reads the byte of the string, or \<open>None\<close> out of bounds.
\<close>

theorem bytes_roundtrip:
  assumes "owns L R s" and "(t, v) \<in># L"
  shows "wp fails_fast (bind (nq_bytes_from_str c t) (\<lambda>b. bind (nq_bytes_get c b i) (\<lambda>x.
       bind (nq_str_from_bytes c (Some b)) (\<lambda>u. ret (b, x, u)))))
     (\<lambda>(b, x, u) s'. live_bytes b v (add_mset (u, v) L) R s' \<and> world s' = world s \<and>
        x = (if 0 \<le> i \<and> i < int (length v) then Some (of_char (v ! nat i)) else None)) s"
  unfolding wp_bind
proof (rule wp_nq_bytes_from_str [where E = fails_fast, OF assms], simp, goal_cases)
  case (1 b s1)
  then obtain R' where b: "holds_bytes b v R R'" and owns: "owns L R' s1" by (auto simp: live_bytes_def)
  show ?case
  proof (rule wp_nq_bytes_get [where E = fails_fast, OF b owns], simp,
      rule wp_nq_str_from_bytes [where E = fails_fast, OF b owns], simp, goal_cases)
    case (1 u s2)
    then show ?case
      using b \<open>world s1 = world s\<close> by (auto simp: wp_ret live_bytes_def)
  qed
qed

theorem bytes_roundtrip_witness:
  "wp fails_fast (bind (nq_bytes_from_str plain_config (literal ''ab'')) (\<lambda>b. bind (nq_bytes_get plain_config b 1) (\<lambda>x.
       bind (nq_str_from_bytes plain_config (Some b)) (\<lambda>u. ret (b, x, u)))))
     (\<lambda>(b, x, u) s'. live_bytes b ''ab'' {#(u, ''ab''), (literal ''ab'', ''ab'')#} Map.empty s' \<and>
        x = Some (of_char (CHR ''b''))) (boot [] [])"
  by (rule wp_mono [OF bytes_roundtrip [where v = "''ab''", OF owns_literal [OF owns_boot]]]) auto

end
