(* ===== verification/Lists.thy ===== *)
theory Lists
  imports Bytes
begin

text \<open>
  \<open>NQ_List__str\<close>: growable lists of strings of \<open>stdlib/runtime.c\<close> (\<open>nq_list__str_make\<close> to
  \<open>nq_list__str_drop\<close>), and \<open>nq_str_join\<close>.

  \<open>holds_list l ts R R'\<close>: the list \<open>l\<close> holds the handles \<open>ts\<close> in the front cells of a block of
  its own; the cells behind them are spare capacity. The strings are owned by the list, so
  that a live list with the texts \<open>vs\<close> is \<open>owns (mset (zip ts vs) + L) R'\<close>.
\<close>

section \<open>Operations\<close>

definition nq_list__str_make :: nq_list_str where
  "nq_list__str_make = \<lparr>l_data = PNull, l_len = 0, l_cap = 0\<rparr>"

text \<open>\<open>values\<close> is the array the caller passes; \<open>memcpy\<close> copies its first \<open>len\<close> handles.\<close>

fun store_strs :: "ptr \<Rightarrow> nat \<Rightarrow> nqstr list \<Rightarrow> unit nq" where
  "store_strs p i [] = ret ()"
| "store_strs p i (t # ts) = andthen (store_str p i t) (store_strs p (Suc i) ts)"

definition nq_list__str_from_array :: "config \<Rightarrow> nqstr list \<Rightarrow> int \<Rightarrow> nq_list_str nq" where
  "nq_list__str_from_array c values len =
     bind (nq_list_grow_capacity c len len 0 sizeof_str) (\<lambda>_.
     if len > 0
     then bind (nq_allocation_size c (nat len) sizeof_str) (\<lambda>sz.
       if nat len > length values then stop Undefined
       else if \<not> list_all (\<lambda>v. nq_str_size c (s_len v)) (take (nat len) values) then nq_size_fail
       else bind (nq_realloc c KStrs PNull sz) (\<lambda>data.
         andthen (store_strs data 0 (take (nat len) values))
           (ret \<lparr>l_data = data, l_len = len, l_cap = len\<rparr>)))
     else ret nq_list__str_make)"

definition nq_try_list_str_push ::
  "config \<Rightarrow> nq_list_str \<Rightarrow> nqstr \<Rightarrow> (nq_list_str \<times> alloc_failure option) nq" where
  "nq_try_list_str_push c items v =
     bind (nq_list_capacity c (l_cap items) (l_len items) 1 sizeof_str) (\<lambda>r. case r of
       Inl _ \<Rightarrow> ret (items, Some ALLOC_SIZE)
     | Inr next_cap \<Rightarrow>
       if \<not> nq_str_size c (s_len v) then ret (items, Some ALLOC_SIZE)
       else
         bind (if next_cap \<noteq> l_cap items
               then bind (nq_try_realloc c KStrs (l_data items) (size_times (to_size next_cap) sizeof_str))
                 (\<lambda>r. case r of
                    Inl status \<Rightarrow> ret (items, Some status)
                  | Inr nxt \<Rightarrow> ret (items\<lparr>l_data := nxt, l_cap := next_cap\<rparr>, None))
               else ret (items, None))
           (\<lambda>(items, status).
              if status \<noteq> None then ret (items, status)
              else andthen (store_str (l_data items) (nat (l_len items)) v)
                     (ret (items\<lparr>l_len := l_len items + 1\<rparr>, None))))"

definition nq_list__str_push :: "config \<Rightarrow> nq_list_str \<Rightarrow> nqstr \<Rightarrow> nq_list_str nq" where
  "nq_list__str_push c items v =
     bind (nq_try_list_str_push c items v) (\<lambda>(items, status).
       case status of Some st \<Rightarrow> nq_alloc_fail st | None \<Rightarrow> ret items)"

definition nq_list__str_len :: "nq_list_str \<Rightarrow> int" where
  "nq_list__str_len items = l_len items"

definition nq_list__str_get :: "config \<Rightarrow> nq_list_str \<Rightarrow> int \<Rightarrow> nq_option_str nq" where
  "nq_list__str_get c items index =
     (if index < 0 \<or> index \<ge> l_len items then ret None
      else bind (load_str (l_data items) (nat index)) (\<lambda>t.
           bind (nq_str_clone c t) (\<lambda>u. ret (Some u))))"

definition nq_list__str_replace :: "nq_list_str \<Rightarrow> int \<Rightarrow> nqstr \<Rightarrow> nq_option_str nq" where
  "nq_list__str_replace items index v =
     (if index < 0 \<or> index \<ge> l_len items
      then bind (nq_str_drop (Some v)) (\<lambda>_. ret None)
      else bind (load_str (l_data items) (nat index)) (\<lambda>old.
           andthen (store_str (l_data items) (nat index) v) (ret (Some old))))"

definition nq_list__str_pop :: "nq_list_str \<Rightarrow> (nq_list_str \<times> nq_option_str) nq" where
  "nq_list__str_pop items =
     (if l_len items \<le> 0 then ret (items, None)
      else let items = items\<lparr>l_len := l_len items - 1\<rparr> in
           bind (load_str (l_data items) (nat (l_len items))) (\<lambda>t. ret (items, Some t)))"

text \<open>\<open>while (index < items->len) nq_str_drop(&items->data[index++])\<close>, \<open>n\<close> rounds being left.\<close>

fun drop_strs :: "ptr \<Rightarrow> nat \<Rightarrow> nat \<Rightarrow> unit nq" where
  "drop_strs p index 0 = ret ()"
| "drop_strs p index (Suc n) =
     bind (load_str p index) (\<lambda>t.
     bind (at_ptr nq_str_drop t) (\<lambda>t'.
     andthen (store_str p index t') (drop_strs p (index + 1) n)))"

definition nq_list__str_drop :: "nq_list_str option \<Rightarrow> nq_list_str option nq" where
  "nq_list__str_drop p = nullable p (\<lambda>items.
     andthen (drop_strs (l_data items) 0 (nat (l_len items)))
       (andthen (c_free (l_data items)) (ret nq_list__str_make)))"

text \<open>The two loops of \<open>nq_str_join\<close>: the checked sum of the lengths, and the copies.\<close>

fun join_len :: "config \<Rightarrow> ptr \<Rightarrow> nat \<Rightarrow> nat \<Rightarrow> nat \<Rightarrow> nat nq" where
  "join_len c p index 0 len = ret len"
| "join_len c p index (Suc n) len =
     bind (load_str p index) (\<lambda>part.
       if \<not> nq_str_size c (s_len part) \<or> (s_len part \<noteq> 0 \<and> s_data part = PNull) then nq_size_fail
       else case nq_size_add len (nat (s_len part)) (nq_str_limit c) of
         None \<Rightarrow> nq_size_fail
       | Some len \<Rightarrow> join_len c p (index + 1) n len)"

fun join_copy :: "ptr \<Rightarrow> nat \<Rightarrow> nat \<Rightarrow> ptr \<Rightarrow> nat \<Rightarrow> unit nq" where
  "join_copy p index 0 buffer offset = ret ()"
| "join_copy p index (Suc n) buffer offset =
     bind (load_str p index) (\<lambda>part.
     andthen (only_if (s_len part \<noteq> 0)
       (bind (load_bytes (s_data part) (nat (s_len part))) (store_bytes (ptr_plus buffer offset))))
     (join_copy p (index + 1) n buffer (offset + nat (s_len part))))"

definition nq_str_join :: "config \<Rightarrow> nq_list_str option \<Rightarrow> nqstr nq" where
  "nq_str_join c p =
     (case p of
        None \<Rightarrow> nq_size_fail
      | Some parts \<Rightarrow>
        if l_len parts < 0 \<or> l_cap parts < l_len parts \<or>
           nat (l_cap parts) > nq_sequence_limit c (nat INT32_MAX) \<or>
           (l_len parts \<noteq> 0 \<and> l_data parts = PNull)
        then nq_size_fail
        else bind (join_len c (l_data parts) 0 (nat (l_len parts)) 0) (\<lambda>len.
          case nq_size_add len 1 (nq_allocation_limit c) of
            None \<Rightarrow> nq_size_fail
          | Some sz \<Rightarrow>
            if sizeof_owner > nq_allocation_limit c then nq_size_fail
            else bind (nq_realloc c KBytes PNull sz) (\<lambda>buffer.
              andthen (join_copy (l_data parts) 0 (nat (l_len parts)) buffer 0)
              (andthen (store_bytes (ptr_plus buffer len) [CHR 0x00])
              (bind (nq_try_str_take c buffer len) (\<lambda>r.
                 case r of Inl status \<Rightarrow> nq_alloc_fail status | Inr t \<Rightarrow> ret t))))))"

section \<open>Live lists\<close>

definition holds_list :: "nq_list_str \<Rightarrow> nqstr list \<Rightarrow> raws \<Rightarrow> raws \<Rightarrow> bool" where
  "holds_list l ts R R' \<longleftrightarrow>
     l = nq_list__str_make \<and> ts = [] \<and> R' = R \<or>
     (\<exists>b junk. l_data l = PHeap b 0 \<and> l_len l = int (length ts) \<and>
        l_cap l = int (length ts + length junk) \<and> R b = None \<and>
        R' = R(b \<mapsto> BStrs (map Some ts @ junk)))"

definition live_list :: "nq_list_str \<Rightarrow> string list \<Rightarrow> strs \<Rightarrow> raws \<Rightarrow> nqstate \<Rightarrow> bool" where
  "live_list l vs L R s \<longleftrightarrow>
     (\<exists>ts R'. length ts = length vs \<and> holds_list l ts R R' \<and> owns (mset (zip ts vs) + L) R' s)"

definition dead_list :: "nq_list_str \<Rightarrow> bool" where
  "dead_list l \<longleftrightarrow> l = nq_list__str_make"

lemma holds_list_len: "holds_list l ts R R' \<Longrightarrow> l_len l = int (length ts)"
  by (auto simp: holds_list_def nq_list__str_make_def)

lemma holds_make: "holds_list nq_list__str_make [] R R"
  by (simp add: holds_list_def)

text \<open>Reading and writing the cells of an owned block.\<close>

lemma wp_load_str:
  "owns L R s \<Longrightarrow> R b = Some (BStrs cs) \<Longrightarrow> i < length cs \<Longrightarrow> cs ! i = Some t \<Longrightarrow> Q t s \<Longrightarrow>
     wp E (load_str (PHeap b 0) i) Q s"
  by (simp add: wp_def load_str_def owns_raw)

lemma wp_store_str:
  assumes "owns L R s" and "R b = Some (BStrs cs)" and "i < length cs"
    and "\<And>s'. owns L (R(b \<mapsto> BStrs (cs[i := Some t]))) s' \<Longrightarrow> world s' = world s \<Longrightarrow> Q () s'"
  shows "wp E (store_str (PHeap b 0) i t) Q s"
  using assms owns_raw [OF assms(1,2)] owns_put_raw [OF assms(1,2)] by (simp add: wp_def store_str_def)

lemma wp_store_strs:
  assumes "owns L (R(b \<mapsto> BStrs (map Some xs @ replicate k None))) s" and "length ts \<le> k"
    and "\<And>s'. owns L (R(b \<mapsto> BStrs (map Some (xs @ ts) @ replicate (k - length ts) None))) s' \<Longrightarrow>
           world s' = world s \<Longrightarrow> Q () s'"
  shows "wp E (store_strs (PHeap b 0) (length xs) ts) Q s"
  using assms
proof (induction ts arbitrary: xs k s)
  case Nil
  then show ?case by (simp add: wp_simps)
next
  case (Cons t ts)
  have "wp E (store_str (PHeap b 0) (length xs) t) (\<lambda>_. wp E (store_strs (PHeap b 0) (Suc (length xs)) ts) Q) s"
  proof (rule wp_store_str [OF Cons.prems(1), where cs = "map Some xs @ replicate k None"], goal_cases)
    case (3 s1)
    obtain k' where k: "k = Suc k'" using Cons.prems(2) by (cases k) auto
    have s1: "owns L (R(b \<mapsto> BStrs (map Some (xs @ [t]) @ replicate k' None))) s1"
      using 3(1) by (simp add: k list_update_append)
    have "wp E (store_strs (PHeap b 0) (length (xs @ [t])) ts) Q s1"
      by (rule Cons.IH [OF s1]) (use Cons.prems(2,3) 3(2) k in auto)
    then show ?case by simp
  qed (use Cons.prems(2) in auto)
  then show ?case by (simp add: wp_simps)
qed

section \<open>Rules\<close>

text \<open>What the elements of an array own, one by one.\<close>

lemma zip_add: "mset (zip (t # ts) (v # vs)) + L = add_mset (t, v) (mset (zip ts vs) + L)"
  by simp

lemma zip_nth_in: "length ts = length vs \<Longrightarrow> i < length vs \<Longrightarrow> (ts ! i, vs ! i) \<in># mset (zip ts vs) + L"
  by (simp add: set_zip) blast

lemma drop_nth: "i < length xs \<Longrightarrow> drop i xs = xs ! i # drop (Suc i) xs"
  by (simp add: Cons_nth_drop_Suc)

lemma wp_drop_strs:
  assumes "owns (mset (zip (drop i ts) (drop i vs)) + L) (R(b \<mapsto> BStrs cs)) s"
    and "length ts = length vs" and "i + n = length vs" and "length vs \<le> length cs"
    and "\<And>j. i \<le> j \<Longrightarrow> j < length vs \<Longrightarrow> cs ! j = Some (ts ! j)"
    and "\<And>cs' s'. owns L (R(b \<mapsto> BStrs cs')) s' \<Longrightarrow> world s' = world s \<Longrightarrow> Q () s'"
  shows "wp E (drop_strs (PHeap b 0) i n) Q s"
  using assms
proof (induction n arbitrary: i cs s)
  case 0
  then show ?case by (simp add: wp_simps)
next
  case (Suc n)
  have i: "i < length vs" using Suc.prems(3) by simp
  have owns: "owns (add_mset (ts ! i, vs ! i) (mset (zip (drop (Suc i) ts) (drop (Suc i) vs)) + L))
      (R(b \<mapsto> BStrs cs)) s"
    using Suc.prems(1) i Suc.prems(2) by (simp add: drop_nth)
  have "wp E (load_str (PHeap b 0) i) (\<lambda>t. wp E (at_ptr nq_str_drop t)
      (\<lambda>t'. wp E (store_str (PHeap b 0) i t') (\<lambda>_. wp E (drop_strs (PHeap b 0) (i + 1) n) Q))) s"
  proof (rule wp_load_str [OF owns, where cs = cs and t = "ts ! i"], goal_cases)
    case 4
    show ?case
    proof (rule wp_at_nq_str_drop [OF owns], rule wp_store_str [where cs = cs], assumption, goal_cases)
      case (3 s1 s2)
      show ?case
      proof (rule Suc.IH [where cs = "cs[i := Some nq_empty_str]"], goal_cases)
        case 1
        then show ?case using 3(3) by simp
      next
        case (6 cs' s')
        then show ?case using 3 Suc.prems(6) by simp
      qed (use Suc.prems in auto)
    qed (use i Suc.prems(4) in auto)
  qed (use i Suc.prems in auto)
  then show ?case by (simp add: wp_simps)
qed

interpretation strs: owned_value live_list dead_list nq_list__str_drop
proof
  show "nq_list__str_drop None = ret None" by (simp add: nq_list__str_drop_def nullable_def)
next
  fix l vs L R s Q E
  assume live: "live_list l vs L R s"
    and Q: "\<And>x' s'. dead_list x' \<Longrightarrow> owns L R s' \<Longrightarrow> world s' = world s \<Longrightarrow> Q (Some x') s'"
  from live obtain ts R' where ts: "length ts = length vs" "holds_list l ts R R'"
    "owns (mset (zip ts vs) + L) R' s" by (auto simp: live_list_def)
  from ts(2) consider "l = nq_list__str_make" "ts = []" "R' = R"
    | b junk where "l_data l = PHeap b 0" "l_len l = int (length ts)" "R b = None"
        "R' = R(b \<mapsto> BStrs (map Some ts @ junk))"
    unfolding holds_list_def by blast
  then show "wp E (nq_list__str_drop (Some l)) Q s"
  proof cases
    case 1
    with ts Q [of nq_list__str_make s] show ?thesis
      by (simp add: nq_list__str_drop_def wp_simps nq_list__str_make_def wp_c_free_null dead_list_def)
  next
    case 2
    have "R(b := None) = R" using 2(3) by simp
    with 2 ts show ?thesis
      by (auto simp: nq_list__str_drop_def wp_simps nth_append dead_list_def
          intro!: wp_drop_strs [where i = 0 and ts = ts and vs = vs] wp_c_free_raw Q)
  qed
next
  fix l Q and s :: nqstate and E
  assume "dead_list l" and "\<And>x'. dead_list x' \<Longrightarrow> Q (Some x') s"
  then show "wp E (nq_list__str_drop (Some l)) Q s"
    by (simp add: nq_list__str_drop_def wp_simps nq_list__str_make_def wp_c_free_null dead_list_def)
qed

text \<open>Growing: the handles stay in front, the spare cells behind them.\<close>

lemma resize_front: "length xs \<le> n \<Longrightarrow> \<exists>junk'. resize_cells n (xs @ junk) = xs @ junk' \<and> length junk' = n - length xs"
  by (auto simp: resize_cells_def)

lemma wp_list_grow:
  assumes list: "holds_list l ts R R'" and owns: "owns L R' s" and "l_cap l < int n"
    and ok: "\<And>b junk s'. R b = None \<Longrightarrow> length ts + length junk = n \<Longrightarrow>
        owns L (R(b \<mapsto> BStrs (map Some ts @ junk))) s' \<Longrightarrow> world s' = world s \<Longrightarrow>
        Q (Inr (PHeap b 0)) s'"
    and err: "\<And>e s'. owns L R' s' \<Longrightarrow> world s' = world s \<Longrightarrow> Q (Inl e) s'"
  shows "wp E (nq_try_realloc c KStrs (l_data l) (n * sizeof_str)) Q s"
proof -
  have pos: "0 < n * sizeof_str" using list assms(3)
    by (auto simp: holds_list_def nq_list__str_make_def sizeof_str_def)
  have div: "n * sizeof_str div sizeof_str = n" by (simp add: sizeof_str_def)
  from list show ?thesis
    unfolding holds_list_def
  proof (elim disjE exE conjE)
    assume "l = nq_list__str_make" "ts = []" "R' = R"
    then show ?thesis
      using owns pos div
      by (auto simp: nq_list__str_make_def intro!: wp_nq_try_realloc_new [of L R] ok err)
  next
    fix b junk
    assume l: "l_data l = PHeap b 0" "R b = None" and R': "R' = R(b \<mapsto> BStrs (map Some ts @ junk))"
      and cap: "l_cap l = int (length ts + length junk)"
    obtain junk' where junk': "resize_cells n (map Some ts @ junk) = map Some ts @ junk'"
      "length junk' = n - length ts"
      using resize_front [of "map Some ts" n junk] assms(3) cap by auto
    have blk: "R' b = Some (BStrs (map Some ts @ junk))" by (simp add: R')
    have "wp E (nq_try_realloc c KStrs (PHeap b 0) (n * sizeof_str)) Q s"
    proof (rule wp_nq_try_realloc_grow [OF owns blk pos, where blk' = "BStrs (map Some ts @ junk')"], goal_cases)
      case 1
      then show ?case by (simp add: div junk')
    next
      case (2 b' s')
      have "R'(b := None, b' \<mapsto> x) = R(b' \<mapsto> x)" for x using l(2) by (auto simp: R' fun_eq_iff)
      with 2 show ?case using junk'(2) assms(3) cap l(2)
        by (intro ok) (auto simp: R' split: if_splits)
    next
      case (3 e s')
      then show ?case by (intro err) auto
    qed
    with l show ?thesis by simp
  qed
qed

lemma wp_nq_try_list_str_push:
  assumes list: "holds_list l ts R R'" and owns: "owns L R' s"
    and ok: "\<And>l' R'' s'. holds_list l' (ts @ [t]) R R'' \<Longrightarrow> owns L R'' s' \<Longrightarrow> world s' = world s \<Longrightarrow>
        nq_str_size c (s_len t) \<Longrightarrow> Q (l', None) s'"
    and err: "\<And>e s'. owns L R' s' \<Longrightarrow> world s' = world s \<Longrightarrow> Q (l, Some e) s'"
  shows "wp E (nq_try_list_str_push c l t) Q s"
  unfolding nq_try_list_str_push_def wp_bind
proof (rule wp_nq_list_capacity, goal_cases)
  case 1
  then show ?case by (simp add: sizeof_str_def)
next
  case 3
  then show ?case using owns by (simp add: wp_simps err)
next
  case (2 cap')
  have len: "l_len l = int (length ts)" by (rule holds_list_len [OF list])
  show ?case
  proof (cases "nq_str_size c (s_len t)")
    case False
    then show ?thesis using owns by (simp add: wp_simps err)
  next
    case True
    have fin: "wp E (store_str (PHeap b 0) (nat (l_len l)) t)
        (\<lambda>_. Q (\<lparr>l_data = PHeap b 0, l_len = l_len l + 1, l_cap = int (length ts + length junk)\<rparr>, None)) s'"
      if asm: "R b = None" "owns L (R(b \<mapsto> BStrs (map Some ts @ junk))) s'" "world s' = world s" "0 < length junk"
      for b junk s'
    proof (rule wp_store_str [OF asm(2), where cs = "map Some ts @ junk"], goal_cases)
      case (3 s2)
      obtain z junk' where junk: "junk = z # junk'" using asm(4) by (cases junk) auto
      have "holds_list \<lparr>l_data = PHeap b 0, l_len = l_len l + 1, l_cap = int (length ts + length junk)\<rparr>
          (ts @ [t]) R (R(b \<mapsto> BStrs (map Some (ts @ [t]) @ junk')))"
        using asm(1) by (auto simp: holds_list_def len junk)
      then show ?case
        by (rule ok) (use 3 asm(3) True in \<open>simp_all add: len junk list_update_append\<close>)
    qed (use asm(4) in \<open>auto simp: len\<close>)
    show ?thesis
    proof (cases "cap' = l_cap l")
      case True
      with list 2 len obtain b junk where l: "l_data l = PHeap b 0" "R b = None"
        "l_cap l = int (length ts + length junk)" "R' = R(b \<mapsto> BStrs (map Some ts @ junk))"
        by (auto simp: holds_list_def nq_list__str_make_def)
      have "0 < length junk" using True l(3) 2(3) len by linarith
      then show ?thesis
        using fin [of b junk s] l owns len \<open>nq_str_size c (s_len t)\<close> True
        by (cases l) (simp add: wp_simps)
    next
      case False
      have size: "size_times (to_size cap') sizeof_str = nat cap' * sizeof_str"
        "l_cap l < int (nat cap')"
      proof -
        have "nat cap' * sizeof_str \<le> nq_allocation_limit c"
          by (rule list_limit_bytes) (use 2 in \<open>simp_all add: sizeof_str_def\<close>)
        then show "size_times (to_size cap') sizeof_str = nat cap' * sizeof_str"
          using allocation_limit_le [of c] 2 list_limit_le [of c sizeof_str]
          by (simp add: to_size_id SIZE_MAX_def size_times_id)
        show "l_cap l < int (nat cap')" using 2 False by simp
      qed
      have "wp E (nq_try_realloc c KStrs (l_data l) (nat cap' * sizeof_str)) (\<lambda>r. wp E (case r of
            Inl status \<Rightarrow> ret (l, Some status) | Inr nxt \<Rightarrow> ret (l\<lparr>l_data := nxt, l_cap := cap'\<rparr>, None))
          (\<lambda>(items, status). wp E (if status \<noteq> None then ret (items, status)
              else andthen (store_str (l_data items) (nat (l_len items)) t)
                     (ret (items\<lparr>l_len := l_len items + 1\<rparr>, None))) Q)) s"
      proof (rule wp_list_grow [OF list owns size(2)], goal_cases)
        case (1 b junk s')
        have "0 < length junk" using 1(2) 2(3) len by linarith
        with 1 2 len fin [of b junk s'] show ?case by (cases l) (simp add: wp_simps)
      next
        case (2 e s')
        then show ?case by (simp add: wp_simps err)
      qed
      then show ?thesis
        using False \<open>nq_str_size c (s_len t)\<close> by (simp add: wp_bind size case_prod_unfold)
    qed
  qed
qed

text \<open>The list operations on the texts a live list holds.\<close>

lemma owns_snoc:
  "length ts = length vs \<Longrightarrow>
     mset (zip (ts @ [t]) (vs @ [v])) + L = add_mset (t, v) (mset (zip ts vs) + L)"
  by simp

lemma wp_nq_list__str_push:
  assumes "holds_list l ts R R'" and "length ts = length vs"
    and owns: "owns (add_mset (t, v) (mset (zip ts vs) + L)) R' s" and "E (Exit 1)"
    and ok: "\<And>l' s'. live_list l' (vs @ [v]) L R s' \<Longrightarrow> world s' = world s \<Longrightarrow> Q l' s'"
  shows "wp E (nq_list__str_push c l t) Q s"
  unfolding nq_list__str_push_def wp_bind
proof (rule wp_nq_try_list_str_push [OF assms(1) owns], goal_cases)
  case (1 l' R'' s')
  then show ?case
    using assms(2)
    by (auto simp: wp_simps live_list_def intro!: ok exI [of _ "ts @ [t]"] exI [of _ R''])
qed (simp add: wp_simps assms(4))

lemma wp_nq_list__str_get:
  assumes list: "holds_list l ts R R'" and "length ts = length vs"
    and owns: "owns (mset (zip ts vs) + L) R' s" and "E (Exit 1)"
    and out: "i < 0 \<or> i \<ge> int (length vs) \<Longrightarrow> Q None s"
    and ok: "\<And>s'. 0 \<le> i \<Longrightarrow> i < int (length vs) \<Longrightarrow>
        owns (add_mset (ts ! nat i, vs ! nat i) (mset (zip ts vs) + L)) R' s' \<Longrightarrow> world s' = world s \<Longrightarrow>
        Q (Some (ts ! nat i)) s'"
  shows "wp E (nq_list__str_get c l i) Q s"
proof (cases "i < 0 \<or> i \<ge> int (length vs)")
  case True
  then show ?thesis
    using out holds_list_len [OF list] assms(2) by (auto simp: nq_list__str_get_def wp_simps)
next
  case False
  then have i: "nat i < length vs" by (simp add: nat_less_iff)
  with assms(2) have ne: "ts \<noteq> []" by auto
  with list obtain b junk where b: "l_data l = PHeap b 0" "R' = R(b \<mapsto> BStrs (map Some ts @ junk))"
    by (auto simp: holds_list_def)
  have "wp E (load_str (PHeap b 0) (nat i)) (\<lambda>t. wp E (nq_str_clone c t) (\<lambda>u. Q (Some u))) s"
  proof (rule wp_load_str [OF owns, where cs = "map Some ts @ junk" and t = "ts ! nat i"], goal_cases)
    case 4
    show ?case
      by (rule wp_nq_str_clone [where E = E, OF owns zip_nth_in [OF assms(2) i] assms(4)])
        (use False in \<open>auto intro!: ok\<close>)
  qed (use i assms(2) b in \<open>auto simp: nth_append\<close>)
  with False holds_list_len [OF list] assms(2) b show ?thesis
    by (auto simp: nq_list__str_get_def wp_simps)
qed

lemma wp_nq_list__str_replace:
  assumes list: "holds_list l ts R R'" and len: "length ts = length vs"
    and owns: "owns (add_mset (t, v) (mset (zip ts vs) + L)) R' s"
    and out: "\<And>s'. i < 0 \<or> i \<ge> int (length vs) \<Longrightarrow> owns (mset (zip ts vs) + L) R' s' \<Longrightarrow>
        world s' = world s \<Longrightarrow> Q None s'"
    and ok: "\<And>s'. 0 \<le> i \<Longrightarrow> i < int (length vs) \<Longrightarrow>
        live_list l (vs[nat i := v]) (add_mset (ts ! nat i, vs ! nat i) L) R s' \<Longrightarrow> world s' = world s \<Longrightarrow>
        Q (Some (ts ! nat i)) s'"
  shows "wp E (nq_list__str_replace l i t) Q s"
proof (cases "i < 0 \<or> i \<ge> int (length vs)")
  case True
  then show ?thesis
    using holds_list_len [OF list] len
    by (auto simp: nq_list__str_replace_def wp_simps intro!: wp_nq_str_drop [OF owns] out)
next
  case False
  then have i: "nat i < length vs" by (simp add: nat_less_iff)
  with len have ne: "ts \<noteq> []" by auto
  with list obtain b junk where b: "l_data l = PHeap b 0" "R b = None"
    "R' = R(b \<mapsto> BStrs (map Some ts @ junk))" "l_len l = int (length ts)"
    "l_cap l = int (length ts + length junk)"
    by (auto simp: holds_list_def)
  have swap: "mset (zip (ts[nat i := t]) (vs[nat i := v])) + add_mset (ts ! nat i, vs ! nat i) L
      = add_mset (t, v) (mset (zip ts vs) + L)"
  proof -
    have "zip (ts[nat i := t]) (vs[nat i := v]) = (zip ts vs)[nat i := (t, v)]"
      by (simp add: update_zip)
    then have "mset (zip (ts[nat i := t]) (vs[nat i := v])) = add_mset (t, v) (mset (zip ts vs) - {#(ts ! nat i, vs ! nat i)#})"
      using i len by (simp add: mset_update)
    moreover have "(ts ! nat i, vs ! nat i) \<in># mset (zip ts vs)"
      using zip_nth_in [OF len i, of "{#}"] by simp
    ultimately show ?thesis by (simp add: add_mset_commute)
  qed
  have "wp E (load_str (PHeap b 0) (nat i)) (\<lambda>old. wp E (store_str (PHeap b 0) (nat i) t)
      (\<lambda>_. Q (Some old))) s"
  proof (rule wp_load_str [OF owns, where cs = "map Some ts @ junk" and t = "ts ! nat i"], goal_cases)
    case 4
    show ?case
    proof (rule wp_store_str [OF owns, where cs = "map Some ts @ junk"], goal_cases)
      case (3 s')
      let ?R = "R(b \<mapsto> BStrs (map Some (ts[nat i := t]) @ junk))"
      have "owns (mset (zip (ts[nat i := t]) (vs[nat i := v])) + add_mset (ts ! nat i, vs ! nat i) L) ?R s'"
        unfolding swap using 3(1) i len b(3) by (simp add: list_update_append map_update)
      moreover have "holds_list l (ts[nat i := t]) R ?R"
        using b by (auto simp: holds_list_def)
      ultimately show ?case
        using 3(2) False len
        by (intro ok) (auto simp: live_list_def intro!: exI [of _ "ts[nat i := t]"] exI [of _ ?R])
    qed (use i len b in auto)
  qed (use i len b in \<open>auto simp: nth_append\<close>)
  with False len b show ?thesis by (auto simp: nq_list__str_replace_def wp_simps)
qed

lemma wp_nq_list__str_pop:
  assumes list: "holds_list l ts R R'" and len: "length ts = length vs"
    and owns: "owns (mset (zip ts vs) + L) R' s"
    and empty: "vs = [] \<Longrightarrow> Q (l, None) s"
    and ok: "\<And>l'. vs \<noteq> [] \<Longrightarrow> live_list l' (butlast vs) (add_mset (last ts, last vs) L) R s \<Longrightarrow>
        Q (l', Some (last ts)) s"
  shows "wp E (nq_list__str_pop l) Q s"
proof (cases "vs = []")
  case True
  then show ?thesis using holds_list_len [OF list] len empty by (simp add: nq_list__str_pop_def wp_simps)
next
  case False
  with len have ne: "ts \<noteq> []" by auto
  with list obtain b junk where b: "l_data l = PHeap b 0" "R b = None"
    "R' = R(b \<mapsto> BStrs (map Some ts @ junk))" "l_len l = int (length ts)"
    "l_cap l = int (length ts + length junk)"
    by (auto simp: holds_list_def)
  obtain ts' t vs' v where snoc: "ts = ts' @ [t]" "vs = vs' @ [v]"
    using ne False by (metis append_butlast_last_id)
  have len': "length ts' = length vs'" using len snoc by simp
  let ?l = "l\<lparr>l_len := l_len l - 1\<rparr>"
  have "holds_list ?l ts' R R'"
    using b by (auto simp: holds_list_def snoc intro!: exI [of _ "Some t # junk"])
  moreover have "owns (mset (zip ts' vs') + add_mset (t, v) L) R' s"
    using owns snoc len' by simp
  ultimately have "live_list ?l (butlast vs) (add_mset (last ts, last vs) L) R s"
    using len' by (auto simp: live_list_def snoc)
  then have "Q (?l, Some t) s" using ok [OF False] by (simp add: snoc)
  then have "wp E (load_str (PHeap b 0) (length ts')) (\<lambda>u. Q (?l, Some u)) s"
    by (intro wp_load_str [OF owns, where cs = "map Some ts @ junk" and t = t])
      (use b in \<open>auto simp: snoc nth_append\<close>)
  with b show ?thesis
    by (simp add: nq_list__str_pop_def wp_simps Let_def snoc nat_add_distrib)
qed

section \<open>Joining\<close>

lemma wp_join_len:
  assumes owns: "owns (mset (zip ts vs) + L) R s" and b: "R b = Some (BStrs (map Some ts @ junk))"
    and len: "length ts = length vs" and "i + n = length vs" and "E (Exit 1)"
    and "acc \<le> nq_str_limit c" and "acc = length (concat (take i vs))"
    and ok: "length (concat vs) \<le> nq_str_limit c \<Longrightarrow> Q (length (concat vs)) s"
  shows "wp E (join_len c (PHeap b 0) i n acc) Q s"
  using assms(4,6,7)
proof (induction n arbitrary: i acc)
  case 0
  then show ?case using ok by (simp add: wp_simps)
next
  case (Suc n)
  then have i: "i < length vs" by simp
  have live: "(ts ! i, vs ! i) \<in># mset (zip ts vs) + L" by (rule zip_nth_in [OF len i])
  have slen: "s_len (ts ! i) = int (length (vs ! i))" by (rule owns_live_len [OF owns live])
  have view: "s_len (ts ! i) \<noteq> 0 \<Longrightarrow> s_data (ts ! i) \<noteq> PNull"
    using owns_view [OF owns live] slen by (auto simp: str_view_def)
  have next_acc: "acc + length (vs ! i) = length (concat (take (i + 1) vs))"
    using Suc.prems(3) i by (simp add: take_Suc_conv_app_nth)
  have "wp E (load_str (PHeap b 0) i) (\<lambda>part. wp E
      (if \<not> nq_str_size c (s_len part) \<or> (s_len part \<noteq> 0 \<and> s_data part = PNull) then nq_size_fail
       else case nq_size_add acc (nat (s_len part)) (nq_str_limit c) of
         None \<Rightarrow> nq_size_fail
       | Some len \<Rightarrow> join_len c (PHeap b 0) (i + 1) n len) Q) s"
  proof (rule wp_load_str [OF owns b, where t = "ts ! i"], goal_cases)
    case 3
    show ?case
      using view Suc.prems Suc.IH [of "i + 1" "acc + length (vs ! i)"] next_acc assms(5)
      by (auto simp: wp_simps slen nq_size_add_eq str_limit_size)
  qed (use i len in \<open>auto simp: nth_append\<close>)
  then show ?case by (simp add: wp_bind)
qed

lemma wp_join_copy:
  assumes owns: "owns (mset (zip ts vs) + L) (R(k \<mapsto> BBytes (map Some (concat (take i vs)) @ replicate m None))) s"
    and b: "R b = Some (BStrs (map Some ts @ junk))" and k: "R k = None"
    and len: "length ts = length vs" and "i + n = length vs" and "length (concat (drop i vs)) \<le> m"
    and ok: "\<And>s'. owns (mset (zip ts vs) + L)
        (R(k \<mapsto> BBytes (map Some (concat vs) @ replicate (m - length (concat (drop i vs))) None))) s' \<Longrightarrow>
        world s' = world s \<Longrightarrow> Q () s'"
  shows "wp E (join_copy (PHeap b 0) i n (PHeap k 0) (length (concat (take i vs)))) Q s"
  using assms(1,5,6,7)
proof (induction n arbitrary: i m s)
  case 0
  then show ?case by (simp add: wp_simps)
next
  case (Suc n)
  then have i: "i < length vs" by simp
  let ?pre = "concat (take i vs)"
  have live: "(ts ! i, vs ! i) \<in># mset (zip ts vs) + L" by (rule zip_nth_in [OF len i])
  have slen: "s_len (ts ! i) = int (length (vs ! i))" by (rule owns_live_len [OF Suc.prems(1) live])
  have reads: "readable (mset (zip ts vs) + L) R (s_data (ts ! i)) (length (vs ! i)) (vs ! i)"
    using live slen by (rule readable_any_raws)
  have pre: "?pre @ vs ! i = concat (take (i + 1) vs)" using i by (simp add: take_Suc_conv_app_nth)
  have rest: "concat (drop i vs) = vs ! i @ concat (drop (i + 1) vs)" using i by (simp add: drop_nth)
  have "wp E (load_str (PHeap b 0) i) (\<lambda>part. wp E
      (only_if (s_len part \<noteq> 0)
        (bind (load_bytes (s_data part) (nat (s_len part))) (store_bytes (ptr_plus (PHeap k 0) (length ?pre)))))
      (\<lambda>_. wp E (join_copy (PHeap b 0) (i + 1) n (PHeap k 0) (length ?pre + nat (s_len part))) Q)) s"
  proof (rule wp_load_str [OF Suc.prems(1), where cs = "map Some ts @ junk" and t = "ts ! i"], goal_cases)
    case 4
    have "wp E (only_if (length (vs ! i) \<noteq> 0)
        (bind (load_bytes (s_data (ts ! i)) (length (vs ! i))) (store_bytes (PHeap k (length ?pre)))))
        (\<lambda>_. wp E (join_copy (PHeap b 0) (i + 1) n (PHeap k 0) (length (concat (take (i + 1) vs)))) Q) s"
    proof (rule wp_append_bytes [OF Suc.prems(1) k reads], goal_cases)
      case 1
      show ?case using Suc.prems(3) rest by simp
    next
      case (2 s1)
      then have s1: "owns (mset (zip ts vs) + L)
          (R(k \<mapsto> BBytes (map Some (concat (take (i + 1) vs)) @ replicate (m - length (vs ! i)) None))) s1"
        by (simp only: pre)
      show ?case
        by (rule Suc.IH [OF s1]) (use Suc.prems rest 2(2) in auto)
    qed
    moreover have "length (concat (take (i + 1) vs)) = length ?pre + length (vs ! i)"
      by (simp only: pre [symmetric] length_append)
    ultimately show ?case by (simp add: slen)
  qed (use i len b k in \<open>auto simp: nth_append\<close>)
  then show ?case by (simp add: wp_simps)
qed

text \<open>\<open>nq_str_join\<close> makes a fresh string of the concatenated texts.\<close>

lemma wp_nq_str_join:
  assumes list: "holds_list l ts R R'" and len: "length ts = length vs"
    and owns: "owns (mset (zip ts vs) + L) R' s" and "E (Exit 1)"
    and ok: "\<And>t s'. owns (add_mset (t, concat vs) (mset (zip ts vs) + L)) R' s' \<Longrightarrow>
        length (concat vs) \<le> nq_str_limit c \<Longrightarrow> world s' = world s \<Longrightarrow> Q t s'"
  shows "wp E (nq_str_join c (Some l)) Q s"
proof -
  have llen: "l_len l = int (length vs)" using holds_list_len [OF list] len by simp
  have data: "l_data l = PNull \<and> vs = [] \<or>
      (\<exists>b junk. l_data l = PHeap b 0 \<and> R' b = Some (BStrs (map Some ts @ junk)))"
    using list len by (auto simp: holds_list_def nq_list__str_make_def)
  have len_rule: "wp E (join_len c (l_data l) 0 (nat (l_len l)) 0) P s"
    if "length (concat vs) \<le> nq_str_limit c \<Longrightarrow> P (length (concat vs)) s" for P
    using data
  proof (elim disjE exE conjE)
    assume "l_data l = PNull" "vs = []"
    then show ?thesis using that llen by (simp add: wp_simps)
  next
    fix b junk assume "l_data l = PHeap b 0" "R' b = Some (BStrs (map Some ts @ junk))"
    then show ?thesis
      using wp_join_len [where E = E, OF owns _ len, of b junk 0 "length vs" 0 c P] assms(4) that llen by simp
  qed
  have copy_rule: "wp E (join_copy (l_data l) 0 (nat (l_len l)) (PHeap k 0) 0) P s1"
    if s1: "owns (mset (zip ts vs) + L) (R'(k \<mapsto> BBytes (replicate (length (concat vs) + 1) None))) s1"
      and k: "R' k = None"
      and P: "\<And>s'. owns (mset (zip ts vs) + L) (R'(k \<mapsto> BBytes (map Some (concat vs) @ replicate 1 None))) s' \<Longrightarrow>
        world s' = world s1 \<Longrightarrow> P () s'" for k s1 P
    using data
  proof (elim disjE exE conjE)
    assume "l_data l = PNull" "vs = []"
    then show ?thesis using s1 P [of s1] llen by (simp add: wp_simps)
  next
    fix b junk assume "l_data l = PHeap b 0" "R' b = Some (BStrs (map Some ts @ junk))"
    then show ?thesis
      using wp_join_copy [where E = E, of ts vs L R' k 0 "length (concat vs) + 1" s1 b junk "length vs" P]
        s1 k P len llen by simp
  qed
  show ?thesis
  proof (cases "l_cap l < l_len l \<or> nat (l_cap l) > nq_sequence_limit c (nat INT32_MAX) \<or> (l_len l \<noteq> 0 \<and> l_data l = PNull)")
    case True
    then show ?thesis using assms(4) by (auto simp: nq_str_join_def wp_simps)
  next
    case False
    then have ok1: "\<not> (l_len l < 0 \<or> l_cap l < l_len l \<or> nat (l_cap l) > nq_sequence_limit c (nat INT32_MAX) \<or>
        (l_len l \<noteq> 0 \<and> l_data l = PNull))" by (simp add: llen)
    show ?thesis
      unfolding nq_str_join_def option.case if_not_P [OF ok1] wp_bind
    proof (rule len_rule, cases "length (concat vs) + 1 \<le> nq_allocation_limit c \<and> \<not> sizeof_owner > nq_allocation_limit c",
        goal_cases)
      case 2
      then show ?case using assms(4) by (auto simp: wp_simps nq_size_add_eq allocation_limit_le)
    next
      case 1
      then have add: "nq_size_add (length (concat vs)) 1 (nq_allocation_limit c) = Some (length (concat vs) + 1)"
        "\<not> sizeof_owner > nq_allocation_limit c"
        by (simp_all add: nq_size_add_eq allocation_limit_le)
      show ?case
        unfolding add(1) option.case if_not_P [OF add(2)] wp_bind
      proof (rule wp_nq_realloc_new [where E = E, OF owns _ assms(4)], goal_cases)
        case k: (2 k s1)
        have s1: "owns (mset (zip ts vs) + L) (R'(k \<mapsto> BBytes (replicate (length (concat vs) + 1) None))) s1"
          using k(1) by simp
        show ?case
          unfolding wp_andthen wp_bind ptr_plus.simps add_0
        proof (rule copy_rule [OF s1 k(2)], rule store_after, assumption, goal_cases)
          case (2 s2 s3)
          have same: "R'(k := None) = R'" using k(2) by simp
          from 2 k(3) 1 show ?case
            by (auto simp: wp_simps assms(4) those_eq_Some same intro!: ok
                wp_nq_try_str_take [OF 2(3), where cs = "map Some (concat vs @ [CHR 0x00])" and v = "concat vs"])
        qed simp
      qed simp
    qed
  qed
qed

text \<open>\<open>nq_list__str_from_array\<close> takes over the handles of the array.\<close>

lemma wp_nq_list__str_from_array:
  assumes len: "length ts = length vs" and owns: "owns (mset (zip ts vs) + L) R s" and "E (Exit 1)"
    and ok: "\<And>l s'. live_list l vs L R s' \<Longrightarrow> world s' = world s \<Longrightarrow> Q l s'"
  shows "wp E (nq_list__str_from_array c ts (int (length ts))) Q s"
proof (cases "ts = []")
  case True
  then have "live_list nq_list__str_make vs L R s"
    using owns len by (auto simp: live_list_def intro!: holds_make)
  then have fin: "Q nq_list__str_make s" by (rule ok) simp
  show ?thesis
    unfolding nq_list__str_from_array_def nq_list_grow_capacity_def wp_bind
    by (rule wp_nq_list_capacity) (use True fin assms(3) in \<open>auto simp: wp_simps sizeof_str_def\<close>)
next
  case False
  let ?n = "length ts"
  show ?thesis
    unfolding nq_list__str_from_array_def nq_list_grow_capacity_def wp_bind
  proof (rule wp_nq_list_capacity, goal_cases)
    case (2 cap')
    have size: "?n * sizeof_str \<le> nq_allocation_limit c"
      by (rule list_limit_bytes) (use 2 in \<open>simp_all add: sizeof_str_def\<close>)
    show ?case
    proof (cases "list_all (\<lambda>v. nq_str_size c (s_len v)) ts")
      case bad: False
      then show ?thesis
        using False assms(3) size
        by (simp add: wp_simps nq_allocation_size_def nq_size_mul_eq)
    next
      case True
      have "wp E (nq_realloc c KStrs PNull (?n * sizeof_str))
          (\<lambda>data. wp E (store_strs data 0 ts) (\<lambda>_. Q \<lparr>l_data = data, l_len = int ?n, l_cap = int ?n\<rparr>)) s"
      proof (rule wp_nq_realloc_new [where E = E, OF owns _ assms(3)], goal_cases)
        case (2 b s1)
        then have s1: "owns (mset (zip ts vs) + L) (R(b \<mapsto> BStrs (map Some [] @ replicate ?n None))) s1"
          by (simp add: sizeof_str_def)
        show ?case
          by (rule wp_store_strs [OF s1, simplified list.size])
            (use 2 len in \<open>auto simp: live_list_def holds_list_def intro!: ok exI [of _ ts]
                exI [of _ "R(b \<mapsto> BStrs (map Some ts))"]\<close>)
      qed (use False in \<open>simp add: sizeof_str_def\<close>)
      with True False size show ?thesis
        by (simp add: wp_simps nq_allocation_size_def nq_size_mul_eq)
    qed
  qed (simp_all add: wp_simps assms(3) sizeof_str_def)
qed

interpretation strs_grow: growable holds_list nq_list__str_make nq_try_list_str_push
  by unfold_locales (auto intro: holds_make wp_nq_try_list_str_push)

section \<open>Properties\<close>

lemma live_listE:
  assumes "live_list l vs L R s"
  obtains ts R' where "length ts = length vs" "holds_list l ts R R'" "owns (mset (zip ts vs) + L) R' s"
  using assms by (auto simp: live_list_def)

lemma live_list_empty: "owns L R s \<Longrightarrow> live_list nq_list__str_make [] L R s"
  by (auto simp: live_list_def intro!: holds_make)

lemma wp_live_push:
  assumes "live_list l vs (add_mset (t, v) L) R s" and "E (Exit 1)"
    and "\<And>l' s'. live_list l' (vs @ [v]) L R s' \<Longrightarrow> world s' = world s \<Longrightarrow> Q l' s'"
  shows "wp E (nq_list__str_push c l t) Q s"
proof (rule live_listE [OF assms(1)])
  fix ts R' assume "length ts = length vs" "holds_list l ts R R'" "owns (mset (zip ts vs) + add_mset (t, v) L) R' s"
  then show ?thesis
    by (intro wp_nq_list__str_push [where E = E, OF _ _ _ assms(2,3)]) auto
qed

lemma wp_live_pop:
  assumes "live_list l vs L R s"
    and "vs = [] \<Longrightarrow> Q (l, None) s"
    and "\<And>l' u. vs \<noteq> [] \<Longrightarrow> live_list l' (butlast vs) (add_mset (u, last vs) L) R s \<Longrightarrow> Q (l', Some u) s"
  shows "wp E (nq_list__str_pop l) Q s"
proof (rule live_listE [OF assms(1)])
  fix ts R' assume "length ts = length vs" "holds_list l ts R R'" "owns (mset (zip ts vs) + L) R' s"
  then show ?thesis
    by (intro wp_nq_list__str_pop) (auto intro: assms(2,3))
qed

text \<open>
  C9: Pushing a string on a list moves it to the end, whatever reallocation that takes, and
  popping gives it back: the list denotes what it did before, and so does the string.
\<close>

theorem list_push_pop_roundtrip:
  assumes "live_list l vs (add_mset (t, v) L) R s"
  shows "wp fails_fast (bind (nq_list__str_push c l t) nq_list__str_pop)
     (\<lambda>(l', r) s'. world s' = world s \<and>
        (\<exists>u. r = Some u \<and> live_list l' vs (add_mset (u, v) L) R s')) s"
  unfolding wp_bind
  by (rule wp_live_push [where E = fails_fast, OF assms], simp, rule wp_live_pop, assumption) auto

theorem list_push_pop_roundtrip_witness:
  "wp fails_fast (bind (nq_list__str_push plain_config nq_list__str_make (literal ''x'')) nq_list__str_pop)
     (\<lambda>(l', r) s'. \<exists>u. r = Some u \<and> live_list l' [] {#(u, ''x'')#} Map.empty s') (boot [] [])"
  by (rule wp_mono [OF list_push_pop_roundtrip [OF live_list_empty [OF owns_literal [OF owns_boot]]]]) auto

text \<open>
  C10: \<open>replace\<close> returns the string that was at the index and puts the new one there; an index
  out of bounds drops the new string and leaves the list alone. \<open>get\<close> returns another handle
  on the element and leaves the list alone.
\<close>

theorem list_get_replace_refine_lists:
  assumes "live_list l vs (add_mset (t, v) L) R s"
  shows "wp no_stop (nq_list__str_replace l i t)
       (\<lambda>r s'. world s' = world s \<and> (case r of
          None \<Rightarrow> (i < 0 \<or> int (length vs) \<le> i) \<and> live_list l vs L R s'
        | Some u \<Rightarrow> 0 \<le> i \<and> i < int (length vs) \<and>
            live_list l (vs[nat i := v]) (add_mset (u, vs ! nat i) L) R s')) s \<and>
     wp fails_fast (nq_list__str_get c l i)
       (\<lambda>r s'. world s' = world s \<and> (case r of
          None \<Rightarrow> (i < 0 \<or> int (length vs) \<le> i) \<and> s' = s
        | Some u \<Rightarrow> 0 \<le> i \<and> i < int (length vs) \<and>
            live_list l vs (add_mset (u, vs ! nat i) (add_mset (t, v) L)) R s')) s"
proof (rule live_listE [OF assms], intro conjI)
  fix ts R' assume len: "length ts = length vs" and l: "holds_list l ts R R'"
    and owns: "owns (mset (zip ts vs) + add_mset (t, v) L) R' s"
  show "wp no_stop (nq_list__str_replace l i t)
       (\<lambda>r s'. world s' = world s \<and> (case r of
          None \<Rightarrow> (i < 0 \<or> int (length vs) \<le> i) \<and> live_list l vs L R s'
        | Some u \<Rightarrow> 0 \<le> i \<and> i < int (length vs) \<and>
            live_list l (vs[nat i := v]) (add_mset (u, vs ! nat i) L) R s')) s"
    using len l owns by (intro wp_nq_list__str_replace [OF l len]) (auto simp: live_list_def)
  show "wp fails_fast (nq_list__str_get c l i)
       (\<lambda>r s'. world s' = world s \<and> (case r of
          None \<Rightarrow> (i < 0 \<or> int (length vs) \<le> i) \<and> s' = s
        | Some u \<Rightarrow> 0 \<le> i \<and> i < int (length vs) \<and>
            live_list l vs (add_mset (u, vs ! nat i) (add_mset (t, v) L)) R s')) s"
    using len l
    by (intro wp_nq_list__str_get [where E = fails_fast, OF l len owns])
      (auto simp: live_list_def intro!: exI [of _ ts] exI [of _ R'])
qed

theorem list_get_replace_refine_lists_witness:
  "wp fails_fast (nq_list__str_get plain_config nq_list__str_make 0)
       (\<lambda>r s'. r = None) (boot [] []) \<and>
   wp no_stop (nq_list__str_replace nq_list__str_make 0 (literal ''x'')) (\<lambda>r s'. r = None \<and> live_list nq_list__str_make [] {#} Map.empty s') (boot [] [])"
  by (intro conjI wp_mono [OF conjunct1 [OF list_get_replace_refine_lists [OF live_list_empty [OF owns_literal [OF owns_boot]]]]]
      wp_mono [OF conjunct2 [OF list_get_replace_refine_lists [OF live_list_empty [OF owns_literal [OF owns_boot, where v = "''x''"]]]]])
    (auto split: option.splits)

text \<open>
  C11: \<open>str_join\<close> denotes the concatenation of the elements, measured and copied in two passes
  that agree, with a size check before the one allocation; the list is left as it was.
\<close>

theorem str_join_denotes_concat:
  assumes "live_list l vs L R s"
  shows "wp fails_fast (nq_str_join c (Some l))
     (\<lambda>t s'. world s' = world s \<and> length (concat vs) \<le> nq_str_limit c \<and>
        live_list l vs (add_mset (t, concat vs) L) R s') s"
proof (rule live_listE [OF assms])
  fix ts R' assume len: "length ts = length vs" and l: "holds_list l ts R R'"
    and owns: "owns (mset (zip ts vs) + L) R' s"
  show ?thesis
    using len l
    by (intro wp_nq_str_join [where E = fails_fast, OF l len owns])
      (auto simp: live_list_def intro!: exI [of _ ts] exI [of _ R'])
qed

theorem str_join_denotes_concat_witness:
  "wp fails_fast (bind (nq_list__str_from_array plain_config [literal ''ab'', literal ''c''] 2)
       (\<lambda>l. nq_str_join plain_config (Some l)))
     (\<lambda>t s'. \<exists>l. live_list l [''ab'', ''c''] {#(t, ''abc'')#} Map.empty s') (boot [] [])"
proof -
  have owns: "owns (mset (zip [literal ''ab'', literal ''c''] [''ab'', ''c'']) + {#}) Map.empty (boot [] [])"
    using owns_literal [OF owns_literal [OF owns_boot, where v = "''c''"], where v = "''ab''"] by simp
  have make: "wp fails_fast (nq_list__str_from_array plain_config [literal ''ab'', literal ''c'']
      (int (length [literal ''ab'', literal ''c'']))) (\<lambda>l s'. live_list l [''ab'', ''c''] {#} Map.empty s') (boot [] [])"
    by (rule wp_nq_list__str_from_array [where E = fails_fast, OF _ owns]) auto
  show ?thesis
    unfolding wp_bind
    by (rule wp_mono [OF make [simplified]], rule wp_mono [OF str_join_denotes_concat], assumption) auto
qed

end
