(* ===== verification/Values.thy ===== *)
theory Values
  imports Lists
begin

text \<open>
  \<open>clone\<close> and \<open>drop\<close> of the compound values of \<open>stdlib/runtime.c\<close>: options, results, process
  results and process outcomes. Each is interpreted as an instance of the contracts of theory
  Owned, most of them by the liftings proved there.
\<close>

section \<open>Process results and outcomes\<close>

definition nq_process_result_clone :: "config \<Rightarrow> nq_process_result_t \<Rightarrow> nq_process_result_t nq" where
  "nq_process_result_clone c v =
     bind (nq_str_clone c (pr_stdout v)) (\<lambda>o'. let v = v\<lparr>pr_stdout := o'\<rparr> in
     bind (nq_str_clone c (pr_stderr v)) (\<lambda>e'. ret (v\<lparr>pr_stderr := e'\<rparr>)))"

definition nq_process_result_drop :: "nq_process_result_t option \<Rightarrow> nq_process_result_t option nq" where
  "nq_process_result_drop p = nullable p (\<lambda>v.
     bind (at_ptr nq_str_drop (pr_stdout v)) (\<lambda>o'.
     bind (at_ptr nq_str_drop (pr_stderr v)) (\<lambda>e'.
     ret \<lparr>pr_exit_code = 0, pr_stdout = o', pr_stderr = e'\<rparr>)))"

definition nq_process_outcome_clone :: "config \<Rightarrow> nq_process_outcome_t \<Rightarrow> nq_process_outcome_t nq" where
  "nq_process_outcome_clone c v =
     bind (nq_str_clone c (po_stdout v)) (\<lambda>o'. let v = v\<lparr>po_stdout := o'\<rparr> in
     bind (nq_str_clone c (po_stderr v)) (\<lambda>e'. ret (v\<lparr>po_stderr := e'\<rparr>)))"

definition nq_process_outcome_drop :: "nq_process_outcome_t option \<Rightarrow> nq_process_outcome_t option nq" where
  "nq_process_outcome_drop p = nullable p (\<lambda>v.
     bind (at_ptr nq_str_drop (po_stdout v)) (\<lambda>o'.
     bind (at_ptr nq_str_drop (po_stderr v)) (\<lambda>e'.
     ret zero_outcome)))"

section \<open>Options\<close>

definition nq_option__str_clone :: "config \<Rightarrow> nq_option_str \<Rightarrow> nq_option_str nq" where
  "nq_option__str_clone c v =
     (case v of Some t \<Rightarrow> bind (nq_str_clone c t) (\<lambda>u. ret (Some u)) | None \<Rightarrow> ret None)"

definition nq_option__str_drop :: "nq_option_str option \<Rightarrow> nq_option_str option nq" where
  "nq_option__str_drop p = nullable p (\<lambda>v. andthen
     (case v of Some t \<Rightarrow> bind (nq_str_drop (Some t)) (\<lambda>_. ret ()) | None \<Rightarrow> ret ())
     (ret (Some zero_str)))"

definition nq_option__duration_clone :: "nq_option_duration \<Rightarrow> nq_option_duration" where
  "nq_option__duration_clone v = v"

definition nq_option__duration_drop :: "nq_option_duration option \<Rightarrow> nq_option_duration option nq" where
  "nq_option__duration_drop p = nullable p (\<lambda>v. ret None)"

definition nq_option__instant_clone :: "nq_option_instant \<Rightarrow> nq_option_instant" where
  "nq_option__instant_clone v = v"

definition nq_option__instant_drop :: "nq_option_instant option \<Rightarrow> nq_option_instant option nq" where
  "nq_option__instant_drop p = nullable p (\<lambda>v. ret None)"

section \<open>Results\<close>

definition nq_result__str__io_err_clone :: "config \<Rightarrow> nq_result_str \<Rightarrow> nq_result_str nq" where
  "nq_result__str__io_err_clone c v = (case v of
     Ok t \<Rightarrow> bind (nq_str_clone c t) (\<lambda>u. ret (Ok u))
   | Err e \<Rightarrow> bind (nq_io_err_clone c e) (\<lambda>f. ret (Err f)))"

definition nq_result__str__io_err_drop :: "nq_result_str option \<Rightarrow> nq_result_str option nq" where
  "nq_result__str__io_err_drop p = nullable p (\<lambda>v. andthen
     (case v of Ok t \<Rightarrow> bind (nq_str_drop (Some t)) (\<lambda>_. ret ())
              | Err e \<Rightarrow> bind (nq_io_err_drop (Some e)) (\<lambda>_. ret ()))
     (ret (Ok zero_str)))"

definition nq_result__unit__io_err_clone :: "config \<Rightarrow> nq_result_unit \<Rightarrow> nq_result_unit nq" where
  "nq_result__unit__io_err_clone c v = (case v of
     Ok u \<Rightarrow> ret (Ok u)
   | Err e \<Rightarrow> bind (nq_io_err_clone c e) (\<lambda>f. ret (Err f)))"

definition nq_result__unit__io_err_drop :: "nq_result_unit option \<Rightarrow> nq_result_unit option nq" where
  "nq_result__unit__io_err_drop p = nullable p (\<lambda>v. andthen
     (case v of Ok u \<Rightarrow> ret ()
              | Err e \<Rightarrow> bind (nq_io_err_drop (Some e)) (\<lambda>_. ret ()))
     (ret (Ok ())))"

definition nq_result__bytes__io_err_drop :: "nq_result_bytes option \<Rightarrow> nq_result_bytes option nq" where
  "nq_result__bytes__io_err_drop p = nullable p (\<lambda>v. andthen
     (case v of Ok b \<Rightarrow> bind (nq_bytes_drop (Some b)) (\<lambda>_. ret ())
              | Err e \<Rightarrow> bind (nq_io_err_drop (Some e)) (\<lambda>_. ret ()))
     (ret (Ok zero_bytes)))"

definition nq_result__option__str__io_err_clone ::
  "config \<Rightarrow> nq_result_option_str \<Rightarrow> nq_result_option_str nq" where
  "nq_result__option__str__io_err_clone c v = (case v of
     Ok t \<Rightarrow> bind (nq_option__str_clone c t) (\<lambda>u. ret (Ok u))
   | Err e \<Rightarrow> bind (nq_io_err_clone c e) (\<lambda>f. ret (Err f)))"

definition nq_result__option__str__io_err_drop ::
  "nq_result_option_str option \<Rightarrow> nq_result_option_str option nq" where
  "nq_result__option__str__io_err_drop p = nullable p (\<lambda>v. andthen
     (case v of Ok t \<Rightarrow> bind (nq_option__str_drop (Some t)) (\<lambda>_. ret ())
              | Err e \<Rightarrow> bind (nq_io_err_drop (Some e)) (\<lambda>_. ret ()))
     (ret (Ok (Some zero_str))))"

definition zero_metadata :: nq_path_metadata_t where
  "zero_metadata = \<lparr>m_is_file = False, m_is_directory = False, m_is_symlink = False,
     m_size = 0, m_modified_ns = 0, m_mode = 0\<rparr>"

definition nq_result__path_metadata__io_err_clone ::
  "config \<Rightarrow> nq_result_path_metadata \<Rightarrow> nq_result_path_metadata nq" where
  "nq_result__path_metadata__io_err_clone c v = (case v of
     Ok m \<Rightarrow> ret (Ok m)
   | Err e \<Rightarrow> bind (nq_io_err_clone c e) (\<lambda>f. ret (Err f)))"

definition nq_result__path_metadata__io_err_drop ::
  "nq_result_path_metadata option \<Rightarrow> nq_result_path_metadata option nq" where
  "nq_result__path_metadata__io_err_drop p = nullable p (\<lambda>v. andthen
     (case v of Ok m \<Rightarrow> ret ()
              | Err e \<Rightarrow> bind (nq_io_err_drop (Some e)) (\<lambda>_. ret ()))
     (ret (Ok zero_metadata)))"

definition nq_result__list__str__io_err_drop :: "nq_result_list_str option \<Rightarrow> nq_result_list_str option nq" where
  "nq_result__list__str__io_err_drop p = nullable p (\<lambda>v. andthen
     (case v of Ok l \<Rightarrow> bind (nq_list__str_drop (Some l)) (\<lambda>_. ret ())
              | Err e \<Rightarrow> bind (nq_io_err_drop (Some e)) (\<lambda>_. ret ()))
     (ret (Ok nq_list__str_make)))"

definition zero_process_result :: nq_process_result_t where
  "zero_process_result = \<lparr>pr_exit_code = 0, pr_stdout = zero_str, pr_stderr = zero_str\<rparr>"

definition nq_result__process_result__io_err_clone ::
  "config \<Rightarrow> nq_result_process_result \<Rightarrow> nq_result_process_result nq" where
  "nq_result__process_result__io_err_clone c v = (case v of
     Ok r \<Rightarrow> bind (nq_process_result_clone c r) (\<lambda>u. ret (Ok u))
   | Err e \<Rightarrow> bind (nq_io_err_clone c e) (\<lambda>f. ret (Err f)))"

definition nq_result__process_result__io_err_drop ::
  "nq_result_process_result option \<Rightarrow> nq_result_process_result option nq" where
  "nq_result__process_result__io_err_drop p = nullable p (\<lambda>v. andthen
     (case v of Ok r \<Rightarrow> bind (nq_process_result_drop (Some r)) (\<lambda>_. ret ())
              | Err e \<Rightarrow> bind (nq_io_err_drop (Some e)) (\<lambda>_. ret ()))
     (ret (Ok zero_process_result)))"

definition nq_result__i64__io_err_clone :: "config \<Rightarrow> nq_result_i64 \<Rightarrow> nq_result_i64 nq" where
  "nq_result__i64__io_err_clone c v = (case v of
     Ok n \<Rightarrow> ret (Ok n)
   | Err e \<Rightarrow> bind (nq_io_err_clone c e) (\<lambda>f. ret (Err f)))"

definition nq_result__i64__io_err_drop :: "nq_result_i64 option \<Rightarrow> nq_result_i64 option nq" where
  "nq_result__i64__io_err_drop p = nullable p (\<lambda>v. andthen
     (case v of Ok n \<Rightarrow> ret ()
              | Err e \<Rightarrow> bind (nq_io_err_drop (Some e)) (\<lambda>_. ret ()))
     (ret (Ok 0)))"

definition nq_result__instant__io_err_clone :: "config \<Rightarrow> nq_result_instant \<Rightarrow> nq_result_instant nq" where
  "nq_result__instant__io_err_clone c v = (case v of
     Ok n \<Rightarrow> ret (Ok n)
   | Err e \<Rightarrow> bind (nq_io_err_clone c e) (\<lambda>f. ret (Err f)))"

definition nq_result__instant__io_err_drop :: "nq_result_instant option \<Rightarrow> nq_result_instant option nq" where
  "nq_result__instant__io_err_drop p = nullable p (\<lambda>v. andthen
     (case v of Ok n \<Rightarrow> ret ()
              | Err e \<Rightarrow> bind (nq_io_err_drop (Some e)) (\<lambda>_. ret ()))
     (ret (Ok \<lparr>i_ns = 0\<rparr>)))"

definition nq_result__process_outcome__io_err_clone ::
  "config \<Rightarrow> nq_result_process_outcome \<Rightarrow> nq_result_process_outcome nq" where
  "nq_result__process_outcome__io_err_clone c v = (case v of
     Ok r \<Rightarrow> bind (nq_process_outcome_clone c r) (\<lambda>u. ret (Ok u))
   | Err e \<Rightarrow> bind (nq_io_err_clone c e) (\<lambda>f. ret (Err f)))"

definition nq_result__process_outcome__io_err_drop ::
  "nq_result_process_outcome option \<Rightarrow> nq_result_process_outcome option nq" where
  "nq_result__process_outcome__io_err_drop p = nullable p (\<lambda>v. andthen
     (case v of Ok r \<Rightarrow> bind (nq_process_outcome_drop (Some r)) (\<lambda>_. ret ())
              | Err e \<Rightarrow> bind (nq_io_err_drop (Some e)) (\<lambda>_. ret ()))
     (ret (Ok zero_outcome)))"

section \<open>The contracts\<close>

definition live_process_result :: "nq_process_result_t \<Rightarrow> string \<times> string \<Rightarrow> strs \<Rightarrow> raws \<Rightarrow> nqstate \<Rightarrow> bool" where
  "live_process_result r v L R s \<longleftrightarrow>
     owns (add_mset (pr_stdout r, fst v) (add_mset (pr_stderr r, snd v) L)) R s"

definition dead_process_result :: "nq_process_result_t \<Rightarrow> bool" where
  "dead_process_result r \<longleftrightarrow> inert (pr_stdout r) \<and> inert (pr_stderr r)"

definition live_outcome :: "nq_process_outcome_t \<Rightarrow> string \<times> string \<Rightarrow> strs \<Rightarrow> raws \<Rightarrow> nqstate \<Rightarrow> bool" where
  "live_outcome r v L R s \<longleftrightarrow>
     owns (add_mset (po_stdout r, fst v) (add_mset (po_stderr r, snd v) L)) R s"

definition dead_outcome :: "nq_process_outcome_t \<Rightarrow> bool" where
  "dead_outcome r \<longleftrightarrow> inert (po_stdout r) \<and> inert (po_stderr r)"

interpretation process_result: cloneable live_process_result dead_process_result
  nq_process_result_drop nq_process_result_clone
proof
  show "nq_process_result_drop None = ret None" by (simp add: nq_process_result_drop_def nullable_def)
next
  fix r v L R s Q E
  assume "live_process_result r v L R s"
    and Q: "\<And>x' s'. dead_process_result x' \<Longrightarrow> owns L R s' \<Longrightarrow> world s' = world s \<Longrightarrow> Q (Some x') s'"
  then have "owns (add_mset (pr_stdout r, fst v) (add_mset (pr_stderr r, snd v) L)) R s"
    by (simp add: live_process_result_def)
  then show "wp E (nq_process_result_drop (Some r)) Q s"
    unfolding nq_process_result_drop_def wp_nullable option.case wp_bind
    by (rule wp_at_nq_str_drop, elim wp_at_nq_str_drop)
      (auto simp: wp_simps dead_process_result_def intro!: Q)
next
  fix r Q and s :: nqstate and E
  assume "dead_process_result r" and "\<And>x'. dead_process_result x' \<Longrightarrow> Q (Some x') s"
  then show "wp E (nq_process_result_drop (Some r)) Q s"
    by (simp add: nq_process_result_drop_def wp_simps wp_at_ptr dead_process_result_def wp_nq_str_drop_inert)
next
  fix r v L R s E c Q
  assume live: "live_process_result r v L R s" and exit: "E (Exit 1)"
    and Q: "\<And>y L' s'. live_process_result y v L' R s' \<Longrightarrow>
      (\<And>s2. owns L' R s2 \<Longrightarrow> live_process_result r v L R s2) \<Longrightarrow> world s' = world s \<Longrightarrow> Q y s'"
  let ?L = "add_mset (pr_stdout r, fst v) (add_mset (pr_stderr r, snd v) L)"
  show "wp E (nq_process_result_clone c r) Q s"
    unfolding nq_process_result_clone_def wp_bind Let_def
  proof (rule wp_nq_str_clone [where E = E and v = "fst v", OF live [unfolded live_process_result_def] _ exit], goal_cases)
    case (2 s1)
    show ?case
      unfolding wp_ret
      by (rule wp_nq_str_clone [where E = E and v = "snd v", OF 2(1) _ exit])
        (use 2(2) in \<open>auto simp: live_process_result_def add_mset_commute intro!: Q [where L' = ?L]\<close>)
  qed simp
qed

interpretation outcome: cloneable live_outcome dead_outcome nq_process_outcome_drop nq_process_outcome_clone
proof
  show "nq_process_outcome_drop None = ret None" by (simp add: nq_process_outcome_drop_def nullable_def)
next
  fix r v L R s Q E
  assume "live_outcome r v L R s"
    and Q: "\<And>x' s'. dead_outcome x' \<Longrightarrow> owns L R s' \<Longrightarrow> world s' = world s \<Longrightarrow> Q (Some x') s'"
  then have "owns (add_mset (po_stdout r, fst v) (add_mset (po_stderr r, snd v) L)) R s"
    by (simp add: live_outcome_def)
  then show "wp E (nq_process_outcome_drop (Some r)) Q s"
    unfolding nq_process_outcome_drop_def wp_nullable option.case wp_bind
    by (rule wp_at_nq_str_drop, elim wp_at_nq_str_drop)
      (auto simp: wp_simps dead_outcome_def zero_outcome_def intro!: Q)
next
  fix r Q and s :: nqstate and E
  assume "dead_outcome r" and "\<And>x'. dead_outcome x' \<Longrightarrow> Q (Some x') s"
  then show "wp E (nq_process_outcome_drop (Some r)) Q s"
    by (simp add: nq_process_outcome_drop_def wp_simps wp_at_ptr dead_outcome_def zero_outcome_def wp_nq_str_drop_inert)
next
  fix r v L R s E c Q
  assume live: "live_outcome r v L R s" and exit: "E (Exit 1)"
    and Q: "\<And>y L' s'. live_outcome y v L' R s' \<Longrightarrow>
      (\<And>s2. owns L' R s2 \<Longrightarrow> live_outcome r v L R s2) \<Longrightarrow> world s' = world s \<Longrightarrow> Q y s'"
  let ?L = "add_mset (po_stdout r, fst v) (add_mset (po_stderr r, snd v) L)"
  show "wp E (nq_process_outcome_clone c r) Q s"
    unfolding nq_process_outcome_clone_def wp_bind Let_def
  proof (rule wp_nq_str_clone [where E = E and v = "fst v", OF live [unfolded live_outcome_def] _ exit], goal_cases)
    case (2 s1)
    show ?case
      unfolding wp_ret
      by (rule wp_nq_str_clone [where E = E and v = "snd v", OF 2(1) _ exit])
        (use 2(2) in \<open>auto simp: live_outcome_def add_mset_commute intro!: Q [where L' = ?L]\<close>)
  qed simp
qed

interpretation option_str: cloneable "live_option live_str" "dead_option inert"
  nq_option__str_drop nq_option__str_clone
  by (rule str.option_cloneable [OF str.option_owned [where z = zero_str]])
    (simp_all add: nq_option__str_drop_def nq_option__str_clone_def)

interpretation option_duration: owned_value live_plain "\<lambda>_. True" nq_option__duration_drop
  by unfold_locales (auto simp: nq_option__duration_drop_def live_plain_def wp_simps nullable_def)

interpretation option_instant: owned_value live_plain "\<lambda>_. True" nq_option__instant_drop
  by unfold_locales (auto simp: nq_option__instant_drop_def live_plain_def wp_simps nullable_def)

interpretation result_str: cloneable "live_result live_str" "dead_result inert"
  nq_result__str__io_err_drop nq_result__str__io_err_clone
  by (rule str.result_cloneable [OF str.result_owned [where z = zero_str]])
    (simp_all add: nq_result__str__io_err_drop_def nq_result__str__io_err_clone_def)

lemma drop_plain_simp: "bind (drop_plain (Some x)) (\<lambda>_. ret ()) = ret ()"
  by (simp add: drop_plain_def bind_def ret_def)

lemma clone_plain_simp: "bind (clone_plain c x) f = f x"
  by (simp add: clone_plain_def bind_def ret_def)

interpretation result_unit: cloneable "live_result live_plain" "dead_result (\<lambda>_. True)"
  nq_result__unit__io_err_drop nq_result__unit__io_err_clone
  by (rule plain.result_cloneable [OF plain.result_owned [where z = "()"]])
    (simp_all add: nq_result__unit__io_err_drop_def nq_result__unit__io_err_clone_def
      drop_plain_simp clone_plain_simp cong: nq_result.case_cong)

interpretation result_bytes: owned_value "live_result live_bytes" "dead_result dead_bytes"
  nq_result__bytes__io_err_drop
  by (rule bytes.result_owned [where z = zero_bytes])
    (simp_all add: nq_result__bytes__io_err_drop_def dead_bytes_def)

interpretation result_option_str: cloneable "live_result (live_option live_str)" "dead_result (dead_option inert)"
  nq_result__option__str__io_err_drop nq_result__option__str__io_err_clone
  by (rule option_str.result_cloneable [OF option_str.result_owned [where z = "Some zero_str"]])
    (simp_all add: nq_result__option__str__io_err_drop_def nq_result__option__str__io_err_clone_def)

interpretation result_path_metadata: cloneable "live_result live_plain" "dead_result (\<lambda>_. True)"
  nq_result__path_metadata__io_err_drop nq_result__path_metadata__io_err_clone
  by (rule plain.result_cloneable [OF plain.result_owned [where z = zero_metadata]])
    (simp_all add: nq_result__path_metadata__io_err_drop_def nq_result__path_metadata__io_err_clone_def
      drop_plain_simp clone_plain_simp cong: nq_result.case_cong)

interpretation result_list_str: owned_value "live_result live_list" "dead_result dead_list"
  nq_result__list__str__io_err_drop
  by (rule strs.result_owned [where z = nq_list__str_make])
    (simp_all add: nq_result__list__str__io_err_drop_def dead_list_def)

interpretation result_process_result: cloneable "live_result live_process_result"
  "dead_result dead_process_result" nq_result__process_result__io_err_drop
  nq_result__process_result__io_err_clone
  by (rule process_result.result_cloneable [OF process_result.result_owned [where z = zero_process_result]])
    (simp_all add: nq_result__process_result__io_err_drop_def nq_result__process_result__io_err_clone_def
      dead_process_result_def zero_process_result_def)

interpretation result_i64: cloneable "live_result live_plain" "dead_result (\<lambda>_. True)"
  nq_result__i64__io_err_drop nq_result__i64__io_err_clone
  by (rule plain.result_cloneable [OF plain.result_owned [where z = 0]])
    (simp_all add: nq_result__i64__io_err_drop_def nq_result__i64__io_err_clone_def
      drop_plain_simp clone_plain_simp cong: nq_result.case_cong)

interpretation result_instant: cloneable "live_result live_plain" "dead_result (\<lambda>_. True)"
  nq_result__instant__io_err_drop nq_result__instant__io_err_clone
  by (rule plain.result_cloneable [OF plain.result_owned [where z = "\<lparr>i_ns = 0\<rparr>"]])
    (simp_all add: nq_result__instant__io_err_drop_def nq_result__instant__io_err_clone_def
      drop_plain_simp clone_plain_simp cong: nq_result.case_cong)

interpretation result_outcome: cloneable "live_result live_outcome" "dead_result dead_outcome"
  nq_result__process_outcome__io_err_drop nq_result__process_outcome__io_err_clone
  by (rule outcome.result_cloneable [OF outcome.result_owned [where z = zero_outcome]])
    (simp_all add: nq_result__process_outcome__io_err_drop_def nq_result__process_outcome__io_err_clone_def
      dead_outcome_def zero_outcome_def)

section \<open>Properties\<close>

text \<open>
  C7: The destructors the compiler calls for results and options release everything the value
  owns, on either variant, always return, and leave a value whose second destruction changes
  nothing.
\<close>

theorem destructors_release_everything:
  assumes "live_result live_str r1 v1 L1 R1 s1" and "live_result live_bytes r2 v2 L2 R2 s2"
    and "live_result (live_option live_str) r3 v3 L3 R3 s3"
    and "live_result live_list r4 v4 L4 R4 s4" and "live_result live_process_result r5 v5 L5 R5 s5"
    and "live_result live_outcome r6 v6 L6 R6 s6"
  shows
    "wp no_stop (bind (nq_result__str__io_err_drop (Some r1)) nq_result__str__io_err_drop)
       (\<lambda>_ s'. owns L1 R1 s' \<and> world s' = world s1) s1 \<and>
     wp no_stop (bind (nq_result__bytes__io_err_drop (Some r2)) nq_result__bytes__io_err_drop)
       (\<lambda>_ s'. owns L2 R2 s' \<and> world s' = world s2) s2 \<and>
     wp no_stop (bind (nq_result__option__str__io_err_drop (Some r3)) nq_result__option__str__io_err_drop)
       (\<lambda>_ s'. owns L3 R3 s' \<and> world s' = world s3) s3 \<and>
     wp no_stop (bind (nq_result__list__str__io_err_drop (Some r4)) nq_result__list__str__io_err_drop)
       (\<lambda>_ s'. owns L4 R4 s' \<and> world s' = world s4) s4 \<and>
     wp no_stop (bind (nq_result__process_result__io_err_drop (Some r5)) nq_result__process_result__io_err_drop)
       (\<lambda>_ s'. owns L5 R5 s' \<and> world s' = world s5) s5 \<and>
     wp no_stop (bind (nq_result__process_outcome__io_err_drop (Some r6)) nq_result__process_outcome__io_err_drop)
       (\<lambda>_ s'. owns L6 R6 s' \<and> world s' = world s6) s6"
  using result_str.drop_twice [OF assms(1)] result_bytes.drop_twice [OF assms(2)]
    result_option_str.drop_twice [OF assms(3)] result_list_str.drop_twice [OF assms(4)]
    result_process_result.drop_twice [OF assms(5)] result_outcome.drop_twice [OF assms(6)]
  by (auto elim!: wp_mono)

theorem destructors_release_everything_witness:
  "wp no_stop (bind (nq_result__str__io_err_drop (Some (Ok (literal ''x'')))) nq_result__str__io_err_drop)
     (\<lambda>_ s'. owns {#} Map.empty s') (boot [] [])"
proof -
  have x: "owns {#(literal ''x'', ''x'')#} Map.empty (boot [] [])" by (rule owns_literal [OF owns_boot])
  have e: "live_result live (Err empty_err) (Inr empty_view) {#} Map.empty (boot [] [])"
    for live :: "'a \<Rightarrow> 'b \<Rightarrow> strs \<Rightarrow> raws \<Rightarrow> nqstate \<Rightarrow> bool"
    using owns_add_inert_err [OF owns_boot, of empty_err] by (simp add: live_err_def)
  have "live_result live_str (Ok (literal ''x'')) (Inl ''x'') {#} Map.empty (boot [] [])"
    using x by (simp add: live_str_def)
  from conjunct1 [OF destructors_release_everything [OF this e e e e e]]
  show ?thesis by (rule wp_mono) auto
qed

text \<open>
  C8: Cloning a result and destroying the clone leaves the original live, with the same bytes,
  on either variant: the clone shares no obligation with it.
\<close>

theorem clone_then_destroy_is_neutral:
  assumes "live_result live_str r v L R s" and "live_result live_process_result q w L R s"
  shows "wp safe_stop (bind (nq_result__str__io_err_clone c r) (\<lambda>x. nq_result__str__io_err_drop (Some x)))
       (\<lambda>_ s'. live_result live_str r v L R s' \<and> world s' = world s) s \<and>
     wp safe_stop (bind (nq_result__process_result__io_err_clone c q)
         (\<lambda>x. nq_result__process_result__io_err_drop (Some x)))
       (\<lambda>_ s'. live_result live_process_result q w L R s' \<and> world s' = world s) s"
  using result_str.clone_drop [OF assms(1)] result_process_result.clone_drop [OF assms(2)] by simp

theorem clone_then_destroy_is_neutral_witness:
  "wp safe_stop (bind (nq_result__str__io_err_clone plain_config (Err empty_err))
       (\<lambda>x. nq_result__str__io_err_drop (Some x)))
     (\<lambda>_ s'. live_result live_str (Err empty_err) (Inr empty_view) {#} Map.empty s') (boot [] [])"
proof -
  have e: "live_result live (Err empty_err) (Inr empty_view) {#} Map.empty (boot [] [])"
    for live :: "'a \<Rightarrow> 'b \<Rightarrow> strs \<Rightarrow> raws \<Rightarrow> nqstate \<Rightarrow> bool"
    using owns_add_inert_err [OF owns_boot, of empty_err] by (simp add: live_err_def)
  show ?thesis
    by (rule wp_mono [OF conjunct1 [OF clone_then_destroy_is_neutral [OF e e]]]) auto
qed

end
