(* ===== verification/Buffer.thy ===== *)
theory Buffer
  imports Lists
begin

text \<open>
  \<open>NQByteBuffer\<close> of \<open>stdlib/runtime.c\<close>: the growable buffer that reading collects bytes in
  (\<open>nq_buffer_reserve\<close>, \<open>nq_buffer_push\<close>), and \<open>nq_bytes_result_into_str\<close>, which turns what
  was read into a string without copying it.
\<close>

section \<open>Operations\<close>

definition zero_buffer :: nq_byte_buffer where
  "zero_buffer = \<lparr>bb_data = PNull, bb_len = 0, bb_cap = 0\<rparr>"

definition nq_buffer_reserve ::
  "config \<Rightarrow> nq_byte_buffer \<Rightarrow> nat \<Rightarrow> nat \<Rightarrow> (nq_byte_buffer \<times> alloc_failure option) nq" where
  "nq_buffer_reserve c buffer extra limit =
     (let limit = (if limit > nq_allocation_limit c then nq_allocation_limit c else limit) in
      if bb_cap buffer > limit \<or> bb_len buffer > bb_cap buffer then ret (buffer, Some ALLOC_SIZE)
      else case nq_size_add (bb_len buffer) extra limit of
        None \<Rightarrow> ret (buffer, Some ALLOC_SIZE)
      | Some needed \<Rightarrow>
          if needed \<le> bb_cap buffer then ret (buffer, None)
          else bind (from_loop (nq_growth (bb_cap buffer) needed limit 4096)) (\<lambda>next_cap.
            bind (nq_try_realloc c KBytes (bb_data buffer) next_cap) (\<lambda>r. case r of
              Inl status \<Rightarrow> ret (buffer, Some status)
            | Inr nxt \<Rightarrow> ret (buffer\<lparr>bb_data := nxt, bb_cap := next_cap\<rparr>, None))))"

definition nq_buffer_push ::
  "config \<Rightarrow> nq_byte_buffer \<Rightarrow> char \<Rightarrow> nat \<Rightarrow> (nq_byte_buffer \<times> alloc_failure option) nq" where
  "nq_buffer_push c buffer v limit =
     bind (nq_buffer_reserve c buffer 1 limit) (\<lambda>(buffer, status).
       if status \<noteq> None then ret (buffer, status)
       else andthen (store_bytes (ptr_plus (bb_data buffer) (bb_len buffer)) [v])
              (ret (buffer\<lparr>bb_len := bb_len buffer + 1\<rparr>, None)))"

definition nq_bytes_result_into_str :: "config \<Rightarrow> nq_result_bytes \<Rightarrow> string \<Rightarrow> nq_result_str nq" where
  "nq_bytes_result_into_str c bytes_result operation =
     (case bytes_result of
        Err e \<Rightarrow> ret (nq_str_err e)
      | Ok bytes \<Rightarrow>
        let failed = (\<lambda>status. bind (nq_allocation_io_err c (Some operation) status) (\<lambda>e. ret (nq_str_err e)))
        in case (if nq_str_size c (b_len bytes)
                 then nq_size_add (nat (b_len bytes)) 1 (nq_allocation_limit c) else None) of
             None \<Rightarrow> andthen (c_free (b_data bytes)) (failed ALLOC_SIZE)
           | Some sz \<Rightarrow>
             if sizeof_owner > nq_allocation_limit c
             then andthen (c_free (b_data bytes)) (failed ALLOC_SIZE)
             else bind (nq_try_realloc c KBytes (b_data bytes) sz) (\<lambda>r. case r of
               Inl status \<Rightarrow> andthen (c_free (b_data bytes)) (failed status)
             | Inr storage \<Rightarrow>
               andthen (store_bytes (ptr_plus storage (nat (b_len bytes))) [CHR 0x00])
               (bind (nq_try_str_take c storage (nat (b_len bytes))) (\<lambda>r. case r of
                  Inl status \<Rightarrow> failed status
                | Inr t \<Rightarrow> ret (nq_str_ok t)))))"

section \<open>Live buffers\<close>

definition holds_buffer :: "nq_byte_buffer \<Rightarrow> string \<Rightarrow> raws \<Rightarrow> raws \<Rightarrow> bool" where
  "holds_buffer b v R R' \<longleftrightarrow>
     b = zero_buffer \<and> v = [] \<and> R' = R \<or>
     (\<exists>k junk. b = \<lparr>bb_data = PHeap k 0, bb_len = length v, bb_cap = length v + length junk\<rparr> \<and>
        R k = None \<and> R' = R(k \<mapsto> BBytes (map Some v @ junk)))"

lemma holds_zero_buffer: "holds_buffer zero_buffer [] R R"
  by (simp add: holds_buffer_def)

lemma holds_bufferI:
  "R k = None \<Longrightarrow> n = length v \<Longrightarrow> cap = length v + length junk \<Longrightarrow>
     holds_buffer \<lparr>bb_data = PHeap k 0, bb_len = n, bb_cap = cap\<rparr> v R (R(k \<mapsto> BBytes (map Some v @ junk)))"
  by (auto simp: holds_buffer_def)

lemma holds_buffer_len: "holds_buffer b v R R' \<Longrightarrow> bb_len b = length v \<and> length v \<le> bb_cap b"
  by (auto simp: holds_buffer_def zero_buffer_def)

lemma holds_buffer_readable: "holds_buffer b v R R' \<Longrightarrow> readable L R' (bb_data b) (length v) v"
  by (auto simp: holds_buffer_def zero_buffer_def intro!: readable_raw readable_none)

lemma wp_free_buffer:
  assumes "holds_buffer b v R R'" and "owns L R' s"
    and "\<And>s'. owns L R s' \<Longrightarrow> world s' = world s \<Longrightarrow> errno s' = errno s \<Longrightarrow> Q () s'"
  shows "wp E (c_free (bb_data b)) Q s"
  using assms(1)
  unfolding holds_buffer_def
proof (elim disjE exE conjE)
  assume "b = zero_buffer" "R' = R"
  then show ?thesis using assms(2,3) by (simp add: zero_buffer_def wp_c_free_null)
next
  fix k junk assume b: "b = \<lparr>bb_data = PHeap k 0, bb_len = length v, bb_cap = length v + length junk\<rparr>"
    and k: "R k = None" and R': "R' = R(k \<mapsto> BBytes (map Some v @ junk))"
  have "owns L (R'(k := None)) (s\<lparr>heap := (heap s)(k := None)\<rparr>)"
    by (rule owns_free_raw [OF assms(2)]) (simp add: R')
  moreover have "R'(k := None) = R" using k by (auto simp: R')
  moreover have "heap s k \<noteq> None" using owns_raw [OF assms(2), of k] R' by auto
  ultimately show ?thesis using assms(3) b by (auto simp: wp_def c_free_def)
qed

section \<open>Rules\<close>

lemma wp_buffer_grow:
  assumes buf: "holds_buffer b v R R'" and owns: "owns L R' s" and "length v \<le> n \<and> 0 < n"
    and ok: "\<And>k junk s'. R k = None \<Longrightarrow> length v + length junk = n \<Longrightarrow>
        owns L (R(k \<mapsto> BBytes (map Some v @ junk))) s' \<Longrightarrow> world s' = world s \<Longrightarrow> Q (Inr (PHeap k 0)) s'"
    and err: "\<And>e s'. owns L R' s' \<Longrightarrow> world s' = world s \<Longrightarrow> Q (Inl e) s'"
  shows "wp E (nq_try_realloc c KBytes (bb_data b) n) Q s"
  using buf
  unfolding holds_buffer_def
proof (elim disjE exE conjE)
  assume "b = zero_buffer" "v = []" "R' = R"
  then show ?thesis
    using owns assms(3) by (auto simp: zero_buffer_def intro!: wp_nq_try_realloc_new [of L R] ok err)
next
  fix k junk
  assume b: "b = \<lparr>bb_data = PHeap k 0, bb_len = length v, bb_cap = length v + length junk\<rparr>"
    and k: "R k = None" and R': "R' = R(k \<mapsto> BBytes (map Some v @ junk))"
  obtain junk' where junk': "resize_cells n (map Some v @ junk) = map Some v @ junk'"
    "length junk' = n - length v"
    using resize_front [of "map Some v" n junk] assms(3) b by auto
  have blk: "R' k = Some (BBytes (map Some v @ junk))" by (simp add: R')
  have "wp E (nq_try_realloc c KBytes (PHeap k 0) n) Q s"
  proof (rule wp_nq_try_realloc_grow [OF owns blk, where blk' = "BBytes (map Some v @ junk')"], goal_cases)
    case 2
    then show ?case by (simp add: junk')
  next
    case (3 k' s')
    have "R'(k := None, k' \<mapsto> x) = R(k' \<mapsto> x)" for x using k by (auto simp: R' fun_eq_iff)
    with 3 show ?case using junk'(2) assms(3) b k by (intro ok) (auto simp: R' split: if_splits)
  next
    case (4 e s')
    then show ?case by (intro err) auto
  qed (use assms(3) in simp)
  with b show ?thesis by simp
qed

lemma wp_nq_buffer_reserve:
  assumes buf: "holds_buffer b v R R'" and owns: "owns L R' s"
    and ok: "\<And>b' R'' s'. holds_buffer b' v R R'' \<Longrightarrow> owns L R'' s' \<Longrightarrow> world s' = world s \<Longrightarrow>
        length v + extra \<le> bb_cap b' \<Longrightarrow> length v + extra \<le> limit \<Longrightarrow> Q (b', None) s'"
    and err: "\<And>e s'. owns L R' s' \<Longrightarrow> world s' = world s \<Longrightarrow> Q (b, Some e) s'"
  shows "wp E (nq_buffer_reserve c b extra limit) Q s"
proof -
  let ?l = "if limit > nq_allocation_limit c then nq_allocation_limit c else limit"
  have l: "?l \<le> SIZE_MAX" "?l \<le> limit" using allocation_limit_le [of c] by auto
  note len = holds_buffer_len [OF buf]
  show ?thesis
  proof (cases "bb_cap b > ?l \<or> length v + extra > ?l")
    case True
    then show ?thesis
      using err [OF owns] len unfolding nq_buffer_reserve_def Let_def nq_size_add_eq [OF l(1)]
      by (auto simp: wp_simps)
  next
    case False
    have add: "nq_size_add (bb_len b) extra ?l = Some (length v + extra)"
      "\<not> (bb_cap b > ?l \<or> bb_len b > bb_cap b)"
      using False len unfolding nq_size_add_eq [OF l(1)] by auto
    show ?thesis
      unfolding nq_buffer_reserve_def Let_def if_not_P [OF add(2)] add(1) option.case
    proof (cases "length v + extra \<le> bb_cap b", goal_cases)
      case 1
      then show ?case using ok [OF buf owns] False l(2) by (simp add: wp_simps)
    next
      case 2
      obtain g where g: "nq_growth (bb_cap b) (length v + extra) ?l 4096 = Some g" "length v + extra \<le> g"
        using nq_growth_total [of "bb_cap b" ?l "length v + extra" 4096] False l(1) by auto
      show ?case
        unfolding if_not_P [OF 2] wp_bind wp_from_loop g(1) option.case
      proof (rule wp_buffer_grow [OF buf owns], goal_cases)
        case 1
        then show ?case using 2 g(2) holds_buffer_len [OF buf] by simp
      next
        case (2 k junk s')
        have "holds_buffer (b\<lparr>bb_data := PHeap k 0, bb_cap := g\<rparr>) v R (R(k \<mapsto> BBytes (map Some v @ junk)))"
          using 2 len by (cases b) (auto simp: holds_buffer_def)
        with 2 show ?case using g(2) False l(2) by (auto simp: wp_simps intro!: ok)
      next
        case (3 e s')
        then show ?case by (simp add: wp_simps err)
      qed
    qed
  qed
qed

text \<open>Storing behind the bytes a buffer holds.\<close>

lemma wp_buffer_store:
  assumes "holds_buffer b v R R'" and "owns L R' s" and "length v + length ys \<le> bb_cap b" and "ys \<noteq> []"
    and "\<And>R'' s'. holds_buffer (b\<lparr>bb_len := length v + length ys\<rparr>) (v @ ys) R R'' \<Longrightarrow> owns L R'' s' \<Longrightarrow>
        world s' = world s \<Longrightarrow> Q () s'"
  shows "wp E (store_bytes (ptr_plus (bb_data b) (bb_len b)) ys) Q s"
  using assms(1)
  unfolding holds_buffer_def
proof (elim disjE exE conjE)
  assume "b = zero_buffer" then show ?thesis using assms(3,4) by (simp add: zero_buffer_def)
next
  fix k junk
  assume b: "b = \<lparr>bb_data = PHeap k 0, bb_len = length v, bb_cap = length v + length junk\<rparr>"
    and k: "R k = None" and R': "R' = R(k \<mapsto> BBytes (map Some v @ junk))"
  have "wp E (store_bytes (PHeap k (length v)) ys) Q s"
  proof (rule wp_store_bytes [OF assms(2), where cs = "map Some v @ junk"], goal_cases)
    case (3 s')
    let ?junk = "drop (length ys) junk"
    have over: "overwrite (map Some v @ junk) (length v) (map Some ys) = map Some (v @ ys) @ ?junk"
      by (simp add: overwrite_def)
    have "holds_buffer (b\<lparr>bb_len := length v + length ys\<rparr>) (v @ ys) R (R(k \<mapsto> BBytes (map Some (v @ ys) @ ?junk)))"
      unfolding b using k b assms(3) by (auto intro: holds_bufferI simp del: map_append)
    then show ?case
      by (rule assms(5)) (use 3 in \<open>simp_all add: over R'\<close>)
  qed (use R' b assms(3) in auto)
  with b show ?thesis by simp
qed

lemma wp_nq_buffer_push:
  assumes buf: "holds_buffer b v R R'" and owns: "owns L R' s"
    and ok: "\<And>b' R'' s'. holds_buffer b' (v @ [x]) R R'' \<Longrightarrow> owns L R'' s' \<Longrightarrow> world s' = world s \<Longrightarrow>
        length v + 1 \<le> limit \<Longrightarrow> Q (b', None) s'"
    and err: "\<And>e s'. owns L R' s' \<Longrightarrow> world s' = world s \<Longrightarrow> Q (b, Some e) s'"
  shows "wp E (nq_buffer_push c b x limit) Q s"
  unfolding nq_buffer_push_def wp_bind
proof (rule wp_nq_buffer_reserve [OF buf owns], goal_cases)
  case (1 b' R'' s')
  have len: "bb_len b' = length v" using holds_buffer_len [OF 1(1)] by simp
  have "wp E (store_bytes (ptr_plus (bb_data b') (bb_len b')) [x]) (\<lambda>_. Q (b'\<lparr>bb_len := bb_len b' + 1\<rparr>, None)) s'"
    by (rule wp_buffer_store [OF 1(1,2), where ys = "[x]"])
      (use 1 len in \<open>auto intro!: ok\<close>)
  then show ?case by (simp add: wp_simps)
next
  case (2 e s')
  then show ?case by (simp add: wp_simps err)
qed

interpretation buffer: growable holds_buffer zero_buffer "\<lambda>c b x. nq_buffer_push c b x limit" for limit
  by unfold_locales (auto intro: holds_zero_buffer wp_nq_buffer_push)

text \<open>The bytes of a buffer as \<open>NQBytes\<close>.\<close>

lemma buffer_as_bytes:
  "holds_buffer b v R R' \<Longrightarrow>
     holds_bytes \<lparr>b_data = bb_data b, b_len = int (bb_len b), b_cap = int (bb_cap b)\<rparr> v R R'"
  by (auto simp: holds_buffer_def holds_bytes_def zero_buffer_def zero_bytes_def)

text \<open>\<open>nq_bytes_result_into_str\<close> consumes the bytes; the string denotes the same bytes.\<close>

lemma wp_nq_bytes_result_into_str:
  assumes "good_config c" and "label operation" and live: "live_result live_bytes r v L R s"
    and ok: "\<And>t x s'. v = Inl x \<Longrightarrow> owns (add_mset (t, x) L) R s' \<Longrightarrow> world s' = world s \<Longrightarrow>
        length x \<le> nq_str_limit c \<Longrightarrow> Q (Ok t) s'"
    and err: "\<And>e w s'. owns (with_err e w L) R s' \<Longrightarrow> world s' = world s \<Longrightarrow>
        v = Inr w \<or> v_operation w = operation \<Longrightarrow> Q (Err e) s'"
  shows "wp E (nq_bytes_result_into_str c r operation) Q s"
proof (cases r)
  case (Err e)
  with live show ?thesis by (cases v) (auto simp: nq_bytes_result_into_str_def wp_simps result_defs live_err_def err)
next
  case (Ok b)
  with live obtain x R' where v: "v = Inl x" and b: "holds_bytes b x R R'" and owns: "owns L R' s"
    by (cases v) (auto simp: live_bytes_def)
  have blen: "b_len b = int (length x)" by (rule holds_bytes_len [OF b])
  have failed: "wp E (nq_allocation_io_err c (Some operation) st) (\<lambda>e. Q (nq_str_err e)) s'"
    if "owns L R s'" "world s' = world s" for s' st
    unfolding wp_nq_allocation_io_err [OF assms(1), of "Some operation", unfolded op_name_simps, OF assms(2)]
    using err [OF owns_fallback [OF that(1)] that(2)] by (simp add: result_defs fallback_view_def)
  have buf: "holds_buffer \<lparr>bb_data = b_data b, bb_len = length x, bb_cap = nat (b_cap b)\<rparr> x R R'"
    using b by (auto simp: holds_bytes_def holds_buffer_def zero_bytes_def zero_buffer_def nat_add_distrib)
  have free: "wp E (c_free (b_data b)) (\<lambda>_. wp E (nq_allocation_io_err c (Some operation) st) (\<lambda>e. Q (nq_str_err e))) s'"
    if "owns L R' s'" "world s' = world s" for s' st
    using wp_free_buffer [OF buf that(1)] failed that(2) by simp
  show ?thesis
  proof (cases "length x \<le> nq_str_limit c \<and> length x + 1 \<le> nq_allocation_limit c \<and> \<not> sizeof_owner > nq_allocation_limit c")
    case False
    then show ?thesis
      using free [OF owns refl]
      by (auto simp: nq_bytes_result_into_str_def Ok Let_def wp_simps nq_str_size_def blen nq_size_add_eq allocation_limit_le)
  next
    case True
    then have size: "(if nq_str_size c (b_len b) then nq_size_add (nat (b_len b)) 1 (nq_allocation_limit c) else None)
        = Some (length x + 1)" "\<not> sizeof_owner > nq_allocation_limit c"
      by (simp_all add: nq_str_size_def blen nq_size_add_eq allocation_limit_le)
      have "wp E (nq_try_realloc c KBytes (bb_data \<lparr>bb_data = b_data b, bb_len = length x, bb_cap = nat (b_cap b)\<rparr>)
            (length x + 1))
          (\<lambda>r. wp E (case r of
               Inl status \<Rightarrow> andthen (c_free (b_data b)) (bind (nq_allocation_io_err c (Some operation) status)
                 (\<lambda>e. ret (nq_str_err e)))
             | Inr storage \<Rightarrow>
               andthen (store_bytes (ptr_plus storage (nat (b_len b))) [CHR 0x00])
               (bind (nq_try_str_take c storage (nat (b_len b))) (\<lambda>r. case r of
                  Inl status \<Rightarrow> bind (nq_allocation_io_err c (Some operation) status) (\<lambda>e. ret (nq_str_err e))
                | Inr t \<Rightarrow> ret (nq_str_ok t)))) Q) s"
      proof (rule wp_buffer_grow [OF buf owns], goal_cases)
        case (3 st s')
        then show ?case using free by (simp add: wp_simps)
      next
        case (2 k junk s')
        obtain z where junk: "junk = [z]" using 2(2) by (cases junk) auto
        have same: "R(k := None) = R" using 2(1) by simp
        have "wp E (store_bytes (PHeap k (length x)) [CHR 0x00])
            (\<lambda>_. wp E (nq_try_str_take c (PHeap k 0) (length x)) (\<lambda>r. wp E (case r of
                  Inl status \<Rightarrow> bind (nq_allocation_io_err c (Some operation) status) (\<lambda>e. ret (nq_str_err e))
                | Inr t \<Rightarrow> ret (nq_str_ok t)) Q)) s'"
        proof (rule wp_store_bytes [OF 2(3), where cs = "map Some x @ junk"], goal_cases)
          case (3 s2)
          have "overwrite (map Some x @ junk) (length x) (map Some [CHR 0x00]) = map Some (x @ [CHR 0x00])"
            by (simp add: overwrite_def junk)
          with 3 have s2: "owns L (R(k \<mapsto> BBytes (map Some (x @ [CHR 0x00])))) s2" by simp
          show ?case
            by (rule wp_nq_try_str_take [OF s2, where cs = "map Some (x @ [CHR 0x00])" and v = x])
              (use 3(2) 2(4) True v same in \<open>auto simp: wp_simps those_eq_Some result_defs
                intro!: ok failed [unfolded result_defs]\<close>)
        qed (auto simp: junk)
        then show ?case by (simp add: wp_simps blen)
      qed simp
      then show ?thesis
        unfolding nq_bytes_result_into_str_def Ok nq_result.case Let_def size(1) option.case if_not_P [OF size(2)]
        by (simp add: wp_bind)
  qed
qed

end
