(* ===== verification/Streams.thy ===== *)
theory Streams
  imports Values Buffer
begin

text \<open>
  Streams of \<open>stdlib/runtime.c\<close>: \<open>nq_read_stream\<close>, \<open>nq_write_stream\<close>, the operations on stdin,
  stdout and stderr, reading and writing whole files, and what the process was started with
  (arguments, environment, working directory).

  The first section models the calls of the C library these functions make. A \<open>FILE\<close> is a
  number: 0, 1 and 2 are stdin, stdout and stderr, and \<open>fopen\<close> hands out larger ones. What the
  environment replies is cut to what the call can return (\<open>fread\<close> at most the bytes asked for,
  \<open>fwrite\<close> at most the bytes given).
\<close>

section \<open>Calls of the C library\<close>

definition c_fread :: "int \<Rightarrow> nat \<Rightarrow> string nq" where
  "c_fread stream n = bind (sys (Fread stream n)) (\<lambda>r. ret (take n (r_bytes r)))"

definition c_ferror :: "int \<Rightarrow> bool nq" where
  "c_ferror stream = bind (sys_quiet (Ferror stream)) (\<lambda>r. ret (r_ret r \<noteq> 0))"

definition c_fgetc :: "int \<Rightarrow> char option nq" where
  "c_fgetc stream = bind (sys (Fgetc stream)) (\<lambda>r.
     ret (case r_bytes r of [] \<Rightarrow> None | ch # _ \<Rightarrow> Some ch))"

definition c_fwrite :: "int \<Rightarrow> string \<Rightarrow> nat nq" where
  "c_fwrite stream bs = bind (sys (Fwrite stream bs)) (\<lambda>r. ret (min (nat (r_ret r)) (length bs)))"

definition c_fflush :: "int \<Rightarrow> int nq" where
  "c_fflush stream = bind (sys (Fflush stream)) (\<lambda>r. ret (r_ret r))"

definition c_fopen :: "string \<Rightarrow> string \<Rightarrow> int option nq" where
  "c_fopen name mode = bind (sys (Fopen name mode)) (\<lambda>r.
     ret (if r_ret r \<le> 2 then None else Some (r_ret r)))"

definition c_fclose :: "int \<Rightarrow> int nq" where
  "c_fclose stream = bind (sys (Fclose stream)) (\<lambda>r. ret (r_ret r))"

text \<open>\<open>signal(SIGPIPE, SIG_IGN)\<close> and its undoing; a negative reply is \<open>SIG_ERR\<close>.\<close>

definition sigpipe_ignore :: "bool nq" where
  "sigpipe_ignore = bind (sys SignalIgnore) (\<lambda>r. ret (r_ret r \<ge> 0))"

definition sigpipe_restore :: "bool \<Rightarrow> unit nq" where
  "sigpipe_restore known = only_if known (emit SignalRestore)"

definition errno_or_eio :: "int \<Rightarrow> int" where
  "errno_or_eio e = (if e = 0 then EIO else e)"

section \<open>Reading and writing a stream\<close>

text \<open>One round of \<open>while (true)\<close> in \<open>nq_read_stream\<close>, and the function.\<close>

definition read_round ::
  "config \<Rightarrow> int \<Rightarrow> string \<Rightarrow> nqstr option \<Rightarrow> nat \<Rightarrow> nq_byte_buffer \<Rightarrow> (nq_byte_buffer + nq_result_bytes) nq" where
  "read_round c stream operation path limit buffer =
     andthen (set_errno 0)
     (bind (c_fread stream 8192) (\<lambda>chunk.
      bind (if chunk \<noteq> []
            then bind (nq_buffer_reserve c buffer (length chunk) limit) (\<lambda>(buffer, status).
              case status of
                Some st \<Rightarrow>
                  andthen (c_free (bb_data buffer))
                  (bind (nq_allocation_io_err c (Some operation) st) (\<lambda>e. ret (Inr (nq_bytes_err e))))
              | None \<Rightarrow>
                  andthen (store_bytes (ptr_plus (bb_data buffer) (bb_len buffer)) chunk)
                  (ret (Inl (buffer\<lparr>bb_len := bb_len buffer + length chunk\<rparr>))))
            else ret (Inl buffer))
        (\<lambda>r. case r of
           Inr res \<Rightarrow> ret (Inr res)
         | Inl buffer \<Rightarrow>
             if length chunk < 8192
             then bind (c_ferror stream) (\<lambda>bad.
               if bad
               then bind get_errno (\<lambda>e.
                 andthen (c_free (bb_data buffer))
                 (bind (nq_errno_io_err c (Some operation) path None (errno_or_eio e)) (\<lambda>err.
                   ret (Inr (nq_bytes_err err)))))
               else ret (Inr (nq_bytes_ok \<lparr>b_data = bb_data buffer, b_len = int (bb_len buffer),
                                          b_cap = int (bb_cap buffer)\<rparr>)))
             else ret (Inl buffer))))"

definition nq_read_stream ::
  "config \<Rightarrow> int \<Rightarrow> string \<Rightarrow> nqstr option \<Rightarrow> nat \<Rightarrow> nq_result_bytes nq" where
  "nq_read_stream c stream operation path limit =
     loop (read_round c stream operation path limit) zero_buffer"

definition write_round ::
  "config \<Rightarrow> int \<Rightarrow> ptr \<Rightarrow> nat \<Rightarrow> string \<Rightarrow> nqstr option \<Rightarrow> bool \<Rightarrow> nat \<Rightarrow> (nat + nq_result_unit) nq" where
  "write_round c stream data len operation path known offset =
     (if offset < len
      then andthen (set_errno 0)
        (bind (load_bytes (ptr_plus data offset) (len - offset)) (\<lambda>bs.
         bind (c_fwrite stream bs) (\<lambda>n.
         bind (c_ferror stream) (\<lambda>bad.
           if bad \<or> n = 0
           then bind get_errno (\<lambda>e.
             andthen (sigpipe_restore known)
             (bind (nq_errno_io_err c (Some operation) path None (errno_or_eio e)) (\<lambda>err.
               ret (Inr (nq_unit_err err)))))
           else ret (Inl (offset + n))))))
      else andthen (sigpipe_restore known) (ret (Inr nq_unit_ok)))"

definition nq_write_stream ::
  "config \<Rightarrow> int \<Rightarrow> ptr \<Rightarrow> nat \<Rightarrow> string \<Rightarrow> nqstr option \<Rightarrow> nq_result_unit nq" where
  "nq_write_stream c stream data len operation path =
     bind sigpipe_ignore (\<lambda>known. loop (write_round c stream data len operation path known) 0)"

section \<open>stdin, stdout and stderr\<close>

definition nq_stdin_read_bytes :: "config \<Rightarrow> nq_result_bytes nq" where
  "nq_stdin_read_bytes c = nq_read_stream c 0 ''stdin_read_bytes'' None (nq_bytes_limit c)"

definition nq_stdin_read :: "config \<Rightarrow> nq_result_str nq" where
  "nq_stdin_read c =
     bind (nq_read_stream c 0 ''stdin_read'' None (nq_str_limit c)) (\<lambda>r.
       nq_bytes_result_into_str c r ''stdin_read'')"

text \<open>A round of \<open>nq_stdin_read_line\<close>: \<open>Inr (Inl _)\<close> returns, \<open>Inr (Inr _)\<close> leaves the loop.\<close>

definition line_round ::
  "config \<Rightarrow> nq_byte_buffer \<Rightarrow> (nq_byte_buffer + (nq_result_option_str + nq_byte_buffer)) nq" where
  "line_round c buffer =
     andthen (set_errno 0)
     (bind (c_fgetc 0) (\<lambda>v. case v of
        None \<Rightarrow> bind (c_ferror 0) (\<lambda>bad.
          if bad
          then bind get_errno (\<lambda>e.
            andthen (c_free (bb_data buffer))
            (bind (nq_errno_io_err c (Some ''stdin_read_line'') None None (errno_or_eio e)) (\<lambda>err.
              ret (Inr (Inl (nq_option_str_err err))))))
          else if bb_len buffer = 0
          then andthen (c_free (bb_data buffer)) (ret (Inr (Inl (nq_option_str_ok None))))
          else ret (Inr (Inr buffer)))
      | Some ch \<Rightarrow>
          if ch = CHR 0x0A then ret (Inr (Inr buffer))
          else bind (nq_buffer_push c buffer ch (nq_str_limit c)) (\<lambda>(buffer, status).
            case status of
              Some st \<Rightarrow>
                andthen (c_free (bb_data buffer))
                (bind (nq_allocation_io_err c (Some ''stdin_read_line'') st) (\<lambda>e.
                  ret (Inr (Inl (nq_option_str_err e)))))
            | None \<Rightarrow> ret (Inl buffer))))"

definition nq_stdin_read_line :: "config \<Rightarrow> nq_result_option_str nq" where
  "nq_stdin_read_line c =
     bind (loop (line_round c) zero_buffer) (\<lambda>r. case r of
       Inl res \<Rightarrow> ret res
     | Inr buffer \<Rightarrow>
       let failed = (\<lambda>st. bind (nq_allocation_io_err c (Some ''stdin_read_line'') st) (\<lambda>e.
                       ret (nq_option_str_err e)));
           terminated_limit = (case nq_size_add (nq_str_limit c) 1 SIZE_MAX of
                                 None \<Rightarrow> SIZE_MAX | Some n \<Rightarrow> n)
       in bind (nq_buffer_reserve c buffer 1 terminated_limit) (\<lambda>(buffer, status). case status of
            Some st \<Rightarrow> andthen (c_free (bb_data buffer)) (failed st)
          | None \<Rightarrow>
            andthen (store_bytes (ptr_plus (bb_data buffer) (bb_len buffer)) [CHR 0x00])
            (bind (nq_try_str_take c (bb_data buffer) (bb_len buffer)) (\<lambda>r. case r of
               Inl st \<Rightarrow> failed st
             | Inr t \<Rightarrow> ret (nq_option_str_ok (Some t))))))"

definition nq_stdout_write :: "config \<Rightarrow> nqstr \<Rightarrow> nq_result_unit nq" where
  "nq_stdout_write c data =
     (if \<not> nq_str_size c (s_len data)
      then bind (nq_allocation_io_err c (Some ''stdout_write'') ALLOC_SIZE) (\<lambda>e. ret (nq_unit_err e))
      else if \<not> nq_str_storage_is_valid c data
      then bind (nq_invalid_input_io_err c (Some ''stdout_write'') None None ''invalid string storage'')
             (\<lambda>e. ret (nq_unit_err e))
      else nq_write_stream c 1 (s_data data) (nat (s_len data)) ''stdout_write'' None)"

definition nq_stderr_write :: "config \<Rightarrow> nqstr \<Rightarrow> nq_result_unit nq" where
  "nq_stderr_write c data =
     (if \<not> nq_str_size c (s_len data)
      then bind (nq_allocation_io_err c (Some ''stderr_write'') ALLOC_SIZE) (\<lambda>e. ret (nq_unit_err e))
      else if \<not> nq_str_storage_is_valid c data
      then bind (nq_invalid_input_io_err c (Some ''stderr_write'') None None ''invalid string storage'')
             (\<lambda>e. ret (nq_unit_err e))
      else nq_write_stream c 2 (s_data data) (nat (s_len data)) ''stderr_write'' None)"

definition bytes_too_long :: "config \<Rightarrow> nqbytes option \<Rightarrow> bool" where
  "bytes_too_long c data \<longleftrightarrow>
     (case data of None \<Rightarrow> False | Some b \<Rightarrow> b_len b < 0 \<or> nat (b_len b) > nq_bytes_limit c)"

definition bytes_invalid :: "nqbytes option \<Rightarrow> bool" where
  "bytes_invalid data \<longleftrightarrow>
     (case data of None \<Rightarrow> True | Some b \<Rightarrow> b_len b < 0 \<or> (b_len b > 0 \<and> b_data b = PNull))"

definition nq_stdout_write_bytes :: "config \<Rightarrow> nqbytes option \<Rightarrow> nq_result_unit nq" where
  "nq_stdout_write_bytes c data =
     (if bytes_too_long c data
      then bind (nq_allocation_io_err c (Some ''stdout_write_bytes'') ALLOC_SIZE) (\<lambda>e. ret (nq_unit_err e))
      else if bytes_invalid data
      then bind (nq_invalid_input_io_err c (Some ''stdout_write_bytes'') None None ''invalid bytes storage'')
             (\<lambda>e. ret (nq_unit_err e))
      else nq_write_stream c 1 (b_data (the data)) (nat (b_len (the data))) ''stdout_write_bytes'' None)"

definition nq_stderr_write_bytes :: "config \<Rightarrow> nqbytes option \<Rightarrow> nq_result_unit nq" where
  "nq_stderr_write_bytes c data =
     (if bytes_too_long c data
      then bind (nq_allocation_io_err c (Some ''stderr_write_bytes'') ALLOC_SIZE) (\<lambda>e. ret (nq_unit_err e))
      else if bytes_invalid data
      then bind (nq_invalid_input_io_err c (Some ''stderr_write_bytes'') None None ''invalid bytes storage'')
             (\<lambda>e. ret (nq_unit_err e))
      else nq_write_stream c 2 (b_data (the data)) (nat (b_len (the data))) ''stderr_write_bytes'' None)"

definition nq_stdout_flush :: "config \<Rightarrow> nq_result_unit nq" where
  "nq_stdout_flush c =
     bind sigpipe_ignore (\<lambda>known.
     andthen (set_errno 0)
     (bind (c_fflush 1) (\<lambda>r.
        if r \<noteq> 0
        then bind get_errno (\<lambda>e.
          andthen (sigpipe_restore known)
          (bind (nq_errno_io_err c (Some ''stdout_flush'') None None (errno_or_eio e)) (\<lambda>err.
            ret (nq_unit_err err))))
        else andthen (sigpipe_restore known) (ret nq_unit_ok))))"

definition nq_stderr_flush :: "config \<Rightarrow> nq_result_unit nq" where
  "nq_stderr_flush c =
     bind sigpipe_ignore (\<lambda>known.
     andthen (set_errno 0)
     (bind (c_fflush 2) (\<lambda>r.
        if r \<noteq> 0
        then bind get_errno (\<lambda>e.
          andthen (sigpipe_restore known)
          (bind (nq_errno_io_err c (Some ''stderr_flush'') None None (errno_or_eio e)) (\<lambda>err.
            ret (nq_unit_err err))))
        else andthen (sigpipe_restore known) (ret nq_unit_ok))))"

section \<open>Whole files\<close>

definition nq_read_file_bytes_operation :: "config \<Rightarrow> nqstr \<Rightarrow> string \<Rightarrow> nat \<Rightarrow> nq_result_bytes nq" where
  "nq_read_file_bytes_operation c path operation limit =
     bind (nq_os_string c path (Some operation) (Some path) None) (\<lambda>r. case r of
       Inl err \<Rightarrow> ret (nq_bytes_err err)
     | Inr file_name \<Rightarrow>
       bind (load_c_string file_name) (\<lambda>name.
       bind (c_fopen name ''rb'') (\<lambda>handle.
       andthen (c_free file_name)
       (case handle of
          None \<Rightarrow> bind get_errno (\<lambda>e.
            bind (nq_errno_io_err_with_detail c (Some operation) (Some path) None e ''failed to open file'')
              (\<lambda>err. ret (nq_bytes_err err)))
        | Some handle \<Rightarrow>
            bind (nq_read_stream c handle operation (Some path) limit) (\<lambda>result.
            andthen (set_errno 0)
            (bind (c_fclose handle) (\<lambda>closed. case result of
               Ok b \<Rightarrow>
                 if closed \<noteq> 0
                 then bind (nq_bytes_drop (Some b)) (\<lambda>_.
                   bind get_errno (\<lambda>e.
                   bind (nq_errno_io_err c (Some operation) (Some path) None (errno_or_eio e))
                     (\<lambda>err. ret (nq_bytes_err err))))
                 else ret result
             | Err _ \<Rightarrow> ret result)))))))"

definition nq_read_file_bytes :: "config \<Rightarrow> nqstr \<Rightarrow> nq_result_bytes nq" where
  "nq_read_file_bytes c path = nq_read_file_bytes_operation c path ''read_file_bytes'' (nq_bytes_limit c)"

definition nq_read_file :: "config \<Rightarrow> nqstr \<Rightarrow> nq_result_str nq" where
  "nq_read_file c path =
     bind (nq_read_file_bytes_operation c path ''read_file'' (nq_str_limit c)) (\<lambda>r.
       nq_bytes_result_into_str c r ''read_file'')"

definition nq_write_file_data :: "config \<Rightarrow> nqstr \<Rightarrow> ptr \<Rightarrow> nat \<Rightarrow> string \<Rightarrow> nq_result_unit nq" where
  "nq_write_file_data c path data len operation =
     bind (nq_os_string c path (Some operation) (Some path) None) (\<lambda>r. case r of
       Inl err \<Rightarrow> ret (nq_unit_err err)
     | Inr file_name \<Rightarrow>
       bind (load_c_string file_name) (\<lambda>name.
       bind (c_fopen name ''wb'') (\<lambda>handle.
       andthen (c_free file_name)
       (case handle of
          None \<Rightarrow> bind get_errno (\<lambda>e.
            bind (nq_errno_io_err_with_detail c (Some operation) (Some path) None e
                    ''failed to open file for write'')
              (\<lambda>err. ret (nq_unit_err err)))
        | Some handle \<Rightarrow>
            bind (nq_write_stream c handle data len operation (Some path)) (\<lambda>result.
            andthen (set_errno 0)
            (bind (c_fclose handle) (\<lambda>closed. case result of
               Ok _ \<Rightarrow>
                 if closed \<noteq> 0
                 then bind get_errno (\<lambda>e.
                   bind (nq_errno_io_err c (Some operation) (Some path) None (errno_or_eio e))
                     (\<lambda>err. ret (nq_unit_err err)))
                 else ret result
             | Err _ \<Rightarrow> ret result)))))))"

definition nq_write_file :: "config \<Rightarrow> nqstr \<Rightarrow> nqstr \<Rightarrow> nq_result_unit nq" where
  "nq_write_file c path t =
     (if \<not> nq_str_size c (s_len t)
      then bind (nq_allocation_io_err c (Some ''write_file'') ALLOC_SIZE) (\<lambda>e. ret (nq_unit_err e))
      else if \<not> nq_str_storage_is_valid c t
      then bind (nq_invalid_input_io_err c (Some ''write_file'') (Some path) None ''invalid string storage'')
             (\<lambda>e. ret (nq_unit_err e))
      else nq_write_file_data c path (s_data t) (nat (s_len t)) ''write_file'')"

definition nq_write_file_bytes :: "config \<Rightarrow> nqstr \<Rightarrow> nqbytes option \<Rightarrow> nq_result_unit nq" where
  "nq_write_file_bytes c path data =
     (if bytes_too_long c data
      then bind (nq_allocation_io_err c (Some ''write_file_bytes'') ALLOC_SIZE) (\<lambda>e. ret (nq_unit_err e))
      else if bytes_invalid data
      then bind (nq_invalid_input_io_err c (Some ''write_file_bytes'') (Some path) None ''invalid bytes storage'')
             (\<lambda>e. ret (nq_unit_err e))
      else nq_write_file_data c path (b_data (the data)) (nat (b_len (the data))) ''write_file_bytes'')"

section \<open>What the process was started with\<close>

definition nq_init_process_args :: "config \<Rightarrow> int \<Rightarrow> string list option \<Rightarrow> unit nq" where
  "nq_init_process_args c argc argv =
     (if argc < 0 \<or> nat argc > nq_sequence_limit c (nat INT32_MAX) then nq_size_fail
      else modify (\<lambda>s. s\<lparr>process_argc := argc, process_args := argv\<rparr>))"

definition nq_arg_count :: "int nq" where
  "nq_arg_count = gets (\<lambda>s. to_i32 (process_argc s))"

definition nq_arg_get :: "config \<Rightarrow> int \<Rightarrow> nq_option_str nq" where
  "nq_arg_get c index =
     bind (gets process_argc) (\<lambda>argc. bind (gets process_args) (\<lambda>argv.
       if index < 0 \<or> index \<ge> to_i32 argc then ret None
       else case argv of
         None \<Rightarrow> ret None
       | Some args \<Rightarrow>
           if nat index < length args
           then bind (nq_str c (args ! nat index)) (\<lambda>t. ret (Some t))
           else stop Undefined))"

text \<open>\<open>getenv\<close>: NULL, or bytes the runtime does not own.\<close>

definition c_getenv :: "string \<Rightarrow> string option nq" where
  "c_getenv name = bind (sys (Getenv name)) (\<lambda>r. ret (if r_ret r = 0 then None else Some (r_bytes r)))"

definition nq_env_get :: "config \<Rightarrow> nqstr \<Rightarrow> nq_result_option_str nq" where
  "nq_env_get c name =
     bind (nq_os_string c name (Some ''env_get'') None None) (\<lambda>r. case r of
       Inl err \<Rightarrow> ret (nq_option_str_err err)
     | Inr name_cstr \<Rightarrow>
       let failed = (\<lambda>st. bind (nq_allocation_io_err c (Some ''env_get'') st) (\<lambda>e.
                       ret (nq_option_str_err e)))
       in bind (load_c_string name_cstr) (\<lambda>key.
          bind (c_getenv key) (\<lambda>v.
          andthen (c_free name_cstr)
          (case v of
             None \<Rightarrow> ret (nq_option_str_ok None)
           | Some v \<Rightarrow>
             (case nq_cstr_length c v of
                None \<Rightarrow> failed ALLOC_SIZE
              | Some len \<Rightarrow> bind (nq_try_str_copy c (PLit v 0) len) (\<lambda>r. case r of
                  Inl st \<Rightarrow> failed st
                | Inr t \<Rightarrow> ret (nq_option_str_ok (Some t))))))))"

text \<open>\<open>getcwd(buffer, cap)\<close>: on success the environment's bytes up to a NUL, cut to fit, and a NUL.\<close>

definition c_getcwd :: "ptr \<Rightarrow> nat \<Rightarrow> bool nq" where
  "c_getcwd buffer cap = bind (sys (Getcwd cap)) (\<lambda>r.
     if r_ret r = 0 \<or> cap = 0 then ret False
     else andthen (store_bytes buffer
            (takeWhile (\<lambda>ch. ch \<noteq> CHR 0x00) (take (cap - 1) (r_bytes r)) @ [CHR 0x00])) (ret True))"

definition cwd_round :: "config \<Rightarrow> nat \<Rightarrow> nat \<Rightarrow> (nat + nq_result_str) nq" where
  "cwd_round c limit cap =
     (let failed = (\<lambda>st. bind (nq_allocation_io_err c (Some ''current_dir'') st) (\<lambda>e.
                      ret (Inr (nq_str_err e)))) in
      if cap = 0 then failed ALLOC_SIZE
      else bind (nq_try_realloc c KBytes PNull cap) (\<lambda>r. case r of
        Inl st \<Rightarrow> failed st
      | Inr buffer \<Rightarrow>
        bind (c_getcwd buffer cap) (\<lambda>found.
          if found
          then bind (load_c_string buffer) (\<lambda>name. case nq_cstr_length c name of
              None \<Rightarrow> andthen (c_free buffer) (failed ALLOC_SIZE)
            | Some len \<Rightarrow> bind (nq_try_str_take c buffer len) (\<lambda>r. case r of
                Inl st \<Rightarrow> failed st
              | Inr t \<Rightarrow> ret (Inr (nq_str_ok t))))
          else bind get_errno (\<lambda>error_code.
            andthen (c_free buffer)
            (if error_code \<noteq> ERANGE
             then bind (nq_errno_io_err c (Some ''current_dir'') None None error_code) (\<lambda>err.
                    ret (Inr (nq_str_err err)))
             else if cap = limit then failed ALLOC_SIZE
             else bind (from_loop (nq_growth cap (cap + 1) limit 256)) (\<lambda>cap. ret (Inl cap)))))))"

definition nq_current_dir :: "config \<Rightarrow> nq_result_str nq" where
  "nq_current_dir c =
     (let limit = (case nq_size_add (nq_str_limit c) 1 (nq_allocation_limit c) of
                     None \<Rightarrow> nq_allocation_limit c | Some n \<Rightarrow> n)
      in loop (cwd_round c limit) (if limit < 256 then limit else 256))"

section \<open>Rules for reading\<close>

text \<open>
  What a run of \<open>fread\<close> and \<open>ferror\<close> delivers, as a function of the replies alone: the bytes,
  the error code if the stream failed, and the replies that are left.
\<close>

fun fread_all :: "reply list \<Rightarrow> (string \<times> int option \<times> reply list) option" where
  "fread_all [] = None"
| "fread_all (r # rs) =
     (let chunk = take 8192 (r_bytes r) in
      if length chunk < 8192
      then (case rs of
              [] \<Rightarrow> None
            | f # rest \<Rightarrow> Some (chunk, if r_ret f \<noteq> 0 then Some (errno_or_eio (r_errno r)) else None, rest))
      else (case fread_all rs of
              None \<Rightarrow> None
            | Some (data, failed, rest) \<Rightarrow> Some (chunk @ data, failed, rest)))"

lemma wp_c_ferror:
  assumes "owns L R s" and "E Blocked"
    and "\<And>r s'. owns L R s' \<Longrightarrow> script s = r # script s' \<Longrightarrow> trace s' = trace s @ [Ferror stream] \<Longrightarrow>
        errno s' = errno s \<Longrightarrow> Q (r_ret r \<noteq> 0) s'"
  shows "wp E (c_ferror stream) Q s"
  unfolding c_ferror_def wp_bind wp_ret by (rule wp_sys_quiet_owns [where E = E, OF assms(1,2)]) (rule assms(3))

lemma wp_c_fread:
  assumes "owns L R s" and "E Blocked"
    and "\<And>r s'. owns L R s' \<Longrightarrow> script s = r # script s' \<Longrightarrow> trace s' = trace s @ [Fread stream n] \<Longrightarrow>
        errno s' = r_errno r \<Longrightarrow> Q (take n (r_bytes r)) s'"
  shows "wp E (c_fread stream n) Q s"
  unfolding c_fread_def wp_bind wp_ret by (rule wp_sys_owns [where E = E, OF assms(1,2)]) (rule assms(3))

lemma fread_all_last:
  "length (take 8192 (r_bytes r)) < 8192 \<Longrightarrow> fread_all (r # f # rest) =
     Some (take 8192 (r_bytes r), if r_ret f \<noteq> 0 then Some (errno_or_eio (r_errno r)) else None, rest)"
  by (simp only: fread_all.simps Let_def if_True list.case)

lemma fread_all_more:
  "\<not> length (take 8192 (r_bytes r)) < 8192 \<Longrightarrow> fread_all rs = Some (data, failed, rest) \<Longrightarrow>
     fread_all (r # rs) = Some (take 8192 (r_bytes r) @ data, failed, rest)"
  by (simp only: fread_all.simps Let_def if_False option.case prod.case)

text \<open>The loop invariant: the buffer holds what the replies taken so far delivered.\<close>

definition only_reads :: "int \<Rightarrow> event list \<Rightarrow> bool" where
  "only_reads stream evs \<longleftrightarrow> set evs \<subseteq> {Fread stream 8192, Ferror stream}"

definition read_so_far ::
  "strs \<Rightarrow> raws \<Rightarrow> nat \<Rightarrow> int \<Rightarrow> nqstate \<Rightarrow> nq_byte_buffer \<Rightarrow> nqstate \<Rightarrow> bool" where
  "read_so_far L R limit stream s0 b s \<longleftrightarrow>
     (\<exists>v R'. holds_buffer b v R R' \<and> owns L R' s \<and> (v = [] \<or> length v \<le> limit) \<and>
        (\<forall>data failed rest. fread_all (script s) = Some (data, failed, rest) \<longrightarrow>
           fread_all (script s0) = Some (v @ data, failed, rest)) \<and>
        (\<exists>made. trace s = trace s0 @ made \<and> only_reads stream made))"

lemma wp_read_round:
  assumes "good_config c" and "label operation" and path: "path_view L R path pv" and "E Blocked"
    and so_far: "read_so_far L R limit stream s0 b s"
    and more: "\<And>b' s'. read_so_far L R limit stream s0 b' s' \<Longrightarrow> length (script s') < length (script s) \<Longrightarrow>
        Q (Inl b') s'"
    and ok: "\<And>b v s' made. live_bytes b v L R s' \<Longrightarrow> v = [] \<or> length v \<le> limit \<Longrightarrow>
        fread_all (script s0) = Some (v, None, script s') \<Longrightarrow>
        trace s' = trace s0 @ made \<Longrightarrow> only_reads stream made \<Longrightarrow> Q (Inr (Ok b)) s'"
    and err: "\<And>e w s' made. owns (with_err e w L) R s' \<Longrightarrow> v_operation w = operation \<Longrightarrow>
        trace s' = trace s0 @ made \<Longrightarrow> only_reads stream made \<Longrightarrow> Q (Inr (Err e)) s'"
  shows "wp E (read_round c stream operation path limit b) Q s"
proof -
  obtain v R' where b: "holds_buffer b v R R'" and owns: "owns L R' s" and lim: "v = [] \<or> length v \<le> limit"
    and spec: "\<And>data failed rest. fread_all (script s) = Some (data, failed, rest) \<Longrightarrow>
        fread_all (script s0) = Some (v @ data, failed, rest)"
    and made: "\<exists>made. trace s = trace s0 @ made \<and> only_reads stream made"
    using so_far by (auto simp: read_so_far_def)
  have fail_alloc: "wp E (andthen (c_free (bb_data b'))
      (bind (nq_allocation_io_err c (Some operation) st) (\<lambda>e. ret (Inr (nq_bytes_err e))))) P s'"
    if "holds_buffer b' v' R R''" "owns L R'' s'"
      and "\<And>e w s''. owns (with_err e w L) R s'' \<Longrightarrow> v_operation w = operation \<Longrightarrow> world s'' = world s' \<Longrightarrow> P (Inr (Err e)) s''"
    for b' v' R'' s' st and P :: "_ \<Rightarrow> nqstate \<Rightarrow> bool"
    unfolding wp_andthen wp_bind wp_ret
    by (rule wp_free_buffer [OF that(1,2)])
      (auto simp: wp_nq_allocation_io_err assms(1,2) result_defs fallback_view_def
        intro!: that(3) owns_fallback)
  have finish: "wp E (if length chunk < 8192
             then bind (c_ferror stream) (\<lambda>bad.
               if bad
               then bind get_errno (\<lambda>e.
                 andthen (c_free (bb_data b'))
                 (bind (nq_errno_io_err c (Some operation) path None (errno_or_eio e)) (\<lambda>err.
                   ret (Inr (nq_bytes_err err)))))
               else ret (Inr (nq_bytes_ok \<lparr>b_data = bb_data b', b_len = int (bb_len b'),
                                          b_cap = int (bb_cap b')\<rparr>)))
             else ret (Inl b')) Q s'"
    if b': "holds_buffer b' (v @ chunk) R R''" and owns': "owns L R'' s'"
      and lim': "v @ chunk = [] \<or> length (v @ chunk) \<le> limit"
      and script: "script s = r # script s'" and chunk: "chunk = take 8192 (r_bytes r)"
      and tr: "trace s' = trace s @ [Fread stream 8192]"
    for b' chunk R'' s' r
  proof (cases "length chunk < 8192")
    case False
    have full: "fread_all (script s) = Some (chunk @ data, failed, rest)"
      if "fread_all (script s') = Some (data, failed, rest)" for data failed rest
      unfolding script chunk by (rule fread_all_more [OF False [unfolded chunk] that])
    have "\<exists>made. trace s' = trace s0 @ made \<and> only_reads stream made"
      using made by (auto simp: tr only_reads_def)
    then have "read_so_far L R limit stream s0 b' s'"
      unfolding read_so_far_def using b' owns' lim' spec full by fastforce
    with False show ?thesis using script by (simp add: wp_simps more)
  next
    case True
    have "wp E (c_ferror stream) (\<lambda>bad. wp E (if bad
               then bind get_errno (\<lambda>e.
                 andthen (c_free (bb_data b'))
                 (bind (nq_errno_io_err c (Some operation) path None (errno_or_eio e)) (\<lambda>err.
                   ret (Inr (nq_bytes_err err)))))
               else ret (Inr (nq_bytes_ok \<lparr>b_data = bb_data b', b_len = int (bb_len b'),
                                          b_cap = int (bb_cap b')\<rparr>))) Q) s'"
    proof (rule wp_c_ferror [where E = E, OF owns' assms(4)], goal_cases)
      case (1 f s2)
      obtain made2 where tr2: "trace s2 = trace s0 @ made2" and made2: "only_reads stream made2"
        using made by (auto simp: 1(3) tr only_reads_def)
      show ?case
      proof (cases "r_ret f \<noteq> 0")
        case bad: True
        show ?thesis
          unfolding if_P [OF bad] wp_bind wp_get_errno wp_andthen wp_ret
          by (rule wp_free_buffer [OF b' 1(1)], rule wp_nq_errno_io_err [OF assms(1) _ _ path])
            (use tr2 made2 in \<open>auto simp: assms(2) result_defs intro!: err dest: err_outcome_operation world_fields(2)\<close>)
      next
        case fine: False
        have "fread_all (script s) = Some (chunk, None, script s2)"
          unfolding script 1(2) chunk using fread_all_last [OF True [unfolded chunk], of f "script s2"] fine
          by simp
        with spec have "fread_all (script s0) = Some (v @ chunk, None, script s2)" by simp
        with fine show ?thesis
          using buffer_as_bytes [OF b'] 1(1) lim' tr2 made2
          by (auto simp: wp_simps result_defs live_bytes_def intro!: ok)
      qed
    qed
    with True show ?thesis by (simp add: wp_bind)
  qed
  have owns0: "owns L R' (s\<lparr>errno := 0\<rparr>)" using owns by simp
  show ?thesis
    unfolding read_round_def wp_andthen wp_set_errno wp_bind
  proof (rule wp_c_fread [where E = E, OF owns0 assms(4)], goal_cases)
    case (1 r s1)
    let ?chunk = "take 8192 (r_bytes r)"
    have script: "script s = r # script s1" using 1(2) by simp
    have tr1: "trace s1 = trace s @ [Fread stream 8192]" using 1(3) by simp
    show ?case
    proof (cases "?chunk = []")
      case True
      then show ?thesis
        using finish [of b ?chunk R' s1 r] b 1(1) lim script tr1 by (simp add: wp_simps)
    next
      case False
      have step: "wp E (nq_buffer_reserve c b (length ?chunk) limit) (\<lambda>x. wp E (case x of (buffer, status) \<Rightarrow>
          (case status of
                Some st \<Rightarrow>
                  andthen (c_free (bb_data buffer))
                  (bind (nq_allocation_io_err c (Some operation) st) (\<lambda>e. ret (Inr (nq_bytes_err e))))
              | None \<Rightarrow>
                  andthen (store_bytes (ptr_plus (bb_data buffer) (bb_len buffer)) ?chunk)
                  (ret (Inl (buffer\<lparr>bb_len := bb_len buffer + length ?chunk\<rparr>)))))
        (\<lambda>r. wp E (case r of Inr res \<Rightarrow> ret (Inr res) | Inl buffer \<Rightarrow> (if length ?chunk < 8192
             then bind (c_ferror stream) (\<lambda>bad.
               if bad
               then bind get_errno (\<lambda>e.
                 andthen (c_free (bb_data buffer))
                 (bind (nq_errno_io_err c (Some operation) path None (errno_or_eio e)) (\<lambda>err.
                   ret (Inr (nq_bytes_err err)))))
               else ret (Inr (nq_bytes_ok \<lparr>b_data = bb_data buffer, b_len = int (bb_len buffer),
                                          b_cap = int (bb_cap buffer)\<rparr>)))
             else ret (Inl buffer))) Q)) s1"
      proof (rule wp_nq_buffer_reserve [OF b 1(1)], goal_cases)
        case (1 b' R'' s2)
        have len: "bb_len b' = length v" using holds_buffer_len [OF 1(1)] by simp
        show ?case
          unfolding prod.case option.case wp_andthen wp_ret
        proof (rule wp_buffer_store [OF 1(1,2) 1(4) False], goal_cases)
          case (1 R3 s3)
          have upd: "b'\<lparr>bb_len := bb_len b' + length ?chunk\<rparr> = b'\<lparr>bb_len := length v + length ?chunk\<rparr>"
            by (simp add: len)
          have "world s3 = world s1" using 1(3) \<open>world s2 = world s1\<close> by simp
          then have "script s3 = script s1" "trace s3 = trace s1" by (simp_all add: world_def)
          then show ?case
            unfolding upd sum.case wp_ret
            using finish [OF 1(1,2), of r] script tr1 \<open>length v + length ?chunk \<le> limit\<close> by simp
        qed
      next
        case (2 st s2)
        obtain made2 where tr2: "trace s2 = trace s0 @ made2" and made2: "only_reads stream made2"
          using made by (auto simp: world_fields(2) [OF 2(2)] tr1 only_reads_def)
        show ?case
          unfolding prod.case option.case
        proof (rule fail_alloc [OF b 2(1)], goal_cases)
          case (1 e w s3)
          then have "trace s3 = trace s0 @ made2" using tr2 world_fields(2) [of s3 s2] by simp
          with 1(1,2) show ?case unfolding sum.case wp_ret by (rule err) (rule made2)
        qed
      qed
      show ?thesis unfolding if_P [OF False] wp_bind by (rule step)
    qed
  qed
qed

text \<open>
  \<open>nq_read_stream\<close> returns as soon as the stream has delivered its end or an error: the bytes
  delivered, in order, or an error that names the operation. It keeps nothing else allocated.
\<close>

lemma wp_nq_read_stream:
  assumes "good_config c" and "label operation" and path: "path_view L R path pv" and "E Blocked"
    and owns: "owns L R s"
    and ok: "\<And>b v s' made. live_bytes b v L R s' \<Longrightarrow> v = [] \<or> length v \<le> limit \<Longrightarrow>
        fread_all (script s) = Some (v, None, script s') \<Longrightarrow>
        trace s' = trace s @ made \<Longrightarrow> only_reads stream made \<Longrightarrow> Q (Ok b) s'"
    and err: "\<And>e w s' made. owns (with_err e w L) R s' \<Longrightarrow> v_operation w = operation \<Longrightarrow>
        trace s' = trace s @ made \<Longrightarrow> only_reads stream made \<Longrightarrow> Q (Err e) s'"
  shows "wp E (nq_read_stream c stream operation path limit) Q s"
  unfolding nq_read_stream_def
proof (rule wp_loop [where I = "read_so_far L R limit stream s"], goal_cases)
  case 1
  show ?case using owns holds_zero_buffer by (auto simp: read_so_far_def only_reads_def)
next
  case (2 b s')
  show ?case
    by (rule wp_read_round [where E = E, OF assms(1,2) path assms(4) 2]) (auto intro: ok err)
qed

section \<open>Rules for writing\<close>

text \<open>
  What writing \<open>bs\<close> does, as a function of the replies alone: the calls made, whether all bytes
  were accepted, and the replies that are left. Each \<open>fwrite\<close> offers exactly the bytes that no
  earlier one accepted.
\<close>

fun fwrite_all :: "int \<Rightarrow> string \<Rightarrow> reply list \<Rightarrow> (event list \<times> bool \<times> reply list) option" where
  "fwrite_all stream [] rs = Some ([], True, rs)"
| "fwrite_all stream bs (w # f # rs) =
     (let n = min (nat (r_ret w)) (length bs) in
      if r_ret f \<noteq> 0 \<or> n = 0 then Some ([Fwrite stream bs, Ferror stream], False, rs)
      else case fwrite_all stream (drop n bs) rs of
        None \<Rightarrow> None
      | Some (evs, fin, rest) \<Rightarrow> Some (Fwrite stream bs # Ferror stream # evs, fin, rest))"
| "fwrite_all stream bs rs = None"

lemma fwrite_all_stop:
  "bs \<noteq> [] \<Longrightarrow> r_ret f \<noteq> 0 \<or> min (nat (r_ret w)) (length bs) = 0 \<Longrightarrow>
     fwrite_all stream bs (w # f # rs) = Some ([Fwrite stream bs, Ferror stream], False, rs)"
  by (cases bs) (simp_all add: Let_def)

lemma fwrite_all_more:
  "bs \<noteq> [] \<Longrightarrow> r_ret f = 0 \<Longrightarrow> n = min (nat (r_ret w)) (length bs) \<Longrightarrow> n \<noteq> 0 \<Longrightarrow>
     fwrite_all stream (drop n bs) rs = Some (evs, fin, rest) \<Longrightarrow>
     fwrite_all stream bs (w # f # rs) = Some (Fwrite stream bs # Ferror stream # evs, fin, rest)"
  by (cases bs) (auto simp: Let_def split: option.splits)

definition written_so_far ::
  "strs \<Rightarrow> raws \<Rightarrow> int \<Rightarrow> string \<Rightarrow> nqstate \<Rightarrow> nat \<Rightarrow> nqstate \<Rightarrow> bool" where
  "written_so_far L R stream v s0 offset s \<longleftrightarrow>
     owns L R s \<and> offset \<le> length v \<and>
     (\<exists>made. trace s = trace s0 @ made \<and>
        (\<forall>evs fin rest. fwrite_all stream (drop offset v) (script s) = Some (evs, fin, rest) \<longrightarrow>
           fwrite_all stream v (script s0) = Some (made @ evs, fin, rest)))"

lemma wp_c_fwrite:
  assumes "owns L R s" and "E Blocked"
    and "\<And>r s'. owns L R s' \<Longrightarrow> script s = r # script s' \<Longrightarrow> trace s' = trace s @ [Fwrite stream bs] \<Longrightarrow>
        errno s' = r_errno r \<Longrightarrow> Q (min (nat (r_ret r)) (length bs)) s'"
  shows "wp E (c_fwrite stream bs) Q s"
  unfolding c_fwrite_def wp_bind wp_ret by (rule wp_sys_owns [where E = E, OF assms(1,2)]) (rule assms(3))

lemma wp_sigpipe_restore:
  "Q () (s\<lparr>trace := trace s @ (if known then [SignalRestore] else [])\<rparr>) \<Longrightarrow> wp E (sigpipe_restore known) Q s"
  by (simp add: sigpipe_restore_def wp_simps split: if_splits)

lemma wp_write_round:
  assumes "good_config c" and "label operation" and path: "path_view L R path pv" and "E Blocked"
    and reads: "readable L R data (length v) v"
    and so_far: "written_so_far L R stream v s0 offset s"
    and more: "\<And>n s'. written_so_far L R stream v s0 n s' \<Longrightarrow> length (script s') < length (script s) \<Longrightarrow> Q (Inl n) s'"
    and ok: "\<And>s' evs. owns L R s' \<Longrightarrow> fwrite_all stream v (script s0) = Some (evs, True, script s') \<Longrightarrow>
        trace s' = trace s0 @ evs @ (if known then [SignalRestore] else []) \<Longrightarrow> Q (Inr (Ok ())) s'"
    and err: "\<And>e w s' evs. owns (with_err e w L) R s' \<Longrightarrow> v_operation w = operation \<Longrightarrow>
        fwrite_all stream v (script s0) = Some (evs, False, script s') \<Longrightarrow>
        trace s' = trace s0 @ evs @ (if known then [SignalRestore] else []) \<Longrightarrow> Q (Inr (Err e)) s'"
  shows "wp E (write_round c stream data (length v) operation path known offset) Q s"
proof -
  obtain made where owns: "owns L R s" and off: "offset \<le> length v" and tr: "trace s = trace s0 @ made"
    and spec: "\<And>evs fin rest. fwrite_all stream (drop offset v) (script s) = Some (evs, fin, rest) \<Longrightarrow>
        fwrite_all stream v (script s0) = Some (made @ evs, fin, rest)"
    using so_far by (auto simp: written_so_far_def)
  show ?thesis
  proof (cases "offset < length v")
    case False
    then have "fwrite_all stream v (script s0) = Some (made, True, script s)"
      using spec off by (cases "drop offset v") auto
    with False show ?thesis
      using owns tr unfolding write_round_def
      by (simp add: wp_andthen wp_ret result_defs) (rule wp_sigpipe_restore, auto intro!: ok)
  next
    case True
    let ?bs = "drop offset v"
    have ne: "?bs \<noteq> []" and blen: "length ?bs = length v - offset" using True by auto
    have part: "readable L R (ptr_plus data offset) (length v - offset) ?bs"
      unfolding readable_def
    proof (intro allI impI)
      fix L' R' s' assume "L \<subseteq># L'" "R \<subseteq>\<^sub>m R'" "owns L' R' s'"
      then have "read_bytes (heap s') data (length v) = Some v"
        using reads by (auto simp: readable_def)
      from read_bytes_part [OF this, of offset "length v - offset"] True
      show "read_bytes (heap s') (ptr_plus data offset) (length v - offset) = Some ?bs" by simp
    qed
    have owns0: "owns L R (s\<lparr>errno := 0\<rparr>)" using owns by simp
    show ?thesis
      unfolding write_round_def if_P [OF True] wp_andthen wp_set_errno wp_bind
    proof (rule wp_load_bytes [OF owns0 part], rule wp_c_fwrite [where E = E, OF owns0 assms(4)],
        rule wp_c_ferror [where E = E, OF _ assms(4)], assumption, goal_cases)
      case (1 w s1 f s2)
      have script: "script s = w # f # script s2" using 1(2,6) by simp
      have tr2: "trace s2 = trace s0 @ made @ [Fwrite stream ?bs, Ferror stream]"
        using 1(3,7) tr by simp
      let ?n = "min (nat (r_ret w)) (length ?bs)"
      show ?case
      proof (cases "r_ret f \<noteq> 0 \<or> ?n = 0")
        case True
        have all: "fwrite_all stream v (script s0) = Some (made @ [Fwrite stream ?bs, Ferror stream], False, script s2)"
          by (rule spec) (simp only: script fwrite_all_stop [OF ne True])
        let ?s = "s2\<lparr>trace := trace s2 @ (if known then [SignalRestore] else [])\<rparr>"
        have owns_s: "owns L R ?s" using 1(5) by simp
        show ?thesis
          unfolding if_P [OF True] wp_bind wp_get_errno wp_andthen wp_ret
          by (rule wp_sigpipe_restore, rule wp_nq_errno_io_err [OF assms(1) owns_s _ path])
            (auto simp: assms(2) result_defs all tr2 intro!: err
              dest: err_outcome_operation world_fields(1,2))
      next
        case False
        have "fwrite_all stream v (script s0) = Some ((made @ [Fwrite stream ?bs, Ferror stream]) @ evs, fin, rest)"
          if "fwrite_all stream (drop (offset + ?n) v) (script s2) = Some (evs, fin, rest)" for evs fin rest
        proof -
          have "fwrite_all stream ?bs (script s) = Some (Fwrite stream ?bs # Ferror stream # evs, fin, rest)"
            unfolding script by (rule fwrite_all_more [OF ne, where n = ?n]) (use False that in \<open>auto simp: add.commute\<close>)
          from spec [OF this] show ?thesis by simp
        qed
        then have "written_so_far L R stream v s0 (offset + ?n) s2"
          using 1(5) tr2 off blen by (fastforce simp: written_so_far_def)
        then have "Q (Inl (offset + ?n)) s2" by (rule more) (simp add: script)
        then show ?thesis unfolding if_not_P [OF False] wp_ret .
      qed
    qed
  qed
qed

text \<open>
  \<open>nq_write_stream\<close> succeeds exactly when the stream accepts every byte, and puts the handler
  of SIGPIPE back on both paths.
\<close>

lemma wp_nq_write_stream:
  assumes "good_config c" and "label operation" and path: "path_view L R path pv" and "E Blocked"
    and reads: "readable L R data (length v) v" and owns: "owns L R s"
    and ok: "\<And>s' r rs evs. owns L R s' \<Longrightarrow> script s = r # rs \<Longrightarrow>
        fwrite_all stream v rs = Some (evs, True, script s') \<Longrightarrow>
        trace s' = trace s @ SignalIgnore # evs @ (if 0 \<le> r_ret r then [SignalRestore] else []) \<Longrightarrow> Q (Ok ()) s'"
    and err: "\<And>e w s' r rs evs. owns (with_err e w L) R s' \<Longrightarrow> v_operation w = operation \<Longrightarrow> script s = r # rs \<Longrightarrow>
        fwrite_all stream v rs = Some (evs, False, script s') \<Longrightarrow>
        trace s' = trace s @ SignalIgnore # evs @ (if 0 \<le> r_ret r then [SignalRestore] else []) \<Longrightarrow> Q (Err e) s'"
  shows "wp E (nq_write_stream c stream data (length v) operation path) Q s"
  unfolding nq_write_stream_def sigpipe_ignore_def wp_bind wp_ret
proof (rule wp_sys_owns [where E = E, OF owns assms(4)], goal_cases)
  case (1 r s1)
  show ?case
  proof (rule wp_loop [where I = "written_so_far L R stream v s1"], goal_cases)
    case 1
    show ?case using \<open>owns L R s1\<close> by (auto simp: written_so_far_def)
  next
    case (2 n s2)
    show ?case
      by (rule wp_write_round [where E = E, OF assms(1,2) path assms(4) reads 2])
        (use 1 in \<open>auto intro: ok err\<close>)
  qed
qed

end
