(* ===== verification/Files.thy ===== *)
theory Files
  imports Streams "HOL-Library.Signed_Division"
begin

text \<open>
  The file system operations of \<open>stdlib/runtime.c\<close>: directories, metadata, reading a
  directory, removing and renaming, temporary files and directories, and \<open>nq_atomic_write_file\<close>.

  The first section models the system calls; a file name is the C string the code hands over.
\<close>

section \<open>System calls\<close>

definition c_call_name :: "(string \<Rightarrow> event) \<Rightarrow> ptr \<Rightarrow> int nq" where
  "c_call_name ev p = bind (load_c_string p) (\<lambda>name. bind (sys (ev name)) (\<lambda>r. ret (r_ret r)))"

definition c_close :: "int \<Rightarrow> int nq" where
  "c_close fd = bind (sys (Close fd)) (\<lambda>r. ret (r_ret r))"

text \<open>\<open>struct stat\<close>: the fields the code reads.\<close>

record c_stat =
  st_mode :: int
  st_size :: int
  st_mtim_sec :: int
  st_mtim_nsec :: int

definition reply_int :: "reply \<Rightarrow> nat \<Rightarrow> int" where
  "reply_int r i = (if i < length (r_ints r) then r_ints r ! i else 0)"

definition c_stat_call :: "(string \<Rightarrow> event) \<Rightarrow> ptr \<Rightarrow> (int \<times> c_stat) nq" where
  "c_stat_call ev p = bind (load_c_string p) (\<lambda>name. bind (sys (ev name)) (\<lambda>r.
     ret (r_ret r, \<lparr>st_mode = reply_int r 0 mod 65536, st_size = to_i64 (reply_int r 1),
                    st_mtim_sec = to_i64 (reply_int r 2), st_mtim_nsec = to_i64 (reply_int r 3)\<rparr>)))"

definition S_ISREG :: "int \<Rightarrow> bool" where "S_ISREG mode \<longleftrightarrow> mode div 4096 mod 16 = 8"
definition S_ISDIR :: "int \<Rightarrow> bool" where "S_ISDIR mode \<longleftrightarrow> mode div 4096 mod 16 = 4"
definition S_ISLNK :: "int \<Rightarrow> bool" where "S_ISLNK mode \<longleftrightarrow> mode div 4096 mod 16 = 10"

text \<open>\<open>mkstemp\<close> and \<open>mkdtemp\<close> put six characters of their choice over the six X.\<close>

definition temp_suffix :: "reply \<Rightarrow> string" where
  "temp_suffix r =
     (let xs = take 6 (filter (\<lambda>ch. ch \<noteq> CHR 0x00 \<and> ch \<noteq> CHR 0x2F) (r_bytes r))
      in xs @ replicate (6 - length xs) (CHR 0x58))"

definition c_mkstemp :: "ptr \<Rightarrow> int nq" where
  "c_mkstemp p = bind (load_c_string p) (\<lambda>name. bind (sys (Mkstemp name)) (\<lambda>r.
     if r_ret r < 0 then ret (-1)
     else andthen (store_bytes (ptr_plus p (length name - 6)) (temp_suffix r)) (ret (r_ret r))))"

definition c_mkdtemp :: "ptr \<Rightarrow> bool nq" where
  "c_mkdtemp p = bind (load_c_string p) (\<lambda>name. bind (sys (Mkdtemp name)) (\<lambda>r.
     if r_ret r = 0 then ret False
     else andthen (store_bytes (ptr_plus p (length name - 6)) (temp_suffix r)) (ret True)))"

definition c_write :: "int \<Rightarrow> string \<Rightarrow> int nq" where
  "c_write fd bs = bind (sys (WriteFd fd bs)) (\<lambda>r.
     ret (if r_ret r < 0 then -1 else min (r_ret r) (int (length bs))))"

section \<open>Directories\<close>

definition nq_mkdir_single :: "ptr \<Rightarrow> int nq" where
  "nq_mkdir_single path = c_call_name Mkdir path"

definition nq_cstr_is_directory :: "ptr \<Rightarrow> bool nq" where
  "nq_cstr_is_directory path =
     bind (c_stat_call Stat path) (\<lambda>(status, v). ret (status = 0 \<and> S_ISDIR (st_mode v)))"

text \<open>
  A failed \<open>mkdir\<close> is no failure when a directory is there already: \<open>None\<close>; otherwise the
  error code to report.
\<close>

definition mkdir_failure :: "ptr \<Rightarrow> int option nq" where
  "mkdir_failure v =
     bind (nq_mkdir_single v) (\<lambda>r.
       if r \<noteq> 0
       then bind get_errno (\<lambda>error_code.
         bind (if error_code \<noteq> EEXIST then ret True
               else bind (nq_cstr_is_directory v) (\<lambda>dir. ret (\<not> dir))) (\<lambda>bad.
           ret (if bad then Some (if error_code = EEXIST then ENOTDIR else error_code) else None)))
       else ret None)"

text \<open>\<open>for (index = start_index; index < path.len; index += 1)\<close>, \<open>n\<close> rounds being left.\<close>

fun create_parents :: "config \<Rightarrow> nqstr \<Rightarrow> ptr \<Rightarrow> nat \<Rightarrow> nat \<Rightarrow> nq_result_unit option nq" where
  "create_parents c path v index 0 = ret None"
| "create_parents c path v index (Suc n) =
     bind (load_bytes (ptr_plus v index) 1) (\<lambda>saved.
       if saved \<noteq> ''/'' then create_parents c path v (index + 1) n
       else if index = 0 then create_parents c path v (index + 1) n
       else
         andthen (store_bytes (ptr_plus v index) [CHR 0x00])
         (bind (load_c_string v) (\<lambda>name.
          bind (if length name > 0 then mkdir_failure v else ret None) (\<lambda>failure.
          andthen (store_bytes (ptr_plus v index) saved)
          (case failure of
             Some error_code \<Rightarrow>
               andthen (c_free v)
               (bind (nq_errno_io_err c (Some ''create_dir_all'') (Some path) None error_code) (\<lambda>err.
                 ret (Some (nq_unit_err err))))
           | None \<Rightarrow> create_parents c path v (index + 1) n)))))"

definition nq_create_dir_all :: "config \<Rightarrow> nqstr \<Rightarrow> nq_result_unit nq" where
  "nq_create_dir_all c path =
     (if s_len path = 0 then ret nq_unit_ok
      else bind (nq_os_string c path (Some ''create_dir_all'') (Some path) None) (\<lambda>r. case r of
        Inl err \<Rightarrow> ret (nq_unit_err err)
      | Inr v \<Rightarrow>
        bind (load_bytes v 1) (\<lambda>first.
        let start_index = (if s_len path \<ge> 1 \<and> first = ''/'' then 1 else 0) in
        bind (create_parents c path v start_index (nat (s_len path) - start_index)) (\<lambda>res.
          case res of
            Some res \<Rightarrow> ret res
          | None \<Rightarrow>
            bind (mkdir_failure v) (\<lambda>failure.
            andthen (c_free v)
            (case failure of
               Some error_code \<Rightarrow>
                 bind (nq_errno_io_err c (Some ''create_dir_all'') (Some path) None error_code) (\<lambda>err.
                   ret (nq_unit_err err))
             | None \<Rightarrow> ret nq_unit_ok))))))"

text \<open>An operation that makes one call on one path: create_dir, remove_file, remove_dir.\<close>

definition nq_create_dir :: "config \<Rightarrow> nqstr \<Rightarrow> nq_result_unit nq" where
  "nq_create_dir c path =
     bind (nq_os_string c path (Some ''create_dir'') (Some path) None) (\<lambda>r. case r of
       Inl err \<Rightarrow> ret (nq_unit_err err)
     | Inr path_cstr \<Rightarrow>
       bind (nq_mkdir_single path_cstr) (\<lambda>r.
         if r \<noteq> 0
         then bind get_errno (\<lambda>error_code.
           andthen (c_free path_cstr)
           (bind (nq_errno_io_err c (Some ''create_dir'') (Some path) None error_code) (\<lambda>err.
             ret (nq_unit_err err))))
         else andthen (c_free path_cstr) (ret nq_unit_ok)))"

definition nq_remove_file :: "config \<Rightarrow> nqstr \<Rightarrow> nq_result_unit nq" where
  "nq_remove_file c path =
     bind (nq_os_string c path (Some ''remove_file'') (Some path) None) (\<lambda>r. case r of
       Inl err \<Rightarrow> ret (nq_unit_err err)
     | Inr path_cstr \<Rightarrow>
       bind (c_call_name Unlink path_cstr) (\<lambda>r.
         if r \<noteq> 0
         then bind get_errno (\<lambda>error_code.
           andthen (c_free path_cstr)
           (bind (nq_errno_io_err c (Some ''remove_file'') (Some path) None error_code) (\<lambda>err.
             ret (nq_unit_err err))))
         else andthen (c_free path_cstr) (ret nq_unit_ok)))"

definition nq_remove_dir :: "config \<Rightarrow> nqstr \<Rightarrow> nq_result_unit nq" where
  "nq_remove_dir c path =
     bind (nq_os_string c path (Some ''remove_dir'') (Some path) None) (\<lambda>r. case r of
       Inl err \<Rightarrow> ret (nq_unit_err err)
     | Inr path_cstr \<Rightarrow>
       bind (c_call_name Rmdir path_cstr) (\<lambda>r.
         if r \<noteq> 0
         then bind get_errno (\<lambda>error_code.
           andthen (c_free path_cstr)
           (bind (nq_errno_io_err c (Some ''remove_dir'') (Some path) None error_code) (\<lambda>err.
             ret (nq_unit_err err))))
         else andthen (c_free path_cstr) (ret nq_unit_ok)))"

definition nq_create_file_new :: "config \<Rightarrow> nqstr \<Rightarrow> nq_result_unit nq" where
  "nq_create_file_new c path =
     bind (nq_os_string c path (Some ''create_file_new'') (Some path) None) (\<lambda>r. case r of
       Inl err \<Rightarrow> ret (nq_unit_err err)
     | Inr path_cstr \<Rightarrow>
       bind (c_call_name Open path_cstr) (\<lambda>fd.
         if fd < 0
         then bind get_errno (\<lambda>error_code.
           andthen (c_free path_cstr)
           (bind (nq_errno_io_err c (Some ''create_file_new'') (Some path) None error_code) (\<lambda>err.
             ret (nq_unit_err err))))
         else andthen (c_free path_cstr)
           (bind (c_close fd) (\<lambda>r.
             if r \<noteq> 0
             then bind get_errno (\<lambda>e.
               bind (nq_errno_io_err c (Some ''create_file_new'') (Some path) None e) (\<lambda>err.
                 ret (nq_unit_err err)))
             else ret nq_unit_ok))))"

section \<open>Metadata\<close>

text \<open>
  Sums, differences and products of \<open>int64_t\<close> are undefined in C when they leave the type:
  \<open>i64_sum\<close>, \<open>i64_difference\<close> and \<open>i64_product\<close> stop with \<open>Undefined\<close> there, and the rules show that
  no caller gets that far.
\<close>

definition i64_result :: "int \<Rightarrow> int nq" where
  "i64_result x = (if x < INT64_MIN \<or> x > INT64_MAX then stop Undefined else ret x)"

definition i64_sum :: "int \<Rightarrow> int \<Rightarrow> int nq" where
  "i64_sum a b = i64_result (a + b)"

definition i64_difference :: "int \<Rightarrow> int \<Rightarrow> int nq" where
  "i64_difference a b = i64_result (a - b)"

definition i64_product :: "int \<Rightarrow> int \<Rightarrow> int nq" where
  "i64_product a b = i64_result (a * b)"

text \<open>
  \<open>intmax_t\<close> has 64 bits. In the first second of the range \<open>seconds * 10^9\<close> does not fit although
  the sum does, so that this second has a branch of its own. C's division truncates.
\<close>

definition nq_timestamp_to_i64_ns :: "int \<Rightarrow> int \<Rightarrow> int option nq" where
  "nq_timestamp_to_i64_ns seconds nanoseconds =
     (let billion = 1000000000;
          maximum_seconds = INT64_MAX sdiv billion;
          minimum_seconds = INT64_MIN sdiv billion - 1;
          minimum_nanoseconds = billion + INT64_MIN smod billion in
      if nanoseconds < 0 \<or> nanoseconds \<ge> billion then ret None
      else if seconds < minimum_seconds \<or> seconds > maximum_seconds then ret None
      else if seconds = maximum_seconds \<and> nanoseconds > INT64_MAX smod billion then ret None
      else if seconds = minimum_seconds
      then if nanoseconds < minimum_nanoseconds then ret None
           else bind (i64_difference nanoseconds minimum_nanoseconds) (\<lambda>past.
             bind (i64_sum INT64_MIN past) (\<lambda>v. ret (Some v)))
      else bind (i64_product seconds billion) (\<lambda>whole.
        bind (i64_sum whole nanoseconds) (\<lambda>v. ret (Some v))))"

definition nq_path_metadata :: "config \<Rightarrow> nqstr \<Rightarrow> bool \<Rightarrow> nq_result_path_metadata nq" where
  "nq_path_metadata c path follow_symlinks =
     bind (nq_os_string c path (Some ''path_metadata'') (Some path) None) (\<lambda>r. case r of
       Inl err \<Rightarrow> ret (Err err)
     | Inr path_cstr \<Rightarrow>
       bind (c_stat_call (if follow_symlinks then Stat else Lstat) path_cstr) (\<lambda>(status, v).
         if status \<noteq> 0
         then bind get_errno (\<lambda>error_code.
           andthen (c_free path_cstr)
           (bind (nq_errno_io_err c (Some ''path_metadata'') (Some path) None error_code) (\<lambda>err.
             ret (Err err))))
         else bind (nq_timestamp_to_i64_ns (st_mtim_sec v) (st_mtim_nsec v)) (\<lambda>r. case r of
           None \<Rightarrow>
             andthen (c_free path_cstr)
             (bind (nq_invalid_data_io_err c (Some ''path_metadata'') (Some path)
                      ''modified timestamp is outside the supported i64 nanosecond range'') (\<lambda>err.
               ret (Err err)))
         | Some modified_ns \<Rightarrow>
             andthen (c_free path_cstr)
             (ret (Ok \<lparr>m_is_file = S_ISREG (st_mode v), m_is_directory = S_ISDIR (st_mode v),
                       m_is_symlink = S_ISLNK (st_mode v), m_size = st_size v,
                       m_modified_ns = modified_ns, m_mode = st_mode v mod 4096\<rparr>)))))"

section \<open>Reading a directory\<close>

text \<open>\<open>readdir\<close>: NULL, or the name of an entry.\<close>

definition c_readdir :: "int \<Rightarrow> string option nq" where
  "c_readdir directory = bind (sys (Readdir directory)) (\<lambda>r.
     ret (if r_ret r = 0 then None else Some (takeWhile (\<lambda>ch. ch \<noteq> CHR 0x00) (r_bytes r))))"

definition c_closedir :: "int \<Rightarrow> int nq" where
  "c_closedir directory = bind (sys (Closedir directory)) (\<lambda>r. ret (r_ret r))"

text \<open>The block that adds an entry; the failure, if any, with the name to drop.\<close>

definition add_entry :: "config \<Rightarrow> nq_list_str \<Rightarrow> string \<Rightarrow> (nq_list_str \<times> nqstr \<times> alloc_failure option) nq" where
  "add_entry c entries d_name =
     bind (nq_list_capacity c (l_cap entries) (l_len entries) 1 sizeof_str) (\<lambda>r.
       let status = (case r of Inl st \<Rightarrow> Some st | Inr _ \<Rightarrow> None) in
       case nq_cstr_length c d_name of
         None \<Rightarrow> ret (entries, nq_empty_str, Some ALLOC_SIZE)
       | Some len \<Rightarrow>
         (case status of
            Some st \<Rightarrow> ret (entries, nq_empty_str, Some st)
          | None \<Rightarrow> bind (nq_try_str_copy c (PLit d_name 0) len) (\<lambda>r. case r of
              Inl st \<Rightarrow> ret (entries, nq_empty_str, Some st)
            | Inr name \<Rightarrow>
                bind (nq_try_list_str_push c entries name) (\<lambda>(entries, status).
                  ret (entries, name, status)))))"

definition readdir_round ::
  "config \<Rightarrow> int \<Rightarrow> nq_list_str \<Rightarrow> (nq_list_str + (nq_result_list_str + nq_list_str)) nq" where
  "readdir_round c directory entries =
     bind (c_readdir directory) (\<lambda>entry. case entry of
       None \<Rightarrow> ret (Inr (Inr entries))
     | Some d_name \<Rightarrow>
         if d_name = ''.'' \<or> d_name = ''..'' then ret (Inl entries)
         else bind (add_entry c entries d_name) (\<lambda>(entries, name, status). case status of
           Some st \<Rightarrow>
             bind (nq_str_drop (Some name)) (\<lambda>_.
             bind (c_closedir directory) (\<lambda>_.
             bind (nq_list__str_drop (Some entries)) (\<lambda>_.
             bind (nq_allocation_io_err c (Some ''read_dir'') st) (\<lambda>err. ret (Inr (Inl (Err err)))))))
         | None \<Rightarrow> andthen (set_errno 0) (ret (Inl entries))))"

definition nq_read_dir :: "config \<Rightarrow> nqstr \<Rightarrow> nq_result_list_str nq" where
  "nq_read_dir c path =
     bind (nq_os_string c path (Some ''read_dir'') (Some path) None) (\<lambda>r. case r of
       Inl err \<Rightarrow> ret (Err err)
     | Inr path_cstr \<Rightarrow>
       bind (c_call_name Opendir path_cstr) (\<lambda>directory.
       andthen (c_free path_cstr)
       (if directory = 0
        then bind get_errno (\<lambda>e.
          bind (nq_errno_io_err c (Some ''read_dir'') (Some path) None e) (\<lambda>err. ret (Err err)))
        else
          andthen (set_errno 0)
          (bind (loop (readdir_round c directory) nq_list__str_make) (\<lambda>r. case r of
             Inl res \<Rightarrow> ret res
           | Inr entries \<Rightarrow>
             bind get_errno (\<lambda>error_code.
               if error_code \<noteq> 0
               then bind (c_closedir directory) (\<lambda>_.
                 bind (nq_list__str_drop (Some entries)) (\<lambda>_.
                 bind (nq_errno_io_err c (Some ''read_dir'') (Some path) None error_code) (\<lambda>err.
                   ret (Err err))))
               else bind (c_closedir directory) (\<lambda>closed.
                 if closed \<noteq> 0
                 then bind get_errno (\<lambda>error_code.
                   bind (nq_list__str_drop (Some entries)) (\<lambda>_.
                   bind (nq_errno_io_err c (Some ''read_dir'') (Some path) None error_code) (\<lambda>err.
                     ret (Err err))))
                 else ret (Ok entries))))))))"

section \<open>Renaming\<close>

definition c_rename :: "ptr \<Rightarrow> ptr \<Rightarrow> int nq" where
  "c_rename p q = bind (load_c_string p) (\<lambda>old. bind (load_c_string q) (\<lambda>new.
     bind (sys (Rename old new)) (\<lambda>r. ret (r_ret r))))"

definition nq_rename_path :: "config \<Rightarrow> nqstr \<Rightarrow> nqstr \<Rightarrow> nq_result_unit nq" where
  "nq_rename_path c source target =
     bind (nq_os_string c source (Some ''rename_path'') (Some source) (Some target)) (\<lambda>r. case r of
       Inl err \<Rightarrow> ret (nq_unit_err err)
     | Inr source_cstr \<Rightarrow>
       bind (nq_os_string c target (Some ''rename_path'') (Some source) (Some target)) (\<lambda>r. case r of
         Inl err \<Rightarrow> andthen (c_free source_cstr) (ret (nq_unit_err err))
       | Inr target_cstr \<Rightarrow>
         bind (c_rename source_cstr target_cstr) (\<lambda>r.
           if r \<noteq> 0
           then bind get_errno (\<lambda>error_code.
             andthen (c_free source_cstr)
             (andthen (c_free target_cstr)
             (bind (nq_errno_io_err c (Some ''rename_path'') (Some source) (Some target) error_code)
               (\<lambda>err. ret (nq_unit_err err)))))
           else andthen (c_free source_cstr) (andthen (c_free target_cstr) (ret nq_unit_ok)))))"

section \<open>Temporary files and directories\<close>

definition nq_temp_template :: "config \<Rightarrow> nqstr \<Rightarrow> nqstr \<Rightarrow> string \<Rightarrow> (nqioerr + ptr) nq" where
  "nq_temp_template c directory prefix operation =
     bind (nq_os_string c directory (Some operation) (Some directory) None) (\<lambda>r. case r of
       Inl err \<Rightarrow> ret (Inl err)
     | Inr directory_cstr \<Rightarrow>
       bind (nq_os_string c prefix (Some operation) (Some directory) None) (\<lambda>r. case r of
         Inl err \<Rightarrow> andthen (c_free directory_cstr) (ret (Inl err))
       | Inr prefix_cstr \<Rightarrow>
         let failed = (\<lambda>m. andthen (c_free directory_cstr) (andthen (c_free prefix_cstr)
                        (bind m (\<lambda>err. ret (Inl err)))))
         in bind (load_c_string prefix_cstr) (\<lambda>prefix_text.
            bind (load_c_string directory_cstr) (\<lambda>directory_text.
            if CHR 0x2F \<in> set prefix_text
            then failed (nq_invalid_input_io_err c (Some operation) (Some directory) None
                   ''temporary prefix must be a single path component'')
            else
              let directory_len = length directory_text; prefix_len = length prefix_text in
              if directory_len = 0
              then failed (nq_invalid_input_io_err c (Some operation) (Some directory) None
                     ''temporary directory must not be empty'')
              else
                let needs_separator = (directory_text ! (directory_len - 1) \<noteq> CHR 0x2F);
                    sizes = Option.bind (nq_size_add directory_len (if needs_separator then 1 else 0) (nq_str_limit c))
                      (\<lambda>len. Option.bind (nq_size_add len prefix_len (nq_str_limit c))
                      (\<lambda>len. Option.bind (nq_size_add len 6 (nq_str_limit c))
                      (\<lambda>len. nq_size_add len 1 (nq_allocation_limit c))))
                in case sizes of
                     None \<Rightarrow> failed (nq_allocation_io_err c (Some operation) ALLOC_SIZE)
                   | Some sz \<Rightarrow>
                     bind (nq_try_realloc c KBytes PNull sz) (\<lambda>r. case r of
                       Inl st \<Rightarrow> failed (nq_allocation_io_err c (Some operation) st)
                     | Inr v \<Rightarrow>
                       andthen (bind (load_bytes directory_cstr directory_len) (store_bytes v))
                       (andthen (only_if needs_separator (store_bytes (ptr_plus v directory_len) ''/''))
                       (let directory_len = (if needs_separator then directory_len + 1 else directory_len) in
                        andthen (bind (load_bytes prefix_cstr prefix_len) (store_bytes (ptr_plus v directory_len)))
                        (andthen (store_bytes (ptr_plus v (directory_len + prefix_len)) (''XXXXXX'' @ [CHR 0x00]))
                        (andthen (c_free directory_cstr)
                        (andthen (c_free prefix_cstr)
                        (ret (Inr v))))))))))))"

text \<open>The owner is reserved before the file is made, so that lack of memory cannot orphan it.\<close>

definition nq_create_temp_file :: "config \<Rightarrow> nqstr \<Rightarrow> nqstr \<Rightarrow> nq_result_str nq" where
  "nq_create_temp_file c directory prefix =
     bind (nq_temp_template c directory prefix ''create_temp_file'') (\<lambda>r. case r of
       Inl err \<Rightarrow> ret (nq_str_err err)
     | Inr path_template \<Rightarrow>
       bind (load_c_string path_template) (\<lambda>name.
       bind (nq_try_str_take c path_template (length name)) (\<lambda>r. case r of
         Inl st \<Rightarrow> bind (nq_allocation_io_err c (Some ''create_temp_file'') st) (\<lambda>e. ret (nq_str_err e))
       | Inr result \<Rightarrow>
         let give_up = (\<lambda>error_code. bind (nq_str_drop (Some result)) (\<lambda>_.
               bind (nq_errno_io_err c (Some ''create_temp_file'') (Some directory) None error_code)
                 (\<lambda>err. ret (nq_str_err err))))
         in bind (c_mkstemp path_template) (\<lambda>fd.
            if fd < 0 then bind get_errno give_up
            else bind (sys (Fchmod fd 384)) (\<lambda>r.
              if r_ret r \<noteq> 0
              then bind get_errno (\<lambda>error_code.
                bind (c_close fd) (\<lambda>_.
                bind (c_call_name Unlink path_template) (\<lambda>_. give_up error_code)))
              else bind (c_close fd) (\<lambda>r.
                if r \<noteq> 0
                then bind get_errno (\<lambda>error_code.
                  bind (c_call_name Unlink path_template) (\<lambda>_. give_up error_code))
                else ret (nq_str_ok result)))))))"

definition nq_create_temp_dir :: "config \<Rightarrow> nqstr \<Rightarrow> nqstr \<Rightarrow> nq_result_str nq" where
  "nq_create_temp_dir c directory prefix =
     bind (nq_temp_template c directory prefix ''create_temp_dir'') (\<lambda>r. case r of
       Inl err \<Rightarrow> ret (nq_str_err err)
     | Inr path_template \<Rightarrow>
       bind (load_c_string path_template) (\<lambda>name.
       bind (nq_try_str_take c path_template (length name)) (\<lambda>r. case r of
         Inl st \<Rightarrow> bind (nq_allocation_io_err c (Some ''create_temp_dir'') st) (\<lambda>e. ret (nq_str_err e))
       | Inr result \<Rightarrow>
         let give_up = (\<lambda>error_code. bind (nq_str_drop (Some result)) (\<lambda>_.
               bind (nq_errno_io_err c (Some ''create_temp_dir'') (Some directory) None error_code)
                 (\<lambda>err. ret (nq_str_err err))))
         in bind (c_mkdtemp path_template) (\<lambda>made.
            if \<not> made then bind get_errno give_up
            else bind (c_call_name (\<lambda>name. Chmod name 448) path_template) (\<lambda>r.
              if r \<noteq> 0
              then bind get_errno (\<lambda>error_code.
                bind (c_call_name Rmdir path_template) (\<lambda>_. give_up error_code))
              else ret (nq_str_ok result))))))"

section \<open>Replacing a file atomically\<close>

text \<open>\<open>strrchr(text, '/')\<close>: the offset of the last slash.\<close>

definition last_slash :: "string \<Rightarrow> nat option" where
  "last_slash xs = (if CHR 0x2F \<in> set xs
     then Some (length xs - 1 - length (takeWhile (\<lambda>ch. ch \<noteq> CHR 0x2F) (rev xs))) else None)"

text \<open>A round of \<open>while (offset < data->len)\<close>: \<open>Inr None\<close> when all is written.\<close>

definition atomic_round :: "config \<Rightarrow> int \<Rightarrow> nqbytes \<Rightarrow> nat \<Rightarrow> (nat + int option) nq" where
  "atomic_round c fd data offset =
     (if offset < nat (b_len data)
      then bind (load_bytes (ptr_plus (b_data data) offset) (nat (b_len data) - offset)) (\<lambda>bs.
        bind (c_write fd bs) (\<lambda>n.
        bind get_errno (\<lambda>e.
          if n < 0 \<and> e = EINTR then ret (Inl offset)
          else if n \<le> 0 then ret (Inr (Some (if n = 0 then EIO else e)))
          else ret (Inl (offset + nat n)))))
      else ret (Inr None))"

text \<open>The directory the temporary file goes into.\<close>

definition atomic_directory :: "config \<Rightarrow> ptr \<Rightarrow> string \<Rightarrow> (alloc_failure + ptr) nq" where
  "atomic_directory c target_cstr target =
     (case last_slash target of
        None \<Rightarrow> nq_try_cstr_copy c (PLit ''.'' 0) 1
      | Some i \<Rightarrow>
          if i = 0 then nq_try_cstr_copy c (PLit ''/'' 0) 1
          else nq_try_cstr_copy c target_cstr i)"

text \<open>From the template to the end: make the temporary file, fill it, close it, rename it.\<close>

definition atomic_replace ::
  "config \<Rightarrow> nqstr \<Rightarrow> nqbytes \<Rightarrow> ptr \<Rightarrow> ptr \<Rightarrow> nq_result_unit nq" where
  "atomic_replace c path data target_cstr path_template =
     bind (c_mkstemp path_template) (\<lambda>fd.
     if fd < 0
     then bind get_errno (\<lambda>error_code.
       andthen (c_free path_template)
       (andthen (c_free target_cstr)
       (bind (nq_errno_io_err c (Some ''atomic_write_file'') (Some path) None error_code) (\<lambda>err.
         ret (nq_unit_err err)))))
     else bind (load_c_string path_template) (\<lambda>name.
       let temp_path = \<lparr>s_data = path_template, s_len = int (length name), s_owner = None\<rparr>;
           failed = (\<lambda>error_code cleanup.
             bind (nq_errno_io_err c (Some ''atomic_write_file'') (Some path) (Some temp_path) error_code)
               (\<lambda>err. andthen cleanup
                 (bind (c_call_name Unlink path_template) (\<lambda>_.
                  andthen (c_free path_template)
                  (andthen (c_free target_cstr) (ret (nq_unit_err err)))))))
       in bind (loop (atomic_round c fd data) 0) (\<lambda>res. case res of
            Some error_code \<Rightarrow> failed error_code (bind (c_close fd) (\<lambda>_. ret ()))
          | None \<Rightarrow>
            bind (c_close fd) (\<lambda>closed.
              if closed \<noteq> 0 then bind get_errno (\<lambda>error_code. failed error_code (ret ()))
              else bind (c_rename path_template target_cstr) (\<lambda>renamed.
                if renamed \<noteq> 0 then bind get_errno (\<lambda>error_code. failed error_code (ret ()))
                else andthen (c_free path_template)
                  (andthen (c_free target_cstr) (ret nq_unit_ok)))))))"

definition nq_atomic_write_file :: "config \<Rightarrow> nqstr \<Rightarrow> nqbytes option \<Rightarrow> nq_result_unit nq" where
  "nq_atomic_write_file c path data =
     (let op = Some ''atomic_write_file'' in
      if bytes_too_long c data
      then bind (nq_allocation_io_err c op ALLOC_SIZE) (\<lambda>e. ret (nq_unit_err e))
      else if bytes_invalid data
      then bind (nq_invalid_input_io_err c op (Some path) None ''invalid bytes storage'') (\<lambda>e. ret (nq_unit_err e))
      else bind (nq_os_string c path op (Some path) None) (\<lambda>r. case r of
        Inl err \<Rightarrow> ret (nq_unit_err err)
      | Inr target_cstr \<Rightarrow>
        bind (load_c_string target_cstr) (\<lambda>target.
        if last_slash target \<noteq> None \<and> the (last_slash target) + 1 = length target
        then andthen (c_free target_cstr)
          (bind (nq_invalid_input_io_err c op (Some path) None ''target path must name a file'') (\<lambda>e.
            ret (nq_unit_err e)))
        else bind (atomic_directory c target_cstr target) (\<lambda>r. case r of
          Inl st \<Rightarrow>
            andthen (c_free target_cstr) (bind (nq_allocation_io_err c op st) (\<lambda>e. ret (nq_unit_err e)))
        | Inr directory_cstr \<Rightarrow>
          bind (load_c_string directory_cstr) (\<lambda>directory.
          let root = (directory = ''/'');
              directory_len = length directory;
              failed = (\<lambda>st. andthen (c_free directory_cstr) (andthen (c_free target_cstr)
                (bind (nq_allocation_io_err c op st) (\<lambda>e. ret (nq_unit_err e)))));
              sizes = Option.bind (nq_size_add directory_len (if root then 0 else 1) (nq_str_limit c))
                (\<lambda>n. Option.bind (nq_size_add n 17 (nq_str_limit c))
                (\<lambda>n. nq_size_add n 1 (nq_allocation_limit c)))
          in case sizes of
               None \<Rightarrow> failed ALLOC_SIZE
             | Some template_size \<Rightarrow>
               bind (nq_try_realloc c KBytes PNull template_size) (\<lambda>r. case r of
                 Inl st \<Rightarrow> failed st
               | Inr path_template \<Rightarrow>
                 andthen (bind (load_bytes directory_cstr directory_len) (store_bytes path_template))
                 (andthen (only_if (\<not> root) (store_bytes (ptr_plus path_template directory_len) ''/''))
                 (andthen (store_bytes (ptr_plus path_template (if root then directory_len else directory_len + 1))
                             (''.nq-atomic-XXXXXX'' @ [CHR 0x00]))
                 (andthen (c_free directory_cstr)
                 (atomic_replace c path (the data) target_cstr path_template))))))))))"

end
