(* ===== verification/Clock.thy ===== *)
theory Clock
  imports Files
begin

text \<open>
  Time in \<open>stdlib/runtime.c\<close>: durations and instants in nanoseconds (\<open>nq_duration_from_ns\<close> to
  \<open>nq_duration_between\<close>), the two clocks (\<open>nq_clock_ns\<close>, \<open>nq_wall_time_ns\<close>, \<open>nq_monotonic_now\<close>),
  deadlines (\<open>nq_deadline_ns\<close>, \<open>nq_deadline_after\<close>) and \<open>nq_sleep_for\<close>; the Linux branches.

  A function that returns \<open>bool\<close> and writes a value or an error through a pointer is modelled by
  \<open>nqioerr + int\<close>. Sums and differences of \<open>int64_t\<close> are \<open>i64_sum\<close> and \<open>i64_difference\<close>, which stop
  with \<open>Undefined\<close> when they leave the type.
\<close>

section \<open>Durations\<close>

definition nq_duration_from_ns :: "int \<Rightarrow> nq_option_duration" where
  "nq_duration_from_ns v = (if v < 0 then None else Some \<lparr>d_ns = v\<rparr>)"

definition nq_duration_as_ns :: "nq_duration \<Rightarrow> int" where
  "nq_duration_as_ns v = d_ns v"

text \<open>\<open>INT64_MAX + start\<close> is evaluated only for a negative start.\<close>

definition nq_duration_between :: "nq_instant \<Rightarrow> nq_instant \<Rightarrow> nq_option_duration nq" where
  "nq_duration_between start end =
     (if i_ns end < i_ns start then ret None
      else bind (if i_ns start < 0
                 then bind (i64_sum INT64_MAX (i_ns start)) (\<lambda>latest. ret (i_ns end > latest))
                 else ret False) (\<lambda>too_far.
        if too_far then ret None
        else bind (i64_difference (i_ns end) (i_ns start)) (\<lambda>d. ret (nq_duration_from_ns d))))"

section \<open>Clocks\<close>

definition c_clock_gettime :: "bool \<Rightarrow> (int \<times> int \<times> int) nq" where
  "c_clock_gettime monotonic = bind (sys (ClockGettime monotonic)) (\<lambda>r.
     ret (r_ret r, to_i64 (reply_int r 0), to_i64 (reply_int r 1)))"

text \<open>The call with its retries: the result and the time, if there is one.\<close>

definition clock_read :: "bool \<Rightarrow> (int \<times> int \<times> int) nq" where
  "clock_read monotonic = loop (\<lambda>_::unit.
     bind (c_clock_gettime monotonic) (\<lambda>(result, sec, nsec). bind get_errno (\<lambda>e.
       ret (if result < 0 \<and> e = EINTR then Inl () else Inr (result, sec, nsec))))) ()"

definition nq_clock_ns :: "config \<Rightarrow> bool \<Rightarrow> string \<Rightarrow> (nqioerr + int) nq" where
  "nq_clock_ns c monotonic operation =
     bind (clock_read monotonic) (\<lambda>(result, sec, nsec).
       if result < 0
       then bind get_errno (\<lambda>e.
         bind (nq_errno_io_err c (Some operation) None None e) (\<lambda>err. ret (Inl err)))
       else
         let failed = bind (nq_invalid_data_io_err c (Some operation) None
                        ''clock nanoseconds are not representable'') (\<lambda>err. ret (Inl err))
         in bind (nq_timestamp_to_i64_ns sec nsec) (\<lambda>r. case r of
              None \<Rightarrow> failed
            | Some v \<Rightarrow> if monotonic \<and> v < 0 then failed else ret (Inr v)))"

definition nq_deadline_ns :: "config \<Rightarrow> nq_duration \<Rightarrow> string \<Rightarrow> (nqioerr + int) nq" where
  "nq_deadline_ns c delay operation =
     (if d_ns delay < 0
      then bind (nq_invalid_input_io_err c (Some operation) None None ''negative duration'') (\<lambda>err. ret (Inl err))
      else bind (nq_clock_ns c True operation) (\<lambda>r. case r of
        Inl err \<Rightarrow> ret (Inl err)
      | Inr v \<Rightarrow>
        bind (i64_difference INT64_MAX v) (\<lambda>room.
          if d_ns delay > room
          then bind (nq_invalid_data_io_err c (Some operation) None
                 ''deadline nanoseconds are not representable'') (\<lambda>err. ret (Inl err))
          else bind (i64_sum v (d_ns delay)) (\<lambda>v. ret (Inr v)))))"

definition nq_wall_time_ns :: "config \<Rightarrow> nq_result_i64 nq" where
  "nq_wall_time_ns c = bind (nq_clock_ns c False ''wall_time_ns'') (\<lambda>r.
     ret (case r of Inr v \<Rightarrow> Ok v | Inl e \<Rightarrow> Err e))"

definition nq_monotonic_now :: "config \<Rightarrow> nq_result_instant nq" where
  "nq_monotonic_now c = bind (nq_clock_ns c True ''monotonic_now'') (\<lambda>r.
     ret (case r of Inr v \<Rightarrow> Ok \<lparr>i_ns = v\<rparr> | Inl e \<Rightarrow> Err e))"

definition nq_deadline_after :: "config \<Rightarrow> nq_duration \<Rightarrow> nq_result_instant nq" where
  "nq_deadline_after c delay = bind (nq_deadline_ns c delay ''deadline_after'') (\<lambda>r.
     ret (case r of Inr v \<Rightarrow> Ok \<lparr>i_ns = v\<rparr> | Inl e \<Rightarrow> Err e))"

text \<open>
  \<open>clock_nanosleep\<close> returns its error instead of setting \<open>errno\<close>. On LP64 \<open>time_t\<close> has 64 bits,
  so that \<open>(int64_t)ts.tv_sec\<close> is the quotient; the test the code makes is kept.
\<close>

definition c_clock_nanosleep :: "int \<Rightarrow> int \<Rightarrow> int nq" where
  "c_clock_nanosleep sec nsec = bind (sys_quiet (ClockNanosleep sec nsec)) (\<lambda>r. ret (r_ret r))"

definition nq_sleep_for :: "config \<Rightarrow> nq_duration \<Rightarrow> nq_result_unit nq" where
  "nq_sleep_for c delay =
     (if d_ns delay = 0 then ret nq_unit_ok
      else bind (nq_deadline_ns c delay ''sleep_for'') (\<lambda>r. case r of
        Inl err \<Rightarrow> ret (nq_unit_err err)
      | Inr deadline \<Rightarrow>
        let sec = to_i64 (deadline sdiv 1000000000); nsec = to_i64 (deadline smod 1000000000) in
        if sec \<noteq> deadline sdiv 1000000000
        then bind (nq_invalid_data_io_err c (Some ''sleep_for'') None ''sleep deadline is not representable'')
               (\<lambda>err. ret (nq_unit_err err))
        else bind (loop (\<lambda>_::unit. bind (c_clock_nanosleep sec nsec) (\<lambda>result.
               ret (if result = EINTR then Inl () else Inr result))) ()) (\<lambda>result.
          if result = 0 then ret nq_unit_ok
          else bind (nq_errno_io_err c (Some ''sleep_for'') None None result) (\<lambda>err.
            ret (nq_unit_err err)))))"

end
