(* ===== verification/Process.thy ===== *)
theory Process
  imports Clock
begin

text \<open>
  Child processes in \<open>stdlib/runtime.c\<close>, first part: descriptors, waiting, signalling, and the
  owned process of the language (\<open>NQProcessState\<close>: \<open>nq_process_signal_owned\<close>,
  \<open>nq_process_cleanup\<close>, \<open>nq_process_read_output\<close>, \<open>nq_process_finish\<close>, \<open>nq_process_pump\<close>); the Linux
  branches.

  A C function that returns an errno, with 0 for success, returns that \<open>int\<close>; what it writes
  through pointers to the caller's variables is returned beside it. A function that takes an
  \<open>NQProcessState*\<close> is modelled on the record it points at.
\<close>

section \<open>System calls\<close>

text \<open>\<open>do { result = call; } while (result < 0 && errno == EINTR);\<close>, the whole reply being kept.\<close>

definition retry_call :: "event \<Rightarrow> reply nq" where
  "retry_call ev = loop (\<lambda>_::unit. bind (sys ev) (\<lambda>r. bind get_errno (\<lambda>e.
     ret (if r_ret r < 0 \<and> e = EINTR then Inl () else Inr r)))) ()"

definition call_int :: "event \<Rightarrow> int nq" where
  "call_int ev = bind (sys ev) (\<lambda>r. ret (r_ret r))"

definition ignore :: "'a nq \<Rightarrow> unit nq" where
  "ignore m = bind m (\<lambda>_. ret ())"

text \<open>\<open>read\<close>: \<open>None\<close> is -1, and no bytes are end of file.\<close>

definition c_read :: "int \<Rightarrow> nat \<Rightarrow> string option nq" where
  "c_read fd n = bind (sys (ReadFd fd n)) (\<lambda>r.
     ret (if r_ret r < 0 then None else Some (take n (r_bytes r))))"

text \<open>The status word of \<open>wait\<close> (the macros of \<open><sys/wait.h>\<close>).\<close>

definition WIFEXITED :: "int \<Rightarrow> bool" where "WIFEXITED status \<longleftrightarrow> status mod 128 = 0"
definition WEXITSTATUS :: "int \<Rightarrow> int" where "WEXITSTATUS status = status div 256 mod 256"
definition WTERMSIG :: "int \<Rightarrow> int" where "WTERMSIG status = status mod 128"
definition WIFSIGNALED :: "int \<Rightarrow> bool" where
  "WIFSIGNALED status \<longleftrightarrow> status mod 128 \<noteq> 0 \<and> status mod 128 \<noteq> 127"

text \<open>The four bytes of an \<open>int\<close> on a little-endian machine.\<close>

definition int_bytes :: "int \<Rightarrow> string" where
  "int_bytes x = map (\<lambda>k. char_of (nat (x div 256 ^ k mod 256))) [0..<4]"

definition bytes_int :: "string \<Rightarrow> int" where
  "bytes_int bs = to_i32 (\<Sum>k<4. int (of_char (bs ! k)) * 256 ^ k)"

section \<open>Descriptors and the exec handshake\<close>

definition nq_process_setup_fd :: "int \<Rightarrow> int nq" where
  "nq_process_setup_fd fd =
     (if fd < 0 then ret (-1)
      else if fd \<le> 2
      then bind (retry_call (FcntlDup fd 3)) (\<lambda>r. bind get_errno (\<lambda>saved.
        andthen (ignore (c_close fd)) (andthen (set_errno saved) (ret (r_ret r)))))
      else bind (retry_call (FcntlSetCloexec fd)) (\<lambda>r.
        if r_ret r < 0
        then bind get_errno (\<lambda>saved. andthen (ignore (c_close fd)) (andthen (set_errno saved) (ret (-1))))
        else ret fd))"

definition child_error_round :: "int \<Rightarrow> string \<Rightarrow> nat \<Rightarrow> (nat + unit) nq" where
  "child_error_round fd bs sent =
     (if sent < length bs
      then bind (c_write fd (drop sent bs)) (\<lambda>n. bind get_errno (\<lambda>e.
        if n < 0 \<and> e = EINTR then ret (Inl sent)
        else if n \<le> 0 then ret (Inr ())
        else ret (Inl (sent + nat n))))
      else ret (Inr ()))"

text \<open>The child reports the errno and leaves; it never returns.\<close>

definition nq_process_child_error :: "int \<Rightarrow> int \<Rightarrow> 'a nq" where
  "nq_process_child_error fd error =
     andthen (loop (child_error_round fd (int_bytes error)) 0) (stop (QuickExit 127))"

definition exec_error_round :: "int \<Rightarrow> string \<Rightarrow> (string + int) nq" where
  "exec_error_round fd received =
     (if length received < 4
      then bind (c_read fd (4 - length received)) (\<lambda>bs. bind get_errno (\<lambda>e. case bs of
        None \<Rightarrow> ret (if e = EINTR then Inl received else Inr e)
      | Some bs \<Rightarrow>
          if bs = [] then ret (Inr (if received = [] then 0 else EIO))
          else ret (Inl (received @ bs))))
      else ret (Inr (if bytes_int received > 0 then bytes_int received else EIO)))"

definition nq_process_exec_error :: "int \<Rightarrow> int nq" where
  "nq_process_exec_error fd = loop (exec_error_round fd) []"

definition nq_process_dup2 :: "int \<Rightarrow> int \<Rightarrow> int nq" where
  "nq_process_dup2 oldfd newfd = bind (retry_call (Dup2 oldfd newfd)) (\<lambda>r. ret (r_ret r))"

definition nq_process_close_fd :: "int \<Rightarrow> int nq" where
  "nq_process_close_fd fd = (if fd \<ge> 0 then andthen (ignore (c_close fd)) (ret (-1)) else ret fd)"

text \<open>The errno and the pair; the kernel's descriptors are never negative.\<close>

definition nq_process_pipe :: "int \<times> int \<Rightarrow> (int \<times> int \<times> int) nq" where
  "nq_process_pipe pair =
     bind (retry_call Pipe) (\<lambda>r.
       if r_ret r < 0 then bind get_errno (\<lambda>e. ret (e, pair))
       else
         let raw0 = max 0 (reply_int r 0); raw1 = max 0 (reply_int r 1) in
         bind (nq_process_setup_fd raw0) (\<lambda>fd0.
           if fd0 < 0 then bind get_errno (\<lambda>e. ret (e, fd0, raw1))
           else bind (nq_process_setup_fd raw1) (\<lambda>fd1. bind get_errno (\<lambda>e.
             ret (if fd1 < 0 then e else 0, fd0, fd1)))))"

definition nq_process_nonblocking :: "int \<Rightarrow> int nq" where
  "nq_process_nonblocking fd =
     bind (retry_call (FcntlGetFlags fd)) (\<lambda>flags. bind get_errno (\<lambda>e.
       if r_ret flags < 0 then ret e
       else bind (retry_call (FcntlSetNonblock fd (r_ret flags))) (\<lambda>r. bind get_errno (\<lambda>e.
         ret (if r_ret r < 0 then e else 0)))))"

section \<open>Waiting and signalling\<close>

definition nq_process_waitpid :: "int \<Rightarrow> int \<Rightarrow> (int \<times> int) nq" where
  "nq_process_waitpid pid status =
     bind (retry_call (Waitpid pid)) (\<lambda>r. bind get_errno (\<lambda>e.
       ret (if r_ret r = pid then (0, to_i32 (reply_int r 0))
            else (if r_ret r < 0 then e else EIO, status))))"

text \<open>The errno, the pid (0 once there is no child to wait for) and whether it has exited.\<close>

definition nq_process_probe_pid :: "int \<Rightarrow> bool \<Rightarrow> bool \<Rightarrow> (int \<times> int \<times> bool) nq" where
  "nq_process_probe_pid pid exited block =
     (if pid \<le> 0 then ret (ECHILD, pid, exited)
      else bind (retry_call (Waitid pid block)) (\<lambda>r.
        if r_ret r < 0
        then bind get_errno (\<lambda>error. ret (error, if error = ECHILD then 0 else pid, exited))
        else
          let exited = (reply_int r 0 = pid) in
          ret (if block \<and> \<not> exited then EIO else 0, pid, exited)))"

definition nq_process_reap_pid :: "int \<Rightarrow> int \<Rightarrow> (int \<times> int \<times> int) nq" where
  "nq_process_reap_pid pid status =
     (if pid \<le> 0 then ret (ECHILD, pid, status)
      else bind (nq_process_waitpid pid status) (\<lambda>(error, status).
        ret (error, if error = 0 \<or> error = ECHILD then 0 else pid, status)))"

definition nq_process_kill :: "int \<Rightarrow> int nq" where
  "nq_process_kill pid =
     bind (retry_call (Kill pid)) (\<lambda>r. bind get_errno (\<lambda>e.
       ret (if r_ret r < 0 \<and> e \<noteq> ESRCH then e else 0)))"

text \<open>A pass of \<open>for (attempt = 0; attempt < 2 && *pid > 0; attempt++)\<close>.\<close>

fun legacy_attempts :: "nat \<Rightarrow> int \<Rightarrow> int \<Rightarrow> int \<Rightarrow> (int \<times> int \<times> int) nq" where
  "legacy_attempts 0 pid status first_error = ret (pid, status, first_error)"
| "legacy_attempts (Suc n) pid status first_error =
     (if pid \<le> 0 then ret (pid, status, first_error)
      else bind (nq_process_probe_pid pid False False) (\<lambda>(error, pid, exited).
        bind (if error = 0 \<and> \<not> exited then nq_process_kill pid else ret error) (\<lambda>error.
        bind (if error = 0 then nq_process_reap_pid pid status else ret (error, pid, status))
          (\<lambda>(error, pid, status).
            legacy_attempts n pid status (if first_error = 0 then error else first_error)))))"

text \<open>The part after the attempts, for a child that is still there.\<close>

definition legacy_last_resort :: "int \<Rightarrow> int \<Rightarrow> (int \<times> int) nq" where
  "legacy_last_resort pid status =
     bind (nq_process_probe_pid pid False False) (\<lambda>(error, pid, exited).
     bind (if error \<noteq> 0 \<and> pid > 0 then nq_process_probe_pid pid exited False else ret (error, pid, exited))
       (\<lambda>(error, pid, exited).
     bind (if error = 0 \<and> exited
           then bind (nq_process_reap_pid pid status) (\<lambda>(error, pid, status).
             if error \<noteq> 0 \<and> pid > 0
             then bind (nq_process_reap_pid pid status) (\<lambda>(_, pid, status). ret (pid, status))
             else ret (pid, status))
           else ret (pid, status)) (\<lambda>(pid, status).
     if pid > 0
     then bind (nq_process_probe_pid pid exited False) (\<lambda>(_, pid, _). ret (pid, status))
     else ret (pid, status))))"

definition nq_process_legacy_wait :: "int \<Rightarrow> int \<Rightarrow> bool \<Rightarrow> (int \<times> int \<times> int) nq" where
  "nq_process_legacy_wait pid status abort_child =
     bind (if \<not> abort_child then nq_process_reap_pid pid status else ret (0, pid, status))
       (\<lambda>(first_error, pid, status).
     if \<not> abort_child \<and> pid = 0 then ret (first_error, pid, status)
     else bind (legacy_attempts 2 pid status first_error) (\<lambda>(pid, status, first_error).
       bind (if pid > 0 then legacy_last_resort pid status else ret (pid, status)) (\<lambda>(pid, status).
         ret (if first_error \<noteq> 0 then first_error else if pid > 0 then EIO else 0, pid, status))))"

section \<open>The owned process: signalling and cleaning up\<close>

definition nq_process_probe :: "nq_process_state \<Rightarrow> bool \<Rightarrow> (nq_process_state \<times> int \<times> bool) nq" where
  "nq_process_probe st exited =
     bind (nq_process_probe_pid (ps_pid st) exited False) (\<lambda>(error, pid, exited).
       ret (st\<lparr>ps_pid := pid\<rparr>, error, exited))"

text \<open>\<open>observed\<close>: what \<open>*observed_exit\<close> holds, for callers that pass one.\<close>

definition nq_process_signal_owned :: "nq_process_state \<Rightarrow> bool \<Rightarrow> (nq_process_state \<times> int \<times> bool) nq" where
  "nq_process_signal_owned st observed =
     bind (nq_process_probe st False) (\<lambda>(st, error, exited).
       if error \<noteq> 0 then ret (st, error, observed)
       else bind (if \<not> ps_group st \<and> \<not> exited then nq_process_kill (ps_pid st) else ret 0) (\<lambda>error.
         if error \<noteq> 0 then ret (st, error, exited)
         else bind (nq_process_kill (- ps_pid st)) (\<lambda>error.
           if error \<noteq> 0 then ret (st, error, exited)
           else
             let st = (if exited then st\<lparr>ps_terminal_signalled := True\<rparr> else st) in
             bind (if ps_group st \<and> \<not> exited then nq_process_kill (ps_pid st) else ret 0) (\<lambda>error.
               ret (if error = 0 then st\<lparr>ps_signalled := True\<rparr> else st, error, exited)))))"

definition nq_process_signal_terminal :: "nq_process_state \<Rightarrow> (nq_process_state \<times> int) nq" where
  "nq_process_signal_terminal st =
     (if ps_terminal_signalled st then ret (st, 0)
      else bind (nq_process_probe_pid (ps_pid st) False True) (\<lambda>(error, pid, exited).
        let st = st\<lparr>ps_pid := pid\<rparr> in
        bind (if error = 0 then nq_process_kill (- ps_pid st) else ret error) (\<lambda>error.
          ret (if error = 0 then st\<lparr>ps_terminal_signalled := True\<rparr> else st, error))))"

text \<open>The SIGPIPE mask around a write; \<open>error\<close> is what \<open>errno\<close> ends up as.\<close>

definition nq_process_write_input :: "int \<Rightarrow> string \<Rightarrow> int nq" where
  "nq_process_write_input fd bs =
     bind (call_int SigBlock) (\<lambda>r.
       if r < 0 then ret (-1)
       else bind (sys SigPending) (\<lambda>pending.
         if r_ret pending < 0
         then bind get_errno (\<lambda>error.
           andthen (ignore (sys SigRestore)) (andthen (set_errno error) (ret (-1))))
         else
           let already_pending = (reply_int pending 0 = 1) in
           bind (c_write fd bs) (\<lambda>result.
           bind get_errno (\<lambda>e.
           let error = (if result < 0 then e else 0) in
           andthen (if result < 0 \<and> error = EPIPE \<and> \<not> already_pending
                    then ignore (retry_call SigTimedwait) else ret ())
           (bind (call_int SigRestore) (\<lambda>r.
             if r < 0 then ret (-1)
             else andthen (set_errno error) (ret result)))))))"

definition cleanup_message :: string where
  "cleanup_message = ''nauqtype runtime: process cleanup failed\<newline>''"

definition cleanup_fail_round :: "nat \<times> nat \<Rightarrow> (nat \<times> nat + unit) nq" where
  "cleanup_fail_round = (\<lambda>(sent, interruptions).
     if sent < length cleanup_message
     then bind (nq_process_write_input 2 (drop sent cleanup_message)) (\<lambda>n. bind get_errno (\<lambda>e.
       if n < 0 \<and> e = EINTR \<and> interruptions < 3 then ret (Inl (sent, interruptions + 1))
       else if n \<le> 0 then ret (Inr ())
       else ret (Inl (sent + nat n, interruptions))))
     else ret (Inr ()))"

definition nq_process_cleanup_fail :: "'a nq" where
  "nq_process_cleanup_fail = andthen (loop cleanup_fail_round (0, 0)) (stop (QuickExit 1))"

definition nq_process_cleanup_reap :: "nq_process_state \<Rightarrow> (nq_process_state \<times> int) nq" where
  "nq_process_cleanup_reap st =
     bind (nq_process_reap_pid (ps_pid st) 0) (\<lambda>(error, pid, _). ret (st\<lparr>ps_pid := pid\<rparr>, error))"

definition nq_process_cleanup_attempt :: "nq_process_state \<Rightarrow> (nq_process_state \<times> int) nq" where
  "nq_process_cleanup_attempt st =
     bind (if \<not> ps_terminal_signalled st
           then bind (nq_process_signal_owned st False) (\<lambda>(st, error, _).
             if error = 0 then nq_process_signal_terminal st else ret (st, error))
           else ret (st, 0)) (\<lambda>(st, error).
       if error = 0 then nq_process_cleanup_reap st else ret (st, error))"

text \<open>The part of \<open>nq_process_cleanup\<close> for a child that two attempts have not reaped.\<close>

definition cleanup_last_resort :: "nq_process_state \<Rightarrow> nq_process_state nq" where
  "cleanup_last_resort st =
     bind (nq_process_probe st False) (\<lambda>(st, error, exited).
     bind (if error \<noteq> 0 \<and> ps_pid st > 0 then nq_process_probe st exited else ret (st, error, exited))
       (\<lambda>(st, error, exited).
     bind (if error = 0 \<and> exited
           then bind (nq_process_signal_terminal st) (\<lambda>(st, error).
             if error = 0 then bind (nq_process_cleanup_reap st) (\<lambda>(st, _). ret st) else ret st)
           else ret st) (\<lambda>st.
     bind (if ps_pid st > 0
           then bind (nq_process_probe st exited) (\<lambda>(st, _, _). ret st) else ret st) (\<lambda>st.
     if ps_pid st > 0 then nq_process_cleanup_fail else ret st))))"

definition nq_process_cleanup :: "nq_process_state \<Rightarrow> unit nq" where
  "nq_process_cleanup st =
     bind (if ps_pid st > 0
           then bind (nq_process_cleanup_attempt st) (\<lambda>(st, error).
             bind (if error \<noteq> 0 \<and> ps_pid st > 0 then nq_process_cleanup_attempt st else ret (st, error))
               (\<lambda>(st, _). if ps_pid st > 0 then cleanup_last_resort st else ret st))
           else ret st) (\<lambda>st.
     andthen (ignore (nq_process_close_fd (ps_input_fd st)))
     (andthen (ignore (nq_process_close_fd (ps_output_fd st)))
     (andthen (ignore (nq_process_close_fd (ps_error_fd st)))
     (andthen (ignore (nq_str_drop (Some (ps_input st))))
     (andthen (c_free (bb_data (ps_output st)))
     (andthen (c_free (bb_data (ps_error st)))
     (ignore (nq_process_outcome_drop (Some (ps_outcome st))))))))))"

definition nq_process_drop :: "nq_process option \<Rightarrow> nq_process option nq" where
  "nq_process_drop v =
     (case v of
        Some (Some b) \<Rightarrow>
          bind (load_proc b) (\<lambda>st.
          andthen (nq_process_cleanup st) (andthen (c_free (PHeap b 0)) (ret (Some None))))
      | _ \<Rightarrow> ret v)"

definition nq_result__process__io_err_drop :: "nq_result_process option \<Rightarrow> nq_result_process option nq" where
  "nq_result__process__io_err_drop p = nullable p (\<lambda>v. andthen
     (case v of Ok x \<Rightarrow> bind (nq_process_drop (Some x)) (\<lambda>_. ret ())
              | Err e \<Rightarrow> bind (nq_io_err_drop (Some e)) (\<lambda>_. ret ()))
     (ret (Ok None)))"

section \<open>The owned process: its output and its end\<close>

text \<open>
  \<open>nq_process_read_output\<close> takes pointers to a descriptor and a buffer of the state: those of
  stdout or those of stderr. \<open>remaining\<close> is \<open>None\<close> for NULL.
\<close>

datatype channel = Stdout | Stderr

fun fd_of :: "channel \<Rightarrow> nq_process_state \<Rightarrow> int" where
  "fd_of Stdout st = ps_output_fd st" | "fd_of Stderr st = ps_error_fd st"

fun set_fd :: "channel \<Rightarrow> int \<Rightarrow> nq_process_state \<Rightarrow> nq_process_state" where
  "set_fd Stdout fd st = st\<lparr>ps_output_fd := fd\<rparr>" | "set_fd Stderr fd st = st\<lparr>ps_error_fd := fd\<rparr>"

fun buffer_of :: "channel \<Rightarrow> nq_process_state \<Rightarrow> nq_byte_buffer" where
  "buffer_of Stdout st = ps_output st" | "buffer_of Stderr st = ps_error st"

fun set_buffer :: "channel \<Rightarrow> nq_byte_buffer \<Rightarrow> nq_process_state \<Rightarrow> nq_process_state" where
  "set_buffer Stdout b st = st\<lparr>ps_output := b\<rparr>" | "set_buffer Stderr b st = st\<lparr>ps_error := b\<rparr>"

definition close_channel :: "channel \<Rightarrow> nq_process_state \<Rightarrow> nq_process_state nq" where
  "close_channel ch st = bind (nq_process_close_fd (fd_of ch st)) (\<lambda>fd. ret (set_fd ch fd st))"

definition captured :: "nq_process_state \<Rightarrow> nat" where
  "captured st = size_plus (bb_len (ps_output st)) (bb_len (ps_error st))"

text \<open>The bytes read go to the buffer, which stays NUL-terminated.\<close>

definition take_output ::
  "config \<Rightarrow> nq_process_state \<Rightarrow> channel \<Rightarrow> nat option \<Rightarrow> string \<Rightarrow> string \<Rightarrow>
     (nq_process_state \<times> nat option \<times> nqioerr option) nq" where
  "take_output c st ch remaining operation bs =
     (if length bs > size_minus (ps_limit st) (captured st)
      then bind (nq_invalid_data_io_err c (Some operation) None
             ''combined process output exceeds capture limit'') (\<lambda>e. ret (st, remaining, Some e))
      else
        let limit = (if ps_limit st < nq_str_limit c then ps_limit st else nq_str_limit c) in
        bind (nq_buffer_reserve c (buffer_of ch st) (length bs + 1) (size_plus limit 1)) (\<lambda>(b, status).
          let st = set_buffer ch b st in
          case status of
            Some s \<Rightarrow> bind (nq_allocation_io_err c (Some operation) s) (\<lambda>e. ret (st, remaining, Some e))
          | None \<Rightarrow>
              andthen (store_bytes (ptr_plus (bb_data b) (bb_len b)) bs)
              (let b = b\<lparr>bb_len := bb_len b + length bs\<rparr>; st = set_buffer ch b st in
               andthen (store_bytes (ptr_plus (bb_data b) (bb_len b)) [CHR 0x00])
               (case remaining of
                  None \<Rightarrow> ret (st, None, None)
                | Some left \<Rightarrow>
                    let left = size_minus left (length bs) in
                    bind (if left = 0 then close_channel ch st else ret st) (\<lambda>st.
                      ret (st, Some left, None))))))"

definition nq_process_read_output ::
  "config \<Rightarrow> nq_process_state \<Rightarrow> channel \<Rightarrow> nat option \<Rightarrow> string \<Rightarrow>
     (nq_process_state \<times> nat option \<times> nqioerr option) nq" where
  "nq_process_read_output c st ch remaining operation =
     (let amount = (case remaining of Some left \<Rightarrow> if left < 8192 then left else 8192 | None \<Rightarrow> 8192) in
      if amount = 0 then bind (close_channel ch st) (\<lambda>st. ret (st, remaining, None))
      else bind (c_read (fd_of ch st) amount) (\<lambda>bytes. case bytes of
        None \<Rightarrow> bind get_errno (\<lambda>e.
          if e = EINTR \<or> remaining = None \<and> e = EAGAIN then ret (st, remaining, None)
          else bind (nq_errno_io_err c (Some operation) None None e) (\<lambda>err. ret (st, remaining, Some err)))
      | Some bs \<Rightarrow>
          if bs = []
          then if remaining \<noteq> None \<and> remaining \<noteq> Some 0
            then bind (nq_invalid_data_io_err c (Some operation) None ''queued process output disappeared'')
                   (\<lambda>err. ret (st, remaining, Some err))
            else bind (close_channel ch st) (\<lambda>st. ret (st, remaining, None))
          else take_output c st ch remaining operation bs))"

text \<open>The errno and the number of bytes queued in the pipe.\<close>

definition nq_process_queued :: "int \<Rightarrow> nat \<Rightarrow> (int \<times> nat) nq" where
  "nq_process_queued fd remaining =
     (if fd < 0 then ret (0, 0)
      else bind (retry_call (IoctlQueued fd)) (\<lambda>r. bind get_errno (\<lambda>e.
        let n = to_i32 (reply_int r 0) in
        ret (if r_ret r < 0 then (e, remaining) else if n < 0 then (EIO, remaining) else (0, nat n)))))"

text \<open>A captured buffer becomes a string of the outcome; the storage is consumed either way.\<close>

definition take_capture :: "config \<Rightarrow> nq_byte_buffer \<Rightarrow> nqstr \<Rightarrow> (nq_byte_buffer \<times> nqstr \<times> alloc_failure option) nq" where
  "take_capture c b t =
     (if bb_data b \<noteq> PNull
      then bind (nq_try_str_take c (bb_data b) (bb_len b)) (\<lambda>r.
        let b = b\<lparr>bb_data := PNull\<rparr> in
        case r of Inl s \<Rightarrow> ret (b, t, Some s) | Inr u \<Rightarrow> ret (b, u, None))
      else ret (b, t, None))"

definition nq_process_finish ::
  "config \<Rightarrow> nq_process_state \<Rightarrow> string \<Rightarrow> (nq_process_state \<times> nqioerr option) nq" where
  "nq_process_finish c st operation =
     bind (nq_process_waitpid (ps_pid st) 0) (\<lambda>(wait_error, status).
       if wait_error \<noteq> 0
       then
         let st = (if wait_error = ECHILD then st\<lparr>ps_pid := 0\<rparr> else st) in
         bind (nq_errno_io_err c (Some operation) None None wait_error) (\<lambda>e. ret (st, Some e))
       else
         let code = (if WIFEXITED status then WEXITSTATUS status else 128 + WTERMSIG status);
             st = st\<lparr>ps_pid := 0, ps_outcome := (ps_outcome st)\<lparr>po_exit_code := code\<rparr>\<rparr> in
         bind (take_capture c (ps_output st) (po_stdout (ps_outcome st))) (\<lambda>(b, t, allocation).
         let st = st\<lparr>ps_output := b, ps_outcome := (ps_outcome st)\<lparr>po_stdout := t\<rparr>\<rparr> in
         bind (if allocation = None then take_capture c (ps_error st) (po_stderr (ps_outcome st))
               else ret (ps_error st, po_stderr (ps_outcome st), allocation)) (\<lambda>(b, t, allocation).
         let st = st\<lparr>ps_error := b, ps_outcome := (ps_outcome st)\<lparr>po_stderr := t\<rparr>\<rparr> in
         case allocation of
           Some s \<Rightarrow> bind (nq_allocation_io_err c (Some operation) s) (\<lambda>e. ret (st, Some e))
         | None \<Rightarrow>
             bind (nq_process_close_fd (ps_input_fd st)) (\<lambda>fd.
             bind (at_ptr nq_str_drop (ps_input st)) (\<lambda>t.
               ret (st\<lparr>ps_input_fd := fd, ps_input := t, ps_ready := True\<rparr>, None))))))"

section \<open>The owned process: the pump\<close>

text \<open>The local variables of \<open>nq_process_pump\<close> that live across the rounds of its loop.\<close>

record pump =
  pu_state :: nq_process_state
  pu_draining :: bool
  pu_output_remaining :: nat
  pu_error_remaining :: nat
  pu_idle_attempts :: nat

text \<open>What a step of a round does: go on with a value, or leave with an error.\<close>

type_synonym 'a pump_step = "nq_process_state \<times> (nqioerr + 'a)"

definition pump_fails :: "config \<Rightarrow> string \<Rightarrow> int \<Rightarrow> nq_process_state \<Rightarrow> 'a pump_step nq" where
  "pump_fails c operation code st =
     bind (nq_errno_io_err c (Some operation) None None code) (\<lambda>e. ret (st, Inl e))"

text \<open>The deadline: the timeout for \<open>poll\<close> in milliseconds, rounded up, and whether it has passed.\<close>

definition pump_deadline ::
  "config \<Rightarrow> nq_process_state \<Rightarrow> nq_option_instant \<Rightarrow> bool \<Rightarrow> bool \<Rightarrow> string \<Rightarrow> (int \<times> bool) pump_step nq" where
  "pump_deadline c st deadline cancel exited operation =
     (case deadline of
        Some d \<Rightarrow>
          if \<not> exited \<and> \<not> ps_signalled st \<and> \<not> cancel
          then bind (nq_clock_ns c True operation) (\<lambda>r. case r of
            Inl e \<Rightarrow> ret (st, Inl e)
          | Inr now \<Rightarrow>
              if i_ns d \<le> now then ret (st, Inr (10, True))
              else bind (i64_difference (i_ns d) now) (\<lambda>remaining.
                ret (st, Inr (if remaining < 10000000 then (remaining + 999999) sdiv 1000000 else 10, False))))
          else ret (st, Inr (10, False))
      | None \<Rightarrow> ret (st, Inr (10, False)))"

text \<open>The signal: a fresh look at the child wins over the deadline and the cancellation.\<close>

definition pump_signal ::
  "config \<Rightarrow> nq_process_state \<Rightarrow> bool \<Rightarrow> bool \<Rightarrow> bool \<Rightarrow> string \<Rightarrow> bool pump_step nq" where
  "pump_signal c st exited expired cancel operation =
     (if \<not> ps_signalled st \<and> (exited \<or> expired \<or> cancel)
      then bind (nq_process_signal_owned st exited) (\<lambda>(st, system_error, exited).
        if system_error \<noteq> 0 then pump_fails c operation system_error st
        else
          let st = st\<lparr>ps_outcome := (ps_outcome st)\<lparr>po_timed_out := \<not> exited \<and> expired,
                                                 po_cancelled := \<not> exited \<and> cancel\<rparr>\<rparr> in
          bind (nq_process_close_fd (ps_input_fd st)) (\<lambda>fd. ret (st\<lparr>ps_input_fd := fd\<rparr>, Inr exited)))
      else ret (st, Inr exited))"

text \<open>The snapshot of the queued bytes, taken once the child has exited.\<close>

definition pump_drain ::
  "config \<Rightarrow> nq_process_state \<Rightarrow> nat \<Rightarrow> nat \<Rightarrow> string \<Rightarrow> (nat \<times> nat) pump_step nq" where
  "pump_drain c st out err operation =
     bind (nq_process_signal_terminal st) (\<lambda>(st, system_error).
     if system_error \<noteq> 0 then pump_fails c operation system_error st
     else
       bind (nq_process_queued (ps_output_fd st) out) (\<lambda>(system_error, out).
       bind (if system_error = 0 then nq_process_queued (ps_error_fd st) err else ret (system_error, err))
         (\<lambda>(system_error, err).
       if system_error \<noteq> 0 then pump_fails c operation system_error st
       else
         let room = size_minus (ps_limit st) (captured st) in
         if out > room \<or> err > size_minus room out
         then bind (nq_invalid_data_io_err c (Some operation) None
                ''combined process output exceeds capture limit'') (\<lambda>e. ret (st, Inl e))
         else bind (if out = 0 then close_channel Stdout st else ret st) (\<lambda>st.
              bind (if err = 0 then close_channel Stderr st else ret st) (\<lambda>st.
                ret (st, Inr (out, err)))))))"

text \<open>\<open>poll\<close> ignores a negative descriptor; \<open>None\<close> is -1.\<close>

definition c_poll :: "(int \<times> bool) list \<Rightarrow> int \<Rightarrow> int list option nq" where
  "c_poll fds timeout = bind (sys (Poll fds timeout)) (\<lambda>r.
     ret (if r_ret r < 0 then None
          else Some (map (\<lambda>(i, fd, _). if fd < 0 then 0 else reply_int r i mod 65536) (enumerate 0 fds))))"

definition POLLNVAL :: "int \<Rightarrow> bool" where "POLLNVAL revents \<longleftrightarrow> revents div 32 mod 2 = 1"

text \<open>Writing the child's input.\<close>

definition pump_input :: "config \<Rightarrow> nq_process_state \<Rightarrow> string \<Rightarrow> unit pump_step nq" where
  "pump_input c st operation =
     (let remaining = size_minus (to_size (s_len (ps_input st))) (ps_sent st);
          amount = (if remaining < 8192 then remaining else 8192) in
      bind (load_bytes (ptr_plus (s_data (ps_input st)) (ps_sent st)) amount) (\<lambda>bs.
      bind (nq_process_write_input (ps_input_fd st) bs) (\<lambda>n.
      bind get_errno (\<lambda>e.
        if n < 0
        then if e = EPIPE
          then bind (nq_process_close_fd (ps_input_fd st)) (\<lambda>fd. ret (st\<lparr>ps_input_fd := fd\<rparr>, Inr ()))
          else if e \<noteq> EINTR \<and> e \<noteq> EAGAIN then pump_fails c operation e st
          else ret (st, Inr ())
        else if n > 0 then ret (st\<lparr>ps_sent := size_plus (ps_sent st) (nat n)\<rparr>, Inr ())
        else pump_fails c operation EIO st))))"

text \<open>Serving what \<open>poll\<close> reports, stdout first, then stderr, then stdin.\<close>

definition pump_serve ::
  "config \<Rightarrow> nq_process_state \<Rightarrow> bool \<Rightarrow> nat \<Rightarrow> nat \<Rightarrow> int list \<Rightarrow> string \<Rightarrow> (nat \<times> nat) pump_step nq" where
  "pump_serve c st draining out err revents operation =
     (if \<exists>i<3. POLLNVAL (revents ! i) then pump_fails c operation EBADF st
      else
        bind (if revents ! 1 \<noteq> 0
              then nq_process_read_output c st Stdout (if draining then Some out else None) operation
              else ret (st, if draining then Some out else None, None)) (\<lambda>(st, left_out, failed).
        case failed of Some e \<Rightarrow> ret (st, Inl e) | None \<Rightarrow>
        bind (if revents ! 2 \<noteq> 0
              then nq_process_read_output c st Stderr (if draining then Some err else None) operation
              else ret (st, if draining then Some err else None, None)) (\<lambda>(st, left_err, failed).
        case failed of Some e \<Rightarrow> ret (st, Inl e) | None \<Rightarrow>
        bind (if revents ! 0 \<noteq> 0 then pump_input c st operation else ret (st, Inr ())) (\<lambda>(st, r).
        case r of Inl e \<Rightarrow> ret (st, Inl e) | Inr _ \<Rightarrow>
          ret (st, Inr (case left_out of Some n \<Rightarrow> n | None \<Rightarrow> out,
                        case left_err of Some n \<Rightarrow> n | None \<Rightarrow> err))))))"

text \<open>The end of a round: the wait for something to happen.\<close>

definition pump_wait ::
  "config \<Rightarrow> pump \<Rightarrow> bool \<Rightarrow> int \<Rightarrow> string \<Rightarrow> (pump + nq_process_state \<times> nqioerr option) nq" where
  "pump_wait c p exited timeout operation =
     (let st = pu_state p in
      bind (if ps_input_fd st \<ge> 0 \<and> ps_sent st = to_size (s_len (ps_input st))
            then bind (nq_process_close_fd (ps_input_fd st)) (\<lambda>fd. ret (st\<lparr>ps_input_fd := fd\<rparr>))
            else ret st) (\<lambda>st.
      let waiting = (\<not> exited \<and> ps_input_fd st < 0 \<and> ps_output_fd st < 0 \<and> ps_error_fd st < 0);
          timeout = (if waiting \<and> pu_idle_attempts p < 5 \<and> timeout > 1 then 1 else timeout);
          idle = (if waiting then if pu_idle_attempts p < 5 then pu_idle_attempts p + 1 else pu_idle_attempts p
                  else 0);
          p = p\<lparr>pu_state := st, pu_idle_attempts := idle\<rparr> in
      bind (c_poll [(ps_input_fd st, True), (ps_output_fd st, False), (ps_error_fd st, False)] timeout) (\<lambda>polled.
        case polled of
          None \<Rightarrow> bind get_errno (\<lambda>e.
            if e = EINTR then ret (Inl p)
            else bind (nq_errno_io_err c (Some operation) None None e) (\<lambda>err. ret (Inr (st, Some err))))
        | Some revents \<Rightarrow>
            bind (pump_serve c st (pu_draining p) (pu_output_remaining p) (pu_error_remaining p) revents operation)
              (\<lambda>(st, r). case r of
                Inl e \<Rightarrow> ret (Inr (st, Some e))
              | Inr (out, err) \<Rightarrow>
                  ret (Inl (p\<lparr>pu_state := st, pu_output_remaining := out, pu_error_remaining := err\<rparr>))))))"

text \<open>One round of \<open>while (true)\<close>.\<close>

definition pump_round ::
  "config \<Rightarrow> nq_option_instant \<Rightarrow> bool \<Rightarrow> string \<Rightarrow> pump \<Rightarrow> (pump + nq_process_state \<times> nqioerr option) nq" where
  "pump_round c deadline cancel operation p =
     (let leave = (\<lambda>st e. ret (Inr (st, Some e))) in
      bind (nq_process_probe (pu_state p) False) (\<lambda>(st, system_error, exited).
      if system_error \<noteq> 0
      then bind (nq_errno_io_err c (Some operation) None None system_error) (\<lambda>e. leave st e)
      else
        bind (pump_deadline c st deadline cancel exited operation) (\<lambda>(st, r).
        case r of Inl e \<Rightarrow> leave st e | Inr (timeout, expired) \<Rightarrow>
        bind (pump_signal c st exited expired cancel operation) (\<lambda>(st, r).
        case r of Inl e \<Rightarrow> leave st e | Inr exited \<Rightarrow>
        bind (if exited \<and> \<not> pu_draining p
              then pump_drain c st (pu_output_remaining p) (pu_error_remaining p) operation
              else ret (st, Inr (pu_output_remaining p, pu_error_remaining p))) (\<lambda>(st, r).
        case r of Inl e \<Rightarrow> leave st e | Inr (out, err) \<Rightarrow>
          let p = p\<lparr>pu_state := st, pu_draining := pu_draining p \<or> exited,
                    pu_output_remaining := out, pu_error_remaining := err\<rparr> in
          if exited \<and> ps_output_fd st < 0 \<and> ps_error_fd st < 0
          then bind (nq_process_finish c st operation) (\<lambda>x. ret (Inr x))
          else pump_wait c p exited timeout operation)))))"

definition nq_process_pump ::
  "config \<Rightarrow> nq_process_state \<Rightarrow> nq_option_instant \<Rightarrow> bool \<Rightarrow> string \<Rightarrow> (nq_process_state \<times> nqioerr option) nq" where
  "nq_process_pump c st deadline cancel operation =
     loop (pump_round c deadline cancel operation)
       \<lparr>pu_state = st, pu_draining = False, pu_output_remaining = 0, pu_error_remaining = 0,
        pu_idle_attempts = 0\<rparr>"

end
