(* ===== verification/Launch.thy ===== *)
theory Launch
  imports Process
begin

text \<open>
  Child processes in \<open>stdlib/runtime.c\<close>, second part: starting them. \<open>nq_run_process\<close> runs a
  program to its end with its output in temporary files; \<open>nq_process_start\<close>, \<open>nq_process_wait\<close>
  and \<open>nq_process_terminate\<close> are the interface of the owned process of theory Process; the Linux
  branches.

  \<open>fork\<close> returns twice. The model follows both: with reply 0 the function is the child, which never
  comes back (it ends by \<open>exec\<close> or \<open>_exit\<close>), with a positive reply the parent. The two character
  arrays of \<open>nq_run_process\<close> on the stack, which \<open>mkstemp\<close> writes, are strings.
\<close>

section \<open>Argument vectors\<close>

text \<open>\<open>memset(cells, 0, size)\<close>.\<close>

fun clear_cells :: "ptr \<Rightarrow> nat \<Rightarrow> nat \<Rightarrow> unit nq" where
  "clear_cells p i 0 = ret ()"
| "clear_cells p i (Suc n) = andthen (store_cell p i PNull) (clear_cells p (i + 1) n)"

fun free_cells :: "ptr \<Rightarrow> nat \<Rightarrow> nat \<Rightarrow> unit nq" where
  "free_cells p i 0 = ret ()"
| "free_cells p i (Suc n) = bind (load_cell p i) (\<lambda>q. andthen (c_free q) (free_cells p (i + 1) n))"

text \<open>\<open>while (index > 0) { free(cells[index]); index -= 1; }\<close>\<close>

fun free_cells_back :: "ptr \<Rightarrow> nat \<Rightarrow> unit nq" where
  "free_cells_back p 0 = ret ()"
| "free_cells_back p (Suc n) = bind (load_cell p (Suc n)) (\<lambda>q. andthen (c_free q) (free_cells_back p n))"

text \<open>Copies of the strings of a list, from index \<open>i\<close> on, into the cells from \<open>j\<close> on; how many were made.\<close>

fun copy_strs :: "config \<Rightarrow> ptr \<Rightarrow> nat \<Rightarrow> ptr \<Rightarrow> nat \<Rightarrow> nat \<Rightarrow> (nat \<times> alloc_failure option) nq" where
  "copy_strs c strings i cells j 0 = ret (i, None)"
| "copy_strs c strings i cells j (Suc n) =
     bind (load_str strings i) (\<lambda>t.
     bind (nq_try_cstr_copy c (s_data t) (to_size (s_len t))) (\<lambda>r. case r of
       Inl st \<Rightarrow> ret (i, Some st)
     | Inr copy \<Rightarrow> andthen (store_cell cells j copy) (copy_strs c strings (i + 1) cells (j + 1) n)))"

text \<open>What \<open>exec\<close> reads: the C strings of a vector up to its NULL.\<close>

fun cell_strings :: "(nat \<Rightarrow> block option) \<Rightarrow> ptr option list \<Rightarrow> string list option" where
  "cell_strings h [] = None"
| "cell_strings h (None # cs) = None"
| "cell_strings h (Some p # cs) =
     (if p = PNull then Some []
      else case c_string h p of
        None \<Rightarrow> None | Some x \<Rightarrow> map_option (\<lambda>xs. x # xs) (cell_strings h cs))"

definition load_vector :: "ptr \<Rightarrow> string list nq" where
  "load_vector p = (\<lambda>s. case p of
     PHeap b 0 \<Rightarrow> (case heap s b of
         Some (BPtrs cs) \<Rightarrow> (case cell_strings (heap s) cs of
             Some xs \<Rightarrow> Ret xs s | None \<Rightarrow> Stop Undefined s)
       | _ \<Rightarrow> Stop Undefined s)
   | _ \<Rightarrow> Stop Undefined s)"

section \<open>Running a program to its end\<close>

definition nq_try_read_text_file :: "config \<Rightarrow> string \<Rightarrow> (nqioerr + nqstr) nq" where
  "nq_try_read_text_file c path =
     (case nq_cstr_length c path of
        None \<Rightarrow> bind (nq_allocation_io_err c (Some ''run_process'') ALLOC_SIZE) (\<lambda>e. ret (Inl e))
      | Some len \<Rightarrow>
          bind (nq_read_file_bytes_operation c \<lparr>s_data = PLit path 0, s_len = int len, s_owner = None\<rparr>
                  ''run_process'' (nq_str_limit c)) (\<lambda>r.
          bind (nq_bytes_result_into_str c r ''run_process'') (\<lambda>r.
            ret (case r of Ok t \<Rightarrow> Inr t | Err e \<Rightarrow> Inl e))))"

definition mkstemp_local :: "string \<Rightarrow> (int \<times> string) nq" where
  "mkstemp_local template = bind (sys (Mkstemp template)) (\<lambda>r.
     ret (if r_ret r < 0 then (-1, template)
          else (r_ret r, take (length template - 6) template @ temp_suffix r)))"

definition c_unlink :: "string \<Rightarrow> unit nq" where
  "c_unlink name = ignore (sys (Unlink name))"

definition close_if_open :: "int \<Rightarrow> unit nq" where
  "close_if_open fd = (if fd \<ge> 0 then ignore (c_close fd) else ret ())"

text \<open>What the function holds once the captures are open.\<close>

record run =
  rn_program :: ptr
  rn_cwd :: ptr
  rn_stdout :: string
  rn_stderr :: string
  rn_stdout_fd :: int
  rn_stderr_fd :: int
  rn_argv :: ptr
  rn_count :: nat

definition run_release_names :: "run \<Rightarrow> unit nq" where
  "run_release_names l =
     andthen (c_unlink (rn_stdout l)) (andthen (c_unlink (rn_stderr l))
     (andthen (c_free (rn_program l)) (c_free (rn_cwd l))))"

text \<open>Giving up after the argument vector has been made.\<close>

definition run_release_all :: "run \<Rightarrow> unit nq" where
  "run_release_all l =
     andthen (free_cells (rn_argv l) 1 (rn_count l))
     (andthen (c_free (rn_argv l))
     (andthen (close_if_open (rn_stdout_fd l))
     (andthen (close_if_open (rn_stderr_fd l)) (run_release_names l))))"

text \<open>The loop that checks the arguments: \<open>Some True\<close> a size, \<open>Some False\<close> another defect.\<close>

fun run_validate :: "config \<Rightarrow> ptr \<Rightarrow> nat \<Rightarrow> nat \<Rightarrow> bool option nq" where
  "run_validate c strings i 0 = ret None"
| "run_validate c strings i (Suc n) =
     bind (load_str strings i) (\<lambda>t.
       if \<not> nq_str_size c (s_len t) \<or> nat (s_len t) \<ge> nq_allocation_limit c then ret (Some True)
       else if \<not> nq_str_storage_is_valid c t then ret (Some False)
       else bind (nq_str_has_nul t) (\<lambda>nul. if nul then ret (Some False) else run_validate c strings (i + 1) n))"

text \<open>From the end of the child to the result.\<close>

definition run_collect :: "config \<Rightarrow> run \<Rightarrow> int \<Rightarrow> nq_result_process_result nq" where
  "run_collect c l status =
     bind (nq_try_read_text_file c (rn_stdout l)) (\<lambda>r. case r of
       Inl e \<Rightarrow> andthen (run_release_names l) (ret (Err e))
     | Inr stdout_text \<Rightarrow>
       bind (nq_try_read_text_file c (rn_stderr l)) (\<lambda>r. case r of
         Inl e \<Rightarrow> bind (nq_str_drop (Some stdout_text)) (\<lambda>_. andthen (run_release_names l) (ret (Err e)))
       | Inr stderr_text \<Rightarrow>
         andthen (run_release_names l)
         (ret (nq_process_ok
           (if WIFEXITED status then WEXITSTATUS status
            else if WIFSIGNALED status then 128 + WTERMSIG status else 1) stdout_text stderr_text))))"

text \<open>The child: it ends by \<open>exec\<close> or \<open>_exit\<close>.\<close>

definition run_child :: "run \<Rightarrow> int \<Rightarrow> int \<Rightarrow> 'a nq" where
  "run_child l pipe0 pipe1 =
     (let report = bind get_errno (\<lambda>e. nq_process_child_error pipe1 e) in
      andthen (ignore (c_close pipe0))
      (bind (load_c_string (rn_cwd l)) (\<lambda>dir.
      bind (if dir = [] then ret 0 else call_int (Chdir dir)) (\<lambda>r.
      if r \<noteq> 0 then report else
      bind (call_int (Dup2 (rn_stdout_fd l) 1)) (\<lambda>r.
      if r < 0 then report else
      bind (call_int (Dup2 (rn_stderr_fd l) 2)) (\<lambda>r.
      if r < 0 then report else
      andthen (ignore (c_close (rn_stdout_fd l)))
      (andthen (ignore (c_close (rn_stderr_fd l)))
      (bind (load_c_string (rn_program l)) (\<lambda>file.
      bind (load_vector (rn_argv l)) (\<lambda>args.
      bind (call_int (Execvp file args)) (\<lambda>r.
        if r \<ge> 0 then stop Execed else report)))))))))))"

text \<open>The parent, after \<open>fork\<close>.\<close>

definition run_parent :: "config \<Rightarrow> run \<Rightarrow> int \<Rightarrow> int \<Rightarrow> int \<Rightarrow> nq_result_process_result nq" where
  "run_parent c l pid pipe0 pipe1 =
     andthen (ignore (c_close pipe1))
     (andthen (ignore (c_close (rn_stdout_fd l)))
     (andthen (ignore (c_close (rn_stderr_fd l)))
     (bind (nq_process_exec_error pipe0) (\<lambda>child_errno.
      andthen (ignore (c_close pipe0))
      (bind (nq_process_legacy_wait pid 0 (child_errno \<noteq> 0)) (\<lambda>(wait_error, pid, status).
      andthen (free_cells (rn_argv l) 1 (rn_count l))
      (andthen (c_free (rn_argv l))
      (if child_errno \<noteq> 0 \<or> wait_error \<noteq> 0
       then andthen (run_release_names l)
         (andthen (if pid > 0 then nq_process_cleanup_fail else ret ())
         (nq_process_io_err c (if child_errno \<noteq> 0 then child_errno else wait_error)
            (PLit ''failed to start or wait for process'' 0)))
       else run_collect c l status))))))))"

text \<open>The descriptors the exec handshake needs, and the fork.\<close>

definition run_fork :: "config \<Rightarrow> run \<Rightarrow> nq_result_process_result nq" where
  "run_fork c l =
     bind (nq_process_setup_fd (rn_stdout_fd l)) (\<lambda>stdout_fd. bind get_errno (\<lambda>e.
     let setup_error = (if stdout_fd < 0 then e else 0) in
     bind (nq_process_setup_fd (rn_stderr_fd l)) (\<lambda>stderr_fd. bind get_errno (\<lambda>e.
     let setup_error = (if stderr_fd < 0 \<and> setup_error = 0 then e else setup_error);
         l = l\<lparr>rn_stdout_fd := stdout_fd, rn_stderr_fd := stderr_fd\<rparr> in
     bind (if setup_error = 0
           then bind (sys Pipe) (\<lambda>r. bind get_errno (\<lambda>e.
             ret (if r_ret r \<noteq> 0 then (e, -1, -1) else (0, max 0 (reply_int r 0), max 0 (reply_int r 1)))))
           else ret (setup_error, -1, -1)) (\<lambda>(setup_error, pipe0, pipe1).
     bind (if setup_error = 0
           then bind (nq_process_setup_fd pipe0) (\<lambda>pipe0. bind get_errno (\<lambda>e.
             let setup_error = (if pipe0 < 0 then e else 0) in
             bind (nq_process_setup_fd pipe1) (\<lambda>pipe1. bind get_errno (\<lambda>e.
               ret (if pipe1 < 0 \<and> setup_error = 0 then e else setup_error, pipe0, pipe1)))))
           else ret (setup_error, pipe0, pipe1)) (\<lambda>(setup_error, pipe0, pipe1).
     if setup_error \<noteq> 0
     then andthen (close_if_open pipe0) (andthen (close_if_open pipe1)
       (andthen (run_release_all l)
         (nq_process_io_err c setup_error (PLit ''failed to prepare process descriptors'' 0))))
     else bind (sys Fork) (\<lambda>r.
       if r_ret r < 0
       then bind get_errno (\<lambda>saved.
         andthen (ignore (c_close pipe0)) (andthen (ignore (c_close pipe1))
         (andthen (run_release_all l) (nq_process_io_err c saved (PLit ''failed to fork process'' 0)))))
       else if r_ret r = 0 then run_child l pipe0 pipe1
       else run_parent c l (r_ret r) pipe0 pipe1)))))))"

text \<open>The temporary files and the argument vector.\<close>

definition run_prepare ::
  "config \<Rightarrow> ptr \<Rightarrow> ptr \<Rightarrow> nq_list_str \<Rightarrow> nat \<Rightarrow> nq_result_process_result nq" where
  "run_prepare c program_cstr cwd_cstr args argv_size =
     bind (mkstemp_local ''/tmp/nq-stdout-XXXXXX'') (\<lambda>(stdout_fd, stdout_name). bind get_errno (\<lambda>e.
     let setup_error = (if stdout_fd < 0 then e else 0) in
     bind (mkstemp_local ''/tmp/nq-stderr-XXXXXX'') (\<lambda>(stderr_fd, stderr_name). bind get_errno (\<lambda>e.
     let setup_error = (if stderr_fd < 0 \<and> setup_error = 0 then e else setup_error);
         n = nat (l_len args);
         l = \<lparr>rn_program = program_cstr, rn_cwd = cwd_cstr, rn_stdout = stdout_name, rn_stderr = stderr_name,
              rn_stdout_fd = stdout_fd, rn_stderr_fd = stderr_fd, rn_argv = PNull, rn_count = n\<rparr>;
         give_up = (\<lambda>st. andthen (ignore (c_close stdout_fd)) (andthen (ignore (c_close stderr_fd))
           (andthen (run_release_names l)
             (bind (nq_allocation_io_err c (Some ''run_process'') st) (\<lambda>err. ret (nq_process_err err))))))
     in if stdout_fd < 0 \<or> stderr_fd < 0
        then andthen (if stdout_fd \<ge> 0 then andthen (ignore (c_close stdout_fd)) (c_unlink stdout_name) else ret ())
          (andthen (if stderr_fd \<ge> 0 then andthen (ignore (c_close stderr_fd)) (c_unlink stderr_name) else ret ())
          (andthen (c_free program_cstr) (andthen (c_free cwd_cstr)
          (nq_process_io_err c setup_error (PLit ''failed to allocate temporary output files'' 0)))))
        else bind (nq_try_realloc c KPtrs PNull argv_size) (\<lambda>r. case r of
          Inl st \<Rightarrow> give_up st
        | Inr argv \<Rightarrow>
          andthen (store_cell argv 0 program_cstr)
          (bind (copy_strs c (l_data args) 0 argv 1 n) (\<lambda>(made, failed). case failed of
             Some st \<Rightarrow>
               andthen (free_cells_back argv made) (andthen (c_free argv) (give_up st))
           | None \<Rightarrow>
               andthen (store_cell argv (n + 1) PNull) (run_fork c (l\<lparr>rn_argv := argv\<rparr>)))))))))"

text \<open>
  The request is checked and its names are copied in the same way on every system; \<open>prepare\<close> is what
  comes then, given the two copies, the arguments and the size of their vector.
\<close>

definition run_request ::
  "(ptr \<Rightarrow> ptr \<Rightarrow> nq_list_str \<Rightarrow> nat \<Rightarrow> nq_result_process_result nq) \<Rightarrow>
     config \<Rightarrow> nqstr \<Rightarrow> nq_list_str option \<Rightarrow> nqstr \<Rightarrow> nq_result_process_result nq" where
  "run_request prepare c program args cwd =
     (let op = Some ''run_process'';
          too_big = bind (nq_allocation_io_err c op ALLOC_SIZE) (\<lambda>err. ret (nq_process_err err));
          invalid = (\<lambda>detail. bind (nq_invalid_input_io_err c op (Some program) None detail)
                       (\<lambda>err. ret (nq_process_err err)))
      in case args of
           None \<Rightarrow> invalid ''argument list is missing''
         | Some args \<Rightarrow>
           bind (nq_list_capacity c (l_cap args) (l_len args) 0 sizeof_str) (\<lambda>r. case r of
             Inl _ \<Rightarrow> too_big
           | Inr _ \<Rightarrow>
             if l_len args < 0 \<or> l_len args > 0 \<and> l_data args = PNull then invalid ''argument list is missing''
             else case Option.bind (nq_size_add (to_size (l_len args)) 2 (nq_allocation_limit c))
                         (\<lambda>n. nq_size_mul c n sizeof_ptr) of
               None \<Rightarrow> too_big
             | Some argv_size \<Rightarrow>
               bind (nq_os_string c program op (Some program) None) (\<lambda>r. case r of
                 Inl err \<Rightarrow> ret (nq_process_err err)
               | Inr program_cstr \<Rightarrow>
                 bind (nq_os_string c cwd op (Some cwd) None) (\<lambda>r. case r of
                   Inl err \<Rightarrow> andthen (c_free program_cstr) (ret (nq_process_err err))
                 | Inr cwd_cstr \<Rightarrow>
                   bind (run_validate c (l_data args) 0 (nat (l_len args))) (\<lambda>defect. case defect of
                     Some sz \<Rightarrow>
                       andthen (c_free program_cstr) (andthen (c_free cwd_cstr)
                       (if sz then too_big
                        else invalid ''process arguments must have valid storage and may not contain embedded NUL''))
                   | None \<Rightarrow> prepare program_cstr cwd_cstr args argv_size)))))"

definition nq_run_process ::
  "config \<Rightarrow> nqstr \<Rightarrow> nq_list_str option \<Rightarrow> nqstr \<Rightarrow> nq_result_process_result nq" where
  "nq_run_process c = run_request (run_prepare c) c"

section \<open>Checking the arguments of an owned process\<close>

fun all_valid :: "config \<Rightarrow> ptr \<Rightarrow> nat \<Rightarrow> nat \<Rightarrow> bool nq" where
  "all_valid c strings i 0 = ret True"
| "all_valid c strings i (Suc n) =
     bind (load_str strings i) (\<lambda>t.
       if \<not> nq_str_storage_is_valid c t then ret False
       else bind (nq_str_has_nul t) (\<lambda>nul. if nul then ret False else all_valid c strings (i + 1) n))"

definition nq_process_list_valid :: "config \<Rightarrow> nq_list_str option \<Rightarrow> bool nq" where
  "nq_process_list_valid c p =
     (case p of
        None \<Rightarrow> ret False
      | Some l \<Rightarrow>
          if l_len l < 0 \<or> l_cap l < l_len l \<or> nat (l_len l) > nq_sequence_limit c (nat INT32_MAX) \<or>
             l_len l > 0 \<and> l_data l = PNull then ret False
          else all_valid c (l_data l) 0 (nat (l_len l)))"

text \<open>The length of the key of \<open>KEY=value\<close>, 0 when it is not one: the scan, and the function.\<close>

definition key_char :: "nat \<Rightarrow> char \<Rightarrow> bool" where
  "key_char index ch \<longleftrightarrow>
     (let n = of_char ch :: nat in
      97 \<le> n \<and> n \<le> 122 \<or> 65 \<le> n \<and> n \<le> 90 \<or> n = 95 \<or> index > 0 \<and> 48 \<le> n \<and> n \<le> 57)"

fun env_key_scan :: "nat \<Rightarrow> string \<Rightarrow> nat" where
  "env_key_scan index [] = 0"
| "env_key_scan index (ch # rest) =
     (if ch = CHR ''='' then index
      else if \<not> key_char index ch then 0
      else env_key_scan (index + 1) rest)"

definition nq_process_env_key :: "nqstr \<Rightarrow> nat nq" where
  "nq_process_env_key entry =
     bind (load_bytes (s_data entry) (to_size (s_len entry))) (\<lambda>bs. ret (env_key_scan 0 bs))"

text \<open>\<open>memcmp(entry.data, bytes, n) == 0\<close>.\<close>

definition key_is :: "nqstr \<Rightarrow> string \<Rightarrow> bool nq" where
  "key_is entry key = bind (load_bytes (s_data entry) (length key)) (\<lambda>bs. ret (bs = key))"

fun env_matches :: "ptr \<Rightarrow> nat \<Rightarrow> nat \<Rightarrow> string \<Rightarrow> bool nq" where
  "env_matches env i 0 key = ret False"
| "env_matches env i (Suc n) key =
     bind (load_str env i) (\<lambda>replacement.
     bind (nq_process_env_key replacement) (\<lambda>len.
     bind (if len = length key then key_is replacement key else ret False) (\<lambda>same.
       if same then ret True else env_matches env (i + 1) n key)))"

definition nq_process_env_replaced :: "string \<Rightarrow> nq_list_str \<Rightarrow> bool nq" where
  "nq_process_env_replaced entry env =
     (if CHR ''='' \<notin> set entry then ret False
      else env_matches (l_data env) 0 (nat (l_len env)) (takeWhile (\<lambda>ch. ch \<noteq> CHR ''='') entry))"

text \<open>
  The loop that checks the keys: every entry has one, and no two the same. The defect, if any,
  is the message of the error.
\<close>

fun key_duplicated :: "ptr \<Rightarrow> string \<Rightarrow> nat \<Rightarrow> nat \<Rightarrow> bool \<Rightarrow> bool nq" where
  "key_duplicated env key previous 0 duplicate = ret duplicate"
| "key_duplicated env key previous (Suc n) duplicate =
     bind (load_str env previous) (\<lambda>entry.
     bind (nq_process_env_key entry) (\<lambda>len.
     bind (if len = length key then key_is entry key else ret False) (\<lambda>same.
       key_duplicated env key (previous + 1) n (duplicate \<or> same))))"

fun check_env :: "ptr \<Rightarrow> nat \<Rightarrow> nat \<Rightarrow> string option nq" where
  "check_env env index 0 = ret None"
| "check_env env index (Suc n) =
     bind (load_str env index) (\<lambda>entry.
     bind (nq_process_env_key entry) (\<lambda>key.
       if key = 0 then ret (Some ''invalid environment key'')
       else bind (load_bytes (s_data entry) key) (\<lambda>name.
         bind (key_duplicated env name 0 index False) (\<lambda>duplicate.
           if duplicate then ret (Some ''invalid or duplicate environment key'')
           else check_env env (index + 1) n))))"

section \<open>Starting an owned process\<close>

text \<open>The local variables of \<open>nq_process_start\<close> that the block after \<open>release:\<close> reads.\<close>

record launch =
  la_executable :: ptr
  la_directory :: ptr
  la_argv :: ptr
  la_envp :: ptr
  la_inherited :: nat
  la_env_used :: nat
  la_env_borrowed :: nat
  la_pipes :: "(int \<times> int) list"
  la_child :: nq_process

text \<open>\<open>Going\<close>, or what the jump to \<open>release:\<close> reports.\<close>

datatype launch_status = Going | AllocationFailed alloc_failure | SystemError int

type_synonym launching = "(launch \<times> launch_status) nq"

definition next_step :: "launching \<Rightarrow> (launch \<Rightarrow> launching) \<Rightarrow> launching" where
  "next_step m f = bind m (\<lambda>(l, status). if status = Going then f l else ret (l, status))"

definition no_launch :: launch where
  "no_launch = \<lparr>la_executable = PNull, la_directory = PNull, la_argv = PNull, la_envp = PNull,
     la_inherited = 0, la_env_used = 0, la_env_borrowed = 0, la_pipes = replicate 4 (-1, -1),
     la_child = None\<rparr>"

text \<open>Counting the environment the process has, up to the limit.\<close>

definition start_count :: "config \<Rightarrow> launch \<Rightarrow> launching" where
  "start_count c l =
     bind (gets environ) (\<lambda>env.
       let n = (case env of None \<Rightarrow> 0 | Some es \<Rightarrow> length es); limit = nq_sequence_limit c (nat INT32_MAX) in
       ret (if n > limit then (l\<lparr>la_inherited := limit\<rparr>, AllocationFailed ALLOC_SIZE)
            else (l\<lparr>la_inherited := n\<rparr>, Going)))"

definition start_vectors :: "config \<Rightarrow> nat \<Rightarrow> nat \<Rightarrow> launch \<Rightarrow> launching" where
  "start_vectors c n_args n_env l =
     (case Option.bind (nq_size_add n_args 2 (nq_allocation_limit c)) (\<lambda>k.
             map_option (\<lambda>sz. (k, sz)) (nq_size_mul c k sizeof_ptr)) of
        None \<Rightarrow> ret (l, AllocationFailed ALLOC_SIZE)
      | Some (k, sz) \<Rightarrow>
        bind (nq_try_realloc c KPtrs PNull sz) (\<lambda>r. case r of
          Inl st \<Rightarrow> ret (l, AllocationFailed st)
        | Inr argv \<Rightarrow>
          let l = l\<lparr>la_argv := argv\<rparr> in
          andthen (clear_cells argv 0 k)
          (case Option.bind (nq_size_add (la_inherited l) n_env (nq_allocation_limit c)) (\<lambda>k.
                  Option.bind (nq_size_add k 1 (nq_allocation_limit c)) (\<lambda>k.
                  map_option (\<lambda>sz. (k, sz)) (nq_size_mul c k sizeof_ptr))) of
             None \<Rightarrow> ret (l, AllocationFailed ALLOC_SIZE)
           | Some (k, sz) \<Rightarrow>
             bind (nq_try_realloc c KPtrs PNull sz) (\<lambda>r. case r of
               Inl st \<Rightarrow> ret (l, AllocationFailed st)
             | Inr envp \<Rightarrow>
               andthen (clear_cells envp 0 k) (ret (l\<lparr>la_envp := envp\<rparr>, Going))))))"

definition start_names :: "config \<Rightarrow> nqstr \<Rightarrow> nqstr \<Rightarrow> nq_list_str \<Rightarrow> launch \<Rightarrow> launching" where
  "start_names c program cwd args l =
     bind (nq_try_cstr_copy c (s_data program) (to_size (s_len program))) (\<lambda>r. case r of
       Inl st \<Rightarrow> ret (l, AllocationFailed st)
     | Inr executable \<Rightarrow>
       let l = l\<lparr>la_executable := executable\<rparr> in
       bind (nq_try_cstr_copy c (s_data cwd) (to_size (s_len cwd))) (\<lambda>r. case r of
         Inl st \<Rightarrow> ret (l, AllocationFailed st)
       | Inr directory \<Rightarrow>
         let l = l\<lparr>la_directory := directory\<rparr> in
         andthen (store_cell (la_argv l) 0 executable)
         (bind (copy_strs c (l_data args) 0 (la_argv l) 1 (nat (l_len args))) (\<lambda>(_, failed).
           ret (l, case failed of Some st \<Rightarrow> AllocationFailed st | None \<Rightarrow> Going)))))"

text \<open>The inherited entries that no entry of \<open>env\<close> replaces are borrowed; those of \<open>env\<close> are copied.\<close>

fun borrow_env :: "nq_list_str \<Rightarrow> ptr \<Rightarrow> string list \<Rightarrow> nat \<Rightarrow> nat nq" where
  "borrow_env env envp [] used = ret used"
| "borrow_env env envp (e # es) used =
     bind (nq_process_env_replaced e env) (\<lambda>replaced.
       if replaced then borrow_env env envp es used
       else andthen (store_cell envp used (PLit e 0)) (borrow_env env envp es (used + 1)))"

definition start_env :: "config \<Rightarrow> nq_list_str \<Rightarrow> launch \<Rightarrow> launching" where
  "start_env c env l =
     bind (gets environ) (\<lambda>inherited.
     bind (borrow_env env (la_envp l) (case inherited of None \<Rightarrow> [] | Some es \<Rightarrow> es) 0) (\<lambda>used.
     bind (copy_strs c (l_data env) 0 (la_envp l) used (nat (l_len env))) (\<lambda>(made, failed).
       ret (l\<lparr>la_env_borrowed := used, la_env_used := used + made\<rparr>,
            case failed of Some st \<Rightarrow> AllocationFailed st | None \<Rightarrow> Going))))"

definition fresh_process :: "int \<Rightarrow> nq_process_state" where
  "fresh_process max_output_bytes =
     \<lparr>ps_pid = 0, ps_group = False, ps_ready = False, ps_signalled = False, ps_terminal_signalled = False,
      ps_input_fd = -1, ps_output_fd = -1, ps_error_fd = -1, ps_input = nq_empty_str, ps_sent = 0,
      ps_limit = nat max_output_bytes, ps_output = zero_buffer, ps_error = zero_buffer,
      ps_outcome = zero_outcome\<lparr>po_stdout := nq_empty_str, po_stderr := nq_empty_str\<rparr>\<rparr>"

definition start_state :: "config \<Rightarrow> nq_option_str \<Rightarrow> int \<Rightarrow> launch \<Rightarrow> launching" where
  "start_state c input max_output_bytes l =
     bind (nq_try_realloc c KStruct PNull sizeof_process_state) (\<lambda>r. case r of
       Inl st \<Rightarrow> ret (l, AllocationFailed st)
     | Inr p \<Rightarrow> bind (block_of p) (\<lambda>b.
       let l = l\<lparr>la_child := Some b\<rparr>; st = fresh_process max_output_bytes in
       andthen (store_proc b st)
       (case input of
          Some t \<Rightarrow>
            if s_len t > 0
            then bind (nq_try_str_copy c (s_data t) (to_size (s_len t))) (\<lambda>r. case r of
              Inl st \<Rightarrow> ret (l, AllocationFailed st)
            | Inr copy \<Rightarrow> andthen (store_proc b (st\<lparr>ps_input := copy\<rparr>)) (ret (l, Going)))
            else ret (l, Going)
        | None \<Rightarrow> ret (l, Going))))"

text \<open>\<open>for (index = 0; index < 4; index++)\<close>: pipes for stdin, stdout, stderr and the handshake.\<close>

fun start_pipes :: "bool \<Rightarrow> bool \<Rightarrow> nat \<Rightarrow> nat \<Rightarrow> launch \<Rightarrow> launching" where
  "start_pipes has_input capture index 0 l = ret (l, Going)"
| "start_pipes has_input capture index (Suc n) l =
     (if index = 0 \<and> \<not> has_input \<or> (index = 1 \<or> index = 2) \<and> \<not> capture
      then start_pipes has_input capture (index + 1) n l
      else bind (nq_process_pipe (la_pipes l ! index)) (\<lambda>(system_error, pair).
        let l = l\<lparr>la_pipes := (la_pipes l)[index := pair]\<rparr> in
        if system_error \<noteq> 0 then ret (l, SystemError system_error)
        else bind (if index < 3 then nq_process_nonblocking (if index = 0 then snd pair else fst pair) else ret 0)
          (\<lambda>system_error.
            if system_error \<noteq> 0 then ret (l, SystemError system_error)
            else start_pipes has_input capture (index + 1) n l)))"

text \<open>The child's end of a pipe.\<close>

definition child_end :: "nat \<Rightarrow> int \<times> int \<Rightarrow> int" where
  "child_end index pair = (if index = 0 then fst pair else snd pair)"

fun child_dups :: "(int \<times> int) list \<Rightarrow> nat \<Rightarrow> nat \<Rightarrow> int nq" where
  "child_dups pipes index 0 = ret 0"
| "child_dups pipes index (Suc n) =
     (let fd = child_end index (pipes ! index) in
      bind (if fd \<ge> 0 then nq_process_dup2 fd (int index) else ret 0) (\<lambda>r.
        if r < 0 then ret r else child_dups pipes (index + 1) n))"

fun close_all :: "int list \<Rightarrow> unit nq" where
  "close_all [] = ret ()"
| "close_all (fd # fds) = andthen (close_if_open fd) (close_all fds)"

text \<open>The child: it ends by \<open>exec\<close> or \<open>_exit\<close>.\<close>

definition start_child :: "launch \<Rightarrow> 'a nq" where
  "start_child l =
     (let report = bind get_errno (\<lambda>e. nq_process_child_error (snd (la_pipes l ! 3)) e) in
      bind (retry_call (Setpgid 0 0)) (\<lambda>r.
      if r_ret r < 0 then report else
      bind (load_c_string (la_directory l)) (\<lambda>dir.
      bind (retry_call (Chdir dir)) (\<lambda>r.
      if r_ret r < 0 then report else
      bind (child_dups (la_pipes l) 0 3) (\<lambda>r.
      if r < 0 then report else
      andthen (close_all (concat (map (\<lambda>i. if i = 3 then [fst (la_pipes l ! 3)]
                                       else [fst (la_pipes l ! i), snd (la_pipes l ! i)]) [0..<4])))
      (bind (load_c_string (la_executable l)) (\<lambda>file.
      bind (load_vector (la_argv l)) (\<lambda>args.
      bind (load_vector (la_envp l)) (\<lambda>env.
      andthen (loop (\<lambda>_::unit. bind (call_int (Execve file args env)) (\<lambda>r.
          if r \<ge> 0 then stop Execed
          else bind get_errno (\<lambda>e. ret (if e = EINTR then Inl () else Inr ())))) ())
        report)))))))))"

text \<open>The parent's side: the process group, the pipes, the exec handshake.\<close>

fun close_child_ends :: "nat \<Rightarrow> (int \<times> int) list \<Rightarrow> (int \<times> int) list nq" where
  "close_child_ends index [] = ret []"
| "close_child_ends index ((a, b) # pipes) =
     bind (if index = 0 then bind (nq_process_close_fd a) (\<lambda>a. ret (a, b))
           else bind (nq_process_close_fd b) (\<lambda>b. ret (a, b))) (\<lambda>pair.
     bind (close_child_ends (index + 1) pipes) (\<lambda>rest. ret (pair # rest)))"

definition start_parent :: "int \<Rightarrow> launch \<Rightarrow> launching" where
  "start_parent pid l =
     bind (case la_child l of Some b \<Rightarrow> ret b | None \<Rightarrow> stop Undefined) (\<lambda>b.
     bind (load_proc b) (\<lambda>st.
     andthen (store_proc b (st\<lparr>ps_pid := pid\<rparr>))
     (bind (retry_call (Setpgid pid pid)) (\<lambda>grouped. bind get_errno (\<lambda>e.
      if r_ret grouped < 0 \<and> e \<noteq> EACCES \<and> e \<noteq> ESRCH then ret (l, SystemError e)
      else
        andthen (store_proc b (st\<lparr>ps_pid := pid, ps_group := True\<rparr>))
        (bind (close_child_ends 0 (la_pipes l)) (\<lambda>pipes.
         let l = l\<lparr>la_pipes := pipes\<rparr> in
         bind (nq_process_exec_error (fst (pipes ! 3))) (\<lambda>system_error.
           if system_error \<noteq> 0 then ret (l, SystemError system_error)
           else
             andthen (store_proc b (st\<lparr>ps_pid := pid, ps_group := True, ps_input_fd := snd (pipes ! 0),
                        ps_output_fd := fst (pipes ! 1), ps_error_fd := fst (pipes ! 2)\<rparr>))
             (ret (l\<lparr>la_pipes := [(fst (pipes ! 0), -1), (-1, snd (pipes ! 1)), (-1, snd (pipes ! 2)), pipes ! 3]\<rparr>,
                   Going))))))))))"

definition start_fork :: "launch \<Rightarrow> launching" where
  "start_fork l =
     bind (retry_call Fork) (\<lambda>pid.
       if r_ret pid < 0 then bind get_errno (\<lambda>e. ret (l, SystemError e))
       else if r_ret pid = 0 then start_child l
       else start_parent (r_ret pid) l)"

text \<open>The block after \<open>release:\<close>.\<close>

definition start_release :: "config \<Rightarrow> nqstr \<Rightarrow> nq_list_str \<Rightarrow> launch \<Rightarrow> launch_status \<Rightarrow> nq_result_process nq" where
  "start_release c program args l status =
     andthen (close_all (concat (map (\<lambda>pair. [fst pair, snd pair]) (la_pipes l))))
     (andthen (if la_argv l \<noteq> PNull then free_cells (la_argv l) 1 (nat (l_len args)) else ret ())
     (andthen (free_cells (la_envp l) (la_env_borrowed l) (la_env_used l - la_env_borrowed l))
     (andthen (c_free (la_argv l)) (andthen (c_free (la_envp l))
     (andthen (c_free (la_executable l)) (andthen (c_free (la_directory l))
     (if status = Going \<or> status = SystemError 0 then ret (Ok (la_child l))
      else bind (nq_process_drop (Some (la_child l))) (\<lambda>_.
        bind (case status of
                AllocationFailed st \<Rightarrow> nq_allocation_io_err c (Some ''process_start'') st
              | SystemError e \<Rightarrow> nq_errno_io_err c (Some ''process_start'') (Some program) None e
              | Going \<Rightarrow> stop Undefined) (\<lambda>err. ret (Err err))))))))))"

text \<open>
  The validation. A tag of \<open>input\<close> that is neither \<open>Some\<close> nor \<open>None\<close> cannot be written in the
  model; the code rejects it.
\<close>

definition start_invalid ::
  "config \<Rightarrow> nqstr \<Rightarrow> nq_list_str option \<Rightarrow> nqstr \<Rightarrow> nq_list_str option \<Rightarrow> nq_option_str \<Rightarrow> bool \<Rightarrow> int \<Rightarrow> bool nq" where
  "start_invalid c program args cwd env input capture max_output_bytes =
     (let no = (\<lambda>m f. bind m (\<lambda>b. if b then ret True else f)) in
      no (ret (\<not> nq_str_storage_is_valid c program \<or> s_len program = 0))
     (no (bind (load_bytes (s_data program) 1) (\<lambda>bs. ret (bs \<noteq> ''/'')))
     (no (nq_str_has_nul program)
     (no (ret (\<not> nq_str_storage_is_valid c cwd \<or> s_len cwd = 0))
     (no (nq_str_has_nul cwd)
     (no (bind (nq_process_list_valid c args) (\<lambda>b. ret (\<not> b)))
     (no (bind (nq_process_list_valid c env) (\<lambda>b. ret (\<not> b)))
     (ret ((case input of Some t \<Rightarrow> \<not> nq_str_storage_is_valid c t | None \<Rightarrow> False) \<or>
           max_output_bytes < 0 \<or> max_output_bytes > INT32_MAX \<or> \<not> capture \<and> max_output_bytes \<noteq> 0)))))))))"

definition nq_process_start ::
  "config \<Rightarrow> nqstr \<Rightarrow> nq_list_str option \<Rightarrow> nqstr \<Rightarrow> nq_list_str option \<Rightarrow> nq_option_str \<Rightarrow> bool \<Rightarrow> int \<Rightarrow>
     nq_result_process nq" where
  "nq_process_start c program args cwd env input capture max_output_bytes =
     (let invalid = (\<lambda>detail. bind (nq_invalid_input_io_err c (Some ''process_start'') None None detail)
                       (\<lambda>err. ret (Err err)))
      in bind (start_invalid c program args cwd env input capture max_output_bytes) (\<lambda>bad.
      if bad then invalid ''invalid process arguments, absolute executable, or capture limit''
      else case (args, env) of
        (Some args, Some env) \<Rightarrow>
          bind (check_env (l_data env) 0 (nat (l_len env))) (\<lambda>defect. case defect of
            Some detail \<Rightarrow> invalid detail
          | None \<Rightarrow>
            bind (next_step (start_count c no_launch) (\<lambda>l.
                  next_step (start_vectors c (nat (l_len args)) (nat (l_len env)) l) (\<lambda>l.
                  next_step (start_names c program cwd args l) (\<lambda>l.
                  next_step (start_env c env l) (\<lambda>l.
                  next_step (start_state c input max_output_bytes l) (\<lambda>l.
                  next_step (start_pipes (input \<noteq> None) capture 0 4 l) start_fork))))))
              (\<lambda>(l, status). start_release c program args l status))
      | _ \<Rightarrow> stop Undefined))"

section \<open>Waiting for an owned process, and ending it\<close>

definition nq_process_wait :: "config \<Rightarrow> nq_process \<Rightarrow> nq_option_instant \<Rightarrow> nq_result_process_outcome nq" where
  "nq_process_wait c child deadline =
     (case child of
        None \<Rightarrow> bind (nq_invalid_input_io_err c (Some ''process_wait'') None None ''inert process handle'')
                  (\<lambda>err. ret (Err err))
      | Some b \<Rightarrow>
        bind (load_proc b) (\<lambda>st.
        bind (if ps_ready st then ret (st, None) else nq_process_pump c st deadline False ''process_wait'')
          (\<lambda>(st, failed). case failed of
            None \<Rightarrow>
              andthen (store_proc b (st\<lparr>ps_outcome := zero_outcome\<rparr>))
              (bind (nq_process_drop (Some child)) (\<lambda>_. ret (Ok (ps_outcome st))))
          | Some err \<Rightarrow>
              andthen (store_proc b st)
              (bind (nq_process_drop (Some child)) (\<lambda>_. ret (Err err))))))"

text \<open>\<open>nq_process_terminate(&child)\<close>: the result and what the variable holds afterwards.\<close>

definition nq_process_terminate :: "config \<Rightarrow> nq_process option \<Rightarrow> (nq_process option \<times> nq_result_unit) nq" where
  "nq_process_terminate c child =
     (case child of
        Some (Some b) \<Rightarrow>
          bind (load_proc b) (\<lambda>st.
          bind (if ps_ready st then ret (st, None) else nq_process_pump c st None True ''process_terminate'')
            (\<lambda>(st, failed). andthen (store_proc b st) (case failed of
              None \<Rightarrow> ret (child, nq_unit_ok)
            | Some err \<Rightarrow> bind (nq_process_drop child) (\<lambda>child. ret (child, nq_unit_err err)))))
      | _ \<Rightarrow> bind (nq_invalid_input_io_err c (Some ''process_terminate'') None None ''inert process handle'')
               (\<lambda>err. ret (child, nq_unit_err err)))"

end
