(* ===== verification/Floats.thy ===== *)
theory Floats
  imports Errors
begin

text \<open>
  The \<open>f64\<close> operations of \<open>stdlib/runtime.c\<close>: the conversions between integers and floats, the
  shortest decimal of a float (\<open>nq_f64_shortest\<close>), its placement (\<open>nq_f64_place\<close>),
  \<open>nq_str_from_f64\<close>, the grammar of JSON numbers (\<open>nq_f64_grammar\<close>) and \<open>nq_f64_from_str\<close>.

  The first sections model what C and its library give the code: a \<open>double\<close> is an IEEE binary64
  value (\<open>runtime.h\<close> refuses to compile elsewhere), arithmetic on it is exact and then rounded to
  nearest, ties to even; \<open>snprintf("%.*e")\<close> and \<open>strtod\<close> round correctly, as in glibc and as
  Annex F of C11 recommends. Everything computes on integers.
\<close>

section \<open>IEEE binary64\<close>

text \<open>\<open>Finite neg m e\<close> is \<open>m * 2^e\<close>, with the sign apart; zeros have a sign too.\<close>

datatype f64 = NaN bool | Infinite bool | Finite bool nat int

type_synonym nq_option_f64 = "f64 option"

definition f64_ok :: "f64 \<Rightarrow> bool" where
  "f64_ok x \<longleftrightarrow> (case x of
     Finite _ m e \<Rightarrow> m < 2 ^ 53 \<and> -1074 \<le> e \<and> e \<le> 971 \<and> (2 ^ 52 \<le> m \<or> e = -1074) | _ \<Rightarrow> True)"

definition f64_sign :: "f64 \<Rightarrow> bool" where
  "f64_sign x = (case x of NaN b \<Rightarrow> b | Infinite b \<Rightarrow> b | Finite b _ _ \<Rightarrow> b)"

definition DBL_MAX :: f64 where "DBL_MAX = Finite False (2 ^ 53 - 1) 971"

text \<open>Order and equality as C has them: NaN is neither below, above nor equal to anything.\<close>

definition scaled :: "bool \<Rightarrow> nat \<Rightarrow> int \<Rightarrow> int \<Rightarrow> int" where
  "scaled neg m e base = (if neg then - int m else int m) * 2 ^ nat (e - base)"

fun f64_less :: "f64 \<Rightarrow> f64 \<Rightarrow> bool" where
  "f64_less (Finite s m e) (Finite s' m' e') = (scaled s m e (min e e') < scaled s' m' e' (min e e'))"
| "f64_less (Infinite s) (Finite _ _ _) = s"
| "f64_less (Finite _ _ _) (Infinite s) = (\<not> s)"
| "f64_less (Infinite s) (Infinite s') = (s \<and> \<not> s')"
| "f64_less _ _ = False"

fun f64_eq :: "f64 \<Rightarrow> f64 \<Rightarrow> bool" where
  "f64_eq (Finite s m e) (Finite s' m' e') = (scaled s m e (min e e') = scaled s' m' e' (min e e'))"
| "f64_eq (Infinite s) (Infinite s') = (s = s')"
| "f64_eq _ _ = False"

fun f64_neg :: "f64 \<Rightarrow> f64" where
  "f64_neg (NaN s) = NaN (\<not> s)"
| "f64_neg (Infinite s) = Infinite (\<not> s)"
| "f64_neg (Finite s m e) = Finite (\<not> s) m e"

text \<open>The number of binary digits.\<close>

fun bit_count :: "nat \<Rightarrow> nat" where
  "bit_count n = (if n = 0 then 0 else Suc (bit_count (n div 2)))"

declare bit_count.simps [simp del]

definition round_half_even :: "nat \<Rightarrow> nat \<Rightarrow> nat" where
  "round_half_even num den =
     (let q = num div den; r = num mod den in
      if 2 * r > den \<or> 2 * r = den \<and> odd q then q + 1 else q)"

text \<open>\<open>num / den / 2^e\<close> as a fraction.\<close>

definition scale_num :: "nat \<Rightarrow> int \<Rightarrow> nat" where
  "scale_num num e = (if e < 0 then num * 2 ^ nat (- e) else num)"

definition scale_den :: "nat \<Rightarrow> int \<Rightarrow> nat" where
  "scale_den den e = (if e < 0 then den else den * 2 ^ nat e)"

text \<open>The exponent with which \<open>num / den\<close> has 53 bits, or that of the subnormals.\<close>

definition exponent_of :: "nat \<Rightarrow> nat \<Rightarrow> int" where
  "exponent_of num den =
     (let e = int (bit_count num) - int (bit_count den) - 53;
          e = (if 2 ^ 53 * scale_den den e \<le> scale_num num e then e + 1 else e)
      in max e (-1074))"

definition round_ratio :: "bool \<Rightarrow> nat \<Rightarrow> nat \<Rightarrow> f64" where
  "round_ratio neg num den =
     (if num = 0 then Finite neg 0 (-1074)
      else
        let e = exponent_of num den;
            m = round_half_even (scale_num num e) (scale_den den e);
            (m, e) = (if m = 2 ^ 53 then (2 ^ 52, e + 1) else (m, e))
        in if e > 971 then Infinite neg else Finite neg m e)"

text \<open>\<open>(double)n\<close> and \<open>(intN_t)x\<close>; the second is undefined outside the type.\<close>

definition f64_of_int :: "int \<Rightarrow> f64" where
  "f64_of_int n = round_ratio (n < 0) (nat \<bar>n\<bar>) 1"

definition truncated :: "bool \<Rightarrow> nat \<Rightarrow> int \<Rightarrow> int" where
  "truncated neg m e =
     (let v = int (if e < 0 then m div 2 ^ nat (- e) else m * 2 ^ nat e) in if neg then - v else v)"

definition c_int_of_f64 :: "int \<Rightarrow> int \<Rightarrow> f64 \<Rightarrow> int nq" where
  "c_int_of_f64 lowest highest x =
     (case x of
        Finite neg m e \<Rightarrow>
          if lowest \<le> truncated neg m e \<and> truncated neg m e \<le> highest then ret (truncated neg m e)
          else stop Undefined
      | _ \<Rightarrow> stop Undefined)"

section \<open>Decimal text in the C library\<close>

definition digit_value :: "char \<Rightarrow> nat" where
  "digit_value ch = of_char ch - 48"

definition digit_char :: "nat \<Rightarrow> char" where
  "digit_char n = char_of (48 + n)"

definition nq_f64_is_digit :: "char \<Rightarrow> bool" where
  "nq_f64_is_digit ch \<longleftrightarrow> of_char ch \<ge> (48::nat) \<and> of_char ch \<le> (57::nat)"

definition digits_value :: "string \<Rightarrow> nat" where
  "digits_value ds = foldl (\<lambda>n ch. n * 10 + digit_value ch) 0 ds"

text \<open>\<open>%llu\<close> and \<open>%d\<close>.\<close>

fun show_nat :: "nat \<Rightarrow> string" where
  "show_nat n = (if n < 10 then [digit_char n] else show_nat (n div 10) @ [digit_char (n mod 10)])"

declare show_nat.simps [simp del]

definition show_int :: "int \<Rightarrow> string" where
  "show_int n = (if n < 0 then ''-'' @ show_nat (nat (- n)) else show_nat (nat n))"

text \<open>
  \<open>strtod\<close> on decimal text: the value and how many characters it takes. (White space, hexadecimal,
  \<open>inf\<close> and \<open>nan\<close> are left out: the code calls it only on text that starts with a digit or with a
  minus sign and a digit.)
\<close>

definition take_sign :: "string \<Rightarrow> bool \<times> string" where
  "take_sign xs = (case xs of
     [] \<Rightarrow> (False, [])
   | ch # rest \<Rightarrow> if ch = CHR ''-'' then (True, rest) else if ch = CHR ''+'' then (False, rest) else (False, xs))"

definition take_digits :: "string \<Rightarrow> string \<times> string" where
  "take_digits xs = (takeWhile nq_f64_is_digit xs, dropWhile nq_f64_is_digit xs)"

definition take_fraction :: "string \<Rightarrow> string \<times> string" where
  "take_fraction xs = (case xs of [] \<Rightarrow> ([], []) | ch # rest \<Rightarrow> if ch = CHR ''.'' then take_digits rest else ([], xs))"

definition take_exponent :: "string \<Rightarrow> int \<times> string" where
  "take_exponent xs = (case xs of
     [] \<Rightarrow> (0, [])
   | ch # rest \<Rightarrow>
       if ch = CHR ''e'' \<or> ch = CHR ''E''
       then let (neg, r) = take_sign rest; (ds, r) = take_digits r in
            if ds = [] then (0, xs)
            else (if neg then - int (digits_value ds) else int (digits_value ds), r)
       else (0, xs))"

text \<open>\<open>mant * 10^q\<close>, rounded.\<close>

definition round_decimal :: "bool \<Rightarrow> nat \<Rightarrow> int \<Rightarrow> f64" where
  "round_decimal neg mant q =
     round_ratio neg (if q < 0 then mant else mant * 10 ^ nat q) (if q < 0 then 10 ^ nat (- q) else 1)"

definition c_strtod :: "string \<Rightarrow> f64 \<times> nat" where
  "c_strtod xs =
     (let (neg, r) = take_sign xs; (ip, r) = take_digits r; (fp, r) = take_fraction r in
      if ip = [] \<and> fp = [] then (Finite False 0 (-1074), 0)
      else let (ex, r) = take_exponent r in
        (round_decimal neg (digits_value (ip @ fp)) (ex - int (length fp)), length xs - length r))"

text \<open>
  \<open>snprintf("%.*e")\<close> of a positive finite value, with \<open>precision\<close> digits: the decimal exponent, the
  rounded digits, the text.
\<close>

function small_exponent :: "nat \<Rightarrow> nat \<Rightarrow> nat" where
  "small_exponent num den = (if num = 0 \<or> num \<ge> den then 0 else Suc (small_exponent (num * 10) den))"
  by pat_completeness auto

termination
  by (relation "measure (\<lambda>(num, den). den - num)") auto

declare small_exponent.simps [simp del]

definition decimal_exponent :: "nat \<Rightarrow> nat \<Rightarrow> int" where
  "decimal_exponent num den =
     (if num \<ge> den then int (length (show_nat (num div den))) - 1 else - int (small_exponent num den))"

definition decimal_digits :: "nat \<Rightarrow> nat \<Rightarrow> nat \<Rightarrow> nat \<times> int" where
  "decimal_digits precision num den =
     (let x = decimal_exponent num den; q = x - (int precision - 1);
          mant = round_half_even (if q < 0 then num * 10 ^ nat (- q) else num)
                                 (if q < 0 then den else den * 10 ^ nat q)
      in if mant = 10 ^ precision then (10 ^ (precision - 1), x + 1) else (mant, x))"

definition format_exponent :: "int \<Rightarrow> string" where
  "format_exponent x =
     (let ds = show_nat (nat \<bar>x\<bar>) in
      (if x < 0 then ''-'' else ''+'') @ (if length ds < 2 then ''0'' @ ds else ds))"

definition format_e :: "nat \<Rightarrow> f64 \<Rightarrow> string" where
  "format_e precision a =
     (case a of
        Finite _ m e \<Rightarrow>
          (let (mant, x) = decimal_digits precision (if e < 0 then m else m * 2 ^ nat e)
                             (if e < 0 then 2 ^ nat (- e) else 1);
               ds = show_nat mant
           in hd ds # (if precision = 1 then [] else CHR ''.'' # tl ds) @ CHR ''e'' # format_exponent x)
      | _ \<Rightarrow> ''inf'')"

section \<open>Conversions between integers and floats\<close>

definition nq_f64_from_i32 :: "int \<Rightarrow> f64" where
  "nq_f64_from_i32 v = f64_of_int v"

definition two_to_63 :: f64 where "two_to_63 = Finite False (2 ^ 52) 11"

definition nq_f64_from_i64 :: "int \<Rightarrow> nq_option_f64 nq" where
  "nq_f64_from_i64 v =
     (let rounded = f64_of_int v in
      if \<not> (f64_less two_to_63 rounded \<or> f64_eq two_to_63 rounded)
      then bind (c_int_of_f64 INT64_MIN INT64_MAX rounded) (\<lambda>n. ret (if n = v then Some rounded else None))
      else ret None)"

definition nq_f64_trunc_i32 :: "f64 \<Rightarrow> nq_option_i32 nq" where
  "nq_f64_trunc_i32 v =
     (if f64_less (f64_of_int (-2147483649)) v \<and> f64_less v (f64_of_int 2147483648)
      then bind (c_int_of_f64 INT32_MIN INT32_MAX v) (\<lambda>n. ret (Some n))
      else ret None)"

definition nq_f64_trunc_i64 :: "f64 \<Rightarrow> nq_option_i64 nq" where
  "nq_f64_trunc_i64 v =
     (if (f64_less (f64_neg two_to_63) v \<or> f64_eq (f64_neg two_to_63) v) \<and> f64_less v two_to_63
      then bind (c_int_of_f64 INT64_MIN INT64_MAX v) (\<lambda>n. ret (Some n))
      else ret None)"

section \<open>Text of a float\<close>

definition nq_numeric_locale_fail :: "'a nq" where
  "nq_numeric_locale_fail =
     andthen (emit (Fputs ''nauqtype runtime: numeric locale unavailable\<newline>'')) (stop (Exit 1))"

definition nq_float_internal_fail :: "string \<Rightarrow> 'a nq" where
  "nq_float_internal_fail what =
     andthen (emit (Fputs ''nauqtype runtime: internal float ''))
     (andthen (emit (Fputs what)) (andthen (emit (Fputs '' mismatch\<newline>'')) (stop (Exit 1))))"

text \<open>Entering the C locale for one call; the objects themselves are not modelled.\<close>

definition nq_numeric_locale_enter :: "bool nq" where
  "nq_numeric_locale_enter =
     bind (sys Newlocale) (\<lambda>active.
       if r_ret active = 0 then ret False
       else bind (sys Uselocale) (\<lambda>previous.
         if r_ret previous = 0 then andthen (emit Freelocale) (ret False) else ret True))"

definition nq_numeric_locale_leave :: "unit nq" where
  "nq_numeric_locale_leave = andthen (emit Uselocale) (emit Freelocale)"

definition nq_f64_decimal_roundtrips :: "nat \<Rightarrow> int \<Rightarrow> f64 \<Rightarrow> bool" where
  "nq_f64_decimal_roundtrips mant q target =
     f64_eq (fst (c_strtod (show_nat mant @ ''e'' @ show_int q))) target"

text \<open>
  Reading the text of \<open>%.*e\<close> back: the digits as an \<open>unsigned long long\<close>, which wraps, and how
  many; then the exponent.
\<close>

definition u64 :: "nat \<Rightarrow> nat" where "u64 n = n mod 18446744073709551616"

fun read_mantissa :: "string \<Rightarrow> nat \<Rightarrow> nat \<Rightarrow> nat \<times> nat \<times> string" where
  "read_mantissa [] mant seen = (mant, seen, [])"
| "read_mantissa (ch # rest) mant seen =
     (if ch = CHR ''e'' then (mant, seen, ch # rest)
      else if nq_f64_is_digit ch
      then read_mantissa rest (u64 (mant * 10 + digit_value ch)) (seen + 1)
      else read_mantissa rest mant seen)"

definition read_exponent :: "string \<Rightarrow> int option" where
  "read_exponent c =
     (let (neg, c) = take_sign c; (ds, _) = take_digits c in
      if ds = [] then None else Some (if neg then - int (digits_value ds) else int (digits_value ds)))"

text \<open>The digits of a number, most significant first (the loop and the reversal), without trailing zeros.\<close>

fun reversed_digits :: "nat \<Rightarrow> string" where
  "reversed_digits n = (if n = 0 then [] else digit_char (n mod 10) # reversed_digits (n div 10))"

declare reversed_digits.simps [simp del]

fun strip_zeros :: "string \<Rightarrow> nat \<Rightarrow> nat" where
  "strip_zeros ds 0 = 0"
| "strip_zeros ds (Suc k) = (if k \<ge> 1 \<and> ds ! k = CHR ''0'' then strip_zeros ds k else Suc k)"

text \<open>The candidates of one precision, \<open>mant\<close> and \<open>mant + 1\<close>; \<open>steps\<close> of them being left.\<close>

fun try_candidates :: "f64 \<Rightarrow> nat \<Rightarrow> int \<Rightarrow> nat \<Rightarrow> nat \<Rightarrow> (string \<times> int) option" where
  "try_candidates a mant q step 0 = None"
| "try_candidates a mant q step (Suc n) =
     (let v = u64 (mant + step) in
      if nq_f64_decimal_roundtrips v q a
      then let ds = rev (reversed_digits v) in
           Some (take (strip_zeros ds (length ds)) ds, q + int (length ds))
      else try_candidates a mant q (step + 1) n)"

fun shortest_from :: "f64 \<Rightarrow> nat \<Rightarrow> nat \<Rightarrow> (string \<times> int) nq" where
  "shortest_from a precision 0 = nq_float_internal_fail ''render''"
| "shortest_from a precision (Suc n) =
     (let (mant, seen, c) = read_mantissa (format_e precision a) 0 0 in
      if c = [] \<or> seen \<noteq> precision then nq_float_internal_fail ''format''
      else case read_exponent (tl c) of
        None \<Rightarrow> nq_float_internal_fail ''format''
      | Some exponent \<Rightarrow>
        (case try_candidates a mant (exponent - (int precision - 1)) 0 2 of
           Some r \<Rightarrow> ret r
         | None \<Rightarrow> shortest_from a (precision + 1) n))"

definition nq_f64_shortest :: "f64 \<Rightarrow> (string \<times> int) nq" where
  "nq_f64_shortest a = shortest_from a 1 17"

definition nq_f64_place :: "bool \<Rightarrow> string \<Rightarrow> int \<Rightarrow> string" where
  "nq_f64_place negative d n =
     (let k = int (length d); sign = (if negative then ''-'' else []) in
      sign @
      (if k \<le> n \<and> n \<le> 21 then d @ replicate (nat (n - k)) (CHR ''0'')
       else if 0 < n \<and> n \<le> 21 then take (nat n) d @ ''.'' @ drop (nat n) d
       else if -6 < n \<and> n \<le> 0 then ''0.'' @ replicate (nat (- n)) (CHR ''0'') @ d
       else let e = n - 1 in
         hd d # (if k > 1 then ''.'' @ tl d else []) @ ''e'' @ (if e < 0 then ''-'' else ''+'')
           @ show_nat (nat \<bar>e\<bar>)))"

definition nq_str_from_f64 :: "config \<Rightarrow> f64 \<Rightarrow> nqstr nq" where
  "nq_str_from_f64 c v =
     (let negative = f64_sign v;
          copy = (\<lambda>out. nq_owned_str_copy c (PLit out 0) (int (length out))) in
      if \<not> f64_eq v v then copy ''NaN''
      else if f64_less DBL_MAX v then copy ''Infinity''
      else if f64_less v (f64_neg DBL_MAX) then copy ''-Infinity''
      else if f64_eq v (Finite False 0 (-1074)) then (if negative then copy ''-0'' else copy ''0'')
      else
        let magnitude = (if negative then f64_neg v else v) in
        bind nq_numeric_locale_enter (\<lambda>entered.
          if \<not> entered then nq_numeric_locale_fail
          else bind (nq_f64_shortest magnitude) (\<lambda>(digits, point).
            andthen nq_numeric_locale_leave (copy (nq_f64_place negative digits point)))))"

section \<open>Float of a text\<close>

text \<open>\<open>while (i < len && nq_f64_is_digit(data[i])) i += 1;\<close> drops digits off the rest of the text.\<close>

definition drop_digits :: "string \<Rightarrow> string" where
  "drop_digits xs = dropWhile nq_f64_is_digit xs"

definition starts_with_digit :: "string \<Rightarrow> bool" where
  "starts_with_digit xs \<longleftrightarrow> xs \<noteq> [] \<and> nq_f64_is_digit (hd xs)"

text \<open>The three parts of the grammar; \<open>None\<close> is \<open>return false\<close>.\<close>

definition grammar_integer :: "string \<Rightarrow> string option" where
  "grammar_integer xs = (case xs of
     [] \<Rightarrow> None
   | ch # rest \<Rightarrow> if ch = CHR ''0'' then Some rest
                  else if nq_f64_is_digit ch then Some (drop_digits rest) else None)"

definition grammar_fraction :: "string \<Rightarrow> string option" where
  "grammar_fraction xs = (case xs of
     [] \<Rightarrow> Some []
   | ch # rest \<Rightarrow>
       if ch = CHR ''.'' then if \<not> starts_with_digit rest then None else Some (drop_digits rest)
       else Some xs)"

definition grammar_exponent :: "string \<Rightarrow> string option" where
  "grammar_exponent xs = (case xs of
     [] \<Rightarrow> Some []
   | ch # rest \<Rightarrow>
       if ch = CHR ''e'' \<or> ch = CHR ''E''
       then let r = (case rest of [] \<Rightarrow> [] | s # r \<Rightarrow> if s = CHR ''+'' \<or> s = CHR ''-'' then r else rest)
            in if \<not> starts_with_digit r then None else Some (drop_digits r)
       else Some xs)"

definition nq_f64_grammar :: "string \<Rightarrow> bool" where
  "nq_f64_grammar xs =
     (let r = (case xs of [] \<Rightarrow> [] | ch # rest \<Rightarrow> if ch = CHR ''-'' then rest else xs) in
      Option.bind (Option.bind (grammar_integer r) grammar_fraction) grammar_exponent = Some [])"

text \<open>What is done with the copy of the text; \<open>owned\<close> is NULL for a copy on the stack.\<close>

definition parse_copy :: "nat \<Rightarrow> ptr \<Rightarrow> ptr \<Rightarrow> nq_option_f64 nq" where
  "parse_copy len owned buffer =
     bind nq_numeric_locale_enter (\<lambda>entered.
       if \<not> entered then andthen (c_free owned) nq_numeric_locale_fail
       else bind (load_c_string buffer) (\<lambda>chars.
         let (result, used) = c_strtod chars in
         andthen nq_numeric_locale_leave
         (if used \<noteq> len then andthen (c_free owned) (nq_float_internal_fail ''parse'')
          else andthen (c_free owned)
            (ret (if f64_less DBL_MAX result \<or> f64_less result (f64_neg DBL_MAX) then None
                  else Some result)))))"

text \<open>
  A short text is copied to an array on the stack, a long one to the heap; either way \<open>strtod\<close> reads
  it up to the NUL. \<open>stack_copy\<close>: \<open>memcpy(stack, text.data, len); stack[len] = 0;\<close> into an array of \<open>room\<close>
  bytes, which nobody writes to afterwards (a literal here); a text that leaves no room for the NUL
  is written past the end of the array.
\<close>

definition stack_copy :: "nat \<Rightarrow> string \<Rightarrow> ptr nq" where
  "stack_copy room bs = (if length bs < room then ret (PLit bs 0) else stop Undefined)"

definition nq_f64_from_str :: "config \<Rightarrow> nqstr \<Rightarrow> nq_option_f64 nq" where
  "nq_f64_from_str c text =
     (if \<not> nq_str_size c (s_len text) \<or> s_len text \<noteq> 0 \<and> s_data text = PNull then nq_size_fail
      else
        let len = nat (s_len text) in
        bind (load_bytes (s_data text) len) (\<lambda>bs.
        if \<not> nq_f64_grammar bs then ret None
        else bind (if len < 512 then bind (stack_copy 512 bs) (\<lambda>stack. ret (PNull, stack))
                   else bind (nq_try_cstr_copy c (s_data text) len) (\<lambda>r. case r of
                     Inl status \<Rightarrow> nq_alloc_fail status | Inr copy \<Rightarrow> ret (copy, copy))) (\<lambda>(owned, buffer).
          parse_copy len owned buffer)))"

end
