(* ===== verification/Rounding.thy ===== *)
theory Rounding
  imports Floats Complex_Main
begin

text \<open>
  Rounding to binary64, in terms of the real number rounded: the exponent \<open>round_ratio\<close> picks is
  determined by that number, a number closer to a float than a \<open>2^54\<close>th part of it rounds to that
  float, and everything \<open>round_ratio\<close> gives is a binary64 value.
\<close>

section \<open>Scaling by powers of two\<close>

lemma scale_ratio:
  "real (scale_num num e) / real (scale_den den e) = real num / real den / 2 powi e"
  by (simp add: scale_num_def scale_den_def power_int_def field_simps)

lemma scale_den_pos: "0 < den \<Longrightarrow> 0 < scale_den den e"
  by (simp add: scale_den_def)

lemma bit_count_bounds: "n > 0 \<Longrightarrow> 2 ^ (bit_count n - 1) \<le> n \<and> n < 2 ^ bit_count n \<and> 0 < bit_count n"
proof (induction n rule: bit_count.induct)
  case (1 n)
  show ?case
  proof (cases "n div 2 = 0")
    case True
    then have "n = 1" using 1 by linarith
    then show ?thesis by (simp add: bit_count.simps)
  next
    case False
    then have ih: "2 ^ (bit_count (n div 2) - 1) \<le> n div 2" "n div 2 < 2 ^ bit_count (n div 2)" "0 < bit_count (n div 2)"
      using 1 by auto
    have eq: "bit_count n = Suc (bit_count (n div 2))" using 1(2) by (simp add: bit_count.simps [of n])
    obtain k where k: "bit_count (n div 2) = Suc k" using ih(3) by (cases "bit_count (n div 2)") auto
    show ?thesis using ih unfolding eq k by auto
  qed
qed

lemma bit_count_real:
  assumes "n > 0"
  shows "2 powi (int (bit_count n) - 1) \<le> real n" "real n < 2 powi int (bit_count n)"
proof -
  obtain k where k: "bit_count n = Suc k" using bit_count_bounds [OF assms] by (cases "bit_count n") auto
  have "2 ^ k \<le> n" "n < 2 ^ Suc k" using bit_count_bounds [OF assms] by (simp_all add: k)
  then have "real (2 ^ k) \<le> real n" "real n < real (2 ^ Suc k)" by (simp_all only: of_nat_le_iff of_nat_less_iff)
  then show "2 powi (int (bit_count n) - 1) \<le> real n" "real n < 2 powi int (bit_count n)"
    using power_int_of_nat [of "2::real" k] power_int_of_nat [of "2::real" "Suc k"] by (simp_all add: k)
qed

lemma powi_add_int: "(2::real) powi (a + b) = 2 powi a * 2 powi b"
  by (simp add: power_int_add)

lemma powi_pos: "0 < (2::real) powi e" by simp

lemma powi_mono: "a \<le> b \<Longrightarrow> (2::real) powi a \<le> 2 powi b"
  by (rule power_int_increasing) simp_all

lemma binade_gap: "2 ^ 52 * a \<le> r \<Longrightarrow> r < 2 ^ 53 * b \<Longrightarrow> 2 * b \<le> a \<Longrightarrow> False" for a b r :: real
  by simp

lemma powi_numeral: "(2::real) powi 52 = 2 ^ 52" "(2::real) powi 53 = 2 ^ 53"
  by (simp_all add: power_int_def)

section \<open>The exponent\<close>

text \<open>\<open>e\<close> is the exponent of the binary64 values around \<open>r\<close>.\<close>

definition exponent_fits :: "real \<Rightarrow> int \<Rightarrow> bool" where
  "exponent_fits r e \<longleftrightarrow> -1074 \<le> e \<and> r < 2 ^ 53 * 2 powi e \<and> (2 ^ 52 * 2 powi e \<le> r \<or> e = -1074)"

lemma exponent_fits_less: "exponent_fits r e \<Longrightarrow> exponent_fits r f \<Longrightarrow> \<not> e < f"
proof
  assume "exponent_fits r e" "exponent_fits r f" "e < f"
  then have "2 ^ 52 * 2 powi f \<le> r" "r < 2 ^ 53 * 2 powi e" by (auto simp: exponent_fits_def)
  moreover have "(2::real) powi (e + 1) \<le> 2 powi f" using \<open>e < f\<close> by (intro powi_mono) simp
  then have "2 * 2 powi e \<le> (2::real) powi f" by (simp add: power_int_add)
  ultimately show False by (rule binade_gap)
qed

lemma exponent_fits_unique: "exponent_fits r e \<Longrightarrow> exponent_fits r f \<Longrightarrow> e = f"
  using exponent_fits_less by (meson linorder_neqE)

lemma scaled_le:
  assumes "0 < den"
  shows "2 ^ 53 * scale_den den e \<le> scale_num num e \<longleftrightarrow> 2 ^ 53 * 2 powi e \<le> real num / real den"
proof -
  have d: "0 < real (scale_den den e)" using scale_den_pos [OF assms] by simp
  have "2 ^ 53 * scale_den den e \<le> scale_num num e \<longleftrightarrow> real (2 ^ 53 * scale_den den e) \<le> real (scale_num num e)"
    by (simp only: of_nat_le_iff)
  also have "\<dots> \<longleftrightarrow> 2 ^ 53 \<le> real (scale_num num e) / real (scale_den den e)"
    using d by (simp add: le_divide_eq)
  also have "\<dots> \<longleftrightarrow> 2 ^ 53 * 2 powi e \<le> real num / real den"
    unfolding scale_ratio by (rule pos_le_divide_eq) simp
  finally show ?thesis .
qed

lemma exponent_of_fits:
  assumes "0 < num" "0 < den"
  shows "exponent_fits (real num / real den) (exponent_of num den)"
proof -
  define r where "r = real num / real den"
  define e where "e = int (bit_count num) - int (bit_count den) - 53"
  have d: "0 < real den" using assms by simp
  have num: "2 powi (int (bit_count num) - 1) \<le> real num" "real num < 2 powi int (bit_count num)"
    using bit_count_real [OF assms(1)] .
  have den: "2 powi (int (bit_count den) - 1) \<le> real den" "real den < 2 powi int (bit_count den)"
    using bit_count_real [OF assms(2)] .
  have up: "r < 2 ^ 54 * 2 powi e"
  proof -
    have "real num < 2 powi int (bit_count num)" by (rule num)
    also have "\<dots> = 2 ^ 54 * 2 powi e * 2 powi (int (bit_count den) - 1)"
      by (simp add: e_def power_int_add power_int_diff field_simps)
    also have "\<dots> \<le> 2 ^ 54 * 2 powi e * real den" by (rule mult_left_mono [OF den(1)]) simp
    finally show ?thesis unfolding r_def using d by (simp add: divide_less_eq)
  qed
  have low: "2 ^ 52 * 2 powi e \<le> r"
  proof -
    have "2 ^ 52 * 2 powi e * real den \<le> 2 ^ 52 * 2 powi e * 2 powi int (bit_count den)"
      by (rule mult_left_mono [OF less_imp_le [OF den(2)]]) simp
    also have "\<dots> = 2 powi (int (bit_count num) - 1)"
      by (simp add: e_def power_int_add power_int_diff field_simps)
    also have "\<dots> \<le> real num" by (rule num)
    finally show ?thesis unfolding r_def using d by (simp add: le_divide_eq)
  qed
  define f where "f = (if 2 ^ 53 * scale_den den e \<le> scale_num num e then e + 1 else e)"
  have f: "r < 2 ^ 53 * 2 powi f" "2 ^ 52 * 2 powi f \<le> r"
    using up low scaled_le [OF assms(2), of e num]
    by (auto simp: f_def r_def [symmetric] power_int_add)
  have "r < 2 ^ 53 * 2 powi (max f (- 1074))"
  proof -
    have "(2::real) powi f \<le> 2 powi max f (- 1074)" by (rule powi_mono) simp
    then have "2 ^ 53 * (2::real) powi f \<le> 2 ^ 53 * 2 powi max f (- 1074)" by simp
    with f(1) show ?thesis by (rule less_le_trans)
  qed
  then show ?thesis
    unfolding exponent_of_def Let_def e_def [symmetric] f_def [symmetric] r_def [symmetric]
    using f by (auto simp: exponent_fits_def max_def)
qed

section \<open>Rounding to an integer\<close>

lemma round_half_even_real:
  assumes "0 < den"
  shows "\<bar>real (round_half_even num den) - real num / real den\<bar> \<le> 1 / 2"
proof -
  have split: "real num = real (num div den) * real den + real (num mod den)"
    by (metis div_mult_mod_eq of_nat_add of_nat_mult)
  have q: "real num / real den = real (num div den) + real (num mod den) / real den"
    using assms by (subst split) (simp add: field_simps)
  have "2 * (num mod den) \<ge> den \<Longrightarrow> real den \<le> 2 * real (num mod den)" by linarith
  moreover have "2 * (num mod den) \<le> den \<Longrightarrow> 2 * real (num mod den) \<le> real den" by linarith
  moreover have "real (num mod den) \<le> real den" using assms by (simp add: less_imp_le)
  ultimately show ?thesis
    unfolding round_half_even_def Let_def q using assms
    by (auto simp: abs_le_iff field_simps)
qed

lemma round_half_even_near:
  assumes "0 < den" "\<bar>real k - real num / real den\<bar> < 1 / 2"
  shows "round_half_even num den = k"
proof -
  have "\<bar>real (round_half_even num den) - real k\<bar> < 1"
    using round_half_even_real [OF assms(1), of num] assms(2) by linarith
  then show ?thesis by linarith
qed

section \<open>round_ratio\<close>

lemma cross_mult: "x * b' = y * b \<Longrightarrow> 2 * x * b' = 2 * y * b" for x y b b' :: nat
  by (simp only: mult.assoc)

lemma cross_less:
  fixes x y b b' :: nat
  assumes "x * b' = y * b" "0 < b" "0 < b'"
  shows "b < 2 * x \<longleftrightarrow> b' < 2 * y"
proof -
  have "b < 2 * x \<longleftrightarrow> b * b' < 2 * x * b'" unfolding mult_less_cancel2 using assms(3) by simp
  also have "\<dots> \<longleftrightarrow> b' * b < 2 * y * b" unfolding cross_mult [OF assms(1)] by (simp only: mult.commute)
  also have "\<dots> \<longleftrightarrow> b' < 2 * y" unfolding mult_less_cancel2 using assms(2) by simp
  finally show ?thesis .
qed

lemma cross_eq:
  fixes x y b b' :: nat
  assumes "x * b' = y * b" "0 < b" "0 < b'"
  shows "2 * x = b \<longleftrightarrow> 2 * y = b'"
proof -
  have "2 * x = b \<longleftrightarrow> 2 * x * b' = b * b'" unfolding mult_cancel2 using assms(3) by simp
  also have "\<dots> \<longleftrightarrow> 2 * y * b = b' * b" unfolding cross_mult [OF assms(1)] by (simp only: mult.commute)
  also have "\<dots> \<longleftrightarrow> 2 * y = b'" unfolding mult_cancel2 using assms(2) by simp
  finally show ?thesis .
qed

lemma round_ratio_cong:
  assumes "0 < den" "0 < den'" "real num / real den = real num' / real den'"
  shows "round_ratio neg num den = round_ratio neg num' den'"
proof (cases "num = 0")
  case True
  then have "num' = 0" using assms by simp
  with True show ?thesis by (simp add: round_ratio_def)
next
  case False
  moreover have "num' \<noteq> 0"
  proof
    assume "num' = 0"
    with False assms(3) have "den = 0" by simp
    with assms(1) show False by simp
  qed
  ultimately have pos: "0 < num" "0 < num'" by auto
  have e: "exponent_of num den = exponent_of num' den'"
    using exponent_of_fits [OF pos(1) assms(1)] exponent_of_fits [OF pos(2) assms(2)]
    unfolding assms(3) by (rule exponent_fits_unique)
  have "round_half_even (scale_num num e) (scale_den den e)
      = round_half_even (scale_num num' e) (scale_den den' e)" for e
  proof -
    define a b a' b' where *: "a = scale_num num e" "b = scale_den den e"
      "a' = scale_num num' e" "b' = scale_den den' e"
    have b: "0 < b" "0 < b'" using assms by (simp_all add: * scale_den_pos)
    have "real a / real b = real a' / real b'" by (simp add: * scale_ratio assms(3))
    then have "real a * real b' = real a' * real b" using b by (simp add: field_simps)
    then have x: "a * b' = a' * b" by (metis of_nat_eq_iff of_nat_mult)
    have q: "a div b = a' div b'"
      using x b by (metis div_mult_mult2 mult.commute nat_less_le)
    have "(a mod b) * b' = (a' mod b') * b"
      using x q b by (metis mult_mod_right mult.commute)
    then have "2 * (a mod b) > b \<longleftrightarrow> 2 * (a' mod b') > b'" "2 * (a mod b) = b \<longleftrightarrow> 2 * (a' mod b') = b'"
      using cross_less [OF _ b] cross_eq [OF _ b] by blast+
    then show ?thesis by (simp add: round_half_even_def Let_def q flip: *)
  qed
  with e False pos show ?thesis by (simp add: round_ratio_def Let_def)
qed

lemma round_ratio_ok:
  assumes "0 < den"
  shows "f64_ok (round_ratio neg num den)"
proof (cases "num = 0")
  case True
  then show ?thesis by (simp add: round_ratio_def f64_ok_def)
next
  case False
  define e where "e = exponent_of num den"
  define m where "m = round_half_even (scale_num num e) (scale_den den e)"
  have fits: "exponent_fits (real num / real den) e"
    unfolding e_def using False assms by (intro exponent_of_fits) auto
  define x where "x = real num / real den / 2 powi e"
  have near: "\<bar>real m - x\<bar> \<le> 1 / 2"
    using round_half_even_real [OF scale_den_pos [OF assms], of "scale_num num e" e]
    by (simp add: m_def x_def scale_ratio)
  have x: "x < 2 ^ 53" "2 ^ 52 \<le> x \<or> e = -1074" "-1074 \<le> e"
    using fits pos_less_divide_eq [OF powi_pos] pos_divide_less_eq [OF powi_pos] pos_le_divide_eq [OF powi_pos]
    unfolding exponent_fits_def x_def by blast+
  then have "real m < 2 ^ 53 + 1" using near by linarith
  then have "m < 2 ^ 53 + 1" by simp
  then have "m \<le> 2 ^ 53" by simp
  moreover have "2 ^ 52 \<le> m \<or> e = -1074"
  proof -
    have "2 ^ 52 \<le> x \<Longrightarrow> real m > 2 ^ 52 - 1" using near by linarith
    then have "2 ^ 52 \<le> x \<Longrightarrow> 2 ^ 52 < m + 1" by simp
    then have "2 ^ 52 \<le> x \<Longrightarrow> 2 ^ 52 \<le> m" by simp
    then show ?thesis using x by blast
  qed
  ultimately show ?thesis using x(3) False
    by (auto simp: round_ratio_def f64_ok_def m_def e_def Let_def)
qed

text \<open>A number closer to a float than a \<open>2^54\<close>th part of it rounds to it.\<close>

lemma round_ratio_near:
  assumes ok: "f64_ok (Finite neg m e)" and m: "0 < m" and den: "0 < den"
    and near: "\<bar>real num / real den - real m * 2 powi e\<bar> < real m * 2 powi e / 2 ^ 54"
  shows "round_ratio neg num den = Finite neg m e"
proof -
  define r where "r = real num / real den"
  have m53: "m < 2 ^ 53" and e: "-1074 \<le> e" "e \<le> 971" and norm: "2 ^ 52 \<le> m \<or> e = -1074"
    using ok by (auto simp: f64_ok_def)
  have rm: "real m \<le> 2 ^ 53 - 1" "1 \<le> real m"
  proof -
    have "m \<le> 2 ^ 53 - 1" using m53 by simp
    then have "real m \<le> real (2 ^ 53 - 1)" by (simp only: of_nat_le_iff)
    then show "real m \<le> 2 ^ 53 - 1" by simp
    show "1 \<le> real m" using m by simp
  qed
  define x where "x = r / 2 powi e"
  have x: "\<bar>x - real m\<bar> < real m / 2 ^ 54"
  proof -
    have "x - real m = (r - real m * 2 powi e) / 2 powi e" by (simp add: x_def diff_divide_distrib)
    then have "\<bar>x - real m\<bar> = \<bar>r - real m * 2 powi e\<bar> / 2 powi e" by (simp add: abs_divide)
    then show ?thesis using near by (simp add: r_def divide_less_eq)
  qed
  have half: "real m / 2 ^ 54 < 1 / 2" using rm by simp
  have xpos: "0 < x" using x half rm by linarith
  have rx: "r = x * 2 powi e" by (simp add: x_def)
  have num: "0 < num"
  proof (rule ccontr)
    assume "\<not> 0 < num"
    then have "r = 0" by (simp add: r_def)
    then show False using xpos rx by simp
  qed
  have x53: "x < 2 ^ 53" using x half rm by linarith
  show ?thesis
  proof (cases "2 ^ 52 \<le> x \<or> e = -1074")
    case True
    then have "exponent_fits r e" using x53 e by (auto simp: exponent_fits_def rx)
    then have E: "exponent_of num den = e"
      using exponent_of_fits [OF num den] exponent_fits_unique unfolding r_def by blast
    have "round_half_even (scale_num num e) (scale_den den e) = m"
    proof (rule round_half_even_near [OF scale_den_pos [OF den]])
      show "\<bar>real m - real (scale_num num e) / real (scale_den den e)\<bar> < 1 / 2"
        using x half unfolding scale_ratio r_def [symmetric] x_def [symmetric] by linarith
    qed
    with E num m53 e show ?thesis by (simp add: round_ratio_def Let_def)
  next
    case False
    then have lt: "x < 2 ^ 52" and ne: "e \<noteq> -1074" by auto
    have "2 ^ 52 \<le> real m"
    proof -
      have "2 ^ 52 \<le> m" using norm ne by simp
      then have "real (2 ^ 52) \<le> real m" by (simp only: of_nat_le_iff)
      then show ?thesis by simp
    qed
    moreover have "real m < 2 ^ 52 + 1" using lt x half by linarith
    ultimately have "2 ^ 52 \<le> m" "m < 2 ^ 52 + 1" by simp_all
    then have m52: "m = 2 ^ 52" by simp
    have "\<bar>x - 2 ^ 52\<bar> < 1 / 4" using x unfolding m52 by simp
    then have "x - 2 ^ 52 < 1 / 4" "2 ^ 52 - x < 1 / 4" by (simp_all only: abs_less_iff minus_diff_eq)
    then have close: "\<bar>2 * x - 2 ^ 53\<bar> < 1 / 2" unfolding abs_less_iff by simp
    define f where "f = e - 1"
    have pf: "(2::real) powi e = 2 * 2 powi f" by (simp add: f_def power_int_diff)
    have "exponent_fits r f" using ne e lt close
      by (auto simp: exponent_fits_def rx pf f_def [symmetric] abs_less_iff) (simp_all add: f_def)
    then have E: "exponent_of num den = f"
      using exponent_of_fits [OF num den] exponent_fits_unique unfolding r_def by blast
    have "round_half_even (scale_num num f) (scale_den den f) = 2 ^ 53"
    proof (rule round_half_even_near [OF scale_den_pos [OF den]])
      have "real num / real den / 2 powi f = 2 * x" by (simp add: r_def [symmetric] rx pf)
      then show "\<bar>real (2 ^ 53) - real (scale_num num f) / real (scale_den den f)\<bar> < 1 / 2"
        using close unfolding scale_ratio by (simp add: abs_minus_commute)
    qed
    with E num e show ?thesis by (simp add: round_ratio_def Let_def f_def m52)
  qed
qed

end
