(* ===== verification/Float_Text.thy ===== *)
theory Float_Text
  imports Rounding
begin

text \<open>
  Text and value of a float. The digits of a number and the scanners of \<open>strtod\<close>; the grammar of
  JSON numbers as inductive definitions, with the value a text denotes; what \<open>nq_f64_grammar\<close>,
  \<open>strtod\<close> and \<open>nq_f64_from_str\<close> do on it; the decimal digits of a float, the search of
  \<open>nq_f64_shortest\<close>, and the round trip through \<open>nq_str_from_f64\<close> and \<open>nq_f64_from_str\<close>.
\<close>

section \<open>Digits\<close>

abbreviation all_digits :: "string \<Rightarrow> bool" where
  "all_digits \<equiv> list_all nq_f64_is_digit"

lemma digit_char_simps [simp]:
  assumes "n < 10"
  shows "nq_f64_is_digit (digit_char n)" "digit_value (digit_char n) = n"
  using assms by (simp_all add: nq_f64_is_digit_def digit_char_def digit_value_def)

lemma digit_char_0: "digit_char 0 = CHR ''0''"
  by code_simp

lemma digit_char_zero: "n < 10 \<Longrightarrow> digit_char n = CHR ''0'' \<longleftrightarrow> n = 0"
  using digit_char_simps(2) [of n] digit_char_simps(2) [of 0] by (metis digit_char_0 zero_less_numeral)

lemma not_digit [simp]:
  "\<not> nq_f64_is_digit CHR ''-''" "\<not> nq_f64_is_digit CHR ''+''" "\<not> nq_f64_is_digit CHR ''.''"
  "\<not> nq_f64_is_digit CHR ''e''" "\<not> nq_f64_is_digit CHR ''E''" "nq_f64_is_digit CHR ''0''"
  by (simp_all add: nq_f64_is_digit_def)

lemma digits_value_append: "digits_value (xs @ ys) = digits_value xs * 10 ^ length ys + digits_value ys"
proof (induction ys rule: rev_induct)
  case (snoc y ys)
  have "digits_value (zs @ [y]) = digits_value zs * 10 + digit_value y" for zs
    by (simp add: digits_value_def)
  from this [of "xs @ ys"] this [of ys] snoc show ?case by (simp add: algebra_simps)
qed (simp add: digits_value_def)

lemma digits_value_simps [simp]:
  "digits_value [] = 0" "digits_value [ch] = digit_value ch" "digit_value CHR ''0'' = 0"
  by (simp_all add: digits_value_def digit_value_def)

lemma digits_value_Cons: "digits_value (ch # ds) = digit_value ch * 10 ^ length ds + digits_value ds"
  using digits_value_append [of "[ch]" ds] by simp

lemma digits_value_zeros [simp]: "digits_value (replicate n CHR ''0'') = 0"
  by (induction n) (simp_all add: digits_value_Cons)

lemma show_nat_digits: "all_digits (show_nat n)"
  by (induction n rule: show_nat.induct) (subst show_nat.simps, simp)

lemma show_nat_value [simp]: "digits_value (show_nat n) = n"
proof (induction n rule: show_nat.induct)
  case (1 n)
  show ?case
  proof (cases "n < 10")
    case True
    then show ?thesis by (subst show_nat.simps) simp
  next
    case False
    then show ?thesis using 1 by (subst show_nat.simps) (simp add: digits_value_append)
  qed
qed

lemma show_nat_not_Nil [simp]: "show_nat n \<noteq> []"
  by (subst show_nat.simps) simp

lemma show_nat_length: "10 ^ k \<le> n \<Longrightarrow> n < 10 ^ Suc k \<Longrightarrow> length (show_nat n) = Suc k"
proof (induction k arbitrary: n)
  case 0
  then show ?case by (subst show_nat.simps) simp
next
  case (Suc k)
  then have "10 ^ k \<le> n div 10" "n div 10 < 10 ^ Suc k" by (auto simp: less_mult_imp_div_less)
  moreover have "10 \<le> n" using Suc.prems(1) by (metis le_trans mult.right_neutral nat_mult_le_cancel_disj one_le_numeral one_le_power power_Suc)
  ultimately have "10 ^ k \<le> n div 10" "n div 10 < 10 ^ Suc k" "10 \<le> n" by auto
  with Suc.IH [of "n div 10"] show ?case by (subst show_nat.simps) simp
qed

lemma show_nat_bounds: "n < 10 ^ length (show_nat n)" "0 < n \<Longrightarrow> 10 ^ (length (show_nat n) - 1) \<le> n"
proof -
  show "n < 10 ^ length (show_nat n)"
  proof (induction n rule: show_nat.induct)
    case (1 n)
    show ?case
    proof (cases "n < 10")
      case True
      then show ?thesis by (subst show_nat.simps) simp
    next
      case False
      with 1 have "n div 10 < 10 ^ length (show_nat (n div 10))" by simp
      then have "n < 10 ^ Suc (length (show_nat (n div 10)))" by (simp only: power_Suc)
      with False show ?thesis by (subst show_nat.simps) simp
    qed
  qed
next
  assume "0 < n"
  then show "10 ^ (length (show_nat n) - 1) \<le> n"
  proof (induction n rule: show_nat.induct)
    case (1 n)
    show ?case
    proof (cases "n < 10")
      case True
      then show ?thesis using 1 by (subst show_nat.simps) simp
    next
      case False
      with 1 have "10 ^ (length (show_nat (n div 10)) - 1) \<le> n div 10" by (simp add: div_greater_zero_iff)
      moreover obtain k where "length (show_nat (n div 10)) = Suc k"
        by (cases "length (show_nat (n div 10))") simp_all
      ultimately have "10 ^ length (show_nat (n div 10)) \<le> n" by simp
      with False show ?thesis by (subst show_nat.simps) simp
    qed
  qed
qed

lemma show_nat_hd: "0 < n \<Longrightarrow> hd (show_nat n) \<noteq> CHR ''0''"
proof (induction n rule: show_nat.induct)
  case (1 n)
  show ?case
  proof (cases "n < 10")
    case True
    with 1 show ?thesis by (subst show_nat.simps) (simp add: digit_char_zero)
  next
    case False
    with 1 show ?thesis by (subst show_nat.simps) (simp add: div_greater_zero_iff)
  qed
qed

lemma rev_reversed_digits: "0 < n \<Longrightarrow> rev (reversed_digits n) = show_nat n"
proof (induction n rule: show_nat.induct)
  case (1 n)
  show ?case
  proof (cases "n < 10")
    case True
    with 1 show ?thesis
      by (subst show_nat.simps, subst reversed_digits.simps) (simp add: reversed_digits.simps)
  next
    case False
    with 1 show ?thesis
      by (subst show_nat.simps, subst reversed_digits.simps) (simp add: div_greater_zero_iff)
  qed
qed

section \<open>The scanners of strtod\<close>

lemma takeWhile_digits:
  "all_digits ds \<Longrightarrow> \<not> starts_with_digit rest \<Longrightarrow>
     takeWhile nq_f64_is_digit (ds @ rest) = ds \<and> dropWhile nq_f64_is_digit (ds @ rest) = rest"
proof (induction ds)
  case Nil
  then show ?case by (cases rest) (simp_all add: starts_with_digit_def)
qed simp

lemma take_digits_append:
  "all_digits ds \<Longrightarrow> \<not> starts_with_digit rest \<Longrightarrow> take_digits (ds @ rest) = (ds, rest)"
  by (simp add: take_digits_def takeWhile_digits)

lemma take_digits_all: "all_digits ds \<Longrightarrow> take_digits ds = (ds, [])"
  using take_digits_append [of ds "[]"] by (simp add: starts_with_digit_def)

lemma drop_digits_append: "all_digits ds \<Longrightarrow> \<not> starts_with_digit rest \<Longrightarrow> drop_digits (ds @ rest) = rest"
  by (simp add: drop_digits_def takeWhile_digits)

lemma drop_digits_all: "all_digits ds \<Longrightarrow> drop_digits ds = []"
  using drop_digits_append [of ds "[]"] by (simp add: starts_with_digit_def)

lemma take_sign_digit: "all_digits ds \<Longrightarrow> ds \<noteq> [] \<Longrightarrow> take_sign (ds @ rest) = (False, ds @ rest)"
  by (cases ds) (auto simp: take_sign_def)

lemma take_sign_simps: "take_sign (CHR ''-'' # r) = (True, r)" "take_sign (CHR ''+'' # r) = (False, r)"
  by (simp_all add: take_sign_def)

lemma starts_with_digit_simps [simp]:
  "\<not> starts_with_digit []" "starts_with_digit (ch # xs) \<longleftrightarrow> nq_f64_is_digit ch"
  by (simp_all add: starts_with_digit_def)

lemma starts_with_digits: "all_digits ds \<Longrightarrow> ds \<noteq> [] \<Longrightarrow> starts_with_digit (ds @ rest)"
  by (cases ds) simp_all

section \<open>JSON numbers\<close>

text \<open>
  RFC 8259, section 6, and the value: \<open>json_number xs x\<close> when \<open>xs\<close> is a JSON number and \<open>x\<close> the
  binary64 value nearest to what it denotes.
\<close>

inductive json_int :: "string \<Rightarrow> bool" where
  json_zero: "json_int ''0''"
| json_nonzero: "nq_f64_is_digit d \<Longrightarrow> d \<noteq> CHR ''0'' \<Longrightarrow> all_digits ds \<Longrightarrow> json_int (d # ds)"

inductive json_fraction :: "string \<Rightarrow> string \<Rightarrow> bool" where
  json_no_fraction: "json_fraction [] []"
| json_some_fraction: "all_digits ds \<Longrightarrow> ds \<noteq> [] \<Longrightarrow> json_fraction (CHR ''.'' # ds) ds"

inductive json_sign :: "string \<Rightarrow> bool \<Rightarrow> bool" where
  "json_sign [] False" | "json_sign ''+'' False" | "json_sign ''-'' True"

inductive json_exponent :: "string \<Rightarrow> int \<Rightarrow> bool" where
  json_no_exponent: "json_exponent [] 0"
| json_some_exponent: "e \<in> {CHR ''e'', CHR ''E''} \<Longrightarrow> json_sign sg neg \<Longrightarrow> all_digits ds \<Longrightarrow> ds \<noteq> [] \<Longrightarrow>
    json_exponent (e # sg @ ds) (if neg then - int (digits_value ds) else int (digits_value ds))"

inductive json_number :: "string \<Rightarrow> f64 \<Rightarrow> bool" where
  json_parts: "json_int ip \<Longrightarrow> json_fraction fs fp \<Longrightarrow> json_exponent es ex \<Longrightarrow>
    json_number ((if neg then ''-'' else []) @ ip @ fs @ es)
      (round_decimal neg (digits_value (ip @ fp)) (ex - int (length fp)))"

lemma json_int_digits: "json_int ip \<Longrightarrow> all_digits ip \<and> ip \<noteq> []"
  by (auto elim: json_int.cases)

lemma json_tail_no_digit:
  "json_exponent es ex \<Longrightarrow> \<not> starts_with_digit es"
  "json_fraction fs fp \<Longrightarrow> json_exponent es ex \<Longrightarrow> \<not> starts_with_digit (fs @ es)"
  by (auto elim!: json_exponent.cases json_fraction.cases)

lemma take_sign_json: "json_sign sg neg \<Longrightarrow> all_digits ds \<Longrightarrow> ds \<noteq> [] \<Longrightarrow> take_sign (sg @ ds) = (neg, ds)"
  using take_sign_digit [of ds "[]"] by (auto elim!: json_sign.cases simp: take_sign_simps)

lemma take_exponent_json: "json_exponent es ex \<Longrightarrow> take_exponent es = (ex, [])"
  by (erule json_exponent.cases) (auto simp: take_exponent_def take_sign_json take_digits_all)

lemma take_fraction_json:
  "json_fraction fs fp \<Longrightarrow> json_exponent es ex \<Longrightarrow> take_fraction (fs @ es) = (fp, es)"
  by (erule json_fraction.cases)
     (auto simp: take_fraction_def take_digits_append json_tail_no_digit elim!: json_exponent.cases)

lemma c_strtod_json:
  assumes "json_number xs x"
  shows "c_strtod xs = (x, length xs)"
  using assms
proof cases
  case (json_parts ip fs fp es ex neg)
  have ip: "all_digits ip" "ip \<noteq> []" using json_int_digits [OF json_parts(3)] by auto
  have sign: "take_sign xs = (neg, ip @ fs @ es)"
    using take_sign_digit [OF ip] by (simp add: json_parts(1) take_sign_simps)
  show ?thesis
    unfolding c_strtod_def sign prod.case Let_def
      take_digits_append [OF ip(1) json_tail_no_digit(2) [OF json_parts(4,5)]]
      take_fraction_json [OF json_parts(4,5)] take_exponent_json [OF json_parts(5)]
    using ip(2) json_parts(2) by simp
qed

section \<open>The grammar\<close>

lemma split_digits: "\<exists>ds. all_digits ds \<and> xs = ds @ drop_digits xs \<and> \<not> starts_with_digit (drop_digits xs)"
proof (intro exI conjI)
  show "all_digits (takeWhile nq_f64_is_digit xs)" by (auto simp: list_all_iff dest: set_takeWhileD)
  show "xs = takeWhile nq_f64_is_digit xs @ drop_digits xs" by (simp add: drop_digits_def)
  show "\<not> starts_with_digit (drop_digits xs)"
    using hd_dropWhile [of nq_f64_is_digit xs]
    by (auto simp: starts_with_digit_def drop_digits_def simp del: dropWhile_eq_Nil_conv)
qed

lemma grammar_integer_sound:
  "grammar_integer xs = Some r \<Longrightarrow> \<exists>ip. json_int ip \<and> xs = ip @ r"
proof (cases xs)
  case (Cons d rest)
  assume *: "grammar_integer xs = Some r"
  obtain ds where ds: "all_digits ds" "rest = ds @ drop_digits rest" using split_digits by blast
  show ?thesis
  proof (cases "d = CHR ''0''")
    case True
    with * Cons show ?thesis by (intro exI [of _ "''0''"]) (auto simp: grammar_integer_def json_zero)
  next
    case False
    with * Cons ds show ?thesis
      by (intro exI [of _ "d # ds"]) (auto simp: grammar_integer_def intro: json_nonzero split: if_splits)
  qed
qed (simp add: grammar_integer_def)

lemma grammar_fraction_sound:
  "grammar_fraction xs = Some r \<Longrightarrow> \<exists>fs fp. json_fraction fs fp \<and> xs = fs @ r"
proof (cases xs)
  case (Cons d rest)
  assume *: "grammar_fraction xs = Some r"
  obtain ds where ds: "all_digits ds" "rest = ds @ drop_digits rest" "\<not> starts_with_digit (drop_digits rest)"
    using split_digits by blast
  show ?thesis
  proof (cases "d = CHR ''.''")
    case True
    then have r: "r = drop_digits rest" and "starts_with_digit rest"
      using * Cons by (auto simp: grammar_fraction_def split: if_splits)
    then have "ds \<noteq> []" using ds by auto
    then show ?thesis using True ds r Cons
      by (intro exI [of _ "CHR ''.'' # ds"] exI [of _ ds]) (auto intro: json_some_fraction)
  next
    case False
    with * Cons show ?thesis by (auto simp: grammar_fraction_def intro: json_no_fraction)
  qed
qed (auto simp: grammar_fraction_def intro: json_no_fraction)

lemma grammar_exponent_sound:
  "grammar_exponent xs = Some [] \<Longrightarrow> \<exists>ex. json_exponent xs ex"
proof (cases xs)
  case (Cons d rest)
  assume *: "grammar_exponent xs = Some []"
  show ?thesis
  proof (cases "d \<in> {CHR ''e'', CHR ''E''}")
    case True
    define r where "r = (case rest of [] \<Rightarrow> [] | s # r \<Rightarrow> if s = CHR ''+'' \<or> s = CHR ''-'' then r else rest)"
    have r: "starts_with_digit r" "drop_digits r = []"
      using * True Cons by (auto simp: grammar_exponent_def r_def Let_def split: if_splits)
    have ds: "all_digits r" "r \<noteq> []" using split_digits [of r] r by auto
    obtain sg neg where "json_sign sg neg" "rest = sg @ r"
    proof (cases rest)
      case (Cons s q)
      then show ?thesis using that [of "[s]"] that [of "[]"] r_def
        by (cases "s = CHR ''+''"; cases "s = CHR ''-''") (auto intro: json_sign.intros)
    qed (use that [of "[]"] r_def in \<open>auto intro: json_sign.intros\<close>)
    then show ?thesis using True Cons ds by (auto intro: json_some_exponent)
  next
    case False
    with * Cons show ?thesis by (auto simp: grammar_exponent_def)
  qed
qed (auto intro: json_no_exponent)

lemma grammar_integer_complete:
  "json_int ip \<Longrightarrow> \<not> starts_with_digit r \<Longrightarrow> grammar_integer (ip @ r) = Some r"
  by (erule json_int.cases) (auto simp: grammar_integer_def drop_digits_append)

lemma grammar_fraction_complete:
  "json_fraction fs fp \<Longrightarrow> json_exponent es ex \<Longrightarrow> grammar_fraction (fs @ es) = Some es"
  by (erule json_fraction.cases)
     (auto simp: grammar_fraction_def drop_digits_append json_tail_no_digit starts_with_digits
       elim!: json_exponent.cases)

lemma grammar_exponent_complete: "json_exponent es ex \<Longrightarrow> grammar_exponent es = Some []"
proof (erule json_exponent.cases, goal_cases)
  case (2 e sg neg ds)
  have "(case sg @ ds of [] \<Rightarrow> [] | s # r \<Rightarrow> if s = CHR ''+'' \<or> s = CHR ''-'' then r else sg @ ds) = ds"
    using 2(4-6) by (auto elim!: json_sign.cases split: list.splits)
  then show ?case using 2 starts_with_digits [of ds "[]"]
    by (auto simp: grammar_exponent_def drop_digits_all Let_def)
qed (simp add: grammar_exponent_def)

lemma nq_f64_grammar_iff:
  "nq_f64_grammar xs \<longleftrightarrow> (\<exists>x. json_number xs x)"
proof
  define r where "r = (case xs of [] \<Rightarrow> [] | ch # rest \<Rightarrow> if ch = CHR ''-'' then rest else xs)"
  assume "nq_f64_grammar xs"
  then obtain u v where g: "grammar_integer r = Some u" "grammar_fraction u = Some v" "grammar_exponent v = Some []"
    by (auto simp: nq_f64_grammar_def r_def [symmetric] Let_def bind_eq_Some_conv)
  obtain ip fs fp ex where p: "json_int ip" "r = ip @ fs @ v" "json_fraction fs fp" "json_exponent v ex"
    using grammar_integer_sound [OF g(1)] grammar_fraction_sound [OF g(2)] grammar_exponent_sound [OF g(3)] by blast
  obtain neg where "xs = (if neg then ''-'' else []) @ r"
  proof (cases "xs \<noteq> [] \<and> hd xs = CHR ''-''")
    case True
    with that [of True] show ?thesis by (cases xs) (auto simp: r_def)
  next
    case False
    with that [of False] show ?thesis by (cases xs) (auto simp: r_def)
  qed
  then show "\<exists>x. json_number xs x" using json_parts [OF p(1,3,4), of neg] p(2) by auto
next
  assume "\<exists>x. json_number xs x"
  then obtain ip fs fp es ex neg where
    xs: "xs = (if neg then ''-'' else []) @ ip @ fs @ es" and
    p: "json_int ip" "json_fraction fs fp" "json_exponent es ex"
    by (auto elim: json_number.cases)
  have ip: "all_digits ip" "ip \<noteq> []" using json_int_digits [OF p(1)] by auto
  have "(case xs of [] \<Rightarrow> [] | ch # rest \<Rightarrow> if ch = CHR ''-'' then rest else xs) = ip @ fs @ es"
    using ip by (cases ip) (auto simp: xs)
  then show "nq_f64_grammar xs"
    by (simp add: nq_f64_grammar_def grammar_integer_complete [OF p(1) json_tail_no_digit(2) [OF p(2,3)]]
        grammar_fraction_complete [OF p(2,3)] grammar_exponent_complete [OF p(3)])
qed

section \<open>Parsing\<close>

lemma nul_not_digit [simp]: "\<not> nq_f64_is_digit CHR 0x00"
  by (simp add: nq_f64_is_digit_def)

lemma digits_no_nul: "all_digits ds \<Longrightarrow> CHR 0x00 \<notin> set ds"
  by (auto simp: list_all_iff)

lemma json_number_no_nul: "json_number xs x \<Longrightarrow> CHR 0x00 \<notin> set xs"
  by (auto elim!: json_number.cases json_fraction.cases json_exponent.cases json_sign.cases
      dest!: json_int_digits digits_no_nul)

lemma round_decimal_ok: "f64_ok (round_decimal neg m q)"
  unfolding round_decimal_def by (rule round_ratio_ok) simp

lemma round_ratio_not_nan: "round_ratio neg num den \<noteq> NaN b"
  by (simp add: round_ratio_def Let_def split: prod.splits)

lemma finite_within_DBL_MAX:
  assumes "f64_ok (Finite s m e)"
  shows "\<not> f64_less DBL_MAX (Finite s m e)" "\<not> f64_less (Finite s m e) (f64_neg DBL_MAX)"
proof -
  have m: "int m \<le> 2 ^ 53 - 1" and e: "e \<le> 971" using assms by (auto simp: f64_ok_def)
  have "2 ^ 53 - 1 \<le> (2 ^ 53 - 1) * (2::int) ^ nat (971 - e)" by simp
  with m have "int m \<le> (2 ^ 53 - 1) * 2 ^ nat (971 - e)" by linarith
  then show "\<not> f64_less DBL_MAX (Finite s m e)" "\<not> f64_less (Finite s m e) (f64_neg DBL_MAX)"
    using e by (auto simp: DBL_MAX_def scaled_def min_def)
qed

definition finite_f64 :: "f64 \<Rightarrow> f64 option" where
  "finite_f64 x = (case x of Finite _ _ _ \<Rightarrow> Some x | _ \<Rightarrow> None)"

lemma out_of_range_round_decimal:
  "(if f64_less DBL_MAX (round_decimal neg m q) \<or> f64_less (round_decimal neg m q) (f64_neg DBL_MAX)
    then None else Some (round_decimal neg m q)) = finite_f64 (round_decimal neg m q)"
proof (cases "round_decimal neg m q")
  case (NaN b)
  then show ?thesis by (simp add: round_decimal_def round_ratio_not_nan)
next
  case (Infinite b)
  then show ?thesis by (cases b) (simp_all add: finite_f64_def DBL_MAX_def)
next
  case (Finite s k e)
  then show ?thesis using finite_within_DBL_MAX [of s k e] round_decimal_ok [of neg m q]
    by (simp add: finite_f64_def)
qed

lemma json_number_value: "json_number xs x \<Longrightarrow> \<exists>neg m q. x = round_decimal neg m q"
  by (erule json_number.cases) blast

lemma json_in_range:
  "json_number xs x \<Longrightarrow>
    (if f64_less DBL_MAX x \<or> f64_less x (f64_neg DBL_MAX) then None else Some x) = finite_f64 x"
  using json_number_value out_of_range_round_decimal by blast

text \<open>The numeric locale: it is there when the two calls that enter it succeed.\<close>

definition locale_ready :: "nqstate \<Rightarrow> bool" where
  "locale_ready s \<longleftrightarrow> (\<exists>a b rs. script s = a # b # rs \<and> r_ret a \<noteq> 0 \<and> r_ret b \<noteq> 0)"

lemma wp_nq_numeric_locale_enter:
  assumes "owns L R s" and "\<not> locale_ready s \<Longrightarrow> E Blocked"
    and "\<And>b s'. owns L R s' \<Longrightarrow> locale_ready s \<longrightarrow> b \<Longrightarrow> Q b s'"
  shows "wp E nq_numeric_locale_enter Q s"
  using assms by (auto simp: nq_numeric_locale_enter_def wp_simps locale_ready_def split: list.splits)

lemma wp_nq_numeric_locale_leave:
  "owns L R s \<Longrightarrow> (\<And>s'. owns L R s' \<Longrightarrow> Q () s') \<Longrightarrow> wp E nq_numeric_locale_leave Q s"
  by (simp add: nq_numeric_locale_leave_def wp_simps)

lemma wp_nq_numeric_locale_fail: "wp E nq_numeric_locale_fail Q s = E (Exit 1)"
  by (simp add: nq_numeric_locale_fail_def wp_simps)

lemma wp_nq_float_internal_fail: "wp E (nq_float_internal_fail what) Q s = E (Exit 1)"
  by (simp add: nq_float_internal_fail_def wp_simps)

lemma wp_parse_copy:
  assumes "owns L R' s" and x: "json_number xs x" and "\<not> locale_ready s \<Longrightarrow> E Blocked \<and> E (Exit 1)"
    and "c_readable L R' buffer xs"
    and free: "\<And>Q s. owns L R' s \<Longrightarrow> (\<And>s'. owns L R s' \<Longrightarrow> Q () s') \<Longrightarrow> wp E (c_free owned) Q s"
    and Q: "\<And>s'. owns L R s' \<Longrightarrow> Q (finite_f64 x) s'"
  shows "wp E (parse_copy (length xs) owned buffer) Q s"
  unfolding parse_copy_def wp_bind
proof (rule wp_nq_numeric_locale_enter [OF assms(1)], goal_cases)
  case (2 b s')
  show ?case
  proof (cases b)
    case False
    with 2 assms(3) show ?thesis by (auto simp: wp_simps wp_nq_numeric_locale_fail intro!: free [OF 2(1)])
  next
    case True
    then show ?thesis
      by (auto simp: wp_simps c_strtod_json [OF x] json_in_range [OF x]
          intro!: wp_load_c_string [OF 2(1) assms(4)] wp_nq_numeric_locale_leave [OF 2(1)] free Q)
  qed
qed (use assms(3) in auto)

lemma wp_nq_f64_from_str:
  assumes "owns L R s" and "(t, v) \<in># L" and "nq_str_size c (s_len t)"
    and E: "512 \<le> length v \<or> \<not> locale_ready s \<Longrightarrow> E (Exit 1)" "\<not> locale_ready s \<Longrightarrow> E Blocked"
    and none: "\<And>s'. owns L R s' \<Longrightarrow> \<not> nq_f64_grammar v \<Longrightarrow> Q None s'"
    and some: "\<And>x s'. owns L R s' \<Longrightarrow> json_number v x \<Longrightarrow> Q (finite_f64 x) s'"
  shows "wp E (nq_f64_from_str c t) Q s"
proof -
  have len: "s_len t = int (length v)" by (rule owns_live_len [OF assms(1,2)])
  have data: "\<not> (s_len t \<noteq> 0 \<and> s_data t = PNull)"
    using owns_view [OF assms(1,2)] by (auto simp: str_view_def len split: if_splits)
  have read: "readable L R (s_data t) (length v) v"
    using readable_live [OF assms(2)] by (simp add: len)
  have guard: "\<not> (\<not> nq_str_size c (s_len t) \<or> s_len t \<noteq> 0 \<and> s_data t = PNull)"
    using data assms(3) by simp
  show ?thesis
  proof (cases "nq_f64_grammar v")
    case False
    show ?thesis
      unfolding nq_f64_from_str_def if_not_P [OF guard [unfolded len]] Let_def wp_bind len nat_int
      by (rule wp_load_bytes [OF assms(1) read]) (use False in \<open>simp add: wp_simps none assms(1)\<close>)
  next
    case True
    then obtain x where x: "json_number v x" using nq_f64_grammar_iff by blast
    have nul: "CHR 0x00 \<notin> set v" by (rule json_number_no_nul [OF x])
    have stack: "wp E (parse_copy (length v) PNull (PLit v 0)) Q s"
      if "length v < 512"
      by (rule wp_parse_copy [OF assms(1) x _ c_readable_lit [OF nul], where R = R])
        (use E some [OF _ x] in \<open>auto simp: wp_c_free_null\<close>)
    have heap: "wp E (bind (nq_try_cstr_copy c (s_data t) (length v)) (\<lambda>r. case r of
                       Inl status \<Rightarrow> nq_alloc_fail status | Inr copy \<Rightarrow> parse_copy (length v) copy copy)) Q s"
      if "\<not> length v < 512"
      unfolding wp_bind
    proof (rule wp_nq_try_cstr_copy [OF assms(1) read], goal_cases)
      case (1 b s')
      have "c_readable L (R(b \<mapsto> BBytes (map Some v @ [Some CHR 0x00]))) (PHeap b 0) v"
        by (rule c_readable_raw [OF _ nul, where ws = "[]"]) simp
      then show ?case unfolding sum.case
        by (rule wp_parse_copy [OF 1(1) x, rotated], goal_cases)
          (use E that 1 some [OF _ x] world_fields(1) [OF 1(3)] in
            \<open>auto simp: locale_ready_def fun_upd_idem intro!: wp_c_free_raw\<close>)
    qed (use E that in \<open>auto simp: wp_simps\<close>)
    have "wp E (bind (if length v < 512 then bind (stack_copy 512 v) (\<lambda>stack. ret (PNull, stack))
        else bind (nq_try_cstr_copy c (s_data t) (length v)) (\<lambda>r. case r of
          Inl status \<Rightarrow> nq_alloc_fail status | Inr copy \<Rightarrow> ret (copy, copy)))
        (\<lambda>(owned, buffer). parse_copy (length v) owned buffer)) Q s"
    proof (cases "length v < 512")
      case True
      with stack show ?thesis by (simp add: wp_simps stack_copy_def)
    next
      case False
      from heap [OF this] False show ?thesis
        by (simp add: wp_simps) (erule wp_mono, auto simp: wp_simps split: sum.splits)
    qed
    with True show ?thesis
      unfolding nq_f64_from_str_def if_not_P [OF guard [unfolded len]] Let_def wp_bind len nat_int
      by (intro wp_load_bytes [OF assms(1) read]) (simp only: not_True_eq_False if_False wp_bind)
  qed
qed

section \<open>Powers of ten\<close>

lemma ten_pos: "0 < (10::real) powi e" by simp

lemma scale_ten:
  "real (if q < 0 then num * 10 ^ nat (- q) else num) / real (if q < 0 then den else den * 10 ^ nat q)
     = real num / real den / 10 powi q"
  by (simp add: power_int_def field_simps)

lemma round_decimal_ratio:
  obtains num den where "round_decimal neg m q = round_ratio neg num den" "0 < den"
    "real num / real den = real m * 10 powi q"
proof
  show "round_decimal neg m q = round_ratio neg (if q < 0 then m else m * 10 ^ nat q) (if q < 0 then 10 ^ nat (- q) else 1)"
    by (simp add: round_decimal_def)
  show "0 < (if q < 0 then 10 ^ nat (- q) else 1 :: nat)" by simp
  show "real (if q < 0 then m else m * 10 ^ nat q) / real (if q < 0 then 10 ^ nat (- q) else 1) = real m * 10 powi q"
    by (simp add: power_int_def field_simps)
qed

lemma round_decimal_cong:
  assumes "real m * 10 powi q = real m' * 10 powi q'"
  shows "round_decimal neg m q = round_decimal neg m' q'"
proof -
  obtain num den num' den' where "round_decimal neg m q = round_ratio neg num den" "0 < den"
    "real num / real den = real m * 10 powi q" "round_decimal neg m' q' = round_ratio neg num' den'" "0 < den'"
    "real num' / real den' = real m' * 10 powi q'"
    using round_decimal_ratio [of neg m q] round_decimal_ratio [of neg m' q'] by metis
  then show ?thesis using round_ratio_cong [of den den' num num' neg] assms by simp
qed

lemma round_decimal_shift: "round_decimal neg (m * 10 ^ z) q = round_decimal neg m (q + int z)"
  by (rule round_decimal_cong) (simp add: power_int_add)

lemma powi_ten_shift: "(10::real) powi (x - (int p - 1)) * 10 ^ p = 10 powi (x + 1)"
proof -
  have "(10::real) ^ p = 10 powi int p" by simp
  then show ?thesis using power_int_add [of "10::real" "x - (int p - 1)" "int p"] by simp
qed

lemma powi_ten_shift': "0 < p \<Longrightarrow> (10::real) powi (x - (int p - 1)) * 10 ^ (p - 1) = 10 powi x"
proof -
  assume "0 < p"
  then have "(10::real) ^ (p - 1) = 10 powi (int p - 1)" by (simp add: power_int_def nat_diff_distrib')
  then show ?thesis using power_int_add [of "10::real" "x - (int p - 1)" "int p - 1"] by simp
qed

section \<open>The decimal digits of a float\<close>

lemma small_exponent_bounds:
  "0 < num \<Longrightarrow> 0 < den \<Longrightarrow> den \<le> num * 10 ^ small_exponent num den \<and>
     (0 < small_exponent num den \<longrightarrow> num * 10 ^ (small_exponent num den - 1) < den)"
proof (induction num den rule: small_exponent.induct)
  case (1 num den)
  show ?case
  proof (cases "den \<le> num")
    case True
    then show ?thesis by (subst (1 2 3) small_exponent.simps) simp
  next
    case False
    then have "small_exponent num den = Suc (small_exponent (num * 10) den)"
      using 1 by (subst small_exponent.simps) simp
    moreover have "den \<le> num * 10 * 10 ^ small_exponent (num * 10) den"
      "0 < small_exponent (num * 10) den \<longrightarrow> num * 10 * 10 ^ (small_exponent (num * 10) den - 1) < den"
      using 1 False by auto
    ultimately show ?thesis using False
      by (cases "small_exponent (num * 10) den") (auto simp: algebra_simps)
  qed
qed

lemma decimal_exponent_bounds:
  assumes "0 < num" "0 < den"
  shows "10 powi decimal_exponent num den \<le> real num / real den"
    "real num / real den < 10 powi (decimal_exponent num den + 1)"
proof -
  have d: "0 < real den" using assms by simp
  have "10 powi decimal_exponent num den \<le> real num / real den \<and>
    real num / real den < 10 powi (decimal_exponent num den + 1)"
  proof (cases "den \<le> num")
    case True
    define q where "q = num div den"
    have q: "0 < q" using True assms by (simp add: q_def div_greater_zero_iff)
    obtain k where k: "length (show_nat q) = Suc k" by (cases "length (show_nat q)") auto
    have b: "10 ^ k \<le> q" "q < 10 ^ Suc k"
      using show_nat_bounds(1) [of q] show_nat_bounds(2) [OF q] by (simp_all add: k)
    have x: "decimal_exponent num den = int k" using True by (simp add: decimal_exponent_def q_def [symmetric] k)
    have "10 ^ k * den \<le> num" using b(1) assms(2)
      by (metis q_def div_mult_mod_eq le_add1 le_trans mult_le_mono1)
    then have "real (10 ^ k * den) \<le> real num" by (simp only: of_nat_le_iff)
    moreover have "num < 10 ^ Suc k * den" using b(2) assms(2) by (simp add: q_def div_less_iff_less_mult)
    then have "real num < real (10 ^ Suc k * den)" by (simp only: of_nat_less_iff)
    moreover have "(10::real) powi (int k + 1) = 10 ^ Suc k" using power_int_of_nat [of "10::real" "Suc k"] by (simp add: add.commute)
    ultimately show ?thesis using d by (simp add: x pos_le_divide_eq pos_divide_less_eq)
  next
    case False
    define k where "k = small_exponent num den"
    have "k \<noteq> 0" using False assms by (simp add: k_def) (subst small_exponent.simps, simp)
    then obtain j where j: "k = Suc j" by (cases k) auto
    have b: "den \<le> num * 10 ^ k" "num * 10 ^ j < den"
      using small_exponent_bounds [OF assms] j by (auto simp: k_def [symmetric])
    have x: "decimal_exponent num den = - int k" using False by (simp add: decimal_exponent_def k_def)
    have "real den \<le> real (num * 10 ^ k)" using b(1) by (simp only: of_nat_le_iff)
    moreover have "real (num * 10 ^ j) < real den" using b(2) by (simp only: of_nat_less_iff)
    moreover have "(10::real) powi (- int k) = 1 / 10 ^ k"
      by (simp only: power_int_minus power_int_of_nat divide_inverse mult_1)
    moreover have "- int k + 1 = - int j" by (simp add: j)
    then have "(10::real) powi (- int k + 1) = 1 / 10 ^ j"
      by (simp only: power_int_minus power_int_of_nat divide_inverse mult_1)
    ultimately show ?thesis using d unfolding x
      by (simp add: pos_le_divide_eq pos_divide_less_eq pos_divide_le_eq pos_less_divide_eq mult.commute)
  qed
  then show "10 powi decimal_exponent num den \<le> real num / real den"
    "real num / real den < 10 powi (decimal_exponent num den + 1)" by auto
qed

lemma decimal_digits_spec:
  assumes "0 < num" "0 < den" "0 < p" and "decimal_digits p num den = (mant, x)"
  shows "10 ^ (p - 1) \<le> mant" "mant < 10 ^ p"
    "\<bar>real mant * 10 powi (x - (int p - 1)) - real num / real den\<bar>
       \<le> 10 powi (decimal_exponent num den - (int p - 1)) / 2"
proof -
  define r where "r = real num / real den"
  define y where "y = decimal_exponent num den"
  define q where "q = y - (int p - 1)"
  define M where "M = round_half_even (if q < 0 then num * 10 ^ nat (- q) else num) (if q < 0 then den else den * 10 ^ nat q)"
  have near: "\<bar>real M - r / 10 powi q\<bar> \<le> 1 / 2"
    using round_half_even_real [of "if q < 0 then den else den * 10 ^ nat q" "if q < 0 then num * 10 ^ nat (- q) else num"]
      assms(2) unfolding scale_ten M_def r_def by simp
  have "10 powi q * 10 ^ (p - 1) \<le> r" "r < 10 powi q * 10 ^ p"
    using decimal_exponent_bounds [OF assms(1,2)] unfolding q_def powi_ten_shift powi_ten_shift' [OF assms(3)]
    by (simp_all add: r_def y_def)
  then have b: "10 ^ (p - 1) \<le> r / 10 powi q" "r / 10 powi q < 10 ^ p"
    by (simp_all add: pos_le_divide_eq pos_divide_less_eq mult.commute)
  have low: "10 ^ (p - 1) \<le> M"
  proof -
    have "10 ^ (p - 1) < real M + 1" using near b(1) by linarith
    then have "real (10 ^ (p - 1)) < real (M + 1)" by simp
    then have "10 ^ (p - 1) < M + 1" by (simp only: of_nat_less_iff)
    then show ?thesis by simp
  qed
  have high: "M \<le> 10 ^ p"
  proof -
    have "real M < 10 ^ p + 1" using near b(2) by linarith
    then have "real M < real (10 ^ p + 1)" by simp
    then have "M < 10 ^ p + 1" by (simp only: of_nat_less_iff)
    then show ?thesis by simp
  qed
  have err: "\<bar>real M * 10 powi q - r\<bar> \<le> 10 powi q / 2"
  proof -
    have "real M * 10 powi q - r = (real M - r / 10 powi q) * 10 powi q" by (simp add: left_diff_distrib)
    then have "\<bar>real M * 10 powi q - r\<bar> = \<bar>real M - r / 10 powi q\<bar> * 10 powi q" by (simp add: abs_mult)
    also have "\<dots> \<le> 1 / 2 * 10 powi q" by (rule mult_right_mono [OF near]) simp
    finally show ?thesis by simp
  qed
  have res: "(mant, x) = (if M = 10 ^ p then (10 ^ (p - 1), y + 1) else (M, y))"
    using assms(4) unfolding decimal_digits_def Let_def M_def q_def y_def by (rule sym)
  have same: "real mant * 10 powi (x - (int p - 1)) = real M * 10 powi q"
  proof (cases "M = 10 ^ p")
    case True
    then have *: "mant = 10 ^ (p - 1)" "x = y + 1" using res by auto
    have "(10::real) powi (y + 1 - (int p - 1)) * 10 ^ (p - 1) = 10 powi (y + 1)" by (rule powi_ten_shift' [OF assms(3)])
    moreover have "(10::real) powi q * 10 ^ p = 10 powi (y + 1)" unfolding q_def by (rule powi_ten_shift)
    ultimately show ?thesis by (simp add: * True mult.commute)
  qed (use res in \<open>simp add: q_def\<close>)
  show "\<bar>real mant * 10 powi (x - (int p - 1)) - real num / real den\<bar>
       \<le> 10 powi (decimal_exponent num den - (int p - 1)) / 2"
    using err unfolding same r_def q_def y_def .
  show "10 ^ (p - 1) \<le> mant" "mant < 10 ^ p"
    using res low high assms(3) by (auto split: if_splits)
qed

section \<open>Reading the text of a float back\<close>

lemma read_mantissa_digits:
  "all_digits ds \<Longrightarrow> m * 10 ^ length ds + digits_value ds < 18446744073709551616 \<Longrightarrow>
     read_mantissa (ds @ rest) m k = read_mantissa rest (m * 10 ^ length ds + digits_value ds) (k + length ds)"
proof (induction ds arbitrary: m k)
  case (Cons d ds)
  let ?m = "m * 10 + digit_value d"
  have eq: "?m * 10 ^ length ds + digits_value ds = m * 10 ^ length (d # ds) + digits_value (d # ds)"
    by (simp add: digits_value_Cons algebra_simps)
  have "?m \<le> ?m * 10 ^ length ds" by simp
  then have "?m < 18446744073709551616" using Cons.prems(2) eq by linarith
  then have u: "u64 ?m = ?m" by (simp add: u64_def)
  have "d \<noteq> CHR ''e''" "nq_f64_is_digit d" using Cons.prems(1) by auto
  then show ?case using Cons.IH [of ?m "Suc k"] Cons.prems eq u by simp
qed simp

lemma read_exponent_format: "read_exponent (format_exponent x) = Some x"
proof -
  define ds where "ds = (if length (show_nat (nat \<bar>x\<bar>)) < 2 then ''0'' @ show_nat (nat \<bar>x\<bar>) else show_nat (nat \<bar>x\<bar>))"
  have ds: "all_digits ds" "ds \<noteq> []" "digits_value ds = nat \<bar>x\<bar>"
    by (simp_all add: ds_def show_nat_digits digits_value_Cons)
  have "format_exponent x = (if x < 0 then ''-'' else ''+'') @ ds"
    by (simp add: format_exponent_def ds_def Let_def)
  then show ?thesis using ds
    by (simp add: read_exponent_def take_sign_simps take_digits_all)
qed

lemma read_format:
  assumes "0 < p" "p \<le> 17" "10 ^ (p - 1) \<le> mant" "mant < 10 ^ p"
    and dec: "decimal_digits p (if e < 0 then m else m * 2 ^ nat e) (if e < 0 then 2 ^ nat (- e) else 1) = (mant, x)"
  shows "read_mantissa (format_e p (Finite s m e)) 0 0 = (mant, p, CHR ''e'' # format_exponent x)"
proof -
  define ds where "ds = show_nat mant"
  have len: "length ds = p" using show_nat_length [of "p - 1" mant] assms(1,3,4) by (simp add: ds_def)
  have digits: "all_digits ds" "digits_value ds = mant" by (simp_all add: ds_def show_nat_digits)
  have "(10::nat) ^ p \<le> 10 ^ 17" using assms(2) by (intro power_increasing) simp_all
  then have bound: "mant < 18446744073709551616" using assms(4) by simp
  obtain d rest where c: "ds = d # rest" using len assms(1) by (cases ds) auto
  have d: "nq_f64_is_digit d" "all_digits rest" using digits c by auto
  have one: "read_mantissa (ds @ CHR ''e'' # ys) 0 0 = (mant, p, CHR ''e'' # ys)" for ys
    using read_mantissa_digits [OF digits(1), of 0 "CHR ''e'' # ys" 0] bound digits len by simp
  have dot: "read_mantissa (d # CHR ''.'' # rest @ CHR ''e'' # ys) 0 0 = read_mantissa (ds @ CHR ''e'' # ys) 0 0" for ys
    using d by (auto simp: c)
  have "format_e p (Finite s m e) = d # (if p = 1 then [] else CHR ''.'' # rest) @ CHR ''e'' # format_exponent x"
    using dec by (simp add: format_e_def ds_def [symmetric] c)
  moreover have "p = 1 \<Longrightarrow> rest = []" using len c by simp
  ultimately show ?thesis using one dot c by (cases "p = 1") auto
qed

section \<open>The candidates\<close>

lemma json_int_show_nat: "json_int (show_nat n)"
proof (cases "n = 0")
  case True
  then have "show_nat n = ''0''" by (simp add: show_nat.simps digit_char_0)
  then show ?thesis by (simp add: json_zero)
next
  case False
  then show ?thesis using show_nat_hd [of n] show_nat_digits [of n] show_nat_not_Nil [of n]
    by (cases "show_nat n") (auto intro: json_nonzero simp del: show_nat_not_Nil)
qed

lemma json_number_candidate: "json_number (show_nat m @ ''e'' @ show_int q) (round_decimal False m q)"
proof -
  have "json_exponent (''e'' @ show_int q) q"
  proof (cases "q < 0")
    case True
    with json_some_exponent [of "CHR ''e''" "''-''" True "show_nat (nat (- q))"] show ?thesis
      by (simp add: show_int_def show_nat_digits json_sign.intros)
  next
    case False
    with json_some_exponent [of "CHR ''e''" "[]" False "show_nat (nat q)"] show ?thesis
      by (simp add: show_int_def show_nat_digits json_sign.intros)
  qed
  from json_parts [where neg = False, OF json_int_show_nat json_no_fraction this] show ?thesis by simp
qed

lemma roundtrips_iff: "nq_f64_decimal_roundtrips m q a = f64_eq (round_decimal False m q) a"
  using c_strtod_json [OF json_number_candidate, of m q] by (simp add: nq_f64_decimal_roundtrips_def)

lemma scaled_real: "real_of_int (scaled False m e b) * 2 powi b = real m * 2 powi e" if "b \<le> e"
proof -
  have "(2::real) powi e = 2 ^ nat (e - b) * 2 powi b"
    using that power_int_add [of "2::real" "e - b" b] by (simp add: power_int_def)
  then show ?thesis by (simp add: scaled_def)
qed

lemma f64_fits: "f64_ok (Finite s m e) \<Longrightarrow> exponent_fits (real m * 2 powi e) e"
proof -
  assume ok: "f64_ok (Finite s m e)"
  then have "m < 2 ^ 53" "2 ^ 52 \<le> m \<or> e = -1074" "-1074 \<le> e" by (auto simp: f64_ok_def)
  then have "real m < 2 ^ 53" "2 ^ 52 \<le> real m \<or> e = -1074" "-1074 \<le> e" by auto
  then show ?thesis by (auto simp: exponent_fits_def)
qed

lemma f64_eq_unique:
  assumes "f64_ok x" "f64_ok (Finite False m e)" "0 < m" "f64_eq x (Finite False m e)"
  shows "x = Finite False m e"
proof (cases x)
  case (Finite s m' e')
  define b where "b = min e' e"
  have eq: "scaled s m' e' b = scaled False m e b" using assms(4) by (simp add: Finite b_def)
  have "0 < scaled False m e b" using assms(3) by (simp add: scaled_def)
  moreover have "scaled True m' e' b \<le> 0" "m' = 0 \<Longrightarrow> scaled s m' e' b = 0" by (simp_all add: scaled_def)
  ultimately have "\<not> s \<and> m' \<noteq> 0" using eq by (cases s; cases "m' = 0"; simp)
  then have s: "\<not> s" "0 < m'" by auto
  have "real m' * 2 powi e' = real m * 2 powi e"
    using scaled_real [of b e' m'] scaled_real [of b e m] eq s(1) by (simp add: b_def)
  moreover from this have "e' = e"
    using f64_fits [of s m' e'] f64_fits [OF assms(2)] assms(1) exponent_fits_unique by (simp add: Finite)
  ultimately show ?thesis using s by (simp add: Finite)
qed (use assms(4) in auto)

text \<open>Dropping the zeros at the end.\<close>

lemma strip_zeros_spec:
  "0 < k \<Longrightarrow> k \<le> length ds \<Longrightarrow>
     0 < strip_zeros ds k \<and> strip_zeros ds k \<le> k \<and>
     (1 < strip_zeros ds k \<longrightarrow> ds ! (strip_zeros ds k - 1) \<noteq> CHR ''0'') \<and>
     take k ds = take (strip_zeros ds k) ds @ replicate (k - strip_zeros ds k) CHR ''0''"
proof (induction k)
  case (Suc k)
  show ?case
  proof (cases "1 \<le> k \<and> ds ! k = CHR ''0''")
    case True
    then have ih: "0 < strip_zeros ds k" "strip_zeros ds k \<le> k"
      "1 < strip_zeros ds k \<longrightarrow> ds ! (strip_zeros ds k - 1) \<noteq> CHR ''0''"
      "take k ds = take (strip_zeros ds k) ds @ replicate (k - strip_zeros ds k) CHR ''0''"
      using Suc by auto
    have "take (Suc k) ds = take k ds @ [CHR ''0'']"
      using Suc.prems(2) True by (simp add: take_Suc_conv_app_nth)
    also have "\<dots> = take (strip_zeros ds k) ds @ replicate (Suc k - strip_zeros ds k) CHR ''0''"
      using ih(2) by (subst ih(4)) (simp add: Suc_diff_le replicate_append_same)
    finally show ?thesis using True ih by simp
  qed (use Suc.prems in auto)
qed simp

section \<open>The search\<close>

text \<open>
  What the search is to find: digits without a leading or a trailing zero, at most 17 of them, and
  the position of the decimal point, that \<open>strtod\<close> rounds to the float.
\<close>

definition decimal_of :: "f64 \<Rightarrow> string \<Rightarrow> int \<Rightarrow> bool" where
  "decimal_of a ds n \<longleftrightarrow> all_digits ds \<and> ds \<noteq> [] \<and> hd ds \<noteq> CHR ''0'' \<and> (1 < length ds \<longrightarrow> last ds \<noteq> CHR ''0'') \<and>
     length ds \<le> 17 \<and> round_decimal False (digits_value ds) (n - int (length ds)) = a"

lemma candidate_decimal:
  assumes a: "a = Finite False m e" "f64_ok a" "0 < m"
    and v: "0 < v" "v < 10 ^ 17 \<or> v = 10 ^ 17" "nq_f64_decimal_roundtrips v q a"
    and ds: "ds = show_nat v"
  shows "decimal_of a (take (strip_zeros ds (length ds)) ds) (q + int (length ds))"
proof -
  define k where "k = strip_zeros ds (length ds)"
  define z where "z = length ds - k"
  have len: "0 < length ds" by (simp add: ds)
  have k: "0 < k" "k \<le> length ds" "1 < k \<longrightarrow> ds ! (k - 1) \<noteq> CHR ''0''"
    and split: "ds = take k ds @ replicate z CHR ''0''"
    using strip_zeros_spec [OF len le_refl] by (auto simp: k_def z_def)
  have val: "v = digits_value (take k ds) * 10 ^ z"
    using arg_cong [OF split, of digits_value] by (simp add: ds digits_value_append)
  have rd: "round_decimal False v q = a"
    using f64_eq_unique [OF round_decimal_ok, of m e] v(3) a by (simp add: roundtrips_iff)
  have "round_decimal False (digits_value (take k ds)) (q + int z) = a"
    using rd unfolding val round_decimal_shift .
  moreover have "length (take k ds) = k" "int z = int (length ds) - int k" using k by (simp_all add: z_def)
  moreover have "hd (take k ds) \<noteq> CHR ''0''"
    using show_nat_hd [OF v(1)] k(1) len by (simp add: ds hd_take)
  moreover have "all_digits (take k ds)"
    using show_nat_digits [of v] by (auto simp: ds list_all_iff dest: in_set_takeD)
  moreover have "1 < k \<longrightarrow> last (take k ds) \<noteq> CHR ''0''"
  proof
    assume "1 < k"
    have "take k ds \<noteq> []" using k len by auto
    then have "last (take k ds) = ds ! (k - 1)" using k by (simp add: last_conv_nth min_def)
    then show "last (take k ds) \<noteq> CHR ''0''" using k(3) \<open>1 < k\<close> by simp
  qed
  moreover have "k \<le> 17"
  proof (cases "v = 10 ^ 17")
    case True
    have "k = 1 \<or> k \<le> 17"
    proof (rule ccontr)
      assume "\<not> (k = 1 \<or> k \<le> 17)"
      moreover have "length ds = 18" using show_nat_length [of 17 v] True by (simp add: ds)
      ultimately have "k = 18" using k(2) by simp
      then have "z = 0" using \<open>length ds = 18\<close> by (simp add: z_def)
      have "ds = show_nat (10 ^ 16) @ [digit_char 0]" using True by (subst ds, subst show_nat.simps) simp
      then have "ds ! (k - 1) = CHR ''0''"
        using \<open>k = 18\<close> \<open>length ds = 18\<close> by (simp add: nth_append digit_char_0)
      then show False using k(3) \<open>k = 18\<close> by simp
    qed
    then show ?thesis by auto
  next
    case False
    then have "v < 10 ^ 17" using v(2) by simp
    moreover have "10 ^ (length ds - 1) \<le> v" using show_nat_bounds(2) [OF v(1)] by (simp add: ds)
    ultimately have "(10::nat) ^ (length ds - 1) < 10 ^ 17" by linarith
    then have "length ds - 1 < 17" by (rule power_less_imp_less_exp [rotated]) simp
    then show ?thesis using k(2) by linarith
  qed
  moreover have "take k ds \<noteq> []" using k len by auto
  moreover have "q + int (length ds) - int k = q + int z" using calculation(3) by simp
  ultimately show ?thesis
    unfolding decimal_of_def k_def [symmetric] by (simp only: simp_thms)
qed

lemma try_candidates_spec:
  assumes a: "a = Finite False m e" "f64_ok a" "0 < m" and mant: "0 < mant" "mant < 10 ^ 17"
  shows "case try_candidates a mant q 0 2 of
    None \<Rightarrow> \<not> nq_f64_decimal_roundtrips mant q a
  | Some (ds, n) \<Rightarrow> decimal_of a ds n"
proof -
  have u: "u64 mant = mant" "u64 (Suc mant) = Suc mant" using mant by (simp_all add: u64_def)
  have pick: "decimal_of a (take (strip_zeros ds (length ds)) ds) (q + int (length ds))"
    if "v = mant \<or> v = Suc mant" "nq_f64_decimal_roundtrips v q a" "ds = rev (reversed_digits v)" for v ds
  proof -
    have v: "0 < v" "v < 10 ^ 17 \<or> v = 10 ^ 17" using that(1) mant by auto
    show ?thesis
      by (rule candidate_decimal [OF a v that(2)]) (use that(3) v in \<open>simp add: rev_reversed_digits\<close>)
  qed
  show ?thesis using pick u
    by (auto simp: numeral_2_eq_2 Let_def)
qed

lemma seventeen_digits_roundtrip:
  assumes a: "f64_ok (Finite False m e)" "0 < m"
    and dec: "decimal_digits 17 (if e < 0 then m else m * 2 ^ nat e) (if e < 0 then 2 ^ nat (- e) else 1) = (mant, x)"
  shows "round_decimal False mant (x - 16) = Finite False m e"
proof -
  define num where "num = (if e < 0 then m else m * 2 ^ nat e)"
  define den where "den = (if e < 0 then 2 ^ nat (- e) else 1 :: nat)"
  define y where "y = decimal_exponent num den"
  have pos: "0 < num" "0 < den" using a(2) by (simp_all add: num_def den_def)
  have r: "real num / real den = real m * 2 powi e"
    by (simp add: num_def den_def power_int_def field_simps)
  have low: "10 powi y \<le> real m * 2 powi e"
    using decimal_exponent_bounds(1) [OF pos] by (simp add: y_def r)
  have "\<bar>real mant * 10 powi (x - 16) - real m * 2 powi e\<bar> \<le> 10 powi (y - 16) / 2"
    using decimal_digits_spec(3) [OF pos, of 17 mant x] dec by (simp add: num_def den_def y_def r [unfolded num_def den_def])
  also have "\<dots> = 10 powi y / (2 * 10 ^ 16)" by (simp add: power_int_diff)
  also have "\<dots> \<le> real m * 2 powi e / (2 * 10 ^ 16)" by (rule divide_right_mono [OF low]) simp
  also have "\<dots> < real m * 2 powi e / 2 ^ 54" using a(2) by (simp add: divide_strict_left_mono)
  finally have near: "\<bar>real mant * 10 powi (x - 16) - real m * 2 powi e\<bar> < real m * 2 powi e / 2 ^ 54" .
  obtain num' den' where d: "round_decimal False mant (x - 16) = round_ratio False num' den'" "0 < den'"
    "real num' / real den' = real mant * 10 powi (x - 16)"
    by (rule round_decimal_ratio)
  show ?thesis unfolding d(1)
    by (rule round_ratio_near [OF a d(2)]) (simp only: d(3) near)
qed

lemma shortest_from_total:
  assumes a: "a = Finite False m e" "f64_ok a" "0 < m" and "0 < n" "p + n = 18" "0 < p"
  shows "\<exists>ds k. shortest_from a p n = ret (ds, k) \<and> decimal_of a ds k"
  using assms(4-6)
proof (induction n arbitrary: p)
  case (Suc n)
  define num where "num = (if e < 0 then m else m * 2 ^ nat e)"
  define den where "den = (if e < 0 then 2 ^ nat (- e) else 1 :: nat)"
  obtain mant x where dec: "decimal_digits p num den = (mant, x)" by fastforce
  have pos: "0 < num" "0 < den" using a(3) by (simp_all add: num_def den_def)
  have p: "0 < p" "p \<le> 17" using Suc.prems by auto
  have mant: "10 ^ (p - 1) \<le> mant" "mant < 10 ^ p" using decimal_digits_spec(1,2) [OF pos p(1) dec] .
  have "(10::nat) ^ p \<le> 10 ^ 17" using p by (intro power_increasing) simp_all
  then have m17: "mant < 10 ^ 17" using mant(2) by linarith
  have m0: "0 < mant" using mant(1) by (metis less_le_trans zero_less_numeral zero_less_power)
  have read: "read_mantissa (format_e p a) 0 0 = (mant, p, CHR ''e'' # format_exponent x)"
    unfolding a(1) by (rule read_format [OF p mant dec [unfolded num_def den_def]])
  have step: "shortest_from a p (Suc n) = (case try_candidates a mant (x - (int p - 1)) 0 2 of
      Some r \<Rightarrow> ret r | None \<Rightarrow> shortest_from a (p + 1) n)"
    by (simp add: read read_exponent_format)
  show ?case
  proof (cases "try_candidates a mant (x - (int p - 1)) 0 2")
    case (Some r)
    then show ?thesis using try_candidates_spec [OF a m0 m17, of "x - (int p - 1)"]
      unfolding step by (cases r) auto
  next
    case None
    then have no: "\<not> nq_f64_decimal_roundtrips mant (x - (int p - 1)) a"
      using try_candidates_spec [OF a m0 m17, of "x - (int p - 1)"] by simp
    have "n \<noteq> 0"
    proof
      assume "n = 0"
      then have "p = 17" using Suc.prems by simp
      then have "round_decimal False mant (x - 16) = a"
        using seventeen_digits_roundtrip [of m e mant x] a dec by (simp add: num_def den_def)
      moreover have "f64_eq a a" by (simp add: a(1))
      ultimately show False using no \<open>p = 17\<close> by (simp add: roundtrips_iff)
    qed
    then show ?thesis using Suc.IH [of "p + 1"] Suc.prems unfolding step None by simp
  qed
qed simp

lemma shortest_total:
  assumes "f64_ok (Finite False m e)" "0 < m"
  shows "\<exists>ds k. nq_f64_shortest (Finite False m e) = ret (ds, k) \<and> decimal_of (Finite False m e) ds k"
  unfolding nq_f64_shortest_def by (rule shortest_from_total [OF refl assms]) simp_all

section \<open>Placing the digits\<close>

lemma round_decimal_digits:
  assumes "digits_value ds' = digits_value ds * 10 ^ z"
  shows "round_decimal neg (digits_value ds') (q - int z) = round_decimal neg (digits_value ds) q"
  using round_decimal_shift [of neg "digits_value ds" z "q - int z"] assms by simp

lemma json_number_placed:
  assumes ip: "json_int ip" and fs: "json_fraction fs fp" and es: "json_exponent es ex"
    and val: "digits_value (ip @ fp) = digits_value d * 10 ^ z"
    and q: "ex - int (length fp) = n - int (length d) - int z"
  shows "json_number ((if neg then ''-'' else []) @ ip @ fs @ es) (round_decimal neg (digits_value d) (n - int (length d)))"
  using json_parts [OF ip fs es, of neg] round_decimal_digits [OF val, of neg "n - int (length d)"]
  by (simp add: q)

lemma json_place:
  assumes d: "all_digits d" "d \<noteq> []" "hd d \<noteq> CHR ''0''"
  shows "json_number (nq_f64_place neg d n) (round_decimal neg (digits_value d) (n - int (length d)))"
proof -
  obtain d1 ds where c: "d = d1 # ds" using d(2) by (cases d) auto
  have d1: "nq_f64_is_digit d1" "d1 \<noteq> CHR ''0''" "all_digits ds" using d c by auto
  define k where "k = int (length d)"
  consider (whole) "k \<le> n \<and> n \<le> 21"
    | (point) "\<not> (k \<le> n \<and> n \<le> 21)" "0 < n \<and> n \<le> 21"
    | (small) "\<not> (k \<le> n \<and> n \<le> 21)" "\<not> (0 < n \<and> n \<le> 21)" "-6 < n \<and> n \<le> 0"
    | (sci) "\<not> (k \<le> n \<and> n \<le> 21)" "\<not> (0 < n \<and> n \<le> 21)" "\<not> (-6 < n \<and> n \<le> 0)"
    by blast
  then show ?thesis
  proof cases
    case whole
    have zs: "all_digits (replicate (nat (n - k)) CHR ''0'')" by (simp add: list_all_iff)
    have ip: "json_int (d @ replicate (nat (n - k)) CHR ''0'')"
      using d1 zs by (simp add: c json_nonzero)
    show ?thesis
      using json_number_placed [OF ip json_no_fraction json_no_exponent, of d "nat (n - k)" n neg] whole
      by (simp add: nq_f64_place_def k_def digits_value_append)
  next
    case point
    define i where "i = nat n"
    have i: "0 < i" "i < length d" "int i = n" using point by (auto simp: i_def k_def)
    have "all_digits (take (i - 1) ds)" using d1(3) set_take_subset [of "i - 1" ds] by (auto simp: list_all_iff)
    then have ip: "json_int (take i d)" using d1 i by (cases i) (auto simp: c intro!: json_nonzero)
    have fp: "all_digits (drop i d)" "drop i d \<noteq> []" using d(1) i by (auto simp: list_all_iff dest: in_set_dropD)
    show ?thesis
      using json_number_placed [OF ip json_some_fraction [OF fp] json_no_exponent, of d 0 n neg] point i
      by (simp add: nq_f64_place_def k_def [symmetric] i_def [symmetric] Let_def)
  next
    case small
    define zs where "zs = replicate (nat (- n)) (CHR ''0'')"
    have fp: "all_digits (zs @ d)" "zs @ d \<noteq> []" using d by (auto simp: zs_def list_all_iff)
    have val: "digits_value (''0'' @ zs @ d) = digits_value d * 10 ^ 0"
      by (simp add: digits_value_append digits_value_Cons zs_def)
    show ?thesis
      using json_number_placed [OF json_zero json_some_fraction [OF fp] json_no_exponent val, of n neg] small
      by (simp add: nq_f64_place_def k_def [symmetric] Let_def zs_def)
  next
    case sci
    define sg where "sg = (if n - 1 < 0 then ''-'' else ''+'')"
    define es where "es = CHR ''e'' # sg @ show_nat (nat \<bar>n - 1\<bar>)"
    have "json_sign sg (n - 1 < 0)" by (auto simp: sg_def intro: json_sign.intros)
    from json_some_exponent [OF _ this show_nat_digits show_nat_not_Nil, of "CHR ''e''" "nat \<bar>n - 1\<bar>"]
    have es: "json_exponent es (n - 1)" by (simp add: es_def split: if_splits)
    have ip: "json_int [d1]" using d1 by (simp add: json_nonzero)
    have place: "nq_f64_place neg d n = (if neg then ''-'' else []) @ [d1] @ (if k > 1 then ''.'' @ ds else []) @ es"
      unfolding nq_f64_place_def k_def [symmetric] Let_def if_not_P [OF sci(1)] if_not_P [OF sci(2)] if_not_P [OF sci(3)]
      by (simp add: c es_def sg_def)
    show ?thesis
    proof (cases "k > 1")
      case True
      then have fp: "json_fraction (CHR ''.'' # ds) ds" using d1 c by (auto simp: k_def intro: json_some_fraction)
      show ?thesis
        using json_number_placed [OF ip fp es, of d 0 n neg] True place [unfolded c] by (simp add: c)
    next
      case False
      then have "ds = []" using c by (simp add: k_def)
      then show ?thesis
        using json_number_placed [OF ip json_no_fraction es, of d 0 n neg] False place [unfolded c] by (simp add: c)
    qed
  qed
qed

section \<open>Text of a float\<close>

lemma round_ratio_neg: "round_ratio True num den = f64_neg (round_ratio False num den)"
  by (simp add: round_ratio_def Let_def split: prod.splits)

lemma round_decimal_neg: "round_decimal neg m q = (if neg then f64_neg (round_decimal False m q) else round_decimal False m q)"
  by (simp add: round_decimal_def round_ratio_neg)

lemma zero_exponent: "f64_ok (Finite neg 0 e) \<Longrightarrow> e = -1074"
  by (simp add: f64_ok_def)

lemma json_zero_number: "json_number (if neg then ''-0'' else ''0'') (Finite neg 0 (-1074))"
  using json_parts [OF json_zero json_no_fraction json_no_exponent, of neg]
  by (auto simp: round_decimal_def round_ratio_def split: if_splits)

lemma wp_nq_str_from_f64:
  assumes "owns L R s" and ok: "f64_ok (Finite neg m e)"
    and E: "E (Exit 1)" "E Blocked"
    and Q: "\<And>t v s'. owns (add_mset (t, v) L) R s' \<Longrightarrow> json_number v (Finite neg m e) \<Longrightarrow> Q t s'"
  shows "wp E (nq_str_from_f64 c (Finite neg m e)) Q s"
proof -
  have copy: "wp E (nq_owned_str_copy c (PLit v 0) (int (length v))) Q s"
    if "owns L R s" "json_number v (Finite neg m e)" for v s
    by (rule wp_nq_owned_str_copy [where E = E, OF that(1) _ E(1)])
      (use Q that(2) in \<open>auto intro: readable_lit0\<close>)
  have tests: "\<not> f64_less DBL_MAX (Finite neg m e)" "\<not> f64_less (Finite neg m e) (f64_neg DBL_MAX)"
    "f64_eq (Finite neg m e) (Finite neg m e)" "f64_eq (Finite neg m e) (Finite False 0 (-1074)) \<longleftrightarrow> m = 0"
    using finite_within_DBL_MAX [OF ok] by (auto simp: scaled_def)
  show ?thesis
  proof (cases "m = 0")
    case True
    then have "json_number (if neg then ''-0'' else ''0'') (Finite neg m e)"
      using json_zero_number zero_exponent ok by simp
    then show ?thesis
      using tests True copy [OF assms(1), of "''-0''"] copy [OF assms(1), of "''0''"]
      by (simp add: nq_str_from_f64_def f64_sign_def Let_def split: if_splits)
  next
    case False
    have pos: "f64_ok (Finite False m e)" "0 < m" using ok False by (auto simp: f64_ok_def)
    obtain ds k where ds: "nq_f64_shortest (Finite False m e) = ret (ds, k)" "decimal_of (Finite False m e) ds k"
      using shortest_total [OF pos] by blast
    have "json_number (nq_f64_place neg ds k) (round_decimal neg (digits_value ds) (k - int (length ds)))"
      using ds(2) by (intro json_place) (auto simp: decimal_of_def)
    moreover have "round_decimal neg (digits_value ds) (k - int (length ds)) = Finite neg m e"
      using ds(2) by (subst round_decimal_neg) (simp add: decimal_of_def)
    ultimately have placed: "json_number (nq_f64_place neg ds k) (Finite neg m e)" by simp
    have mag: "(if neg then f64_neg (Finite neg m e) else Finite neg m e) = Finite False m e" by simp
    show ?thesis
      using tests False
      unfolding nq_str_from_f64_def Let_def f64_sign_def f64.case mag ds(1)
      by (auto simp: wp_simps E wp_nq_numeric_locale_fail
          intro!: wp_nq_numeric_locale_enter [OF assms(1)] wp_nq_numeric_locale_leave copy placed)
  qed
qed

section \<open>Properties of the text conversions\<close>

text \<open>For the examples: the replies of the two calls that enter the locale.\<close>

definition locale_replies :: "reply list" where
  "locale_replies = replicate 2 \<lparr>r_ret = 1, r_errno = 0, r_bytes = [], r_ints = []\<rparr>"

lemma locale_ready_boot: "locale_ready (boot ms locale_replies)"
  by (simp add: locale_ready_def locale_replies_def numeral_2_eq_2)

lemma json_two_and_a_half: "json_number ''2.5'' (Finite False 5629499534213120 (-51))"
proof -
  have "round_decimal False 25 (-1) = Finite False 5629499534213120 (-51)"
    unfolding round_decimal_def by (rule round_ratio_near) (simp_all add: f64_ok_def power_int_def power_one_over)
  moreover have "json_int ''2''" "json_fraction ''.5'' ''5''"
    by (auto intro!: json_nonzero json_some_fraction simp: nq_f64_is_digit_def)
  moreover have "digits_value ''25'' = 25" by (simp add: digits_value_def digit_value_def)
  ultimately show ?thesis using json_parts [OF _ _ json_no_exponent, of "''2''" "''.5''" "''5''" False] by simp
qed

text \<open>
  C33: The hand-written scanner nq_f64_grammar accepts exactly the numbers of RFC 8259: a text
  passes if and only if it is an optional minus sign, an integer without leading zeros, an
  optional fraction and an optional exponent, with nothing before, between or after.
\<close>

theorem grammar_accepts_exactly_json_numbers:
  "nq_f64_grammar xs \<longleftrightarrow> (\<exists>x. json_number xs x)"
  by (rule nq_f64_grammar_iff)

text \<open>
  C34: Parsing a text as an f64 is total and correct for texts shorter than 512 bytes once the C
  locale is there: a text that is not a JSON number gives None, a JSON number gives the binary64
  value nearest to it or None when that overflows; the parse never disagrees with the grammar (the
  internal failure is unreachable), and no memory is leaked. A longer text may also fail fast when
  its copy cannot be allocated.
\<close>

theorem f64_from_str_correct:
  assumes "owns L R s" and "(t, v) \<in># L" and "nq_str_size c (s_len t)"
  shows "wp (\<lambda>r. r = Exit 1 \<and> (512 \<le> length v \<or> \<not> locale_ready s) \<or> r = Blocked \<and> \<not> locale_ready s)
    (nq_f64_from_str c t)
    (\<lambda>r s'. owns L R s' \<and>
       ((\<nexists>x. json_number v x) \<and> r = None \<or> (\<exists>x. json_number v x \<and> r = finite_f64 x))) s"
  by (rule wp_nq_f64_from_str [OF assms]) (auto simp: nq_f64_grammar_iff)

theorem f64_from_str_correct_witness:
  "wp no_stop (nq_f64_from_str plain_config (literal ''2.5''))
     (\<lambda>r s'. r = Some (Finite False 5629499534213120 (-51)) \<and> owns {#(literal ''2.5'', ''2.5'')#} Map.empty s')
     (boot [] locale_replies)"
proof -
  have v: "json_number ''2.5'' x \<Longrightarrow> x = Finite False 5629499534213120 (-51)" for x
    using c_strtod_json [of "''2.5''" x] c_strtod_json [OF json_two_and_a_half] by simp
  have size: "nq_str_size plain_config (s_len (literal ''2.5''))"
    by (simp add: nq_str_size_def nq_str_limit_def nq_sequence_limit_def plain_config_def literal_def width_defs)
  have value_is: "r = Some (Finite False 5629499534213120 (-51))"
    if "(\<nexists>x. json_number ''2.5'' x) \<and> r = None \<or> (\<exists>x. json_number ''2.5'' x \<and> r = finite_f64 x)" for r
  proof -
    have no: "\<not> (\<nexists>x. json_number ''2.5'' x)" by (rule notI) (erule notE, rule exI, rule json_two_and_a_half)
    from that no obtain x where x: "json_number ''2.5'' x" "r = finite_f64 x" by (elim disjE conjE exE) (erule notE)
    show ?thesis by (simp only: x(2) v [OF x(1)] finite_f64_def f64.case)
  qed
  show ?thesis
    by (rule wp_weaken [OF wp_mono [OF f64_from_str_correct [where v = "''2.5''", OF owns_literal [OF owns_boot] _ size]]])
      (simp, erule conjE, intro conjI, erule value_is, assumption, simp add: locale_ready_boot)
qed

text \<open>
  C32: The search for the shortest digits of a positive finite f64 always succeeds (neither of its
  internal failures is reachable, whatever the state), and what it finds is a decimal without
  leading or trailing zeros, of at most 17 digits, that converts back to exactly that f64.
\<close>

theorem f64_shortest_total_and_exact:
  assumes "f64_ok (Finite False m e)" and "0 < m"
  shows "\<exists>ds n. nq_f64_shortest (Finite False m e) s = Ret (ds, n) s \<and> decimal_of (Finite False m e) ds n"
  using shortest_total [OF assms] by (auto simp: ret_def)

theorem f64_shortest_total_and_exact_witness:
  "\<exists>ds n. nq_f64_shortest (Finite False 7205759403792794 (-56)) (boot [] []) = Ret (ds, n) (boot [] []) \<and>
     decimal_of (Finite False 7205759403792794 (-56)) ds n"
  by (rule f64_shortest_total_and_exact) (simp_all add: f64_ok_def)

text \<open>
  C31: Printing a finite f64 and parsing the text gives back the same f64, sign of zero included;
  the text is a JSON number that denotes it, and lives in a fresh string.
\<close>

theorem f64_text_roundtrip:
  assumes "owns L R s" and "f64_ok (Finite neg m e)"
  shows "wp (\<lambda>r. r = Exit 1 \<or> r = Blocked)
    (bind (nq_str_from_f64 c (Finite neg m e)) (\<lambda>t. bind (nq_f64_from_str c t) (\<lambda>x. ret (t, x))))
    (\<lambda>(t, x) s'. x = Some (Finite neg m e) \<and>
       (\<exists>v. owns (add_mset (t, v) L) R s' \<and> json_number v (Finite neg m e))) s"
  unfolding wp_bind
proof (rule wp_nq_str_from_f64 [OF assms], goal_cases)
  case (3 t v s')
  show ?case
  proof (cases "nq_str_size c (s_len t)")
    case False
    then show ?thesis by (simp add: nq_f64_from_str_def wp_simps)
  next
    case True
    have unique: "json_number v y \<Longrightarrow> y = Finite neg m e" for y
      using c_strtod_json [OF 3(2)] c_strtod_json [of v y] by simp
    have "nq_f64_grammar v" using 3(2) nq_f64_grammar_iff by blast
    then show ?thesis
      by (rule_tac wp_nq_f64_from_str [OF 3(1) _ True])
        (use 3 in \<open>auto simp: wp_simps finite_f64_def dest: unique\<close>)
  qed
qed auto

theorem f64_text_roundtrip_witness:
  "wp (\<lambda>r. r = Exit 1 \<or> r = Blocked)
    (bind (nq_str_from_f64 plain_config (Finite True 7205759403792794 (-56)))
       (\<lambda>t. bind (nq_f64_from_str plain_config t) (\<lambda>x. ret (t, x))))
    (\<lambda>(t, x) s'. x = Some (Finite True 7205759403792794 (-56)) \<and>
       (\<exists>v. owns {#(t, v)#} Map.empty s' \<and> json_number v (Finite True 7205759403792794 (-56))))
    (boot [] (locale_replies @ locale_replies))"
  by (rule f64_text_roundtrip [OF owns_boot]) (simp add: f64_ok_def)

end
