(* ===== verification/Float_Int.thy ===== *)
theory Float_Int
  imports Rounding
begin

text \<open>
  The conversions between integers and floats, stated on the real number a float denotes: which
  values convert, and to what.
\<close>

section \<open>The number a float denotes\<close>

fun f64_real :: "f64 \<Rightarrow> real" where
  "f64_real (Finite neg m e) = (if neg then - 1 else 1) * (real m * 2 powi e)"
| "f64_real _ = 0"

lemma scaled_f64_real: "b \<le> e \<Longrightarrow> real_of_int (scaled neg m e b) * 2 powi b = f64_real (Finite neg m e)"
proof -
  assume "b \<le> e"
  then have "(2::real) powi e = 2 ^ nat (e - b) * 2 powi b"
    using power_int_add [of "2::real" "e - b" b] by (simp add: power_int_def)
  then show ?thesis by (simp add: scaled_def)
qed

lemma f64_less_real:
  "f64_less (Finite s m e) (Finite s' m' e') \<longleftrightarrow> f64_real (Finite s m e) < f64_real (Finite s' m' e')"
proof -
  define b where "b = min e e'"
  have "scaled s m e b < scaled s' m' e' b \<longleftrightarrow>
      real_of_int (scaled s m e b) * 2 powi b < real_of_int (scaled s' m' e' b) * 2 powi b"
    by simp
  also have "\<dots> \<longleftrightarrow> f64_real (Finite s m e) < f64_real (Finite s' m' e')"
    by (subst (1 2) scaled_f64_real) (simp_all add: b_def)
  finally show ?thesis by (simp add: b_def)
qed

lemma f64_eq_real:
  "f64_eq (Finite s m e) (Finite s' m' e') \<longleftrightarrow> f64_real (Finite s m e) = f64_real (Finite s' m' e')"
proof -
  define b where "b = min e e'"
  have "scaled s m e b = scaled s' m' e' b \<longleftrightarrow>
      real_of_int (scaled s m e b) * 2 powi b = real_of_int (scaled s' m' e' b) * 2 powi b"
    by simp
  also have "\<dots> \<longleftrightarrow> f64_real (Finite s m e) = f64_real (Finite s' m' e')"
    by (subst (1 2) scaled_f64_real) (simp_all add: b_def)
  finally show ?thesis by (simp add: b_def)
qed

lemma truncated_floor: "truncated neg m e = (if neg then - \<lfloor>real m * 2 powi e\<rfloor> else \<lfloor>real m * 2 powi e\<rfloor>)"
proof -
  have "int (if e < 0 then m div 2 ^ nat (- e) else m * 2 ^ nat e) = \<lfloor>real m * 2 powi e\<rfloor>"
  proof (cases "e < 0")
    case True
    then have "real m * 2 powi e = real m / real (2 ^ nat (- e))" by (simp add: power_int_def field_simps)
    then show ?thesis using True floor_divide_of_nat_eq [of m "2 ^ nat (- e)", where ?'a = real] by simp
  next
    case False
    then have "real m * 2 powi e = real (m * 2 ^ nat e)" by (simp add: power_int_def)
    then show ?thesis using False by (simp del: of_nat_mult of_nat_power)
  qed
  then show ?thesis by (simp add: truncated_def)
qed

section \<open>Truncation\<close>

text \<open>The part of \<open>x\<close> before the point, when there is one and it lies between the bounds.\<close>

definition truncation :: "int \<Rightarrow> int \<Rightarrow> f64 \<Rightarrow> int option" where
  "truncation lowest highest x = (case x of
     Finite neg m e \<Rightarrow>
       let n = (if neg then - \<lfloor>real m * 2 powi e\<rfloor> else \<lfloor>real m * 2 powi e\<rfloor>) in
       if lowest \<le> n \<and> n \<le> highest then Some n else None
   | _ \<Rightarrow> None)"

lemma round_ratio_exact:
  assumes "f64_ok (Finite neg m e)" "0 < m" "0 < den" "real num / real den = real m * 2 powi e"
  shows "round_ratio neg num den = Finite neg m e"
  by (rule round_ratio_near [OF assms(1-3)]) (use assms(2) in \<open>simp add: assms(4)\<close>)

lemma i32_limits:
  "f64_of_int (-2147483649) = Finite True 4503599629467648 (-21)"
  "f64_of_int 2147483648 = Finite False 4503599627370496 (-21)"
proof -
  have "round_ratio True 2147483649 1 = Finite True 4503599629467648 (-21)"
    by (rule round_ratio_exact) (simp_all add: f64_ok_def power_int_def power_one_over)
  moreover have "round_ratio False 2147483648 1 = Finite False 4503599627370496 (-21)"
    by (rule round_ratio_exact) (simp_all add: f64_ok_def power_int_def power_one_over)
  ultimately show "f64_of_int (-2147483649) = Finite True 4503599629467648 (-21)"
    "f64_of_int 2147483648 = Finite False 4503599627370496 (-21)"
    by (simp_all add: f64_of_int_def)
qed

lemma two_to_63_real: "f64_real two_to_63 = 9223372036854775808" "f64_real (f64_neg two_to_63) = - 9223372036854775808"
  by (simp_all add: two_to_63_def power_int_def)

lemma i32_limits_real:
  "f64_real (Finite True 4503599629467648 (-21)) = - 2147483649"
  "f64_real (Finite False 4503599627370496 (-21)) = 2147483648"
  by (simp_all add: power_int_def power_one_over)

text \<open>Truncation between two integers, on the real line.\<close>

lemma floor_between:
  fixes r :: real
  shows "0 \<le> r \<Longrightarrow> 0 < hi \<Longrightarrow> real_of_int (lo - 1) < - r \<and> - r < real_of_int hi \<longleftrightarrow> lo \<le> - \<lfloor>r\<rfloor> \<and> - \<lfloor>r\<rfloor> \<le> hi - 1"
    "0 \<le> r \<Longrightarrow> lo \<le> 0 \<Longrightarrow> real_of_int (lo - 1) < r \<and> r < real_of_int hi \<longleftrightarrow> lo \<le> \<lfloor>r\<rfloor> \<and> \<lfloor>r\<rfloor> \<le> hi - 1"
  by linarith+

lemma trunc_i32_spec: "nq_f64_trunc_i32 x = ret (truncation INT32_MIN INT32_MAX x)"
proof (cases x)
  case (Finite neg m e)
  define r where "r = real m * 2 powi e"
  have r: "0 \<le> r" by (simp add: r_def)
  have range: "f64_less (f64_of_int (-2147483649)) x \<and> f64_less x (f64_of_int 2147483648) \<longleftrightarrow>
      INT32_MIN \<le> truncated neg m e \<and> truncated neg m e \<le> INT32_MAX"
    unfolding i32_limits Finite f64_less_real i32_limits_real truncated_floor r_def [symmetric]
    using floor_between(1) [OF r, of 2147483648 "-2147483648"] floor_between(2) [OF r, of "-2147483648" 2147483648] r
    by (cases neg) (simp_all add: width_defs r_def)
  show ?thesis
    using range by (simp add: nq_f64_trunc_i32_def truncation_def Finite c_int_of_f64_def truncated_floor
        bind_def ret_def Let_def fun_eq_iff split: if_splits)
qed (auto simp: nq_f64_trunc_i32_def truncation_def i32_limits)

text \<open>Beyond \<open>2^63\<close> every binary64 value is an integer.\<close>

lemma large_is_integer:
  assumes "f64_ok (Finite neg m e)" and "2 ^ 53 \<le> real m * 2 powi e"
  shows "real_of_int \<lfloor>real m * 2 powi e\<rfloor> = real m * 2 powi e"
proof -
  have "0 \<le> e"
  proof (rule ccontr)
    assume "\<not> 0 \<le> e"
    then have "(2::real) powi e \<le> 2 powi 0" by (intro powi_mono) simp
    then have "real m * 2 powi e \<le> real m" by (simp add: mult_left_le)
    moreover have "m < 2 ^ 53" using assms(1) by (simp add: f64_ok_def)
    then have "real m < 2 ^ 53" by simp
    ultimately show False using assms(2) by linarith
  qed
  then have "real m * 2 powi e = real_of_int (int m * 2 ^ nat e)" by (simp add: power_int_def)
  then show ?thesis by (metis floor_of_int)
qed

lemma trunc_i64_spec:
  assumes "f64_ok x"
  shows "nq_f64_trunc_i64 x = ret (truncation INT64_MIN INT64_MAX x)"
proof (cases x)
  case (Finite neg m e)
  define r where "r = real m * 2 powi e"
  have r: "0 \<le> r" by (simp add: r_def)
  obtain p q k l where lim: "two_to_63 = Finite False p q" by (simp add: two_to_63_def)
  have lo: "f64_less (f64_neg two_to_63) x \<or> f64_eq (f64_neg two_to_63) x \<longleftrightarrow> - 9223372036854775808 \<le> f64_real x"
    using two_to_63_real unfolding lim f64_neg.simps Finite f64_less_real f64_eq_real by auto
  have hi: "f64_less x two_to_63 \<longleftrightarrow> f64_real x < 9223372036854775808"
    using two_to_63_real unfolding lim Finite f64_less_real by auto
  have big: "2 ^ 53 \<le> r \<Longrightarrow> real_of_int \<lfloor>r\<rfloor> = r"
    using large_is_integer assms by (simp add: Finite r_def)
  have neg: "- 9223372036854775808 \<le> - r \<longleftrightarrow> - 9223372036854775808 \<le> - \<lfloor>r\<rfloor>"
  proof (cases "2 ^ 53 \<le> r")
    case True
    show ?thesis using big [OF True] by linarith
  next
    case False
    then show ?thesis by simp
  qed
  have range: "- 9223372036854775808 \<le> f64_real x \<and> f64_real x < 9223372036854775808 \<longleftrightarrow>
      INT64_MIN \<le> truncated neg m e \<and> truncated neg m e \<le> INT64_MAX"
    using neg r floor_between(2) [OF r, of "-9223372036854775808" 9223372036854775808]
    unfolding Finite truncated_floor r_def [symmetric] 
    using floor_between(1) [OF r, of 9223372036854775808 "-9223372036854775808"]
    by (cases neg) (auto simp: width_defs r_def [symmetric])
  show ?thesis
    using range unfolding nq_f64_trunc_i64_def lo hi
    by (simp add: truncation_def Finite c_int_of_f64_def truncated_floor
        bind_def ret_def Let_def fun_eq_iff split: if_splits)
qed (auto simp: nq_f64_trunc_i64_def truncation_def two_to_63_def)

section \<open>Integers as floats\<close>

lemma f64_of_int_spec:
  assumes "\<bar>v\<bar> \<le> 2 ^ 63"
  shows "\<exists>m e. f64_of_int v = Finite (v < 0) m e \<and> real m * 2 powi e \<le> 2 ^ 63 \<and>
    (\<lfloor>real m * 2 powi e\<rfloor> = \<bar>v\<bar> \<longrightarrow> real m * 2 powi e = real_of_int \<bar>v\<bar>)"
proof -
  define n where "n = nat \<bar>v\<bar>"
  have n: "int n = \<bar>v\<bar>" "real n = real_of_int \<bar>v\<bar>" by (simp_all add: n_def)
  consider (zero) "n = 0" | (limit) "n = 2 ^ 63" | (inside) "0 < n" "n < 2 ^ 63"
    using assms n(1) by fastforce
  then show ?thesis
  proof cases
    case zero
    then have "v = 0" using n(1) by simp
    then show ?thesis by (simp add: f64_of_int_def round_ratio_def)
  next
    case limit
    have "round_ratio (v < 0) n 1 = Finite (v < 0) (2 ^ 52) 11"
      by (rule round_ratio_exact) (simp_all add: limit f64_ok_def power_int_def)
    then have f: "f64_of_int v = Finite (v < 0) (2 ^ 52) 11" by (simp only: f64_of_int_def n_def [symmetric])
    have "real (2 ^ 52) * 2 powi 11 = 2 ^ 63" by (simp add: power_int_def)
    moreover have "(2::real) ^ 63 = real_of_int \<bar>v\<bar>" using n(2) limit by simp
    ultimately have eq: "real (2 ^ 52) * 2 powi 11 = real_of_int \<bar>v\<bar>" by (rule trans)
    have "real (2 ^ 52) * 2 powi 11 \<le> 2 ^ 63" by (simp add: power_int_def)
    then show ?thesis by (intro exI [of _ "2 ^ 52"] exI [of _ 11] conjI impI f eq)
  next
    case inside
    define e where "e = exponent_of n 1"
    define M where "M = round_half_even (scale_num n e) (scale_den 1 e)"
    define y where "y = real n / 2 powi e"
    have fits: "exponent_fits (real n) e"
      using exponent_of_fits [OF inside(1), of 1] by (simp add: e_def)
    have near: "\<bar>real M - y\<bar> \<le> 1 / 2"
      using round_half_even_real [OF scale_den_pos, of 1 "scale_num n e" e]
      by (simp add: M_def y_def scale_ratio)
    have "real n < 2 ^ 63" using inside(2) by simp
    have e10: "e \<le> 10"
    proof (rule ccontr)
      assume "\<not> e \<le> 10"
      then have "2 ^ 52 * 2 powi e \<le> real n" using fits by (auto simp: exponent_fits_def)
      moreover have "(2::real) powi 11 \<le> 2 powi e" by (rule powi_mono) (use \<open>\<not> e \<le> 10\<close> in simp)
      then have "2 ^ 52 * (2::real) powi 11 \<le> 2 ^ 52 * 2 powi e" by (rule mult_left_mono) simp
      ultimately have "2 ^ 52 * 2 powi 11 \<le> real n" by simp
      then show False using \<open>real n < 2 ^ 63\<close> by (simp add: power_int_def)
    qed
    have "y < 2 ^ 53" using fits by (simp add: y_def exponent_fits_def pos_divide_less_eq)
    then have "real M < 2 ^ 53 + 1" using near by linarith
    then have "M < 2 ^ 53 + 1" by simp
    then have M53: "M \<le> 2 ^ 53" by simp
    then have "real M \<le> 2 ^ 53" by simp
    moreover have "(2::real) powi e \<le> 2 powi 10" by (rule powi_mono [OF e10])
    ultimately have "real M * 2 powi e \<le> 2 ^ 53 * 2 powi 10" by (intro mult_mono) simp_all
    then have top: "real M * 2 powi e \<le> 2 ^ 63" by (simp add: power_int_def)
    have exact: "\<lfloor>real M * 2 powi e\<rfloor> = int n \<longrightarrow> real M * 2 powi e = real n"
    proof (cases "0 \<le> e")
      case True
      then have "real M * 2 powi e = real_of_int (int M * 2 ^ nat e)" by (simp add: power_int_def)
      then show ?thesis by (metis floor_of_int of_int_of_nat_eq)
    next
      case False
      then have "M = n * 2 ^ nat (- e)"
        by (simp add: M_def scale_num_def scale_den_def round_half_even_def)
      then show ?thesis using False by (simp add: power_int_def power_one_over)
    qed
    have res: "round_ratio (v < 0) n 1 =
        (if M = 2 ^ 53 then Finite (v < 0) (2 ^ 52) (e + 1) else Finite (v < 0) M e)"
      using inside(1) e10 unfolding round_ratio_def Let_def e_def [symmetric] M_def [symmetric] by simp
    have exact': "\<lfloor>real M * 2 powi e\<rfloor> = \<bar>v\<bar> \<longrightarrow> real M * 2 powi e = real_of_int \<bar>v\<bar>"
      using exact n by simp
    show ?thesis
    proof (cases "M = 2 ^ 53")
      case True
      have val: "real (2 ^ 52) * 2 powi (e + 1) = real M * 2 powi e" by (simp add: True power_int_add)
      have f: "f64_of_int v = Finite (v < 0) (2 ^ 52) (e + 1)"
        using res unfolding if_P [OF True] f64_of_int_def n_def .
      show ?thesis
        by (rule exI [of _ "2 ^ 52"], rule exI [of _ "e + 1"], unfold val, intro conjI f top exact')
    next
      case False
      have f: "f64_of_int v = Finite (v < 0) M e"
        using res unfolding if_not_P [OF False] f64_of_int_def n_def .
      show ?thesis
        by (rule exI [of _ M], rule exI [of _ e], intro conjI f top exact')
    qed
  qed
qed

lemma f64_of_int_ok: "f64_ok (f64_of_int v)"
  by (simp add: f64_of_int_def round_ratio_ok)

lemma f64_of_int_representable:
  assumes "f64_ok x" "f64_real x = real_of_int v" "v \<noteq> 0"
  shows "f64_of_int v = x"
proof (cases x)
  case (Finite neg m e)
  define r where "r = real m * 2 powi e"
  have r: "0 \<le> r" "(if neg then - r else r) = real_of_int v" using assms(2) by (auto simp: Finite r_def)
  have neg: "neg \<longleftrightarrow> v < 0" and abs: "r = real_of_int \<bar>v\<bar>" using r assms(3) by (auto split: if_splits)
  have m: "0 < m" using abs assms(3) by (cases "m = 0") (auto simp: r_def)
  show ?thesis unfolding f64_of_int_def Finite neg [symmetric]
    by (rule round_ratio_exact) (use assms(1) abs m in \<open>simp_all add: Finite r_def\<close>)
qed (use assms in auto)

lemma from_i64_spec:
  assumes "INT64_MIN \<le> v" "v \<le> INT64_MAX"
  shows "nq_f64_from_i64 v = ret (if f64_real (f64_of_int v) = real_of_int v then Some (f64_of_int v) else None)"
proof -
  have "\<bar>v\<bar> \<le> 2 ^ 63" using assms by (simp add: width_defs)
  then obtain m e where x: "f64_of_int v = Finite (v < 0) m e" and top: "real m * 2 powi e \<le> 2 ^ 63"
    and exact: "\<lfloor>real m * 2 powi e\<rfloor> = \<bar>v\<bar> \<longrightarrow> real m * 2 powi e = real_of_int \<bar>v\<bar>"
    using f64_of_int_spec by blast
  define r where "r = real m * 2 powi e"
  have r: "0 \<le> r" "r \<le> 9223372036854775808" "\<lfloor>r\<rfloor> = \<bar>v\<bar> \<longrightarrow> r = real_of_int \<bar>v\<bar>"
    using top exact by (simp_all add: r_def)
  have real: "f64_real (f64_of_int v) = (if v < 0 then - r else r)" by (simp add: x r_def)
  have same: "f64_real (f64_of_int v) = real_of_int v \<longleftrightarrow> r = real_of_int \<bar>v\<bar>"
    unfolding real by auto
  obtain p q where lim: "two_to_63 = Finite False p q" by (simp add: two_to_63_def)
  have big: "f64_less two_to_63 (f64_of_int v) \<or> f64_eq two_to_63 (f64_of_int v) \<longleftrightarrow>
      9223372036854775808 \<le> f64_real (f64_of_int v)"
    using two_to_63_real unfolding lim x f64_less_real f64_eq_real by auto
  show ?thesis
  proof (cases "9223372036854775808 \<le> f64_real (f64_of_int v)")
    case True
    then have "f64_real (f64_of_int v) \<noteq> real_of_int v" using assms(2) by (simp add: width_defs)
    then show ?thesis using True big by (auto simp: nq_f64_from_i64_def Let_def)
  next
    case False
    have t: "truncated (v < 0) m e = (if v < 0 then - \<lfloor>r\<rfloor> else \<lfloor>r\<rfloor>)" by (simp add: truncated_floor r_def)
    have range: "INT64_MIN \<le> truncated (v < 0) m e" "truncated (v < 0) m e \<le> INT64_MAX"
      using False r unfolding t real by (auto simp: width_defs split: if_splits) linarith+
    have "truncated (v < 0) m e = v \<longleftrightarrow> r = real_of_int \<bar>v\<bar>"
      using r(3) unfolding t by auto
    then show ?thesis using False big range same
      by (simp add: nq_f64_from_i64_def x c_int_of_f64_def bind_def ret_def fun_eq_iff)
  qed
qed

section \<open>Properties of the conversions\<close>

text \<open>
  C35: Truncating an f64 to i32 or i64 never reaches the undefined conversions of C: a value whose
  integer part (rounded toward zero) fits the type gives it, and everything else, infinities and
  NaN included, gives None.
\<close>

theorem f64_truncation_exact:
  assumes "f64_ok x"
  shows "nq_f64_trunc_i32 x s = Ret (truncation INT32_MIN INT32_MAX x) s \<and>
    nq_f64_trunc_i64 x s = Ret (truncation INT64_MIN INT64_MAX x) s"
  using trunc_i32_spec [of x] trunc_i64_spec [OF assms] by (simp add: ret_def)

theorem f64_truncation_exact_witness:
  "nq_f64_trunc_i32 (Infinite True) (boot [] []) = Ret None (boot [] []) \<and>
   nq_f64_trunc_i64 (Infinite True) (boot [] []) = Ret None (boot [] [])"
  using f64_truncation_exact [of "Infinite True" "boot [] []"] by (simp add: f64_ok_def truncation_def)

text \<open>
  C36: An i64 converts to f64 exactly or not at all: f64_from_i64 gives the float that denotes the
  integer when there is one and None when there is none, and never converts an out-of-range value
  back (the cast of 2^63 that C leaves undefined).
\<close>

theorem f64_from_i64_exact:
  assumes "INT64_MIN \<le> v" and "v \<le> INT64_MAX"
  shows "\<exists>r. nq_f64_from_i64 v s = Ret r s \<and>
    (case r of
       Some x \<Rightarrow> f64_ok x \<and> f64_real x = real_of_int v
     | None \<Rightarrow> \<nexists>x. f64_ok x \<and> f64_real x = real_of_int v)"
proof (cases "f64_real (f64_of_int v) = real_of_int v")
  case True
  then show ?thesis using from_i64_spec [OF assms] by (simp add: ret_def f64_of_int_ok)
next
  case False
  then have "v \<noteq> 0" by (auto simp: f64_of_int_def round_ratio_def)
  then show ?thesis using False from_i64_spec [OF assms] f64_of_int_representable [of _ v]
    by (auto simp: ret_def)
qed

theorem f64_from_i64_exact_witness:
  "\<exists>r. nq_f64_from_i64 9223372036854775807 (boot [] []) = Ret r (boot [] []) \<and>
    (case r of
       Some x \<Rightarrow> f64_ok x \<and> f64_real x = 9223372036854775807
     | None \<Rightarrow> \<nexists>x. f64_ok x \<and> f64_real x = 9223372036854775807)"
  using f64_from_i64_exact [of 9223372036854775807 "boot [] []"]
  by (simp only: width_defs of_int_numeral)

end
