(* ===== verification/File_Rules.thy ===== *)
theory File_Rules
  imports Files
begin

text \<open>
  The file operations keep their contract: what a caller may rely on after reading, writing,
  replacing, removing or creating a file, whatever the kernel and the allocator answer.
\<close>

section \<open>A path handed to the kernel\<close>

abbreviation os_block :: "string \<Rightarrow> block" where
  "os_block v \<equiv> BBytes (map Some v @ [Some (CHR 0x00)])"

text \<open>Every operation on a path starts by copying it; the copy is the caller's to free.\<close>

lemma wp_with_os_string:
  assumes "good_config c" and "owns L R s" and "(path, v) \<in># L" and "label op"
    and err: "\<And>e w s'. owns (with_err e w L) R s' \<Longrightarrow> world s' = world s \<Longrightarrow> v_operation w = op \<Longrightarrow>
       os_string_refused c op (Some v) None v s e w \<Longrightarrow> Q (f e) s'"
    and ok: "\<And>b s'. CHR 0x00 \<notin> set v \<Longrightarrow> R b = None \<Longrightarrow> owns L (R(b \<mapsto> os_block v)) s' \<Longrightarrow>
       world s' = world s \<Longrightarrow> wp E (g (PHeap b 0)) Q s'"
  shows "wp E (bind (nq_os_string c path (Some op) (Some path) None)
     (\<lambda>r. case r of Inl err \<Rightarrow> ret (f err) | Inr p \<Rightarrow> g p)) Q s"
  unfolding wp_bind
proof (rule wp_nq_os_string [where ov = None, OF assms(1-3) _ path_view_live [OF assms(2,3)]], goal_cases)
  case 1 show ?case using assms(4) by simp
next
  case 2 show ?case by simp
next
  case (3 b s') then show ?case unfolding sum.case by (rule ok)
next
  case (4 e w s') then show ?case unfolding sum.case wp_ret by (auto intro: err)
qed

lemma wp_free_os:
  assumes "owns L (R(b \<mapsto> blk)) s" and "R b = None"
    and "\<And>s'. owns L R s' \<Longrightarrow> world s' = world s \<Longrightarrow> errno s' = errno s \<Longrightarrow> Q () s'"
  shows "wp E (c_free (PHeap b 0)) Q s"
  by (rule wp_c_free_raw [OF assms(1)]) (use assms(2) in \<open>auto intro: assms(3) simp: fun_upd_idem\<close>)

lemma wp_c_call_name:
  assumes "owns L (R(b \<mapsto> os_block v)) s" and "CHR 0x00 \<notin> set v" and "E Blocked"
    and "\<And>r s'. owns L (R(b \<mapsto> os_block v)) s' \<Longrightarrow> script s = r # script s' \<Longrightarrow>
        trace s' = trace s @ [ev v] \<Longrightarrow> errno s' = r_errno r \<Longrightarrow> Q (r_ret r) s'"
  shows "wp E (c_call_name ev (PHeap b 0)) Q s"
  unfolding c_call_name_def wp_bind wp_ret
  by (rule wp_load_os_string [OF assms(1,2)], rule wp_sys_owns [where E = E, OF assms(1,3)]) (rule assms(4))

text \<open>
  An operation that makes the call \<open>ev\<close> on a path. When it succeeds, it made the call, once, and
  the kernel said that it succeeded. When it fails, either it made the call, once, the kernel said
  that it failed, and the error is the one the kernel gave; or it made no call, and then for a reason:
  the path has an embedded NUL, or it is too long to be copied, or the allocator refused the copy,
  and the error is the one for this reason.
\<close>

fun one_call ::
  "config \<Rightarrow> (string \<Rightarrow> event) \<Rightarrow> string \<Rightarrow> string \<Rightarrow> strs \<Rightarrow> raws \<Rightarrow> nqstate \<Rightarrow> unit nq_result \<Rightarrow> nqstate \<Rightarrow> bool" where
  "one_call c ev op v L R s (Ok _) s' \<longleftrightarrow>
     owns L R s' \<and> CHR 0x00 \<notin> set v \<and>
     (\<exists>r. script s = r # script s' \<and> trace s' = trace s @ [ev v] \<and> r_ret r = 0)"
| "one_call c ev op v L R s (Err e) s' \<longleftrightarrow>
     (\<exists>w. owns (with_err e w L) R s' \<and> v_operation w = op \<and>
        (world s' = world s \<and> os_string_refused c op (Some v) None v s e w \<or>
         CHR 0x00 \<notin> set v \<and>
         (\<exists>r. script s = r # script s' \<and> trace s' = trace s @ [ev v] \<and> r_ret r \<noteq> 0 \<and>
            err_outcome (to_i32 (r_errno r)) (nq_io_kind_for_code (r_errno r)) (Some op) (Some v) None
              (errno_detail c (r_errno r)) e w)))"

definition call_on_path :: "config \<Rightarrow> string \<Rightarrow> (string \<Rightarrow> event) \<Rightarrow> nqstr \<Rightarrow> nq_result_unit nq" where
  "call_on_path c op ev path =
     bind (nq_os_string c path (Some op) (Some path) None) (\<lambda>r. case r of
       Inl err \<Rightarrow> ret (nq_unit_err err)
     | Inr path_cstr \<Rightarrow>
       bind (c_call_name ev path_cstr) (\<lambda>r.
         if r \<noteq> 0
         then bind get_errno (\<lambda>error_code.
           andthen (c_free path_cstr)
           (bind (nq_errno_io_err c (Some op) (Some path) None error_code) (\<lambda>err.
             ret (nq_unit_err err))))
         else andthen (c_free path_cstr) (ret nq_unit_ok)))"

lemma wp_call_on_path:
  assumes "good_config c" and owns: "owns L R s" and live: "(path, v) \<in># L" and "label op" and "E Blocked"
    and post: "\<And>res s'. one_call c ev op v L R s res s' \<Longrightarrow> Q res s'"
  shows "wp E (call_on_path c op ev path) Q s"
  unfolding call_on_path_def
proof (rule wp_with_os_string [OF assms(1-4)], goal_cases)
  case (1 e w s')
  then show ?case by (auto intro!: post simp: result_defs)
next
  case (2 b s1)
  note w1 = \<open>world s1 = world s\<close>
  show ?case
    unfolding wp_bind
  proof (rule wp_c_call_name [where E = E, OF 2(3,1) assms(5)], goal_cases)
    case (1 r s2)
    have made: "script s = r # script s2" "trace s2 = trace s @ [ev v]"
      using 1 world_fields(1,2) [OF w1] by simp_all
    show ?case
    proof (cases "r_ret r \<noteq> 0")
      case False
      then show ?thesis
        unfolding if_not_P [OF False] wp_andthen wp_ret
        by (intro wp_free_os [OF 1(1) 2(2)])
          (use made 2(1) in \<open>auto intro!: post simp: result_defs world_def\<close>)
    next
      case True
      show ?thesis
        unfolding if_P [OF True] wp_bind wp_get_errno wp_andthen 1(4)
      proof (rule wp_free_os [OF 1(1) 2(2)], goal_cases)
        case (1 s3)
        have script: "script s = r # script s'" "trace s' = trace s @ [ev v]"
          if "world s' = world s3" for s'
          using that 1(2) made by (simp_all add: world_def)
        show ?case
          unfolding wp_ret
        proof (rule wp_nq_errno_io_err [where ov = None, OF assms(1) 1(1) _ path_view_live [OF 1(1) live]], goal_cases)
          case (3 e w s')
          then have "v_operation w = op" by (auto dest: err_outcome_operation)
          with 3 script [OF 3(2)] True \<open>CHR 0x00 \<notin> set v\<close> have "one_call c ev op v L R s (Err e) s'"
            unfolding one_call.simps by blast
          then show ?case by (simp add: post result_defs)
        qed (use assms(4) in simp_all)
      qed
    qed
  qed
qed

lemmas call_on_path_operations = nq_create_dir_def [unfolded nq_mkdir_single_def, folded call_on_path_def]
  nq_remove_file_def [folded call_on_path_def] nq_remove_dir_def [folded call_on_path_def]

section \<open>Reading and writing whole files\<close>

lemma wp_c_fopen:
  assumes "owns L R s" and "E Blocked"
    and "\<And>r s'. owns L R s' \<Longrightarrow> script s = r # script s' \<Longrightarrow> trace s' = trace s @ [Fopen name mode] \<Longrightarrow>
        errno s' = r_errno r \<Longrightarrow> Q (if r_ret r \<le> 2 then None else Some (r_ret r)) s'"
  shows "wp E (c_fopen name mode) Q s"
  unfolding c_fopen_def wp_bind wp_ret by (rule wp_sys_owns [where E = E, OF assms(1,2)]) (rule assms(3))

lemma wp_c_fclose:
  assumes "owns L R s" and "E Blocked"
    and "\<And>r s'. owns L R s' \<Longrightarrow> script s = r # script s' \<Longrightarrow> trace s' = trace s @ [Fclose stream] \<Longrightarrow>
        errno s' = r_errno r \<Longrightarrow> Q (r_ret r) s'"
  shows "wp E (c_fclose stream) Q s"
  unfolding c_fclose_def wp_bind wp_ret by (rule wp_sys_owns [where E = E, OF assms(1,2)]) (rule assms(3))

text \<open>
  Opening the file and what happens when that fails is common to reading and writing:
  \<open>no_handle\<close> describes an error of which no handle is left open.
\<close>

definition opening_failed ::
  "config \<Rightarrow> string \<Rightarrow> string \<Rightarrow> string \<Rightarrow> string \<Rightarrow> strs \<Rightarrow> raws \<Rightarrow> nqstate \<Rightarrow> nqioerr \<Rightarrow> nqstate \<Rightarrow> bool" where
  "opening_failed c op mode detail v L R s e s' \<longleftrightarrow>
     (\<exists>w. owns (with_err e w L) R s' \<and> v_operation w = op \<and>
        (world s' = world s \<or>
         (\<exists>r. script s = r # script s' \<and> trace s' = trace s @ [Fopen v mode] \<and> r_ret r \<le> 2 \<and>
            err_outcome (to_i32 (r_errno r)) (nq_io_kind_for_code (r_errno r)) (Some op) (Some v) None
              (context_detail c (r_errno r) detail) e w)))"

lemma wp_open_path:
  assumes "good_config c" and owns: "owns L R s" and live: "(path, v) \<in># L" and "label op" and "E Blocked"
    and "CHR 0x00 \<notin> set detail"
    and err: "\<And>e s'. opening_failed c op mode detail v L R s e s' \<Longrightarrow> Q (f e) s'"
    and ok: "\<And>h r s'. CHR 0x00 \<notin> set v \<Longrightarrow> owns L R s' \<Longrightarrow> script s = r # script s' \<Longrightarrow> 2 < r_ret r \<Longrightarrow>
        h = r_ret r \<Longrightarrow> trace s' = trace s @ [Fopen v mode] \<Longrightarrow> wp E (body h) Q s'"
  shows "wp E (bind (nq_os_string c path (Some op) (Some path) None) (\<lambda>r. case r of
       Inl err \<Rightarrow> ret (f err)
     | Inr file_name \<Rightarrow>
       bind (load_c_string file_name) (\<lambda>name.
       bind (c_fopen name mode) (\<lambda>handle.
       andthen (c_free file_name)
       (case handle of
          None \<Rightarrow> bind get_errno (\<lambda>e.
            bind (nq_errno_io_err_with_detail c (Some op) (Some path) None e detail) (\<lambda>err. ret (f err)))
        | Some handle \<Rightarrow> body handle))))) Q s"
proof (rule wp_with_os_string [OF assms(1-4)], goal_cases)
  case (1 e w s')
  then show ?case by (auto intro!: err simp: opening_failed_def)
next
  case (2 b s1)
  note w1 = \<open>world s1 = world s\<close>
  show ?case
    unfolding wp_bind wp_andthen
  proof (rule wp_load_os_string [OF 2(3,1)], rule wp_c_fopen [where E = E, OF 2(3) assms(5)],
      rule wp_free_os [where R = R, OF _ 2(2)], assumption, goal_cases)
    case (1 r s2 s3)
    have made: "script s = r # script s3" "trace s3 = trace s @ [Fopen v mode]"
      using 1(2,3,6) w1 by (simp_all add: world_def)
    show ?case
    proof (cases "r_ret r \<le> 2")
      case False
      with made ok [OF 2(1) 1(5)] show ?thesis by simp
    next
      case True
      have errno: "errno s3 = r_errno r" using 1(4,7) by simp
      show ?thesis
        unfolding if_P [OF True] option.case wp_bind wp_get_errno errno wp_ret
      proof (rule wp_nq_errno_io_err_with_detail [where ov = None, OF assms(1) 1(5) _ path_view_live [OF 1(5) live] _ assms(6)],
          goal_cases)
        case (3 e w s')
        have "v_operation w = op" using 3(3) by (auto dest: err_outcome_operation)
        moreover have "script s = r # script s'" "trace s' = trace s @ [Fopen v mode]"
          using made 3(2) by (simp_all add: world_def)
        ultimately show ?case using 3(1,3) True by (auto intro!: err simp: opening_failed_def)
      qed (use assms(4) in simp_all)
    qed
  qed
qed

text \<open>
  Reading a whole file: either the bytes that came before the end of the stream, or an error;
  a handle that was opened has been closed on both paths.
\<close>

fun file_read ::
  "config \<Rightarrow> string \<Rightarrow> nat \<Rightarrow> string \<Rightarrow> strs \<Rightarrow> raws \<Rightarrow> nqstate \<Rightarrow> nqbytes nq_result \<Rightarrow> nqstate \<Rightarrow> bool" where
  "file_read c op limit v L R s (Ok b) s' \<longleftrightarrow>
     (\<exists>bs opened closed rs made. live_bytes b bs L R s' \<and> (bs = [] \<or> length bs \<le> limit) \<and> CHR 0x00 \<notin> set v \<and>
        script s = opened # rs \<and> 2 < r_ret opened \<and> r_ret closed = 0 \<and>
        fread_all rs = Some (bs, None, closed # script s') \<and>
        trace s' = trace s @ Fopen v ''rb'' # made @ [Fclose (r_ret opened)] \<and> only_reads (r_ret opened) made)"
| "file_read c op limit v L R s (Err e) s' \<longleftrightarrow>
     opening_failed c op ''rb'' ''failed to open file'' v L R s e s' \<or>
     (\<exists>w h made. owns (with_err e w L) R s' \<and> v_operation w = op \<and>
        trace s' = trace s @ Fopen v ''rb'' # made @ [Fclose h] \<and> only_reads h made)"

lemma wp_nq_read_file_bytes_operation:
  assumes "good_config c" and owns: "owns L R s" and live: "(path, v) \<in># L" and op: "label op" and "E Blocked"
    and post: "\<And>res s'. file_read c op limit v L R s res s' \<Longrightarrow> Q res s'"
  shows "wp E (nq_read_file_bytes_operation c path op limit) Q s"
  unfolding nq_read_file_bytes_operation_def
proof (rule wp_open_path [where E = E, OF assms(1-5)], goal_cases)
  case 1 show ?case by simp
next
  case (2 e s') then show ?case by (simp add: post result_defs)
next
  case (3 h opened s1)
  show ?case
    unfolding wp_bind wp_andthen wp_set_errno
  proof (rule wp_nq_read_stream [where E = E, OF assms(1) op path_view_live [OF 3(2) live] assms(5) 3(2)], goal_cases)
    case (1 b bs s2 made)
    obtain R2 where R2: "owns L R2 s2" and again: "\<And>s3. owns L R2 s3 \<Longrightarrow> live_bytes b bs L R s3"
      using 1(1) by (auto simp: live_bytes_def)
    show ?case
    proof (rule wp_c_fclose [where E = E and L = L and R = R2, OF _ assms(5)], goal_cases)
      case 1 show ?case using R2 by simp
    next
      case closed: (2 r s3)
      have tr: "trace s3 = trace s @ Fopen v ''rb'' # made @ [Fclose (r_ret opened)]"
        using closed(3) 1(4) 3(5,6) by simp
      have lb: "live_bytes b bs L R s3" by (rule again [OF closed(1)])
      show ?case
      proof (cases "r_ret r \<noteq> 0")
        case False
        have "file_read c op limit v L R s (Ok b) s3"
          using lb 1(2,3,5) 3 False tr closed(2) unfolding file_read.simps by fastforce
        with False show ?thesis by (simp add: wp_ret post)
      next
        case True
        show ?thesis
          unfolding nq_result.case if_P [OF True] wp_bind wp_get_errno wp_ret
        proof (rule bytes.drop_live [OF lb], goal_cases)
          case (1 x s4)
          show ?case
          proof (rule wp_nq_errno_io_err [where ov = None, OF assms(1) 1(2) _ path_view_live [OF 1(2) live]], goal_cases)
            case (3 e w s5)
            have "v_operation w = op" using 3(3) by (auto dest: err_outcome_operation)
            moreover have "trace s5 = trace s3" using 3(2) 1(3) by (simp add: world_def)
            ultimately show ?case
              using 3(1) tr \<open>only_reads h made\<close> \<open>h = r_ret opened\<close> by (auto intro!: post simp: result_defs)
          qed (use op in simp_all)
        qed
      qed
    qed
  next
    case (2 e w s2 made)
    show ?case
    proof (rule wp_c_fclose [where E = E and L = "with_err e w L" and R = R, OF _ assms(5)], goal_cases)
      case 1 show ?case using 2(1) by simp
    next
      case closed: (2 r s3)
      have "file_read c op limit v L R s (Err e) s3"
        using 2 3 closed by auto
      then show ?case by (simp add: post wp_ret)
    qed
  qed
qed

text \<open>
  Writing a whole file. Success means that the stream accepted every byte and that closing it
  succeeded. \<open>stream_calls\<close> is what \<open>nq_write_stream\<close> puts on the trace.
\<close>

definition stream_calls :: "reply \<Rightarrow> event list \<Rightarrow> event list" where
  "stream_calls ignored evs = SignalIgnore # evs @ (if 0 \<le> r_ret ignored then [SignalRestore] else [])"

fun file_written ::
  "config \<Rightarrow> string \<Rightarrow> string \<Rightarrow> string \<Rightarrow> strs \<Rightarrow> raws \<Rightarrow> nqstate \<Rightarrow> unit nq_result \<Rightarrow> nqstate \<Rightarrow> bool" where
  "file_written c op bs v L R s (Ok _) s' \<longleftrightarrow>
     (\<exists>opened ignored closed rs evs. owns L R s' \<and> CHR 0x00 \<notin> set v \<and>
        script s = opened # ignored # rs \<and> 2 < r_ret opened \<and> r_ret closed = 0 \<and>
        fwrite_all (r_ret opened) bs rs = Some (evs, True, closed # script s') \<and>
        trace s' = trace s @ Fopen v ''wb'' # stream_calls ignored evs @ [Fclose (r_ret opened)])"
| "file_written c op bs v L R s (Err e) s' \<longleftrightarrow>
     opening_failed c op ''wb'' ''failed to open file for write'' v L R s e s' \<or>
     (\<exists>w opened ignored closed rs evs fin. owns (with_err e w L) R s' \<and> v_operation w = op \<and>
        script s = opened # ignored # rs \<and>
        fwrite_all (r_ret opened) bs rs = Some (evs, fin, closed # script s') \<and> (fin \<longrightarrow> r_ret closed \<noteq> 0) \<and>
        trace s' = trace s @ Fopen v ''wb'' # stream_calls ignored evs @ [Fclose (r_ret opened)])"

lemma wp_nq_write_file_data:
  assumes "good_config c" and owns: "owns L R s" and live: "(path, v) \<in># L" and op: "label op" and "E Blocked"
    and reads: "readable L R data (length bs) bs"
    and post: "\<And>res s'. file_written c op bs v L R s res s' \<Longrightarrow> Q res s'"
  shows "wp E (nq_write_file_data c path data (length bs) op) Q s"
  unfolding nq_write_file_data_def
proof (rule wp_open_path [where E = E, OF assms(1-5)], goal_cases)
  case 1 show ?case by simp
next
  case (2 e s') then show ?case by (simp add: post result_defs)
next
  case (3 h opened s1)
  show ?case
    unfolding wp_bind wp_andthen wp_set_errno
  proof (rule wp_nq_write_stream [where E = E, OF assms(1) op path_view_live [OF 3(2) live] assms(5) reads 3(2)], goal_cases)
    case (1 s2 ignored rs evs)
    have s: "script s = opened # ignored # rs"
      and tr: "trace s2 = trace s @ Fopen v ''wb'' # stream_calls ignored evs"
      using 1 3 by (simp_all add: stream_calls_def)
    show ?case
    proof (rule wp_c_fclose [where E = E and L = L and R = R, OF _ assms(5)], goal_cases)
      case 1 show ?case using \<open>owns L R s2\<close> by simp
    next
      case closed: (2 r s3)
      have all: "fwrite_all (r_ret opened) bs rs = Some (evs, True, r # script s3)"
        using 1(3) closed(2) 3(5) by simp
      have tr3: "trace s3 = trace s @ Fopen v ''wb'' # stream_calls ignored evs @ [Fclose (r_ret opened)]"
        using closed(3) tr 3(5) by simp
      show ?case
      proof (cases "r_ret r \<noteq> 0")
        case False
        have "file_written c op bs v L R s (Ok ()) s3"
          unfolding file_written.simps
          using closed(1) 3(1,4) s False all tr3 by blast
        with False show ?thesis by (simp add: wp_ret post)
      next
        case True
        show ?thesis
          unfolding nq_result.case if_P [OF True] wp_bind wp_get_errno wp_ret
        proof (rule wp_nq_errno_io_err [where ov = None, OF assms(1) closed(1) _ path_view_live [OF closed(1) live]], goal_cases)
          case (3 e w s4)
          have "v_operation w = op" using 3(3) by (auto dest: err_outcome_operation)
          moreover have "trace s4 = trace s3" "script s4 = script s3" using 3(2) by (simp_all add: world_def)
          ultimately have "file_written c op bs v L R s (Err e) s4"
            unfolding file_written.simps using 3(1) s all tr3 True by metis
          then show ?case by (simp add: post result_defs)
        qed (use op in simp_all)
      qed
    qed
  next
    case (2 e w s2 ignored rs evs)
    show ?case
    proof (rule wp_c_fclose [where E = E and L = "with_err e w L" and R = R, OF _ assms(5)], goal_cases)
      case 1 show ?case using 2(1) by simp
    next
      case closed: (2 r s3)
      have "fwrite_all (r_ret opened) bs rs = Some (evs, False, r # script s3)"
        "script s = opened # ignored # rs"
        "trace s3 = trace s @ Fopen v ''wb'' # stream_calls ignored evs @ [Fclose (r_ret opened)]"
        using 2 3 closed by (simp_all add: stream_calls_def)
      then have "file_written c op bs v L R s (Err e) s3"
        unfolding file_written.simps using closed(1) 2(2) by blast
      then show ?case by (simp add: post wp_ret)
    qed
  qed
qed

section \<open>Renaming\<close>

fun renamed ::
  "config \<Rightarrow> string \<Rightarrow> string \<Rightarrow> strs \<Rightarrow> raws \<Rightarrow> nqstate \<Rightarrow> unit nq_result \<Rightarrow> nqstate \<Rightarrow> bool" where
  "renamed c v w L R s (Ok _) s' \<longleftrightarrow>
     owns L R s' \<and> CHR 0x00 \<notin> set v \<and> CHR 0x00 \<notin> set w \<and>
     (\<exists>r. script s = r # script s' \<and> trace s' = trace s @ [Rename v w] \<and> r_ret r = 0)"
| "renamed c v w L R s (Err e) s' \<longleftrightarrow>
     (\<exists>x. owns (with_err e x L) R s' \<and> v_operation x = ''rename_path'' \<and>
        (world s' = world s \<and>
           (os_string_refused c ''rename_path'' (Some v) (Some w) v s e x \<or>
            (\<exists>s1. world s1 = world s \<and> os_string_refused c ''rename_path'' (Some v) (Some w) w s1 e x)) \<or>
         (\<exists>r. script s = r # script s' \<and> trace s' = trace s @ [Rename v w] \<and> r_ret r \<noteq> 0 \<and>
            err_outcome (to_i32 (r_errno r)) (nq_io_kind_for_code (r_errno r)) (Some ''rename_path'')
              (Some v) (Some w) (errno_detail c (r_errno r)) e x)))"

lemma os_block_apart:
  "R b = None \<Longrightarrow> (R(b \<mapsto> x)) b' = None \<Longrightarrow> b' \<noteq> b \<and> R b' = None"
  by (auto split: if_splits)

lemma wp_c_rename:
  assumes "owns L (R(b \<mapsto> os_block v, b' \<mapsto> os_block w)) s" and "b' \<noteq> b"
    and "CHR 0x00 \<notin> set v" and "CHR 0x00 \<notin> set w" and "E Blocked"
    and "\<And>r s'. owns L (R(b \<mapsto> os_block v, b' \<mapsto> os_block w)) s' \<Longrightarrow> script s = r # script s' \<Longrightarrow>
        trace s' = trace s @ [Rename v w] \<Longrightarrow> errno s' = r_errno r \<Longrightarrow> Q (r_ret r) s'"
  shows "wp E (c_rename (PHeap b 0) (PHeap b' 0)) Q s"
proof -
  have swap: "R(b \<mapsto> os_block v, b' \<mapsto> os_block w) = R(b' \<mapsto> os_block w, b \<mapsto> os_block v)"
    using assms(2) by (simp add: fun_upd_twist)
  show ?thesis
    unfolding c_rename_def wp_bind wp_ret
    by (rule wp_load_os_string [OF assms(1) [unfolded swap] assms(3)], rule wp_load_os_string [OF assms(1,4)],
        rule wp_sys_owns [where E = E, OF assms(1,5)]) (rule assms(6))
qed

lemma wp_free_two:
  assumes "owns L (R(b \<mapsto> x, b' \<mapsto> y)) s" and "R b = None" and "R b' = None" and "b' \<noteq> b"
    and "\<And>s'. owns L R s' \<Longrightarrow> world s' = world s \<Longrightarrow> errno s' = errno s \<Longrightarrow> Q () s'"
  shows "wp E (c_free (PHeap b 0)) (\<lambda>_. wp E (c_free (PHeap b' 0)) Q) s"
proof -
  have swap: "R(b \<mapsto> x, b' \<mapsto> y) = R(b' \<mapsto> y, b \<mapsto> x)"
    using assms(4) by (simp add: fun_upd_twist)
  show ?thesis
    by (rule wp_free_os [OF assms(1) [unfolded swap]])
      (use assms(2,3,4) in \<open>auto intro!: wp_free_os [where R = R and b = b' and blk = y] assms(5)\<close>)
qed

lemma wp_nq_rename_path:
  assumes "good_config c" and owns: "owns L R s" and src: "(source, v) \<in># L" and tgt: "(target, w) \<in># L"
    and "E Blocked" and post: "\<And>res s'. renamed c v w L R s res s' \<Longrightarrow> Q res s'"
  shows "wp E (nq_rename_path c source target) Q s"
  unfolding nq_rename_path_def wp_bind
proof (rule wp_nq_os_string [OF assms(1) owns src _ path_view_live [OF owns src] path_view_live [OF owns tgt]], goal_cases)
  case 1 show ?case by (simp add: label_def)
next
  case (3 e x s') then show ?case by (auto intro!: post simp: wp_simps result_defs)
next
  case (2 b s1)
  show ?case
    unfolding sum.case wp_bind
  proof (rule wp_nq_os_string [OF assms(1) 2(3) tgt _ path_view_live [OF 2(3) src] path_view_live [OF 2(3) tgt]], goal_cases)
    case 1 show ?case by (simp add: label_def)
  next
    case (3 e x s2)
    have "renamed c v w L R s (Err e) s'" if "owns (with_err e x L) R s'" "world s' = world s2" for s'
      unfolding renamed.simps
      by (intro exI [of _ x] conjI disjI1 disjI2 exI [of _ s1]) (use that 2(4) 3 in simp_all)
    then show ?case
      unfolding sum.case wp_andthen wp_ret
      by (intro wp_free_os [OF 3(1) 2(2)]) (auto intro: post simp: result_defs)
  next
    case two: (2 b' s2)
    have apart: "b' \<noteq> b" "R b' = None" using os_block_apart [where x = "os_block v", OF 2(2) two(2)] by auto
    show ?case
      unfolding sum.case wp_bind
    proof (rule wp_c_rename [where E = E, OF two(3) apart(1) 2(1) two(1) assms(5)], goal_cases)
      case (1 r s3)
      have made: "script s = r # script s3" "trace s3 = trace s @ [Rename v w]"
        using 1(2,3) two(4) 2(4) by (simp_all add: world_def)
      show ?case
      proof (cases "r_ret r \<noteq> 0")
        case False
        have "renamed c v w L R s (Ok ()) s'" if "owns L R s'" "world s' = world s3" for s'
          using that made False 2(1) two(1) by (auto simp: world_def)
        then show ?thesis
          unfolding if_not_P [OF False] wp_andthen wp_ret
          by (intro wp_free_two [OF 1(1) 2(2) apart(2,1)]) (auto intro: post simp: result_defs)
      next
        case True
        show ?thesis
          unfolding if_P [OF True] wp_bind wp_get_errno 1(4) wp_andthen wp_ret
        proof (rule wp_free_two [OF 1(1) 2(2) apart(2,1)], goal_cases)
          case (1 s4)
          show ?case
          proof (rule wp_nq_errno_io_err [OF assms(1) 1(1) _ path_view_live [OF 1(1) src] path_view_live [OF 1(1) tgt]], goal_cases)
            case 1 show ?case by (simp add: label_def)
          next
            case (2 e x s5)
            have "v_operation x = ''rename_path''" using 2(3) by (auto dest: err_outcome_operation)
            moreover have "script s = r # script s5" "trace s5 = trace s @ [Rename v w]"
              using made 2(2) 1(2) by (simp_all add: world_def)
            ultimately have "renamed c v w L R s (Err e) s5"
              unfolding renamed.simps using 2(1,3) True by blast
            then show ?case by (simp add: post result_defs)
          qed
        qed
      qed
    qed
  qed
qed

section \<open>Standard streams\<close>

text \<open>Writing a live string to an open stream: every byte is accepted in order, or an error.\<close>

fun stream_written ::
  "config \<Rightarrow> string \<Rightarrow> int \<Rightarrow> string \<Rightarrow> strs \<Rightarrow> raws \<Rightarrow> nqstate \<Rightarrow> unit nq_result \<Rightarrow> nqstate \<Rightarrow> bool" where
  "stream_written c op stream bs L R s (Ok _) s' \<longleftrightarrow>
     owns L R s' \<and> (\<exists>ignored rs evs. script s = ignored # rs \<and>
        fwrite_all stream bs rs = Some (evs, True, script s') \<and> trace s' = trace s @ stream_calls ignored evs)"
| "stream_written c op stream bs L R s (Err e) s' \<longleftrightarrow>
     (\<exists>w. owns (with_err e w L) R s' \<and> v_operation w = op \<and>
        (world s' = world s \<and> nq_str_limit c < length bs \<or>
         (\<exists>ignored rs evs. script s = ignored # rs \<and>
            fwrite_all stream bs rs = Some (evs, False, script s') \<and> trace s' = trace s @ stream_calls ignored evs)))"

lemma wp_nq_write_stream_owned:
  assumes "good_config c" and "owns L R s" and "(t, bs) \<in># L" and "label op" and "E Blocked"
    and "length bs \<le> nq_str_limit c"
    and "\<And>res s'. stream_written c op stream bs L R s res s' \<Longrightarrow> Q res s'"
  shows "wp E (nq_write_stream c stream (s_data t) (nat (s_len t)) op None) Q s"
proof -
  have len: "s_len t = int (length bs)" using owns_live_len [OF assms(2,3)] .
  have reads: "readable L R (s_data t) (length bs) bs"
    using readable_live [OF assms(3), of R] len by simp
  show ?thesis
    unfolding len nat_int
  proof (rule wp_nq_write_stream [where E = E and pv = None, OF assms(1,4) _ assms(5) reads assms(2)], goal_cases)
    case 1 show ?case by simp
  next
    case (2 s' r rs evs)
    then show ?case by (intro assms(7)) (auto simp: stream_calls_def)
  next
    case (3 e w s' r rs evs)
    then show ?case by (intro assms(7)) (auto simp: stream_calls_def)
  qed
qed

lemma wp_write_checked:
  assumes "good_config c" and "owns L R s" and "(t, bs) \<in># L" and "label op" and "E Blocked"
    and "\<And>res s'. stream_written c op stream bs L R s res s' \<Longrightarrow> Q res s'"
  shows "wp E (if \<not> nq_str_size c (s_len t)
      then bind (nq_allocation_io_err c (Some op) ALLOC_SIZE) (\<lambda>e. ret (nq_unit_err e))
      else if \<not> nq_str_storage_is_valid c t then m
      else nq_write_stream c stream (s_data t) (nat (s_len t)) op None) Q s"
proof -
  have len: "s_len t = int (length bs)" using owns_live_len [OF assms(2,3)] .
  show ?thesis
  proof (cases "length bs \<le> nq_str_limit c")
    case True
    then have "\<not> \<not> nq_str_size c (s_len t)" "\<not> \<not> nq_str_storage_is_valid c t"
      using live_storage_valid [OF assms(2,3)] by (simp_all add: nq_str_size_def len)
    then show ?thesis
      unfolding if_not_P [of "\<not> nq_str_size c (s_len t)"] if_not_P [of "\<not> nq_str_storage_is_valid c t"]
      using wp_nq_write_stream_owned [where E = E and Q = Q, OF assms(1-5) True] assms(6) by simp
  next
    case False
    then have "\<not> nq_str_size c (s_len t)" by (simp add: nq_str_size_def len)
    then show ?thesis
      by (simp only: not_False_eq_True if_True)
        (rule wp_fail_alloc [OF assms(1,2,4)], use False in \<open>auto intro!: assms(6) simp: result_defs\<close>)
  qed
qed

section \<open>Properties\<close>



text \<open>
  Renaming makes one \<open>rename\<close> call on the exact bytes of both paths and reports its outcome,
  an error naming both.
\<close>

theorem rename_path_makes_one_call:
  assumes "good_config c" and "owns L R s" and "(source, v) \<in># L" and "(target, w) \<in># L"
  shows "wp only_blocks (nq_rename_path c source target) (renamed c v w L R s) s"
  by (rule wp_nq_rename_path [where E = only_blocks, OF assms]) simp_all

theorem rename_path_makes_one_call_witness:
  "wp only_blocks (nq_rename_path plain_config (literal ''a'') (literal ''b''))
     (\<lambda>res s'. res = Ok () \<longrightarrow> trace s' = [Rename ''a'' ''b''])
     (boot [] [\<lparr>r_ret = 0, r_errno = 0, r_bytes = [], r_ints = []\<rparr>])"
  by (rule wp_mono [OF rename_path_makes_one_call [where v = "''a''" and w = "''b''",
        OF good_plain_config owns_literal [OF owns_literal [OF owns_boot]]]]) auto

text \<open>
  C25: Reading a file succeeds exactly with the bytes the stream delivered before its end, in
  order and within the limit, after a successful close. On every path a handle that was opened
  is closed once, nothing leaks, and the loop ends with the stream.
\<close>

theorem read_file_bytes_delivers_the_file:
  assumes "good_config c" and "owns L R s" and "(path, v) \<in># L"
  shows "wp only_blocks (nq_read_file_bytes c path)
     (file_read c ''read_file_bytes'' (nq_bytes_limit c) v L R s) s"
  unfolding nq_read_file_bytes_def
  by (rule wp_nq_read_file_bytes_operation [where E = only_blocks, OF assms]) (simp_all add: label_def)

theorem read_file_bytes_delivers_the_file_witness:
  "wp only_blocks (nq_read_file_bytes plain_config (literal ''a''))
     (\<lambda>res s'. \<forall>b. res = Ok b \<longrightarrow> live_bytes b ''xyz'' {#(literal ''a'', ''a'')#} Map.empty s')
     (boot [] [\<lparr>r_ret = 3, r_errno = 0, r_bytes = [], r_ints = []\<rparr>,
        \<lparr>r_ret = 0, r_errno = 0, r_bytes = ''xyz'', r_ints = []\<rparr>,
        \<lparr>r_ret = 0, r_errno = 0, r_bytes = [], r_ints = []\<rparr>,
        \<lparr>r_ret = 0, r_errno = 0, r_bytes = [], r_ints = []\<rparr>])"
  by (rule wp_mono [OF read_file_bytes_delivers_the_file
        [where v = "''a''", OF good_plain_config owns_literal [OF owns_boot]]])
    (auto simp: Let_def)

text \<open>
  C24: Writing a file returns success only when the file was opened, the stream accepted every
  byte of the data in order, and the close succeeded; otherwise the caller has an error. A
  handle that was opened is closed once, the handler of SIGPIPE is put back, nothing leaks.
\<close>

theorem write_file_accepts_every_byte:
  assumes "good_config c" and "owns L R s" and "(path, v) \<in># L" and "(t, bs) \<in># L"
  shows "wp only_blocks (nq_write_file c path t) (file_written c ''write_file'' bs v L R s) s"
proof (cases "length bs \<le> nq_str_limit c")
  case True
  have len: "s_len t = int (length bs)" using owns_live_len [OF assms(2,4)] .
  have reads: "readable L R (s_data t) (length bs) bs"
    using readable_live [OF assms(4), of R] len by simp
  have "nq_str_size c (s_len t)" "nq_str_storage_is_valid c t"
    using True live_storage_valid [OF assms(2,4)] by (simp_all add: nq_str_size_def len)
  then show ?thesis
    using wp_nq_write_file_data [where E = only_blocks and op = "''write_file''", OF assms(1-3) _ _ reads]
    by (simp add: nq_write_file_def label_def len)
next
  case False
  then have "\<not> nq_str_size c (s_len t)"
    using owns_live_len [OF assms(2,4)] by (simp add: nq_str_size_def)
  then show ?thesis
    unfolding nq_write_file_def
    by (simp only: not_False_eq_True if_True)
      (rule wp_fail_alloc [OF assms(1,2)], auto simp: label_def result_defs opening_failed_def)
qed

theorem write_file_accepts_every_byte_witness:
  "wp only_blocks (nq_write_file plain_config (literal ''a'') (literal ''xyz''))
     (\<lambda>res s'. res = Ok () \<longrightarrow> trace s' = [Fopen ''a'' ''wb'', SignalIgnore, Fwrite 3 ''xyz'', Ferror 3,
        Fwrite 3 ''z'', Ferror 3, SignalRestore, Fclose 3])
     (boot [] [\<lparr>r_ret = 3, r_errno = 0, r_bytes = [], r_ints = []\<rparr>,
        \<lparr>r_ret = 0, r_errno = 0, r_bytes = [], r_ints = []\<rparr>,
        \<lparr>r_ret = 2, r_errno = 0, r_bytes = [], r_ints = []\<rparr>,
        \<lparr>r_ret = 0, r_errno = 0, r_bytes = [], r_ints = []\<rparr>,
        \<lparr>r_ret = 5, r_errno = 0, r_bytes = [], r_ints = []\<rparr>,
        \<lparr>r_ret = 0, r_errno = 0, r_bytes = [], r_ints = []\<rparr>,
        \<lparr>r_ret = 0, r_errno = 0, r_bytes = [], r_ints = []\<rparr>])"
  by (rule wp_mono [OF write_file_accepts_every_byte [where v = "''a''" and bs = "''xyz''",
        OF good_plain_config owns_literal [OF owns_literal [OF owns_boot]]]])
    (auto simp: Let_def stream_calls_def)

text \<open>
  C27: Writing a string to stdout or stderr offers its bytes in order, each offer starting where
  the last accepted byte ended, until all are accepted (success) or the stream fails or makes no
  progress (error). SIGPIPE is ignored during the call and its handler put back on every path.
\<close>

theorem standard_streams_write_in_order:
  assumes "good_config c" and "owns L R s" and "(t, bs) \<in># L"
  shows "wp only_blocks (nq_stdout_write c t) (stream_written c ''stdout_write'' 1 bs L R s) s \<and>
    wp only_blocks (nq_stderr_write c t) (stream_written c ''stderr_write'' 2 bs L R s) s"
  unfolding nq_stdout_write_def nq_stderr_write_def
  by (intro conjI wp_write_checked [where E = only_blocks, OF assms]) (simp_all add: label_def)

theorem standard_streams_write_in_order_witness:
  "wp only_blocks (nq_stdout_write plain_config (literal ''hi''))
     (\<lambda>res s'. res = Ok () \<longrightarrow> trace s' = [SignalIgnore, Fwrite 1 ''hi'', Ferror 1])
     (boot [] [\<lparr>r_ret = -1, r_errno = 0, r_bytes = [], r_ints = []\<rparr>,
        \<lparr>r_ret = 2, r_errno = 0, r_bytes = [], r_ints = []\<rparr>,
        \<lparr>r_ret = 0, r_errno = 0, r_bytes = [], r_ints = []\<rparr>])"
  by (rule wp_mono [OF conjunct1 [OF standard_streams_write_in_order [where bs = "''hi''",
        OF good_plain_config owns_literal [OF owns_boot]]]])
    (auto simp: Let_def stream_calls_def)

end
