(* ===== verification/Atomic_Write.thy ===== *)
theory Atomic_Write
  imports File_Rules
begin

text \<open>
  \<open>nq_atomic_write_file\<close> replaces its target in one step: the target is named in one call only,
  the \<open>rename\<close>, which is made after a temporary file in the same directory has accepted every
  byte and has been closed; on every failure after its creation the temporary file is removed.
\<close>

section \<open>Writing the temporary file\<close>

text \<open>
  What writing \<open>bs\<close> to a descriptor does, as a function of the replies alone: the calls made, the
  error code if it failed, and the replies left. A write that is interrupted is repeated, a
  short one goes on with the bytes that are left.
\<close>

definition before :: "event \<Rightarrow> (event list \<times> int option \<times> reply list) option \<Rightarrow>
    (event list \<times> int option \<times> reply list) option" where
  "before ev x = (case x of None \<Rightarrow> None | Some (evs, code, rest) \<Rightarrow> Some (ev # evs, code, rest))"

lemma before_Some [simp]: "before ev (Some (evs, code, rest)) = Some (ev # evs, code, rest)"
  by (simp add: before_def)

fun write_all :: "int \<Rightarrow> string \<Rightarrow> reply list \<Rightarrow> (event list \<times> int option \<times> reply list) option" where
  "write_all fd [] rs = Some ([], None, rs)"
| "write_all fd (b # bs) [] = None"
| "write_all fd (b # bs) (r # rs) =
     (if r_ret r < 0 \<and> r_errno r = EINTR then before (WriteFd fd (b # bs)) (write_all fd (b # bs) rs)
      else if r_ret r \<le> 0
      then Some ([WriteFd fd (b # bs)], Some (if r_ret r = 0 then EIO else r_errno r), rs)
      else before (WriteFd fd (b # bs)) (write_all fd (List.drop (nat (r_ret r)) (b # bs)) rs))"

lemma write_all_step:
  "bs \<noteq> [] \<Longrightarrow> write_all fd bs (r # rs) =
     (if r_ret r < 0 \<and> r_errno r = EINTR then before (WriteFd fd bs) (write_all fd bs rs)
      else if r_ret r \<le> 0 then Some ([WriteFd fd bs], Some (if r_ret r = 0 then EIO else r_errno r), rs)
      else before (WriteFd fd bs) (write_all fd (List.drop (nat (r_ret r)) bs) rs))"
  by (cases bs) (simp_all only: write_all.simps list.distinct(1) not_False_eq_True simp_thms)

definition offered :: "strs \<Rightarrow> raws \<Rightarrow> int \<Rightarrow> string \<Rightarrow> nqstate \<Rightarrow> nat \<Rightarrow> nqstate \<Rightarrow> bool" where
  "offered L R fd v s0 offset s \<longleftrightarrow>
     owns L R s \<and> offset \<le> length v \<and>
     (\<exists>made. trace s = trace s0 @ made \<and>
        (\<forall>evs code rest. write_all fd (drop offset v) (script s) = Some (evs, code, rest) \<longrightarrow>
           write_all fd v (script s0) = Some (made @ evs, code, rest)))"

lemma wp_c_write:
  assumes "owns L R s" and "E Blocked"
    and "\<And>r s'. owns L R s' \<Longrightarrow> script s = r # script s' \<Longrightarrow> trace s' = trace s @ [WriteFd fd bs] \<Longrightarrow>
        errno s' = r_errno r \<Longrightarrow> Q (if r_ret r < 0 then -1 else min (r_ret r) (int (length bs))) s'"
  shows "wp E (c_write fd bs) Q s"
  unfolding c_write_def wp_bind wp_ret by (rule wp_sys_owns [where E = E, OF assms(1,2)]) (rule assms(3))

lemma wp_atomic_round:
  assumes "E Blocked" and reads: "readable L R (b_data data) (length v) v" and len: "b_len data = int (length v)"
    and off: "offered L R fd v s0 offset s"
    and more: "\<And>n s'. offered L R fd v s0 n s' \<Longrightarrow> length (script s') < length (script s) \<Longrightarrow> Q (Inl n) s'"
    and fin: "\<And>code s' evs. owns L R s' \<Longrightarrow> write_all fd v (script s0) = Some (evs, code, script s') \<Longrightarrow>
        trace s' = trace s0 @ evs \<Longrightarrow> Q (Inr code) s'"
  shows "wp E (atomic_round c fd data offset) Q s"
proof -
  obtain made where owns: "owns L R s" and le: "offset \<le> length v" and tr: "trace s = trace s0 @ made"
    and spec: "\<And>evs code rest. write_all fd (drop offset v) (script s) = Some (evs, code, rest) \<Longrightarrow>
        write_all fd v (script s0) = Some (made @ evs, code, rest)"
    using off by (auto simp: offered_def)
  show ?thesis
  proof (cases "offset < length v")
    case False
    then have "write_all fd v (script s0) = Some (made, None, script s)"
      using spec [of "[]" None "script s"] le by simp
    with False show ?thesis using owns tr by (auto simp: atomic_round_def len wp_ret intro!: fin)
  next
    case True
    let ?bs = "drop offset v"
    have ne: "?bs \<noteq> []" using True by simp
    have part: "readable L R (ptr_plus (b_data data) offset) (length v - offset) ?bs"
      unfolding readable_def
    proof (intro allI impI)
      fix L' R' s' assume "L \<subseteq># L'" "R \<subseteq>\<^sub>m R'" "owns L' R' s'"
      then have "read_bytes (heap s') (b_data data) (length v) = Some v"
        using reads by (auto simp: readable_def)
      from read_bytes_part [OF this, of offset "length v - offset"] True
      show "read_bytes (heap s') (ptr_plus (b_data data) offset) (length v - offset) = Some ?bs" by simp
    qed
    have part': "readable L R (ptr_plus (b_data data) offset) (nat (b_len data) - offset) ?bs"
      using part by (simp add: len)
    have cond: "offset < nat (b_len data)" using True by (simp add: len)
    show ?thesis
      unfolding atomic_round_def if_P [OF cond] wp_bind wp_get_errno
    proof (rule wp_load_bytes [OF owns part'],
        rule wp_c_write [where E = E, OF owns assms(1)], goal_cases)
      case (1 r s1)
      note step = write_all_step [OF ne, of fd r "script s1"]
      have tr1: "trace s1 = trace s0 @ made @ [WriteFd fd ?bs]" using 1(3) tr by simp
      consider (again) "r_ret r < 0" "r_errno r = EINTR" | (bad) "r_ret r \<le> 0" "\<not> (r_ret r < 0 \<and> r_errno r = EINTR)"
        | (some) "0 < r_ret r" by linarith
      then show ?case
      proof cases
        case again
        have "write_all fd v (script s0) = Some ((made @ [WriteFd fd ?bs]) @ evs, code, rest)"
          if "write_all fd ?bs (script s1) = Some (evs, code, rest)" for evs code rest
          using spec [of "WriteFd fd ?bs # evs" code rest] that again by (simp add: 1(2) step)
        then have "offered L R fd v s0 offset s1"
          using 1(1) le tr1 by (auto simp: offered_def)
        then show ?thesis using again 1(2,4) by (simp add: wp_ret more)
      next
        case bad
        have "write_all fd v (script s0) = Some (made @ [WriteFd fd ?bs],
            Some (if r_ret r = 0 then EIO else r_errno r), script s1)"
          using spec [of "[WriteFd fd ?bs]"] bad by (simp add: 1(2) step)
        from fin [OF 1(1) this] tr1 bad 1(4) show ?thesis by (auto simp: wp_ret min_def)
      next
        case some
        define m where "m = min (r_ret r) (int (length ?bs))"
        let ?n = "nat m"
        have m: "0 < m" using some True by (simp add: m_def min_def)
        have n: "drop (nat (r_ret r)) ?bs = drop (offset + ?n) v"
          by (cases "nat (r_ret r) \<le> length ?bs") (auto simp: add.commute m_def)
        have "write_all fd v (script s0) = Some ((made @ [WriteFd fd ?bs]) @ evs, code, rest)"
          if "write_all fd (drop (offset + ?n) v) (script s1) = Some (evs, code, rest)" for evs code rest
          using spec [of "WriteFd fd ?bs # evs" code rest] that some by (simp only: 1(2) step n) simp
        then have "offered L R fd v s0 (offset + ?n) s1"
          using 1(1) le tr1 True by (auto simp: offered_def m_def)
        then have "Q (Inl (offset + nat m)) s1" using 1(2) by (intro more) simp_all
        moreover have "(if r_ret r < 0 then - 1 else min (r_ret r) (int (length ?bs))) = m"
          using some by (simp add: m_def)
        ultimately show ?thesis using m by (simp only:) (simp add: wp_ret)
      qed
    qed
  qed
qed

lemma wp_atomic_rounds:
  assumes "E Blocked" and "readable L R (b_data data) (length v) v" and "b_len data = int (length v)"
    and "owns L R s"
    and "\<And>code s' evs. owns L R s' \<Longrightarrow> write_all fd v (script s) = Some (evs, code, script s') \<Longrightarrow>
        trace s' = trace s @ evs \<Longrightarrow> Q code s'"
  shows "wp E (loop (atomic_round c fd data) 0) Q s"
proof (rule wp_loop [where I = "offered L R fd v s"], goal_cases)
  case 1 show ?case using assms(4) by (simp add: offered_def)
next
  case (2 n s')
  show ?case by (rule wp_atomic_round [where E = E, OF assms(1-3) 2]) (auto intro: assms(5))
qed

section \<open>The temporary file\<close>

lemma temp_suffix: "length (temp_suffix r) = 6" "CHR 0x00 \<notin> set (temp_suffix r)" "CHR 0x2F \<notin> set (temp_suffix r)"
  by (auto simp: temp_suffix_def Let_def dest: in_set_takeD)

lemma overwrite_suffix:
  "length ys = length xs \<Longrightarrow>
     overwrite (map Some (d @ xs) @ [z]) (length d) (map Some ys) = map Some (d @ ys) @ [z]"
  using overwrite_at_end [of "map Some d" "length d" "map Some xs" "map Some ys" "[z]"] by simp

lemma wp_c_mkstemp:
  assumes owns: "owns L (R(b \<mapsto> os_block (d @ ''XXXXXX''))) s" and d: "CHR 0x00 \<notin> set d" and "E Blocked"
    and failed: "\<And>r s'. owns L (R(b \<mapsto> os_block (d @ ''XXXXXX''))) s' \<Longrightarrow> script s = r # script s' \<Longrightarrow>
        trace s' = trace s @ [Mkstemp (d @ ''XXXXXX'')] \<Longrightarrow> r_ret r < 0 \<Longrightarrow> errno s' = r_errno r \<Longrightarrow> Q (-1) s'"
    and made: "\<And>r s'. owns L (R(b \<mapsto> os_block (d @ temp_suffix r))) s' \<Longrightarrow> script s = r # script s' \<Longrightarrow>
        trace s' = trace s @ [Mkstemp (d @ ''XXXXXX'')] \<Longrightarrow> 0 \<le> r_ret r \<Longrightarrow> Q (r_ret r) s'"
  shows "wp E (c_mkstemp (PHeap b 0)) Q s"
  unfolding c_mkstemp_def wp_bind
proof (rule wp_load_os_string [OF owns], goal_cases)
  case 1 show ?case using d by simp
next
  case 2
  show ?case
  proof (rule wp_sys_owns [where E = E, OF owns assms(3)], goal_cases)
    case (1 r s1)
    show ?case
    proof (cases "r_ret r < 0")
      case True
      with failed [OF 1(1-3) True 1(4)] show ?thesis by (simp add: wp_ret)
    next
      case False
      have at: "ptr_plus (PHeap b 0) (length (d @ ''XXXXXX'') - 6) = PHeap b (length d)" by simp
      show ?thesis
        unfolding if_not_P [OF False] wp_andthen at
      proof (rule wp_store_bytes [where cs = "map Some (d @ ''XXXXXX'') @ [Some (CHR 0x00)]", OF 1(1)], goal_cases)
        case 1 show ?case by simp
      next
        case 2 show ?case by (simp add: temp_suffix)
      next
        case (3 s2)
        have "owns L (R(b \<mapsto> os_block (d @ temp_suffix r))) s2"
          using 3(1) overwrite_suffix [of "temp_suffix r" "''XXXXXX''" d "Some (CHR 0x00)"]
          by (simp add: temp_suffix)
        then show ?case
          unfolding wp_ret by (rule made) (use 1 3(2) False in \<open>simp_all add: world_def\<close>)
      qed
    qed
  qed
qed

section \<open>The outcome\<close>

text \<open>The prefix of the temporary file's name: the directory of the target.\<close>

definition temp_prefix :: "string \<Rightarrow> string" where
  "temp_prefix target =
     (let directory = (case last_slash target of
            None \<Rightarrow> ''.'' | Some i \<Rightarrow> if i = 0 then ''/'' else take i target)
      in directory @ (if directory = ''/'' then '''' else ''/'') @ ''.nq-atomic-'')"

text \<open>
  What was done after the temporary file was made: \<open>Ok\<close>, all bytes accepted, then closed, then
  renamed; otherwise where it stopped, and the file was removed.
\<close>

definition completed :: "string \<Rightarrow> string \<Rightarrow> string \<Rightarrow> int \<Rightarrow> reply list \<Rightarrow> event list \<Rightarrow> reply list \<Rightarrow> bool" where
  "completed tmp v bs fd replies evs rest \<longleftrightarrow>
     (\<exists>writes cl rn. write_all fd bs replies = Some (writes, None, cl # rn # rest) \<and>
        r_ret cl = 0 \<and> r_ret rn = 0 \<and> evs = writes @ [Close fd, Rename tmp v])"

definition abandoned :: "string \<Rightarrow> string \<Rightarrow> string \<Rightarrow> int \<Rightarrow> reply list \<Rightarrow> event list \<Rightarrow> reply list \<Rightarrow> bool" where
  "abandoned tmp v bs fd replies evs rest \<longleftrightarrow>
     (\<exists>writes code cl un. write_all fd bs replies = Some (writes, Some code, cl # un # rest) \<and>
        evs = writes @ [Close fd, Unlink tmp]) \<or>
     (\<exists>writes cl un. write_all fd bs replies = Some (writes, None, cl # un # rest) \<and> r_ret cl \<noteq> 0 \<and>
        evs = writes @ [Close fd, Unlink tmp]) \<or>
     (\<exists>writes cl rn un. write_all fd bs replies = Some (writes, None, cl # rn # un # rest) \<and>
        r_ret cl = 0 \<and> r_ret rn \<noteq> 0 \<and> evs = writes @ [Close fd, Rename tmp v, Unlink tmp])"

fun replaced :: "string \<Rightarrow> string \<Rightarrow> string \<Rightarrow> strs \<Rightarrow> raws \<Rightarrow> nqstate \<Rightarrow> unit nq_result \<Rightarrow> nqstate \<Rightarrow> bool" where
  "replaced d v bs L R s (Ok _) s' \<longleftrightarrow>
     owns L R s' \<and> (\<exists>mk rs evs. script s = mk # rs \<and> 0 \<le> r_ret mk \<and>
        trace s' = trace s @ Mkstemp (d @ ''XXXXXX'') # evs \<and>
        completed (d @ temp_suffix mk) v bs (r_ret mk) rs evs (script s'))"
| "replaced d v bs L R s (Err e) s' \<longleftrightarrow>
     (\<exists>w. owns (with_err e w L) R s' \<and> v_operation w = ''atomic_write_file'' \<and>
        (\<exists>mk rs evs. script s = mk # rs \<and> trace s' = trace s @ Mkstemp (d @ ''XXXXXX'') # evs \<and>
           (if r_ret mk < 0 then evs = [] \<and> script s' = rs
            else abandoned (d @ temp_suffix mk) v bs (r_ret mk) rs evs (script s'))))"

text \<open>The way out of a failure after the file was made: the error, the cleanup, then \<open>unlink\<close>.\<close>

lemma readable_os_block: "R b = Some (os_block v) \<Longrightarrow> readable L R (PHeap b 0) (length v) v"
  by (rule readable_raw, assumption) simp_all

lemma wp_free_last_two:
  assumes "owns L (R(b \<mapsto> x, b' \<mapsto> y)) s" and "R b = None" and "R b' = None" and "b' \<noteq> b"
    and "\<And>s'. owns L R s' \<Longrightarrow> world s' = world s \<Longrightarrow> Q () s'"
  shows "wp E (c_free (PHeap b' 0)) (\<lambda>_. wp E (c_free (PHeap b 0)) Q) s"
  by (rule wp_free_os [OF assms(1)], use assms(3,4) in simp, rule wp_free_os [where R = R, OF _ assms(2)], assumption)
    (simp add: assms(5))

lemma wp_abandon:
  assumes "good_config c" and owns: "owns L (R(bt \<mapsto> os_block v, bp \<mapsto> os_block tmp)) s" and live: "(path, x) \<in># L"
    and apart: "R bt = None" "R bp = None" "bp \<noteq> bt" and tmp: "CHR 0x00 \<notin> set tmp" and "E Blocked"
    and cleanup: "\<And>e w s' P. owns (with_err e w L) (R(bt \<mapsto> os_block v, bp \<mapsto> os_block tmp)) s' \<Longrightarrow>
        (\<And>s2 cs. owns (with_err e w L) (R(bt \<mapsto> os_block v, bp \<mapsto> os_block tmp)) s2 \<Longrightarrow>
           script s' = cs @ script s2 \<Longrightarrow> length cs = length evs \<Longrightarrow> trace s2 = trace s' @ evs \<Longrightarrow> P () s2) \<Longrightarrow>
        wp E cleanup P s'"
    and post: "\<And>e w s' cs un. owns (with_err e w L) R s' \<Longrightarrow> v_operation w = ''atomic_write_file'' \<Longrightarrow>
        script s = cs @ un # script s' \<Longrightarrow> length cs = length evs \<Longrightarrow>
        trace s' = trace s @ evs @ [Unlink tmp] \<Longrightarrow> Q (Err e) s'"
  shows "wp E (bind (nq_errno_io_err c (Some ''atomic_write_file'') (Some path)
              (Some \<lparr>s_data = PHeap bp 0, s_len = int (length tmp), s_owner = None\<rparr>) code)
          (\<lambda>err. andthen cleanup
            (bind (c_call_name Unlink (PHeap bp 0)) (\<lambda>_.
             andthen (c_free (PHeap bp 0))
             (andthen (c_free (PHeap bt 0)) (ret (nq_unit_err err))))))) Q s"
  unfolding wp_bind wp_andthen wp_ret
proof (rule wp_nq_errno_io_err [where ov = "Some tmp", OF assms(1) owns _ path_view_live [OF owns live]], goal_cases)
  case 1 show ?case by (simp add: label_def)
next
  case 2 show ?case by (simp add: readable_os_block)
next
  case (3 e w s1)
  have w: "v_operation w = ''atomic_write_file''" using 3(3) by (auto dest: err_outcome_operation)
  show ?case
  proof (rule cleanup [OF 3(1)], goal_cases)
    case (1 s2 cs)
    show ?case
    proof (rule wp_c_call_name [where E = E, OF 1(1) tmp assms(8)], goal_cases)
      case (1 r s3)
      note r = 1(2,3)
      have "wp E (c_free (PHeap bp 0)) (\<lambda>_. wp E (c_free (PHeap bt 0)) (\<lambda>_. Q (nq_unit_err e))) s3"
      proof (rule wp_free_last_two [OF 1(1) apart], goal_cases)
        case (1 s4)
        note 2 = this
        show ?case
          unfolding result_defs
          by (rule post [OF 2(1) w, of cs r])
            (use \<open>script s1 = cs @ script s2\<close> \<open>length cs = length evs\<close> \<open>trace s2 = trace s1 @ evs\<close> r 2(2) 3(2)
              in \<open>simp_all add: world_def\<close>)
      qed
      then show ?case .
    qed
  qed
qed

lemma wp_c_close:
  assumes "owns L R s" and "E Blocked"
    and "\<And>r s'. owns L R s' \<Longrightarrow> script s = r # script s' \<Longrightarrow> trace s' = trace s @ [Close fd] \<Longrightarrow>
        errno s' = r_errno r \<Longrightarrow> Q (r_ret r) s'"
  shows "wp E (c_close fd) Q s"
  unfolding c_close_def wp_bind wp_ret by (rule wp_sys_owns [where E = E, OF assms(1,2)]) (rule assms(3))

lemma wp_atomic_replace:
  assumes "good_config c" and "(path, x) \<in># L" and v: "CHR 0x00 \<notin> set v" and d: "CHR 0x00 \<notin> set d"
    and owns: "owns L (R(bt \<mapsto> os_block v, bp \<mapsto> os_block (d @ ''XXXXXX''))) s"
    and apart: "R bt = None" "R bp = None" "bp \<noteq> bt" and E: "E Blocked"
    and reads: "readable L R (b_data data) (length bs) bs" and len: "b_len data = int (length bs)"
    and post: "\<And>res s'. replaced d v bs L R s res s' \<Longrightarrow> Q res s'"
  shows "wp E (atomic_replace c path data (PHeap bt 0) (PHeap bp 0)) Q s"
  unfolding atomic_replace_def wp_bind
proof (rule wp_c_mkstemp [where E = E, OF owns d E], goal_cases)
  case (1 mk s1)
  note made = 1(2,3) and neg = 1(4)
  have "wp E (c_free (PHeap bp 0)) (\<lambda>_. wp E (c_free (PHeap bt 0)) (\<lambda>_.
      wp E (bind (nq_errno_io_err c (Some ''atomic_write_file'') (Some path) None (errno s1)) (\<lambda>err. ret (nq_unit_err err))) Q)) s1"
  proof (rule wp_free_last_two [OF 1(1) apart], goal_cases)
    case (1 s2)
    note w2 = 1(2)
    show ?case
    proof (rule wp_fail_errno [where ov = None, OF assms(1) 1(1) _ path_view_live [OF 1(1) assms(2)]], goal_cases)
      case (3 e w s3)
      have "script s = mk # script s3" "trace s3 = trace s @ [Mkstemp (d @ ''XXXXXX'')]"
        using made 3(2) w2 by (simp_all add: world_def)
      then show ?case using 3(1,3) neg by (intro post) (auto simp: result_defs)
    qed (simp_all add: label_def)
  qed
  then show ?case by (simp add: wp_simps)
next
  case (2 mk s1)
  let ?tmp = "d @ temp_suffix mk" and ?fd = "r_ret mk"
  let ?R = "R(bt \<mapsto> os_block v, bp \<mapsto> os_block ?tmp)"
  have tmp: "CHR 0x00 \<notin> set ?tmp" using d temp_suffix by simp
  have "R \<subseteq>\<^sub>m ?R" using apart by (auto simp: map_le_def)
  then have reads': "readable L ?R (b_data data) (length bs) bs"
    by (rule readable_mono [OF reads subset_mset.order_refl])
  have err: "Q (Err e) s'"
    if "owns (with_err e w L) R s'" "v_operation w = ''atomic_write_file''"
      "abandoned ?tmp v bs ?fd (script s1) evs (script s')" "trace s' = trace s1 @ evs" for e w s' evs
    using that 2 by (intro post) auto
  note abandon = wp_abandon [where E = E, OF assms(1) _ assms(2) apart tmp E]
  have notneg: "\<not> ?fd < 0" using 2(4) by simp
  show ?case
    unfolding if_not_P [OF notneg] wp_bind
  proof (rule wp_load_os_string [OF 2(1) tmp], unfold Let_def wp_bind,
      rule wp_atomic_rounds [where E = E, OF E reads' len 2(1)], goal_cases)
    case (1 code s2 writes)
    note writes = 1(2,3)
    show ?case
    proof (cases code)
      case (Some error_code)
      show ?thesis
        unfolding Some option.case
      proof (rule abandon [OF 1(1), where evs = "[Close ?fd]"], goal_cases)
        case (1 e w s' P)
        show ?case
          unfolding wp_bind wp_ret
          by (rule wp_c_close [where E = E, OF 1(1) E], rule 1(2)) (auto simp: length_Suc_conv)
      next
        case (2 e w s' cs un)
        then show ?case
          using writes Some
          by (intro err [where evs = "writes @ [Close ?fd, Unlink ?tmp]"])
            (auto simp: abandoned_def length_Suc_conv)
      qed
    next
      case None
      show ?thesis
        unfolding None option.case wp_bind
      proof (rule wp_c_close [where E = E, OF 1(1) E], goal_cases)
        case closed: (1 cl s3)
        show ?case
        proof (cases "r_ret cl \<noteq> 0")
          case True
          show ?thesis
            unfolding if_P [OF True] wp_bind [of _ get_errno] wp_get_errno
          proof (rule abandon [OF closed(1), where evs = "[]"], goal_cases)
            case (1 e w s' P)
            then show ?case by (simp add: wp_ret)
          next
            case (2 e w s' cs un)
            then show ?case
              using writes closed None True
              by (intro err [where evs = "writes @ [Close ?fd, Unlink ?tmp]"])
                (auto simp: abandoned_def)
          qed
        next
          case False
          have swap: "?R = R(bp \<mapsto> os_block ?tmp, bt \<mapsto> os_block v)"
            using apart(3) by (simp add: fun_upd_twist)
          show ?thesis
            unfolding if_not_P [OF False] wp_bind
          proof (rule wp_c_rename [where E = E, OF closed(1) [unfolded swap] _ tmp v E], goal_cases)
            case 1 show ?case using apart(3) by simp
          next
            case renamed: (2 rn s4)
            show ?case
            proof (cases "r_ret rn \<noteq> 0")
              case True
              show ?thesis
                unfolding if_P [OF True] wp_bind [of _ get_errno] wp_get_errno
              proof (rule abandon [OF renamed(1) [folded swap], where evs = "[]"], goal_cases)
                case (1 e w s' P)
                then show ?case by (simp add: wp_ret)
              next
                case (2 e w s' cs un)
                then show ?case
                  using writes closed renamed None True False
                  by (intro err [where evs = "writes @ [Close ?fd, Rename ?tmp v, Unlink ?tmp]"])
                    (auto simp: abandoned_def)
              qed
            next
              case okay: False
              have "wp E (c_free (PHeap bp 0)) (\<lambda>_. wp E (c_free (PHeap bt 0)) (\<lambda>_. Q nq_unit_ok)) s4"
              proof (rule wp_free_last_two [OF renamed(1) [folded swap] apart], goal_cases)
                case (1 s5)
                note 2 = this
                have "completed ?tmp v bs ?fd (script s1) (writes @ [Close ?fd, Rename ?tmp v]) (script s5)"
                  using writes(1) closed(2) renamed(2) 2(2) None False okay
                  by (simp add: completed_def world_def)
                moreover have "trace s5 = trace s1 @ writes @ [Close ?fd, Rename ?tmp v]"
                  using writes(2) closed(3) renamed(3) 2(2) by (simp add: world_def)
                ultimately show ?case
                  using 2(1) \<open>script s = mk # script s1\<close> \<open>trace s1 = _\<close> \<open>0 \<le> r_ret mk\<close>
                  by (intro post) (auto simp: result_defs)
              qed
              then show ?thesis unfolding if_not_P [OF okay] wp_andthen wp_ret .
            qed
          qed
        qed
      qed
    qed
  qed
qed

section \<open>The template\<close>

lemma last_slash_less: "last_slash v = Some i \<Longrightarrow> i < length v"
  by (cases v rule: rev_cases) (auto simp: last_slash_def split: if_splits)

definition target_directory :: "string \<Rightarrow> string" where
  "target_directory v = (case last_slash v of None \<Rightarrow> ''.'' | Some i \<Rightarrow> if i = 0 then ''/'' else take i v)"

lemma temp_prefix_alt:
  "temp_prefix v = target_directory v @ (if target_directory v = ''/'' then '''' else ''/'') @ ''.nq-atomic-''"
  by (simp add: temp_prefix_def target_directory_def Let_def)

lemma target_directory_no_nul: "CHR 0x00 \<notin> set v \<Longrightarrow> CHR 0x00 \<notin> set (target_directory v)"
  by (auto simp: target_directory_def dest: in_set_takeD split: option.split)

lemma wp_atomic_directory:
  assumes "good_config c" and owns: "owns L (R(bt \<mapsto> os_block v)) s"
    and ok: "\<And>b s'. owns L (R(bt \<mapsto> os_block v, b \<mapsto> os_block (target_directory v))) s' \<Longrightarrow>
        (R(bt \<mapsto> os_block v)) b = None \<Longrightarrow> world s' = world s \<Longrightarrow> Q (Inr (PHeap b 0)) s'"
    and err: "\<And>st s'. owns L (R(bt \<mapsto> os_block v)) s' \<Longrightarrow> world s' = world s \<Longrightarrow> Q (Inl st) s'"
  shows "wp E (atomic_directory c (PHeap bt 0) v) Q s"
proof (cases "last_slash v")
  case None
  then show ?thesis
    by (simp add: atomic_directory_def)
      (rule wp_nq_try_cstr_copy [OF owns readable_lit0],
        use None in \<open>auto intro!: ok err simp: target_directory_def\<close>)
next
  case (Some i)
  have "readable L (R(bt \<mapsto> os_block v)) (PHeap bt 0) i (take i v)"
    by (rule readable_raw) (use last_slash_less [OF Some] in \<open>auto simp flip: map_append simp: take_map\<close>)
  then show ?thesis
    using Some
    by (auto simp: atomic_directory_def target_directory_def intro!: ok err
        wp_nq_try_cstr_copy [OF owns readable_lit0] wp_nq_try_cstr_copy [OF owns, of "PHeap bt 0" i "take i v"])
qed

text \<open>Filling the template: the directory, a slash unless it is the root, the pattern.\<close>

lemma wp_fill_template:
  assumes owns: "owns L (R(b \<mapsto> BBytes (replicate n None))) s"
    and dir: "readable L R p (length d) d" and b: "R b = None"
    and n: "n = length d + (if root then 0 else 1) + 18"
    and post: "\<And>s'. owns L (R(b \<mapsto> os_block (d @ (if root then '''' else ''/'') @ ''.nq-atomic-XXXXXX''))) s' \<Longrightarrow>
        world s' = world s \<Longrightarrow> Q s'"
  shows "wp E (bind (load_bytes p (length d)) (store_bytes (PHeap b 0)))
     (\<lambda>_. wp E (only_if (\<not> root) (store_bytes (ptr_plus (PHeap b 0) (length d)) ''/''))
     (\<lambda>_. wp E (store_bytes (ptr_plus (PHeap b 0) (if root then length d else length d + 1))
        (''.nq-atomic-XXXXXX'' @ [CHR 0x00])) (\<lambda>_. Q))) s"
  unfolding wp_bind
proof (rule wp_load_bytes [OF owns readable_upd [OF dir b]],
    rule store_after [where xs = "[]" and k = n and L = L and R = R, simplified], goal_cases)
  case 1 show ?case using owns by simp
next
  case 2 show ?case using n by simp
next
  case (3 s1)
  have pattern: "wp E (store_bytes (PHeap b (length e)) (''.nq-atomic-XXXXXX'' @ [CHR 0x00])) (\<lambda>_. Q) s2"
    if "owns L (R(b \<mapsto> BBytes (map Some e @ replicate 18 None))) s2" "world s2 = world s"
      "e = d @ (if root then '''' else ''/'')" for e s2
    by (rule store_after [OF that(1)]) (use that in \<open>auto intro!: post\<close>)
  show ?case
  proof (cases root)
    case True
    with 3 show ?thesis using pattern [of d s1] by (simp add: wp_only_if n)
  next
    case False
    have s1: "owns L (R(b \<mapsto> BBytes (map Some d @ replicate 19 None))) s1" using 3(1) False by (simp add: n)
    have "wp E (store_bytes (PHeap b (length d)) ''/'')
        (\<lambda>_. wp E (store_bytes (PHeap b (length (d @ ''/''))) (''.nq-atomic-XXXXXX'' @ [CHR 0x00])) (\<lambda>_. Q)) s1"
    proof (rule store_after [OF s1], goal_cases)
      case (2 s2)
      show ?case by (rule pattern) (use 2 3(2) False in simp_all)
    qed simp
    with False show ?thesis by (simp add: wp_only_if)
  qed
qed

abbreviation template_sizes :: "config \<Rightarrow> nat \<Rightarrow> bool \<Rightarrow> nat option" where
  "template_sizes c len root \<equiv>
     Option.bind (nq_size_add len (if root then 0 else 1) (nq_str_limit c))
       (\<lambda>n. Option.bind (nq_size_add n 17 (nq_str_limit c)) (\<lambda>n. nq_size_add n 1 (nq_allocation_limit c)))"

lemma template_sizes_Some:
  "template_sizes c len root = Some n \<Longrightarrow> n = len + (if root then 0 else 1) + 18"
  by (simp add: nq_size_add_eq str_limit_size allocation_limit_le split: if_splits)

text \<open>The whole function: its outcome is that of the replacement, or an error with no call made.\<close>

definition atomic_outcome :: "string \<Rightarrow> string \<Rightarrow> strs \<Rightarrow> raws \<Rightarrow> nqstate \<Rightarrow> unit nq_result \<Rightarrow> nqstate \<Rightarrow> bool" where
  "atomic_outcome v bs L R s res s' \<longleftrightarrow>
     replaced (temp_prefix v) v bs L R s res s' \<or>
     (\<exists>e w. res = Err e \<and> owns (with_err e w L) R s' \<and> v_operation w = ''atomic_write_file'' \<and>
        world s' = world s)"

lemma replaced_world: "world s1 = world s \<Longrightarrow> replaced d v bs L R s1 res s' \<Longrightarrow> replaced d v bs L R s res s'"
  by (cases res) (auto simp: world_def)

lemma wp_nq_atomic_write_file:
  assumes "good_config c" and owns: "owns L R s" and live: "(path, v) \<in># L" and E: "E Blocked"
    and reads: "readable L R (b_data data) (length bs) bs" and len: "b_len data = int (length bs)"
    and post: "\<And>res s'. atomic_outcome v bs L R s res s' \<Longrightarrow> Q res s'"
  shows "wp E (nq_atomic_write_file c path (Some data)) Q s"
proof -
  have err: "Q (Err e) s'" if "owns (with_err e w L) R s'" "world s' = world s" "v_operation w = ''atomic_write_file''"
    for e w s' using that by (intro post) (auto simp: atomic_outcome_def)
  have fail_alloc: "wp E (bind (nq_allocation_io_err c (Some ''atomic_write_file'') st) (\<lambda>e. ret (nq_unit_err e))) Q s'"
    if "owns L R s'" "world s' = world s" for st s'
    by (rule wp_fail_alloc [OF assms(1) that(1)]) (use that(2) in \<open>auto intro: err simp: label_def result_defs\<close>)
  have fail_invalid: "wp E (bind (nq_invalid_input_io_err c (Some ''atomic_write_file'') (Some path) None msg) (\<lambda>e. ret (nq_unit_err e))) Q s'"
    if "owns L R s'" "world s' = world s" "CHR 0x00 \<notin> set msg" for msg s'
    by (rule wp_fail_invalid [where pv = "Some v" and ov = None, OF assms(1) that(1) _ path_view_live [OF that(1) live] _ that(3)])
      (use that(2) in \<open>auto intro: err simp: label_def result_defs\<close>)
  show ?thesis
  proof (cases "bytes_too_long c (Some data)")
    case True
    then show ?thesis by (simp add: nq_atomic_write_file_def Let_def fail_alloc owns)
  next
    case short: False
    have "\<not> bytes_invalid (Some data)"
      using readableD [OF reads owns] by (auto simp: bytes_invalid_def len)
    then have valid: "\<not> bytes_invalid (Some data)" .
    show ?thesis
      unfolding nq_atomic_write_file_def Let_def if_not_P [OF short] if_not_P [OF valid] option.sel
    proof (rule wp_with_os_string [OF assms(1) owns live], goal_cases)
      case 1 show ?case by (simp add: label_def)
    next
      case (2 e w s') then show ?case by (simp add: err result_defs)
    next
      case (3 bt s1)
      note w1 = 3(4)
      have free_then: "wp E (andthen (c_free (PHeap bt 0)) m) Q s2"
        if "owns L (R(bt \<mapsto> os_block v)) s2" "world s2 = world s"
          "\<And>s3. owns L R s3 \<Longrightarrow> world s3 = world s \<Longrightarrow> wp E m Q s3" for m s2
        unfolding wp_andthen by (rule wp_free_os [OF that(1) 3(2)]) (use that(2,3) in auto)
      show ?case
        unfolding wp_bind
      proof (rule wp_load_os_string [OF 3(3,1)], goal_cases)
        case 1
        show ?case
        proof (cases "last_slash v \<noteq> None \<and> the (last_slash v) + 1 = length v")
          case True
          show ?thesis
            unfolding if_P [OF True]
            by (rule free_then [OF 3(3) w1], rule fail_invalid) simp_all
        next
          case named: False
          show ?thesis
            unfolding if_not_P [OF named] wp_bind
          proof (rule wp_atomic_directory [OF assms(1) 3(3)], goal_cases)
            case (2 st s2)
            show ?case
              unfolding sum.case by (rule free_then [OF 2(1)]) (use 2(2) w1 fail_alloc in auto)
          next
            case (1 bd s2)
            have s2: "world s2 = world s" using 1(3) w1 by simp
            note apart = os_block_apart [where x = "os_block v", OF 3(2) 1(2)]
            let ?d = "target_directory v"
            have d: "CHR 0x00 \<notin> set ?d" by (rule target_directory_no_nul [OF 3(1)])
            have give_up: "wp E (andthen (c_free (PHeap bd 0)) (andthen (c_free (PHeap bt 0)) 
                (bind (nq_allocation_io_err c (Some ''atomic_write_file'') st) (\<lambda>e. ret (nq_unit_err e))))) Q s3"
              if "owns L (R(bt \<mapsto> os_block v, bd \<mapsto> os_block ?d)) s3" "world s3 = world s" for st s3
              unfolding wp_andthen
              by (rule wp_free_last_two [OF that(1) 3(2)]) (use apart that(2) in \<open>auto intro: fail_alloc\<close>)
            show ?case
              unfolding sum.case wp_bind
            proof (rule wp_load_os_string [OF 1(1) d], goal_cases)
              case 1
              show ?case
              proof (cases "template_sizes c (length ?d) (?d = ''/'')")
                case None
                show ?thesis unfolding None option.case by (rule give_up [OF \<open>owns L _ s2\<close>]) (simp add: s2)
              next
                case (Some n)
                note n = template_sizes_Some [OF Some]
                show ?thesis
                  unfolding Some option.case wp_bind
                proof (rule wp_nq_try_realloc_new [OF \<open>owns L _ s2\<close>], goal_cases)
                  case 1 show ?case using n by simp
                next
                  case (3 st s3)
                  then show ?case unfolding sum.case by (intro give_up) (simp_all add: s2)
                next
                  case (2 bp s3)
                  note three = os_block_apart [where x = "os_block ?d", OF \<open>(R(bt \<mapsto> os_block v)) bd = None\<close> 2(2)]
                  have dir: "readable L (R(bt \<mapsto> os_block v, bd \<mapsto> os_block ?d)) (PHeap bd 0) (length ?d) ?d"
                    by (rule readable_os_block) simp
                  note fill = wp_fill_template [OF 2(1) [unfolded fresh_cells.simps] dir 2(2) n]
                  show ?case
                    unfolding sum.case wp_andthen
                  proof (rule fill, goal_cases)
                    case (1 s4)
                    have pattern: "?d @ (if ?d = ''/'' then '''' else ''/'') @ ''.nq-atomic-XXXXXX'' = temp_prefix v @ ''XXXXXX''"
                      by (simp add: temp_prefix_alt)
                    have bt: "(R(bt \<mapsto> os_block v)) bp = None" "bp \<noteq> bd" using three by auto
                    have "owns L (R(bt \<mapsto> os_block v, bp \<mapsto> os_block (temp_prefix v @ ''XXXXXX''), bd \<mapsto> os_block ?d)) s4"
                      using 1(1) bt(2) unfolding pattern by (simp add: fun_upd_twist)
                    then show ?case
                    proof (rule wp_free_os, goal_cases)
                      case 1 show ?case using apart bt(2) by simp
                    next
                      case (2 s5)
                      have w5: "world s5 = world s"
                        using 2(2) \<open>world s4 = world s3\<close> \<open>world s3 = world s2\<close> s2 by simp
                      have bp: "R bp = None" "bp \<noteq> bt" using bt(1) by (auto split: if_splits)
                      have "CHR 0x00 \<notin> set (temp_prefix v)"
                        using d by (simp add: temp_prefix_alt)
                      then show ?case
                        by (rule wp_atomic_replace [where E = E and v = v and bs = bs,
                              OF assms(1) live 3(1) _ 2(1) 3(2) bp E reads len])
                          (auto intro!: post dest: replaced_world [OF w5] simp: atomic_outcome_def)
                    qed
                  qed
                qed
              qed
            qed
          qed
        qed
      qed
    qed
  qed
qed

section \<open>Properties\<close>

text \<open>
  C13: Atomic replacement. The function succeeds only after the temporary file, made in the
  directory of the target, accepted every byte in order (interrupted writes repeated, short
  writes continued), was closed, and was renamed over the target; the \<open>rename\<close> is the only call
  that names the target. On every failure after the temporary file was made it is closed once
  and unlinked, and nothing leaks on any path.
\<close>

theorem atomic_write_replaces_in_one_step:
  assumes "good_config c" and "owns L R s" and "(path, v) \<in># L"
    and "readable L R (b_data data) (length bs) bs" and "b_len data = int (length bs)"
  shows "wp only_blocks (nq_atomic_write_file c path (Some data)) (atomic_outcome v bs L R s) s"
  by (rule wp_nq_atomic_write_file [where E = only_blocks, OF assms(1-3) _ assms(4,5)]) simp_all

theorem atomic_write_replaces_in_one_step_witness:
  "wp only_blocks (nq_atomic_write_file plain_config (literal ''d/f'') (Some \<lparr>b_data = PLit ''xyz'' 0, b_len = 3, b_cap = 3\<rparr>))
     (\<lambda>res s'. res = Ok () \<longrightarrow> trace s' =
        [Mkstemp ''d/.nq-atomic-XXXXXX'', WriteFd 5 ''xyz'', WriteFd 5 ''xyz'', WriteFd 5 ''z'', Close 5,
         Rename ''d/.nq-atomic-abcdef'' ''d/f''])
     (boot [] [\<lparr>r_ret = 5, r_errno = 0, r_bytes = ''abcdef'', r_ints = []\<rparr>,
        \<lparr>r_ret = -1, r_errno = EINTR, r_bytes = [], r_ints = []\<rparr>,
        \<lparr>r_ret = 2, r_errno = 0, r_bytes = [], r_ints = []\<rparr>,
        \<lparr>r_ret = 1, r_errno = 0, r_bytes = [], r_ints = []\<rparr>,
        \<lparr>r_ret = 0, r_errno = 0, r_bytes = [], r_ints = []\<rparr>,
        \<lparr>r_ret = 0, r_errno = 0, r_bytes = [], r_ints = []\<rparr>])"
proof -
  have prefix: "temp_prefix ''d/f'' = ''d/.nq-atomic-''" by (simp add: temp_prefix_alt target_directory_def last_slash_def)
  have reads: "readable L R (PLit ''xyz'' 0) (length ''xyz'') ''xyz''" for L R
    by (rule readable_lit0) simp
  show ?thesis
    by (rule wp_mono [OF atomic_write_replaces_in_one_step [where v = "''d/f''" and bs = "''xyz''",
          OF good_plain_config owns_literal [OF owns_boot]]])
      (use reads in \<open>auto simp: atomic_outcome_def completed_def prefix temp_suffix_def EINTR_def\<close>)
qed

end
