(* ===== verification/Clock_Rules.thy ===== *)
theory Clock_Rules
  imports Clock File_Rules
begin

text \<open>
  The arithmetic of time: timestamps, durations and deadlines are exact or rejected, and no
  operation reaches a signed overflow.
\<close>

lemma billion_limits:
  "INT64_MAX sdiv 1000000000 = 9223372036" "INT64_MAX smod 1000000000 = 854775807"
  "INT64_MIN sdiv 1000000000 = -9223372036" "INT64_MIN smod 1000000000 = -854775808"
  by (simp_all add: INT64_MAX_def INT64_MIN_def signed_divide_int_def signed_modulo_int_def)

lemma wp_i64_sum: "INT64_MIN \<le> a + b \<Longrightarrow> a + b \<le> INT64_MAX \<Longrightarrow> wp E (i64_sum a b) Q s = Q (a + b) s"
  by (simp add: i64_sum_def i64_result_def wp_ret)

lemma wp_i64_difference:
  "INT64_MIN \<le> a - b \<Longrightarrow> a - b \<le> INT64_MAX \<Longrightarrow> wp E (i64_difference a b) Q s = Q (a - b) s"
  by (simp add: i64_difference_def i64_result_def wp_ret)

lemma wp_i64_product: "INT64_MIN \<le> a * b \<Longrightarrow> a * b \<le> INT64_MAX \<Longrightarrow> wp E (i64_product a b) Q s = Q (a * b) s"
  by (simp add: i64_product_def i64_result_def wp_ret)

lemma wp_nq_timestamp_to_i64_ns:
  assumes "Q (if 0 \<le> nsec \<and> nsec < 1000000000 \<and>
         INT64_MIN \<le> sec * 1000000000 + nsec \<and> sec * 1000000000 + nsec \<le> INT64_MAX
      then Some (sec * 1000000000 + nsec) else None) s"
  shows "wp E (nq_timestamp_to_i64_ns sec nsec) Q s"
  using assms
  unfolding nq_timestamp_to_i64_ns_def Let_def billion_limits
  by (auto simp: wp_simps wp_i64_sum wp_i64_difference wp_i64_product INT64_MAX_def INT64_MIN_def split: if_splits)

definition i64_range :: "int \<Rightarrow> bool" where
  "i64_range x \<longleftrightarrow> INT64_MIN \<le> x \<and> x \<le> INT64_MAX"

lemma wp_nq_duration_between:
  assumes "i64_range (i_ns a)" and "i64_range (i_ns b)"
    and "Q (if i_ns a \<le> i_ns b \<and> i_ns b - i_ns a \<le> INT64_MAX
            then Some \<lparr>d_ns = i_ns b - i_ns a\<rparr> else None) s"
  shows "wp E (nq_duration_between a b) Q s"
  using assms
  by (auto simp: nq_duration_between_def wp_simps i64_range_def wp_i64_sum wp_i64_difference
      INT64_MAX_def INT64_MIN_def nq_duration_from_ns_def)

text \<open>Reading a clock: the time of the last reply, or an error.\<close>

lemma wp_clock_read:
  assumes "owns L R s" and "E Blocked"
    and "\<And>r s'. owns L R s' \<Longrightarrow> errno s' = r_errno r \<Longrightarrow>
        (\<exists>pre. script s = pre @ r # script s' \<and> trace s' = trace s @ replicate (Suc (length pre)) (ClockGettime monotonic)) \<Longrightarrow>
        Q (r_ret r, to_i64 (reply_int r 0), to_i64 (reply_int r 1)) s'"
  shows "wp E (clock_read monotonic) Q s"
  unfolding clock_read_def
proof (rule wp_loop [where I = "\<lambda>_ s'. owns L R s' \<and>
    (\<exists>pre. script s = pre @ script s' \<and> trace s' = trace s @ replicate (length pre) (ClockGettime monotonic))"], goal_cases)
  case 1 show ?case using assms(1) by simp
next
  case (2 a s1)
  then obtain pre where owns: "owns L R s1" and pre: "script s = pre @ script s1"
    "trace s1 = trace s @ replicate (length pre) (ClockGettime monotonic)" by blast
  show ?case
    unfolding c_clock_gettime_def wp_bind
  proof (rule wp_sys_owns [where E = E, OF owns assms(2)], goal_cases)
    case (1 r s2)
    have calls: "script s = (pre @ [r]) @ script s2"
      "trace s2 = trace s @ replicate (Suc (length pre)) (ClockGettime monotonic)"
      using pre 1(2,3) by (simp_all flip: replicate_append_same)
    have again: "\<exists>pre. script s = pre @ script s2 \<and> trace s2 = trace s @ replicate (length pre) (ClockGettime monotonic)"
      by (rule exI [of _ "pre @ [r]"]) (use calls in simp)
    have "Q (r_ret r, to_i64 (reply_int r 0), to_i64 (reply_int r 1)) s2"
      by (rule assms(3) [OF 1(1,4)]) (use calls in auto)
    then show ?case using 1 again by (simp add: wp_simps)
  qed
qed

definition clock_value :: "reply \<Rightarrow> int" where
  "clock_value r = to_i64 (reply_int r 0) * 1000000000 + to_i64 (reply_int r 1)"

definition clock_answered :: "nqstate \<Rightarrow> int \<Rightarrow> nqstate \<Rightarrow> bool" where
  "clock_answered s v s' \<longleftrightarrow>
     (\<exists>pre r. script s = pre @ r # script s' \<and> 0 \<le> r_ret r \<and> v = clock_value r) \<and> i64_range v"

lemma wp_fail_data:
  assumes "good_config c" and "owns L R s" and "label op" and "CHR 0x00 \<notin> set detail"
    and "\<And>e w s'. owns (with_err e w L) R s' \<Longrightarrow> world s' = world s \<Longrightarrow> v_operation w = op \<Longrightarrow> Q (f e) s'"
  shows "wp E (bind (nq_invalid_data_io_err c (Some op) None detail) (\<lambda>e. ret (f e))) Q s"
  unfolding wp_bind wp_ret
  by (rule wp_nq_invalid_data_io_err [where pv = None, OF assms(1,2)])
    (use assms(3,4) in \<open>auto intro!: assms(5) simp: err_outcome_operation\<close>)

text \<open>The clock is all that was called.\<close>

definition clock_calls :: "bool \<Rightarrow> nqstate \<Rightarrow> nqstate \<Rightarrow> bool" where
  "clock_calls monotonic s s' \<longleftrightarrow>
     (\<exists>rs. script s = rs @ script s' \<and> trace s' = trace s @ replicate (length rs) (ClockGettime monotonic))"

lemma clock_calls_world: "clock_calls m s s1 \<Longrightarrow> world s2 = world s1 \<Longrightarrow> clock_calls m s s2"
  by (simp add: clock_calls_def world_def)

lemma wp_nq_clock_ns:
  assumes "good_config c" and owns: "owns L R s" and op: "label op" and "E Blocked"
    and ok: "\<And>v s'. owns L R s' \<Longrightarrow> clock_answered s v s' \<Longrightarrow> monotonic \<longrightarrow> 0 \<le> v \<Longrightarrow>
        clock_calls monotonic s s' \<Longrightarrow> Q (Inr v) s'"
    and err: "\<And>e w s'. owns (with_err e w L) R s' \<Longrightarrow> v_operation w = op \<Longrightarrow>
        clock_calls monotonic s s' \<Longrightarrow> Q (Inl e) s'"
  shows "wp E (nq_clock_ns c monotonic op) Q s"
  unfolding nq_clock_ns_def wp_bind
proof (rule wp_clock_read [where E = E, OF owns assms(4)], goal_cases)
  case (1 r s1)
  have clock: "clock_calls monotonic s s1"
  proof -
    obtain pre where "script s = pre @ r # script s1"
      "trace s1 = trace s @ replicate (Suc (length pre)) (ClockGettime monotonic)" using 1(3) by blast
    then show ?thesis unfolding clock_calls_def by (intro exI [of _ "pre @ [r]"]) simp
  qed
  have failed: "wp E (bind (nq_invalid_data_io_err c (Some op) None ''clock nanoseconds are not representable'') (\<lambda>err. ret (Inl err))) Q s1"
    by (rule wp_fail_data [OF assms(1) 1(1) op]) (auto intro: err clock_calls_world [OF clock])
  show ?case
  proof (cases "r_ret r < 0")
    case True
    show ?thesis
      unfolding prod.case if_P [OF True] wp_bind [of _ get_errno] wp_get_errno
      by (rule wp_fail_errno [where pv = None and ov = None, OF assms(1) 1(1) op])
        (auto intro: err clock_calls_world [OF clock])
  next
    case False
    have answered: "clock_answered s (clock_value r) s1" if "i64_range (clock_value r)"
      using that 1(3) False by (auto simp: clock_answered_def)
    show ?thesis
      unfolding prod.case if_not_P [OF False] Let_def wp_bind [of _ "nq_timestamp_to_i64_ns _ _"]
      by (rule wp_nq_timestamp_to_i64_ns, fold clock_value_def)
        (use failed answered clock in \<open>auto simp: wp_ret i64_range_def intro!: ok 1(1)\<close>)
  qed
qed

lemma wp_nq_deadline_ns:
  assumes "good_config c" and owns: "owns L R s" and op: "label op" and "E Blocked" and "i64_range (d_ns delay)"
    and ok: "\<And>v s'. owns L R s' \<Longrightarrow> clock_answered s v s' \<Longrightarrow> 0 \<le> v \<Longrightarrow> 0 \<le> d_ns delay \<Longrightarrow>
        v + d_ns delay \<le> INT64_MAX \<Longrightarrow> Q (Inr (v + d_ns delay)) s'"
    and err: "\<And>e w s'. owns (with_err e w L) R s' \<Longrightarrow> v_operation w = op \<Longrightarrow> Q (Inl e) s'"
  shows "wp E (nq_deadline_ns c delay op) Q s"
proof (cases "d_ns delay < 0")
  case True
  show ?thesis
    unfolding nq_deadline_ns_def if_P [OF True]
    by (rule wp_fail_invalid [where pv = None and ov = None, OF assms(1) owns op]) (auto intro: err)
next
  case False
  show ?thesis
    unfolding nq_deadline_ns_def if_not_P [OF False] wp_bind
  proof (rule wp_nq_clock_ns [where E = E, OF assms(1) owns op assms(4)], goal_cases)
    case (1 v s1)
    have range: "INT64_MIN \<le> INT64_MAX - v" "INT64_MAX - v \<le> INT64_MAX"
      using 1(2,3) by (auto simp: clock_answered_def i64_range_def width_defs)
    show ?case
      unfolding sum.case wp_bind wp_i64_difference [OF range]
    proof (cases "d_ns delay > INT64_MAX - v")
      case True
      show "wp E (if d_ns delay > INT64_MAX - v
          then bind (nq_invalid_data_io_err c (Some op) None ''deadline nanoseconds are not representable'') (\<lambda>err. ret (Inl err))
          else bind (i64_sum v (d_ns delay)) (\<lambda>v. ret (Inr v))) Q s1"
        unfolding if_P [OF True] by (rule wp_fail_data [OF assms(1) 1(1) op]) (auto intro: err)
    next
      case fits: False
      have "INT64_MIN \<le> v + d_ns delay" "v + d_ns delay \<le> INT64_MAX"
        using 1(2,3) False fits by (auto simp: clock_answered_def i64_range_def)
      then show "wp E (if d_ns delay > INT64_MAX - v
          then bind (nq_invalid_data_io_err c (Some op) None ''deadline nanoseconds are not representable'') (\<lambda>err. ret (Inl err))
          else bind (i64_sum v (d_ns delay)) (\<lambda>v. ret (Inr v))) Q s1"
        using fits False 1 by (simp add: wp_bind wp_i64_sum wp_ret ok)
    qed
  next
    case (2 e w s1)
    then show ?case by (simp add: wp_ret err)
  qed
qed

section \<open>Properties\<close>

text \<open>
  C29: The conversion of a \<open>timespec\<close> gives the exact number of nanoseconds when the
  nanosecond field is normal and the number fits in 64 bits, and rejects everything else. No
  sum, difference or product of 64-bit numbers overflows on the way, in the first second of the
  range neither, where the product with a billion alone would.
\<close>

theorem timestamp_conversion_exact:
  "wp no_stop (nq_timestamp_to_i64_ns sec nsec) (\<lambda>r s'. s' = s \<and>
     r = (if 0 \<le> nsec \<and> nsec < 1000000000 \<and>
             INT64_MIN \<le> sec * 1000000000 + nsec \<and> sec * 1000000000 + nsec \<le> INT64_MAX
          then Some (sec * 1000000000 + nsec) else None)) s"
  by (rule wp_nq_timestamp_to_i64_ns) simp

text \<open>
  C30: The duration between two instants is their exact difference, or \<open>None\<close> when it is
  negative or does not fit; no difference of 64-bit numbers overflows on the way. A deadline is
  exactly the clock's reading plus the delay, never beyond the last instant; a negative delay, a
  failing clock and an overflow are errors.
\<close>

theorem time_arithmetic_never_overflows:
  assumes "i64_range (i_ns a)" and "i64_range (i_ns b)" and "i64_range (d_ns delay)"
    and "good_config c" and "owns L R s"
  shows "wp no_stop (nq_duration_between a b) (\<lambda>r s'. s' = s \<and>
       r = (if i_ns a \<le> i_ns b \<and> i_ns b - i_ns a \<le> INT64_MAX
            then Some \<lparr>d_ns = i_ns b - i_ns a\<rparr> else None)) s \<and>
    wp only_blocks (nq_deadline_after c delay) (\<lambda>res s'. case res of
       Ok t \<Rightarrow> owns L R s' \<and> 0 \<le> d_ns delay \<and> i_ns t \<le> INT64_MAX \<and>
         clock_answered s (i_ns t - d_ns delay) s'
     | Err e \<Rightarrow> \<exists>w. owns (with_err e w L) R s' \<and> v_operation w = ''deadline_after'') s"
  unfolding nq_deadline_after_def wp_bind
  by (intro conjI wp_nq_duration_between [OF assms(1,2)] wp_nq_deadline_ns [where E = only_blocks, OF assms(4,5) _ _ assms(3)])
    (auto simp: label_def wp_ret)

theorem time_arithmetic_never_overflows_witness:
  "wp no_stop (nq_duration_between \<lparr>i_ns = -5\<rparr> \<lparr>i_ns = INT64_MAX\<rparr>) (\<lambda>r s'. r = None) (boot [] []) \<and>
   wp only_blocks (nq_deadline_after plain_config \<lparr>d_ns = 5\<rparr>)
     (\<lambda>res s'. \<forall>t. res = Ok t \<longrightarrow> i_ns t = 2000000008)
     (boot [] [\<lparr>r_ret = 0, r_errno = 0, r_bytes = [], r_ints = [2, 3]\<rparr>])"
proof -
  have hyps: "i64_range (i_ns \<lparr>i_ns = -5\<rparr>)" "i64_range (i_ns \<lparr>i_ns = INT64_MAX\<rparr>)" "i64_range (d_ns \<lparr>d_ns = 5\<rparr>)"
    by (simp_all add: i64_range_def width_defs)
  note both = time_arithmetic_never_overflows [OF hyps good_plain_config owns_boot]
  show ?thesis
    by (intro conjI wp_mono [OF conjunct1 [OF both]] wp_mono [OF conjunct2 [OF both]])
      (auto simp: width_defs clock_answered_def clock_value_def reply_int_def to_i64_def Cons_eq_append_conv)
qed

end
