(* ===== verification/Reaping.thy ===== *)
theory Reaping
  imports Process Clock_Rules
begin

text \<open>
  The life of a child process as the kernel sees it: from the moment the runtime has waited for
  it successfully its identifier may belong to an unrelated process, so it must never again be
  signalled or waited for. The rules here follow the calls a function makes together with their
  replies and show that the runtime keeps this discipline on every path.
\<close>

section \<open>Calls and their replies\<close>

type_synonym history = "(event \<times> reply) list"

definition calls :: "nqstate \<Rightarrow> history \<Rightarrow> nqstate \<Rightarrow> bool" where
  "calls s h s' \<longleftrightarrow> script s = map snd h @ script s' \<and> trace s' = trace s @ map fst h"

lemma calls_none [simp]: "calls s [] s"
  by (simp add: calls_def)

lemma calls_world: "calls s h s1 \<Longrightarrow> world s2 = world s1 \<Longrightarrow> calls s h s2"
  by (simp add: calls_def world_def)

lemma calls_snoc: "calls s h s1 \<Longrightarrow> script s1 = r # script s2 \<Longrightarrow> trace s2 = trace s1 @ [ev] \<Longrightarrow>
    calls s (h @ [(ev, r)]) s2"
  by (simp add: calls_def)

section \<open>The discipline\<close>

text \<open>
  \<open>aimed ev\<close>: the call names a process. While the child \<open>pid\<close> has not been reaped such a call
  may only name it (or its group, which a signal may); afterwards there may be none. Nor is
  another process, a temporary file or a handle made: calls that do are \<open>reserved\<close>.
\<close>

fun aimed :: "event \<Rightarrow> bool" where
  "aimed (Kill p) = True"
| "aimed (Waitpid p) = True"
| "aimed (Waitid p b) = True"
| "aimed _ = False"

fun reserved :: "event \<Rightarrow> bool" where
  "reserved Fork = True"
| "reserved (Mkstemp template) = True"
| "reserved (GetTempFileName dir prefix) = True"
| "reserved (CreateFile name) = True"
| "reserved (CreateProcess line dir handles) = True"
| "reserved ev = aimed ev"

fun aims_at :: "int \<Rightarrow> event \<Rightarrow> bool" where
  "aims_at pid (Kill p) \<longleftrightarrow> p = pid \<or> p = - pid"
| "aims_at pid (Waitpid p) \<longleftrightarrow> p = pid"
| "aims_at pid (Waitid p b) \<longleftrightarrow> p = pid"
| "aims_at pid _ \<longleftrightarrow> False"

lemma quiet_call: "\<not> reserved ev \<Longrightarrow> \<not> aimed ev \<and> ev \<noteq> Fork"
  by (cases ev) auto

definition reaps :: "int \<Rightarrow> event \<times> reply \<Rightarrow> bool" where
  "reaps pid call \<longleftrightarrow> fst call = Waitpid pid \<and> r_ret (snd call) = pid"

fun disciplined :: "int \<Rightarrow> history \<Rightarrow> bool" where
  "disciplined pid [] = True"
| "disciplined pid (call # h) \<longleftrightarrow>
     (reserved (fst call) \<longrightarrow> aims_at pid (fst call)) \<and>
     (if reaps pid call then \<forall>later \<in> set h. \<not> reserved (fst later) else disciplined pid h)"

text \<open>The same, seen from the end of the history.\<close>

lemma disciplined_snoc:
  "disciplined pid (h @ [call]) \<longleftrightarrow> disciplined pid h \<and>
     (reserved (fst call) \<longrightarrow> aims_at pid (fst call) \<and> (\<forall>c \<in> set h. \<not> reaps pid c))"
  by (induction h) auto

definition reaped :: "int \<Rightarrow> history \<Rightarrow> bool" where
  "reaped pid h \<longleftrightarrow> (\<exists>c \<in> set h. reaps pid c)"



text \<open>
  A child is gone once it has been reaped or the kernel has said that there is none. (A kernel
  that failed without giving an error would be believed, too.)
\<close>

definition gone :: "int \<Rightarrow> event \<times> reply \<Rightarrow> bool" where
  "gone pid call \<longleftrightarrow> reaps pid call \<or>
     aimed (fst call) \<and> r_ret (snd call) < 0 \<and> (r_errno (snd call) = ECHILD \<or> r_errno (snd call) = 0)"

text \<open>The bytes read from each descriptor.\<close>

fun transfer :: "event \<times> reply \<Rightarrow> (int \<Rightarrow> string) \<Rightarrow> int \<Rightarrow> string" where
  "transfer (ReadFd fd n, r) rd = (if r_ret r < 0 then rd else rd(fd := rd fd @ take n (r_bytes r)))"
| "transfer (_, r) rd = rd"

definition moved :: "history \<Rightarrow> int \<Rightarrow> string" where
  "moved h = fold transfer h (\<lambda>_. [])"

lemma moved_none [simp]: "moved [] = (\<lambda>_. [])"
  by (simp add: moved_def)

lemma moved_snoc: "moved (h @ [call]) = transfer call (moved h)"
  by (simp add: moved_def)

lemma transfer_aimed: "aimed ev \<Longrightarrow> transfer (ev, r) rd = rd"
  by (cases ev) auto

fun moves :: "event \<Rightarrow> bool" where
  "moves (ReadFd fd n) = True"
| "moves _ = False"

lemma transfer_still: "\<not> moves ev \<Longrightarrow> transfer (ev, r) rd = rd"
  by (cases ev) auto

text \<open>
  \<open>child L R pid s0 rd p s\<close>: since \<open>s0\<close> the runtime has been disciplined about \<open>pid\<close>, its
  variable \<open>p\<close> is cleared, the child being gone, or still names the child, which has not been
  reaped, and \<open>rd\<close> are the bytes read from each descriptor.
\<close>

definition child :: "strs \<Rightarrow> raws \<Rightarrow> int \<Rightarrow> nqstate \<Rightarrow> (int \<Rightarrow> string) \<Rightarrow> int \<Rightarrow> nqstate \<Rightarrow> bool" where
  "child L R pid s0 rd p s \<longleftrightarrow> 0 < pid \<and> owns L R s \<and>
     (\<exists>h. calls s0 h s \<and> disciplined pid h \<and> moved h = rd \<and>
        (p = 0 \<and> (\<exists>c \<in> set h. gone pid c) \<or> p = pid \<and> \<not> reaped pid h))"

lemma child_owns: "child L R pid s0 rd p s \<Longrightarrow> owns L R s"
  by (simp add: child_def)

lemma child_start: "0 < pid \<Longrightarrow> owns L R s \<Longrightarrow> child L R pid s (\<lambda>_. []) pid s"
  unfolding child_def by (auto simp: reaped_def intro!: exI [of _ "[]"])

lemma child_world: "child L R pid s0 rd p s \<Longrightarrow> owns L' R' s' \<Longrightarrow> world s' = world s \<Longrightarrow> child L' R' pid s0 rd p s'"
  unfolding child_def by (auto dest: calls_world)



lemma child_errno [simp]: "child L R pid s0 rd p (s\<lparr>errno := e\<rparr>) = child L R pid s0 rd p s"
  by (simp add: child_def calls_def)

lemma child_pid: "child L R pid s0 rd p s \<Longrightarrow> p = 0 \<or> p = pid \<and> 0 < pid"
  by (auto simp: child_def)

lemma child_call:
  assumes "child L R pid s0 rd p s" and "owns L R s'"
    and "script s = r # script s'" and "trace s' = trace s @ [ev]"
    and "reserved ev \<longrightarrow> p = pid \<and> aims_at pid ev"
  shows "child L R pid s0 (transfer (ev, r) rd) (if reaps pid (ev, r) then 0 else p) s'"
    and "gone pid (ev, r) \<Longrightarrow> child L R pid s0 rd 0 s'"
proof -
  obtain h where rd: "moved h = rd" and h: "calls s0 h s" "disciplined pid h"
      "p = 0 \<and> (\<exists>c \<in> set h. gone pid c) \<or> p = pid \<and> \<not> reaped pid h" and pid: "0 < pid"
    using assms(1) by (auto simp: child_def)
  have rd': "moved (h @ [(ev, r)]) = transfer (ev, r) rd" by (simp add: moved_snoc rd)
  have "calls s0 (h @ [(ev, r)]) s'" by (rule calls_snoc [OF h(1) assms(3,4)])
  moreover have "disciplined pid (h @ [(ev, r)])"
    using h(2,3) assms(5) pid by (auto simp: disciplined_snoc reaped_def)
  moreover have "(if reaps pid (ev, r) then 0 else p) = 0 \<and> (\<exists>c \<in> set (h @ [(ev, r)]). gone pid c) \<or>
      (if reaps pid (ev, r) then 0 else p) = pid \<and> \<not> reaped pid (h @ [(ev, r)])"
    using h(3) by (auto simp: reaped_def gone_def)
  ultimately show "child L R pid s0 (transfer (ev, r) rd) (if reaps pid (ev, r) then 0 else p) s'"
    using pid assms(2) rd' unfolding child_def by blast
  assume gone: "gone pid (ev, r)"
  then have "aimed ev" using pid by (auto simp: gone_def reaps_def)
  then have "moved (h @ [(ev, r)]) = rd" using rd' by (simp add: transfer_aimed)
  moreover have "\<exists>c \<in> set (h @ [(ev, r)]). gone pid c" using gone by simp
  ultimately show "child L R pid s0 rd 0 s'" using \<open>calls s0 (h @ [(ev, r)]) s'\<close> \<open>disciplined pid (h @ [(ev, r)])\<close> pid assms(2)
    unfolding child_def by blast
qed

lemma wp_child_sys:
  assumes "child L R pid s0 rd p s" and "E Blocked" and "reserved ev \<longrightarrow> p = pid \<and> aims_at pid ev"
    and "\<And>r s'. child L R pid s0 (transfer (ev, r) rd) (if reaps pid (ev, r) then 0 else p) s' \<Longrightarrow>
        (gone pid (ev, r) \<Longrightarrow> child L R pid s0 rd 0 s') \<Longrightarrow> script s = r # script s' \<Longrightarrow>
        errno s' = r_errno r \<Longrightarrow> Q r s'"
  shows "wp E (sys ev) Q s"
proof (rule wp_sys_owns [where E = E, OF child_owns [OF assms(1)] assms(2)], goal_cases)
  case (1 r s')
  note call = child_call [OF assms(1) 1(1-3) assms(3)]
  show ?case by (rule assms(4) [OF call 1(2,4)])
qed

text \<open>A call that names no process and reads no bytes leaves everything as it was.\<close>

lemma wp_child_moves:
  assumes "child L R pid s0 rd p s" and "E Blocked" and "\<not> reserved ev"
    and "\<And>r s'. child L R pid s0 (transfer (ev, r) rd) p s' \<Longrightarrow> script s = r # script s' \<Longrightarrow>
        errno s' = r_errno r \<Longrightarrow> Q r s'"
  shows "wp E (sys ev) Q s"
proof (rule wp_child_sys [where E = E, OF assms(1,2)], goal_cases)
  case (2 r s')
  have "\<not> reaps pid (ev, r)" using assms(3) by (auto simp: reaps_def)
  with 2 show ?case by (auto intro: assms(4))
qed (use assms(3) in simp)

lemma wp_child_other:
  assumes "child L R pid s0 rd p s" and "E Blocked" and "\<not> reserved ev" and "\<not> moves ev"
    and "\<And>r s'. child L R pid s0 rd p s' \<Longrightarrow> script s = r # script s' \<Longrightarrow> errno s' = r_errno r \<Longrightarrow> Q r s'"
  shows "wp E (sys ev) Q s"
  by (rule wp_child_moves [where E = E, OF assms(1-3)]) (simp add: transfer_still assms(4,5))

definition interrupted :: "reply \<Rightarrow> bool" where
  "interrupted r \<longleftrightarrow> r_ret r < 0 \<and> r_errno r = EINTR"

lemma wp_child_retry:
  assumes "child L R pid s0 rd p s" and "E Blocked" and "reserved ev \<longrightarrow> p = pid \<and> aims_at pid ev"
    and "\<not> moves ev" and "\<And>r s'. child L R pid s0 rd (if reaps pid (ev, r) then 0 else p) s' \<Longrightarrow>
        (gone pid (ev, r) \<Longrightarrow> child L R pid s0 rd 0 s') \<Longrightarrow> \<not> interrupted r \<Longrightarrow>
        length (script s') < length (script s) \<Longrightarrow> errno s' = r_errno r \<Longrightarrow> Q r s'"
  shows "wp E (retry_call ev) Q s"
  unfolding retry_call_def
proof (rule wp_loop [where I = "\<lambda>_ s'. child L R pid s0 rd p s' \<and> length (script s') \<le> length (script s)"], goal_cases)
  case 1 show ?case using assms(1) by simp
next
  case (2 a s1)
  then have c: "child L R pid s0 rd p s1" and len: "length (script s1) \<le> length (script s)" by simp_all
  show ?case
    unfolding wp_bind wp_get_errno wp_ret
  proof (rule wp_child_sys [where E = E, OF c assms(2,3)], unfold transfer_still [OF assms(4)], goal_cases)
    case (1 r s2)
    show ?case
    proof (cases "interrupted r")
      case True
      then have "\<not> reaps pid (ev, r)" using c by (auto simp: interrupted_def reaps_def child_def)
      with True 1 len show ?thesis by (simp add: interrupted_def)
    next
      case False
      then have "Q r s2" by (intro assms(5) [OF 1(1,2)]) (use 1(3,4) len in auto)
      with False 1(4) show ?thesis by (auto simp: interrupted_def)
    qed
  qed
qed

lemma wp_child_retry_other:
  assumes "child L R pid s0 rd p s" and "E Blocked" and "\<not> reserved ev" and "\<not> moves ev"
    and "\<And>r s'. child L R pid s0 rd p s' \<Longrightarrow> \<not> interrupted r \<Longrightarrow>
        length (script s') < length (script s) \<Longrightarrow> errno s' = r_errno r \<Longrightarrow> Q r s'"
  shows "wp E (retry_call ev) Q s"
proof (rule wp_child_retry [where E = E, OF assms(1,2)], goal_cases)
  case (3 r s')
  have "\<not> reaps pid (ev, r)" using assms(3) by (auto simp: reaps_def)
  with 3 show ?case by (auto intro: assms(5))
qed (use assms(3,4) in simp_all)

section \<open>Waiting and signalling\<close>

lemma probed_child:
  assumes "child L R pid s0 rd p s"
  shows "p \<le> 0 \<Longrightarrow> p = 0" and "\<not> p \<le> 0 \<Longrightarrow> p = pid"
  using child_pid [OF assms] by auto

lemma wp_probe_pid:
  assumes child: "child L R pid s0 rd p s" and "E Blocked"
    and post: "\<And>err p' ex s'. child L R pid s0 rd p' s' \<Longrightarrow> p' = p \<or> p' = 0 \<Longrightarrow> (err = 0 \<Longrightarrow> p' = pid) \<Longrightarrow>
        length (script s') \<le> length (script s) \<Longrightarrow>
        (err = 0 \<Longrightarrow> length (script s') < length (script s)) \<Longrightarrow> Q (err, p', ex) s'"
  shows "wp E (nq_process_probe_pid p exited block) Q s"
proof (cases "p \<le> 0")
  case True
  then show ?thesis
    using child by (auto simp: nq_process_probe_pid_def wp_ret ECHILD_def intro!: post)
next
  case False
  have p: "p = pid" using probed_child(2) [OF child False] .
  show ?thesis
    unfolding nq_process_probe_pid_def if_not_P [OF False] wp_bind
  proof (rule wp_child_retry [where E = E, OF child assms(2)], goal_cases)
    case (3 r s1)
    note 2 = this
    have c: "child L R pid s0 rd p s1" using 2(1) by (simp add: reaps_def)
    show ?case
    proof (cases "r_ret r < 0")
      case True
      then have "r_errno r = ECHILD \<Longrightarrow> child L R pid s0 rd 0 s1" using 2(2) by (simp add: gone_def)
      with True show ?thesis
        using c 2(4,5) p by (auto simp: wp_simps ECHILD_def intro!: post)
    next
      case False
      then show ?thesis using c 2(4) p by (auto simp: wp_ret Let_def intro!: post)
    qed
  qed (simp_all add: p)
qed

lemma wp_waitpid:
  assumes child: "child L R pid s0 rd pid s" and "E Blocked"
    and post: "\<And>err status s'. (err = 0 \<or> err = ECHILD \<Longrightarrow> child L R pid s0 rd 0 s') \<Longrightarrow>
        (err \<noteq> 0 \<Longrightarrow> child L R pid s0 rd pid s') \<Longrightarrow>
        length (script s') < length (script s) \<Longrightarrow> Q (err, status) s'"
  shows "wp E (nq_process_waitpid pid status) Q s"
  unfolding nq_process_waitpid_def wp_bind wp_get_errno wp_ret
proof (rule wp_child_retry [where E = E, OF child assms(2)], goal_cases)
  case (3 r s1)
  note 2 = this
  show ?case
  proof (cases "r_ret r = pid")
    case True
    with 2(1,4) show ?thesis by (auto simp: reaps_def ECHILD_def intro!: post)
  next
    case False
    then have c: "child L R pid s0 rd pid s1" using 2(1) by (simp add: reaps_def)
    show ?thesis
    proof (cases "r_ret r < 0")
      case True
      then have "r_errno r = 0 \<or> r_errno r = ECHILD \<Longrightarrow> child L R pid s0 rd 0 s1"
        using 2(2) by (auto simp: gone_def)
      with True False c 2(4,5) show ?thesis by (auto intro!: post)
    next
      case no: False
      have "EIO \<noteq> 0" "EIO \<noteq> ECHILD" by (simp_all add: EIO_def ECHILD_def)
      with no False c 2(4) show ?thesis by (auto intro!: post)
    qed
  qed
qed simp_all

lemma wp_reap_pid:
  assumes child: "child L R pid s0 rd p s" and "E Blocked"
    and post: "\<And>err p' status s'. child L R pid s0 rd p' s' \<Longrightarrow> p' = p \<or> p' = 0 \<Longrightarrow> (err = 0 \<Longrightarrow> p' = 0) \<Longrightarrow>
        length (script s') \<le> length (script s) \<Longrightarrow> Q (err, p', status) s'"
  shows "wp E (nq_process_reap_pid p status) Q s"
proof (cases "p \<le> 0")
  case True
  with child probed_child(1) [OF child] show ?thesis
    by (auto simp: nq_process_reap_pid_def wp_ret intro!: post)
next
  case False
  have p: "p = pid" using probed_child(2) [OF child False] .
  show ?thesis
    unfolding nq_process_reap_pid_def if_not_P [OF False] wp_bind unfolding p
    by (rule wp_waitpid [where E = E, OF child [unfolded p] assms(2)])
      (auto simp: wp_ret p intro!: post)
qed

lemma wp_kill:
  assumes child: "child L R pid s0 rd pid s" and "E Blocked" and "q = pid \<or> q = - pid"
    and post: "\<And>err s'. child L R pid s0 rd pid s' \<Longrightarrow> length (script s') < length (script s) \<Longrightarrow> Q err s'"
  shows "wp E (nq_process_kill q) Q s"
  unfolding nq_process_kill_def wp_bind wp_get_errno wp_ret
  by (rule wp_child_retry [where E = E, OF child assms(2)])
    (use assms(3) in \<open>auto simp: reaps_def intro!: post\<close>)

text \<open>What signalling and waiting may change in the state of an owned process.\<close>

definition same_child :: "nq_process_state \<Rightarrow> nq_process_state \<Rightarrow> bool" where
  "same_child st st' \<longleftrightarrow> ps_input_fd st' = ps_input_fd st \<and> ps_output_fd st' = ps_output_fd st \<and>
     ps_error_fd st' = ps_error_fd st \<and> ps_input st' = ps_input st \<and> ps_output st' = ps_output st \<and>
     ps_error st' = ps_error st \<and> ps_outcome st' = ps_outcome st \<and> ps_sent st' = ps_sent st \<and>
     ps_limit st' = ps_limit st \<and> ps_group st' = ps_group st \<and> ps_ready st' = ps_ready st"

lemma same_child_simps [simp]:
  "same_child st st" "same_child st (st'\<lparr>ps_pid := p\<rparr>) = same_child st st'"
  "same_child st (st'\<lparr>ps_signalled := b\<rparr>) = same_child st st'"
  "same_child st (st'\<lparr>ps_terminal_signalled := b\<rparr>) = same_child st st'"
  by (simp_all add: same_child_def)

lemma same_child_trans [trans]: "same_child st st1 \<Longrightarrow> same_child st1 st2 \<Longrightarrow> same_child st st2"
  by (simp add: same_child_def)

lemmas same_child_fields = same_child_def [THEN iffD1]

lemma wp_nq_process_probe:
  assumes child: "child L R pid s0 rd (ps_pid st) s" and "E Blocked"
    and post: "\<And>st' err ex s'. child L R pid s0 rd (ps_pid st') s' \<Longrightarrow> same_child st st' \<Longrightarrow>
        (err = 0 \<Longrightarrow> ps_pid st' = pid) \<Longrightarrow> length (script s') \<le> length (script s) \<Longrightarrow>
        (err = 0 \<Longrightarrow> length (script s') < length (script s)) \<Longrightarrow> Q (st', err, ex) s'"
  shows "wp E (nq_process_probe st exited) Q s"
  unfolding nq_process_probe_def wp_bind
proof (rule wp_probe_pid [where E = E, OF child assms(2)], goal_cases)
  case (1 err p' ex s')
  show ?case
    unfolding prod.case wp_ret by (rule post) (use 1 in simp_all)
qed

lemma wp_nq_process_signal_owned:
  assumes child: "child L R pid s0 rd (ps_pid st) s" and E: "E Blocked"
    and post: "\<And>st' err ex s'. child L R pid s0 rd (ps_pid st') s' \<Longrightarrow> same_child st st' \<Longrightarrow>
        (err = 0 \<Longrightarrow> ps_pid st' = pid \<and> ps_signalled st') \<Longrightarrow>
        length (script s') \<le> length (script s) \<Longrightarrow> Q (st', err, ex) s'"
  shows "wp E (nq_process_signal_owned st observed) Q s"
  unfolding nq_process_signal_owned_def wp_bind
proof (rule wp_nq_process_probe [where E = E, OF child E], goal_cases)
  case (1 st1 err ex s1)
  note same = 1(2)
  show ?case
  proof (cases "err \<noteq> 0")
    case True
    then show ?thesis using 1 same by (simp add: wp_ret post)
  next
    case False
    then have pid: "ps_pid st1 = pid" using 1(3) by simp
    note c1 = 1(1) [unfolded pid]
    let ?rest = "\<lambda>error. if error \<noteq> 0 then ret (st1, error, ex)
         else bind (nq_process_kill (- ps_pid st1)) (\<lambda>error.
           if error \<noteq> 0 then ret (st1, error, ex)
           else
             let st = (if ex then st1\<lparr>ps_terminal_signalled := True\<rparr> else st1) in
             bind (if ps_group st \<and> \<not> ex then nq_process_kill (ps_pid st) else ret 0) (\<lambda>error.
               ret (if error = 0 then st\<lparr>ps_signalled := True\<rparr> else st, error, ex)))"
    have rest: "wp E (?rest error) Q s2"
      if c: "child L R pid s0 rd pid s2" and len: "length (script s2) \<le> length (script s)" for error s2
    proof (cases "error \<noteq> 0")
      case True
      then show ?thesis using c len same pid by (auto simp: wp_ret intro!: post)
    next
      case no: False
      show ?thesis
        unfolding if_not_P [OF no] wp_bind pid
      proof (rule wp_kill [where E = E, OF c E], goal_cases)
        case (2 error s3)
        let ?st = "if ex then st1\<lparr>ps_terminal_signalled := True\<rparr> else st1"
        have fin: "Q (if error = 0 then ?st\<lparr>ps_signalled := True\<rparr> else ?st, error, ex) s4"
          if "child L R pid s0 rd pid s4" "length (script s4) \<le> length (script s3)" for error s4
          using that 2(2) len pid same by (intro post) (auto split: if_splits)
        have "wp E (if ps_group ?st \<and> \<not> ex then nq_process_kill (ps_pid ?st) else ret 0)
            (\<lambda>error. wp E (ret (if error = 0 then ?st\<lparr>ps_signalled := True\<rparr> else ?st, error, ex)) Q) s3"
        proof (cases "ps_group ?st \<and> \<not> ex")
          case True
          have stpid: "ps_pid ?st = pid" using pid by simp
          show ?thesis
            unfolding if_P [OF True] stpid wp_ret
          proof (rule wp_kill [where E = E, OF 2(1) E], goal_cases)
            case (2 error s4)
            show ?case by (rule fin [OF 2(1)]) (use 2(2) in simp)
          qed simp
        next
          case False
          show ?thesis
            unfolding if_not_P [OF False] wp_ret by (rule fin [OF 2(1)]) simp
        qed
        moreover have "Q (st1, error, ex) s3" if "error \<noteq> 0"
          using that 2 len pid same by (intro post) simp_all
        ultimately show ?case by (auto simp: wp_ret wp_bind Let_def)
      qed simp
    qed
    have "wp E (if \<not> ps_group st1 \<and> \<not> ex then nq_process_kill (ps_pid st1) else ret 0) (\<lambda>error. wp E (?rest error) Q) s1"
    proof (cases "\<not> ps_group st1 \<and> \<not> ex")
      case True
      show ?thesis
        unfolding if_P [OF True] pid
      proof (rule wp_kill [where E = E, OF c1 E], goal_cases)
        case (2 error s2)
        then show ?case using 1(4) by (intro rest [unfolded pid]) simp_all
      qed simp
    next
      case no: False
      show ?thesis unfolding if_not_P [OF no] wp_ret by (rule rest [OF c1 1(4)])
    qed
    then show ?thesis unfolding prod.case if_not_P [OF False] wp_bind .
  qed
qed

lemma wp_nq_process_signal_terminal:
  assumes child: "child L R pid s0 rd (ps_pid st) s" and E: "E Blocked"
    and post: "\<And>st' err s'. child L R pid s0 rd (ps_pid st') s' \<Longrightarrow> same_child st st' \<Longrightarrow>
        ps_signalled st' = ps_signalled st \<Longrightarrow>
        (err = 0 \<Longrightarrow> ps_pid st = pid \<Longrightarrow> ps_pid st' = pid) \<Longrightarrow>
        length (script s') \<le> length (script s) \<Longrightarrow> Q (st', err) s'"
  shows "wp E (nq_process_signal_terminal st) Q s"
proof (cases "ps_terminal_signalled st")
  case True
  then show ?thesis using child by (simp add: nq_process_signal_terminal_def wp_ret post)
next
  case False
  show ?thesis
    unfolding nq_process_signal_terminal_def if_not_P [OF False] wp_bind
  proof (rule wp_probe_pid [where E = E, OF child E], goal_cases)
    case (1 err p' ex s1)
    let ?st = "st\<lparr>ps_pid := p'\<rparr>"
    have fin: "Q (if error = 0 then ?st\<lparr>ps_terminal_signalled := True\<rparr> else ?st, error) s2"
      if "child L R pid s0 rd p' s2" "length (script s2) \<le> length (script s1)" "error = 0 \<Longrightarrow> p' = pid" for error s2
      using that 1(4) by (intro post) auto
    have "wp E (if err = 0 then nq_process_kill (- ps_pid ?st) else ret err)
        (\<lambda>error. wp E (ret (if error = 0 then ?st\<lparr>ps_terminal_signalled := True\<rparr> else ?st, error)) Q) s1"
    proof (cases "err = 0")
      case True
      then have pid: "p' = pid" using 1(3) by simp
      have neg: "- ps_pid ?st = - pid" using pid by simp
      show ?thesis
        unfolding if_P [OF True] neg wp_ret
      proof (rule wp_kill [where E = E, OF 1(1) [unfolded pid] E], goal_cases)
        case (2 error s2)
        then show ?case using pid by (intro fin) simp_all
      qed simp
    next
      case no: False
      show ?thesis unfolding if_not_P [OF no] wp_ret using fin [OF 1(1), of err] no by simp
    qed
    then show ?case by (simp only: prod.case Let_def wp_bind)
  qed
qed

lemma wp_nq_process_cleanup_reap:
  assumes child: "child L R pid s0 rd (ps_pid st) s" and "E Blocked"
    and post: "\<And>st' err s'. child L R pid s0 rd (ps_pid st') s' \<Longrightarrow> same_child st st' \<Longrightarrow> Q (st', err) s'"
  shows "wp E (nq_process_cleanup_reap st) Q s"
  unfolding nq_process_cleanup_reap_def wp_bind
  by (rule wp_reap_pid [where E = E, OF child assms(2)]) (auto simp: wp_ret intro!: post)

lemma wp_nq_process_cleanup_attempt:
  assumes child: "child L R pid s0 rd (ps_pid st) s" and E: "E Blocked"
    and post: "\<And>st' err s'. child L R pid s0 rd (ps_pid st') s' \<Longrightarrow> same_child st st' \<Longrightarrow> Q (st', err) s'"
  shows "wp E (nq_process_cleanup_attempt st) Q s"
proof -
  have reap: "wp E (if error = 0 then nq_process_cleanup_reap st' else ret (st', error)) Q s'"
    if "child L R pid s0 rd (ps_pid st') s'" "same_child st st'" for error st' s'
  proof (cases "error = 0")
    case True
    show ?thesis
      unfolding if_P [OF True]
      by (rule wp_nq_process_cleanup_reap [where E = E, OF that(1) E])
        (use that(2) in \<open>blast intro: post same_child_trans\<close>)
  next
    case False
    show ?thesis unfolding if_not_P [OF False] wp_ret by (rule post [OF that])
  qed
  show ?thesis
  proof (cases "ps_terminal_signalled st")
    case True
    then show ?thesis
      using reap [OF child, of 0] by (simp add: nq_process_cleanup_attempt_def wp_bind wp_ret)
  next
    case False
    have "wp E (nq_process_signal_owned st False) (\<lambda>a. wp E (case a of (st, error, _) \<Rightarrow>
        if error = 0 then nq_process_signal_terminal st else ret (st, error))
        (\<lambda>a. wp E (case a of (st, error) \<Rightarrow> if error = 0 then nq_process_cleanup_reap st else ret (st, error)) Q)) s"
    proof (rule wp_nq_process_signal_owned [where E = E, OF child E], goal_cases)
      case (1 st1 err ex s1)
      show ?case
      proof (cases "err = 0")
        case True
        show ?thesis
          unfolding prod.case if_P [OF True]
        proof (rule wp_nq_process_signal_terminal [where E = E, OF 1(1) E], goal_cases)
          case (1 st2 err s2)
          show ?case
            unfolding prod.case by (rule reap [OF 1(1)]) (rule same_child_trans [OF \<open>same_child st st1\<close> 1(2)])
        qed
      next
        case no: False
        show ?thesis using no reap [OF 1(1,2), of err] by (simp add: wp_ret)
      qed
    qed
    with False show ?thesis by (simp add: nq_process_cleanup_attempt_def wp_bind)
  qed
qed

section \<open>Writing with SIGPIPE blocked\<close>

lemma wp_nq_process_write_input:
  assumes child: "child L R pid s0 rd p s" and E: "E Blocked"
    and post: "\<And>n s'. child L R pid s0 rd p s' \<Longrightarrow>
        length (script s') < length (script s) \<Longrightarrow> n \<le> int (length bs) \<Longrightarrow> Q n s'"
  shows "wp E (nq_process_write_input fd bs) Q s"
  unfolding nq_process_write_input_def call_int_def wp_bind wp_ret
proof (rule wp_child_other [where E = E, OF child E], goal_cases)
  case (3 r s1)
  note s1 = this
  show ?case
  proof (cases "r_ret r < 0")
    case True
    then show ?thesis using s1 by (simp add: wp_ret post)
  next
    case False
    show ?thesis
      unfolding if_not_P [OF False] wp_bind
    proof (rule wp_child_other [where E = E, OF s1(1) E], goal_cases)
      case (3 pending s2)
      note s2 = this
      show ?case
      proof (cases "r_ret pending < 0")
        case True
        show ?thesis
          unfolding if_P [OF True] ignore_def wp_bind wp_get_errno wp_andthen wp_ret wp_set_errno
          by (rule wp_child_other [where E = E, OF s2(1) E]) (use s1(2) s2(2) in \<open>auto intro!: post\<close>)
      next
        case False
        show ?thesis
          unfolding if_not_P [OF False] c_write_def Let_def wp_bind wp_ret wp_get_errno wp_andthen
        proof (rule wp_child_other [where E = E, OF s2(1) E], goal_cases)
          case (3 w s3)
          note s3 = this
          let ?n = "if r_ret w < 0 then - 1 else min (r_ret w) (int (length bs))"
          have restore: "wp E (sys SigRestore) (\<lambda>a. wp E (if r_ret a < 0 then ret (- 1)
              else andthen (set_errno e) (ret ?n)) Q) s4"
            if c: "child L R pid s0 rd p s4" and len: "length (script s4) \<le> length (script s3)" for e s4
          proof (rule wp_child_other [where E = E, OF c E], goal_cases)
            case (3 a s5)
            have "length (script s5) < length (script s)" using 3(2) len s1(2) s2(2) s3(2) by simp
            with 3(1) show ?case by (auto simp: wp_simps intro!: post)
          qed simp_all
          show ?case
          proof (cases "?n < 0 \<and> (if ?n < 0 then errno s3 else 0) = EPIPE \<and> \<not> reply_int pending 0 = 1")
            case True
            show ?thesis
              unfolding if_P [OF True] ignore_def wp_bind wp_ret
            proof (rule wp_child_retry_other [where E = E, OF s3(1) E], goal_cases)
              case (3 r s4)
              show ?case by (rule restore [OF 3(1)]) (use 3(3) in simp)
            qed simp_all
          next
            case False
            show ?thesis unfolding if_not_P [OF False] wp_ret by (rule restore [OF s3(1)]) simp
          qed
        qed simp_all
      qed
    qed simp_all
  qed
qed simp_all

lemma wp_nq_process_cleanup_fail:
  assumes child: "child L R pid s0 rd p s" and E: "E Blocked" "E (QuickExit 1)"
  shows "wp E nq_process_cleanup_fail Q s"
  unfolding nq_process_cleanup_fail_def wp_andthen
proof (rule wp_loop [where I = "\<lambda>_ s. \<exists>rd. child L R pid s0 rd p s"], rule exI [of _ rd], rule child, goal_cases)
  case (1 a s1)
  then obtain rd where c: "child L R pid s0 rd p s1" by blast
  obtain sent interruptions where a: "a = (sent, interruptions)" by (cases a)
  show ?case
  proof (cases "sent < length cleanup_message")
    case True
    show ?thesis
      unfolding a cleanup_fail_round_def prod.case if_P [OF True] wp_bind wp_get_errno
      by (rule wp_nq_process_write_input [where E = E, OF c E(1)]) (auto simp: wp_simps E)
  next
    case False
    then show ?thesis by (simp add: a cleanup_fail_round_def wp_simps E)
  qed
qed

section \<open>Cleaning up\<close>

lemma wp_cleanup_last_resort:
  assumes child: "child L R pid s0 rd (ps_pid st) s" and E: "E Blocked" "E (QuickExit 1)"
    and post: "\<And>st' s'. child L R pid s0 rd (ps_pid st') s' \<Longrightarrow> same_child st st' \<Longrightarrow> ps_pid st' = 0 \<Longrightarrow> Q st' s'"
  shows "wp E (cleanup_last_resort st) Q s"
proof -
  have last: "wp E (if ps_pid st3 > 0 then nq_process_cleanup_fail else ret st3) Q s3"
    if "child L R pid s0 rd (ps_pid st3) s3" "same_child st st3" for st3 s3
  proof (cases "ps_pid st3 > 0")
    case True
    show ?thesis
      unfolding if_P [OF True] by (rule wp_nq_process_cleanup_fail [where E = E, OF that(1) E])
  next
    case False
    then have "ps_pid st3 = 0" using child_pid [OF that(1)] by auto
    then show ?thesis using that by (simp add: wp_ret post)
  qed
  have third: "wp E (if ps_pid st2 > 0 then bind (nq_process_probe st2 exited) (\<lambda>(st, _, _). ret st) else ret st2)
      (\<lambda>st. wp E (if ps_pid st > 0 then nq_process_cleanup_fail else ret st) Q) s2"
    if "child L R pid s0 rd (ps_pid st2) s2" "same_child st st2" for st2 s2 exited
  proof (cases "ps_pid st2 > 0")
    case True
    show ?thesis
      unfolding if_P [OF True] wp_bind
      by (rule wp_nq_process_probe [where E = E, OF that(1) E(1)])
        (use that(2) in \<open>auto simp only: prod.case wp_ret intro!: last elim: same_child_trans\<close>)
  next
    case False
    then show ?thesis using last [OF that] by (simp add: wp_ret)
  qed
  have second: "wp E (if error = 0 \<and> exited
           then bind (nq_process_signal_terminal st1) (\<lambda>(st, error).
             if error = 0 then bind (nq_process_cleanup_reap st) (\<lambda>(st, _). ret st) else ret st)
           else ret st1) (\<lambda>st. wp E (if ps_pid st > 0 then bind (nq_process_probe st exited) (\<lambda>(st, _, _). ret st) else ret st)
      (\<lambda>st. wp E (if ps_pid st > 0 then nq_process_cleanup_fail else ret st) Q)) s1"
    if "child L R pid s0 rd (ps_pid st1) s1" "same_child st st1" for st1 s1 and error :: int and exited
  proof (cases "error = 0 \<and> exited")
    case True
    show ?thesis
      unfolding if_P [OF True] wp_bind [of _ "nq_process_signal_terminal st1"]
    proof (rule wp_nq_process_signal_terminal [where E = E, OF that(1) E(1)], goal_cases)
      case (1 st2 err s2)
      have same: "same_child st st2" by (rule same_child_trans [OF that(2) 1(2)])
      show ?case
      proof (cases "err = 0")
        case True
        show ?thesis
          unfolding prod.case if_P [OF True] wp_bind [of _ "nq_process_cleanup_reap st2"]
          by (rule wp_nq_process_cleanup_reap [where E = E, OF 1(1) E(1)])
            (use same in \<open>auto simp only: prod.case wp_ret intro!: third elim: same_child_trans\<close>)
      next
        case False
        show ?thesis unfolding prod.case if_not_P [OF False] wp_ret by (rule third [OF 1(1) same])
      qed
    qed
  next
    case False
    show ?thesis unfolding if_not_P [OF False] wp_ret by (rule third [OF that])
  qed
  show ?thesis
    unfolding cleanup_last_resort_def wp_bind [of _ "nq_process_probe st False"]
  proof (rule wp_nq_process_probe [where E = E, OF child E(1)], goal_cases)
    case (1 st1 err ex s1)
    show ?case
    proof (cases "err \<noteq> 0 \<and> ps_pid st1 > 0")
      case True
      show ?thesis
        unfolding prod.case if_P [OF True] wp_bind
        by (rule wp_nq_process_probe [where E = E, OF 1(1) E(1)])
          (use 1(2) in \<open>auto simp only: prod.case wp_bind intro!: second [unfolded wp_bind] elim: same_child_trans\<close>)
    next
      case False
      show ?thesis
        unfolding prod.case if_not_P [OF False] wp_bind wp_ret
        by (rule second [unfolded wp_bind, OF 1(1,2)])
    qed
  qed
qed

text \<open>
  What the state of an owned process owns on top of the strings \<open>L\<close> and the blocks \<open>R\<close>: its
  input, the strings of its outcome, and its two buffers. A buffer whose bytes have become a
  string of the outcome has no storage left.
\<close>

definition buffer_slot :: "nq_byte_buffer \<Rightarrow> string \<Rightarrow> raws \<Rightarrow> raws \<Rightarrow> bool" where
  "buffer_slot b v R R' \<longleftrightarrow> holds_buffer b v R R' \<or> bb_data b = PNull \<and> v = [] \<and> R' = R"

definition process_owns :: "nq_process_state \<Rightarrow> strs \<Rightarrow> raws \<Rightarrow> strs \<Rightarrow> raws \<Rightarrow> bool" where
  "process_owns st L R L' R' \<longleftrightarrow>
     (\<exists>vo ve vi x y R1. buffer_slot (ps_error st) ve R R1 \<and> buffer_slot (ps_output st) vo R1 R' \<and>
        L' = add_mset (ps_input st, vi) (add_mset (po_stdout (ps_outcome st), x)
               (add_mset (po_stderr (ps_outcome st), y) L)))"

lemma process_owns_cong: "same_child st st' \<Longrightarrow> process_owns st' L R = process_owns st L R"
  by (simp add: same_child_def process_owns_def fun_eq_iff)

lemma wp_free_slot:
  assumes "buffer_slot b v R R'" and "owns L R' s"
    and "\<And>s'. owns L R s' \<Longrightarrow> world s' = world s \<Longrightarrow> Q () s'"
  shows "wp E (c_free (bb_data b)) Q s"
  using assms(1)
  unfolding buffer_slot_def
proof (elim disjE conjE)
  assume "holds_buffer b v R R'"
  then show ?thesis by (rule wp_free_buffer [OF _ assms(2)]) (rule assms(3))
qed (use assms(2,3) in \<open>simp add: wp_c_free_null\<close>)

lemma wp_child_close_fd:
  assumes child: "child L R pid s0 rd p s" and E: "E Blocked"
    and post: "\<And>fd' s'. child L R pid s0 rd p s' \<Longrightarrow> (fd' < 0) \<Longrightarrow>
        length (script s') \<le> length (script s) \<Longrightarrow> Q fd' s'"
  shows "wp E (nq_process_close_fd fd) Q s"
proof (cases "fd \<ge> 0")
  case True
  show ?thesis
    unfolding nq_process_close_fd_def if_P [OF True] wp_andthen ignore_def wp_bind c_close_def wp_ret
    by (rule wp_child_other [where E = E, OF child E]) (auto intro!: post)
next
  case False
  then show ?thesis using child by (simp add: nq_process_close_fd_def wp_ret post)
qed

lemma wp_cleanup_release:
  assumes child: "child L' R' pid s0 rd p s" and mine: "process_owns st L R L' R'" and E: "E Blocked"
    and post: "\<And>s'. child L R pid s0 rd p s' \<Longrightarrow> Q () s'"
  shows "wp E (andthen (ignore (nq_process_close_fd (ps_input_fd st)))
     (andthen (ignore (nq_process_close_fd (ps_output_fd st)))
     (andthen (ignore (nq_process_close_fd (ps_error_fd st)))
     (andthen (ignore (nq_str_drop (Some (ps_input st))))
     (andthen (c_free (bb_data (ps_output st)))
     (andthen (c_free (bb_data (ps_error st)))
     (ignore (nq_process_outcome_drop (Some (ps_outcome st)))))))))) Q s"
proof -
  obtain vo ve vi x y R1 where err: "buffer_slot (ps_error st) ve R R1" and out: "buffer_slot (ps_output st) vo R1 R'"
    and L': "L' = add_mset (ps_input st, vi) (add_mset (po_stdout (ps_outcome st), x)
               (add_mset (po_stderr (ps_outcome st), y) L))"
    using mine by (auto simp: process_owns_def)
  show ?thesis
    unfolding wp_andthen ignore_def wp_bind wp_ret
  proof (rule wp_child_close_fd [where E = E, OF child E], rule wp_child_close_fd [where E = E, OF _ E], assumption,
      rule wp_child_close_fd [where E = E, OF _ E], assumption)
    fix s3 assume "child L' R' pid s0 rd p s3"
    show "wp E (nq_str_drop (Some (ps_input st))) (\<lambda>a. wp E (c_free (bb_data (ps_output st)))
       (\<lambda>_. wp E (c_free (bb_data (ps_error st)))
          (\<lambda>_. wp E (nq_process_outcome_drop (Some (ps_outcome st))) (\<lambda>a. Q ())))) s3"
    proof (rule wp_nq_str_drop [OF child_owns [OF \<open>child L' R' pid s0 rd p s3\<close>, unfolded L']], goal_cases)
      case (1 s4)
      show ?case
      proof (rule wp_free_slot [OF out 1(1)], rule wp_free_slot [OF err], assumption, goal_cases)
        case (1 s5 s6)
        have "live_outcome (ps_outcome st) (x, y) L R s6" using 1(3) by (simp add: live_outcome_def)
        then show ?case
        proof (rule outcome.drop_live, goal_cases)
          case (1 o' s7)
          have "world s7 = world s3"
            using 1(3) \<open>world s4 = world s3\<close> \<open>world s6 = world s5\<close> \<open>world s5 = world s4\<close> by simp
          then show ?case by (intro post child_world [OF _ 1(2)]) (use \<open>child L' R' pid s0 rd p s3\<close> in auto)
        qed
      qed
    qed
  qed
qed

lemma wp_nq_process_cleanup:
  assumes child: "child L' R' pid s0 rd (ps_pid st) s" and mine: "process_owns st L R L' R'"
    and E: "E Blocked" "E (QuickExit 1)"
    and post: "\<And>s'. child L R pid s0 rd 0 s' \<Longrightarrow> Q () s'"
  shows "wp E (nq_process_cleanup st) Q s"
proof -
  note release = wp_cleanup_release [where E = E and Q = Q, OF _ _ E(1)]
  have fin: "wp E (if ps_pid st2 > 0 then cleanup_last_resort st2 else ret st2) (\<lambda>st. wp E
     (andthen (ignore (nq_process_close_fd (ps_input_fd st)))
     (andthen (ignore (nq_process_close_fd (ps_output_fd st)))
     (andthen (ignore (nq_process_close_fd (ps_error_fd st)))
     (andthen (ignore (nq_str_drop (Some (ps_input st))))
     (andthen (c_free (bb_data (ps_output st)))
     (andthen (c_free (bb_data (ps_error st)))
     (ignore (nq_process_outcome_drop (Some (ps_outcome st)))))))))) Q) s2"
    if "child L' R' pid s0 rd (ps_pid st2) s2" "same_child st st2" for st2 s2
  proof (cases "ps_pid st2 > 0")
    case True
    show ?thesis
      unfolding if_P [OF True]
    proof (rule wp_cleanup_last_resort [where E = E, OF that(1) E], goal_cases)
      case (1 st3 s3)
      have "process_owns st3 L R L' R'"
        using mine process_owns_cong [OF same_child_trans [OF that(2) 1(2)]] by simp
      then show ?case using 1 by (intro release) (auto intro: post)
    qed
  next
    case False
    then have "ps_pid st2 = 0" using child_pid [OF that(1)] by auto
    moreover have "process_owns st2 L R L' R'" using mine process_owns_cong [OF that(2)] by simp
    ultimately show ?thesis
      unfolding if_not_P [OF False] wp_ret using that(1) by (intro release) (auto intro: post)
  qed
  show ?thesis
  proof (cases "ps_pid st > 0")
    case False
    then show ?thesis
      using fin [OF child] by (simp add: nq_process_cleanup_def wp_bind wp_ret)
  next
    case True
    show ?thesis
      unfolding nq_process_cleanup_def if_P [OF True] wp_bind
    proof (rule wp_nq_process_cleanup_attempt [where E = E, OF child E(1)], goal_cases)
      case (1 st1 err s1)
      show ?case
      proof (cases "err \<noteq> 0 \<and> ps_pid st1 > 0")
        case True
        show ?thesis
          unfolding prod.case if_P [OF True] wp_bind
        proof (rule wp_nq_process_cleanup_attempt [where E = E, OF 1(1) E(1)], goal_cases)
          case (1 st2 err s2)
          show ?case
            unfolding prod.case by (rule fin [OF 1(1)]) (rule same_child_trans [OF \<open>same_child st st1\<close> 1(2)])
        qed
      next
        case no: False
        show ?thesis
          unfolding prod.case if_not_P [OF no] wp_bind wp_ret by (rule fin [OF 1(1,2)])
      qed
    qed
  qed
qed

lemma process_owns_upd:
  "process_owns st L R L' R' \<Longrightarrow> owns L' R' s \<Longrightarrow> R b = Some blk \<Longrightarrow> R' b = Some blk"
  unfolding process_owns_def buffer_slot_def holds_buffer_def by auto

lemma wp_nq_process_drop:
  assumes child: "child L' R' pid s0 rd (ps_pid st) s"
    and mine: "process_owns st L (R(b \<mapsto> BProc st)) L' R'" and b: "R b = None"
    and E: "E Blocked" "E (QuickExit 1)"
    and post: "\<And>s'. child L R pid s0 rd 0 s' \<Longrightarrow> Q (Some None) s'"
  shows "wp E (nq_process_drop (Some (Some b))) Q s"
proof -
  note owns = child_owns [OF child]
  have load: "load_proc b s = Ret st s"
    using owns_raw [OF owns process_owns_upd [OF mine owns]] by (simp add: load_proc_def)
  have "wp E (nq_process_cleanup st) (\<lambda>_. wp E (c_free (PHeap b 0)) (\<lambda>_. Q (Some None))) s"
  proof (rule wp_nq_process_cleanup [where E = E, OF child mine E], goal_cases)
    case (1 s1)
    show ?case
      by (rule wp_free_os [OF child_owns [OF 1] b]) (rule post [OF child_world [OF 1]])
  qed
  then show ?thesis
    by (simp add: nq_process_drop_def wp_bind wp_andthen wp_ret) (simp add: wp_def load)
qed

section \<open>Waiting for the child of \<open>nq_run_process\<close>\<close>

lemma wp_legacy_attempts:
  assumes "child L R pid s0 rd p s" and E: "E Blocked"
    and post: "\<And>p' status err s'. child L R pid s0 rd p' s' \<Longrightarrow> (first_error \<noteq> 0 \<Longrightarrow> err \<noteq> 0) \<Longrightarrow> Q (p', status, err) s'"
  shows "wp E (legacy_attempts n p status first_error) Q s"
  using assms(1) post
proof (induction n arbitrary: p status first_error s)
  case 0
  show ?case unfolding legacy_attempts.simps wp_ret by (rule 0(2) [OF 0(1)])
next
  case (Suc n)
  show ?case
  proof (cases "p \<le> 0")
    case True
    show ?thesis unfolding legacy_attempts.simps if_P [OF True] wp_ret by (rule Suc.prems(2) [OF Suc.prems(1)])
  next
    case False
    have later: "wp E (legacy_attempts n p' status (if first_error = 0 then err else first_error)) Q s'"
      if c: "child L R pid s0 rd p' s'" for err p' status s'
      by (rule Suc.IH [OF c], rule Suc.prems(2), assumption) simp
    have next_round: "wp E (if err = 0 then nq_process_reap_pid p' status else ret (err, p', status))
      (\<lambda>a. wp E (case a of (error, pid, status) \<Rightarrow>
        legacy_attempts n pid status (if first_error = 0 then error else first_error)) Q) s'"
      if c: "child L R pid s0 rd p' s'" for err p' s'
    proof (cases "err = 0")
      case True
      show ?thesis
        unfolding if_P [OF True]
        by (rule wp_reap_pid [where E = E, OF c E]) (simp only: prod.case later)
    next
      case no: False
      show ?thesis unfolding if_not_P [OF no] wp_ret prod.case by (rule later [OF c])
    qed
    show ?thesis
      unfolding legacy_attempts.simps if_not_P [OF False] wp_bind
    proof (rule wp_probe_pid [where E = E, OF Suc.prems(1) E], goal_cases)
      case (1 err p' ex s1)
      show ?case
        unfolding prod.case wp_bind
      proof (cases "err = 0 \<and> \<not> ex")
        case True
        then have p': "p' = pid" using 1(3) by simp
        show "wp E (if err = 0 \<and> \<not> ex then nq_process_kill p' else ret err) (\<lambda>err.
          wp E (if err = 0 then nq_process_reap_pid p' status else ret (err, p', status))
      (\<lambda>a. wp E (case a of (error, pid, status) \<Rightarrow>
        legacy_attempts n pid status (if first_error = 0 then error else first_error)) Q)) s1"
          unfolding if_P [OF True] p'
        proof (rule wp_kill [where E = E, OF 1(1) [unfolded p'] E], goal_cases)
          case (2 err s2) show ?case by (rule next_round [OF 2(1)])
        qed simp
      next
        case no: False
        show "wp E (if err = 0 \<and> \<not> ex then nq_process_kill p' else ret err) (\<lambda>err.
          wp E (if err = 0 then nq_process_reap_pid p' status else ret (err, p', status))
      (\<lambda>a. wp E (case a of (error, pid, status) \<Rightarrow>
        legacy_attempts n pid status (if first_error = 0 then error else first_error)) Q)) s1"
          unfolding if_not_P [OF no] wp_ret by (rule next_round [OF 1(1)])
      qed
    qed
  qed
qed

lemma wp_legacy_last_resort:
  assumes "child L R pid s0 rd p s" and E: "E Blocked"
    and post: "\<And>p' status s'. child L R pid s0 rd p' s' \<Longrightarrow> Q (p', status) s'"
  shows "wp E (legacy_last_resort p status) Q s"
proof -
  have last: "wp E (if p' > 0 then bind (nq_process_probe_pid p' ex False) (\<lambda>(_, p', _). ret (p', status))
      else ret (p', status)) Q s'"
    if c: "child L R pid s0 rd p' s'" for p' ex s' status
  proof (cases "p' > 0")
    case True
    show ?thesis
      unfolding if_P [OF True] wp_bind
      by (rule wp_probe_pid [where E = E, OF c E]) (simp add: wp_ret post)
  next
    case False
    show ?thesis unfolding if_not_P [OF False] wp_ret by (rule post [OF c])
  qed
  have reap: "wp E (if err = 0 \<and> ex
           then bind (nq_process_reap_pid p1 status) (\<lambda>(error, p2, status).
             if error \<noteq> 0 \<and> p2 > 0
             then bind (nq_process_reap_pid p2 status) (\<lambda>(_, p3, status). ret (p3, status))
             else ret (p2, status))
           else ret (p1, status)) (\<lambda>a. wp E (case a of (p', status) \<Rightarrow>
     if p' > 0 then bind (nq_process_probe_pid p' ex False) (\<lambda>(_, p', _). ret (p', status))
     else ret (p', status)) Q) s1"
    if c: "child L R pid s0 rd p1 s1" for err :: int and ex p1 s1
  proof (cases "err = 0 \<and> ex")
    case False
    show ?thesis unfolding if_not_P [OF False] wp_ret prod.case by (rule last [OF c])
  next
    case True
    show ?thesis
      unfolding if_P [OF True] wp_bind [of _ "nq_process_reap_pid p1 status"]
    proof (rule wp_reap_pid [where E = E, OF c E], goal_cases)
      case (1 err p2 status' s2)
      show ?case
      proof (cases "err \<noteq> 0 \<and> p2 > 0")
        case True
        show ?thesis
          unfolding prod.case if_P [OF True] wp_bind [of _ "nq_process_reap_pid p2 status'"]
          by (rule wp_reap_pid [where E = E, OF 1(1) E]) (simp only: prod.case wp_ret last)
      next
        case no: False
        show ?thesis unfolding prod.case if_not_P [OF no] wp_ret prod.case by (rule last [OF 1(1)])
      qed
    qed
  qed
  show ?thesis
    unfolding legacy_last_resort_def wp_bind [of _ "nq_process_probe_pid p False False"]
  proof (rule wp_probe_pid [where E = E, OF assms(1) E], goal_cases)
    case (1 err p1 ex s1)
    show ?case
    proof (cases "err \<noteq> 0 \<and> p1 > 0")
      case True
      show ?thesis
        unfolding prod.case if_P [OF True] wp_bind
        by (rule wp_probe_pid [where E = E, OF 1(1) E]) (simp only: prod.case reap [unfolded wp_bind] wp_bind)
    next
      case no: False
      show ?thesis
        unfolding prod.case if_not_P [OF no] wp_bind wp_ret prod.case by (rule reap [unfolded wp_bind wp_ret, OF 1(1)])
    qed
  qed
qed

text \<open>What follows the first attempt; an error it met is kept.\<close>

lemma wp_legacy_rest:
  assumes c: "child L R pid s0 rd p1 s1" and E: "E Blocked"
    and post: "\<And>err' p' status s'. child L R pid s0 rd p' s' \<Longrightarrow> (err' = 0 \<Longrightarrow> p' = 0) \<Longrightarrow> (err \<noteq> 0 \<Longrightarrow> err' \<noteq> 0) \<Longrightarrow>
        Q (err', p', status) s'"
  shows "wp E (if \<not> abort_child \<and> p1 = 0 then ret (err, p1, status)
     else bind (legacy_attempts 2 p1 status err) (\<lambda>(pid, status, first_error).
       bind (if pid > 0 then legacy_last_resort pid status else ret (pid, status)) (\<lambda>(pid, status).
         ret (if first_error \<noteq> 0 then first_error else if pid > 0 then EIO else 0, pid, status)))) Q s1"
proof (cases "\<not> abort_child \<and> p1 = 0")
  case True
  then show ?thesis using c by (simp add: wp_ret post)
next
  case False
  have fin: "Q (if e \<noteq> 0 then e else if p > 0 then EIO else 0, p, st) s2"
    if "child L R pid s0 rd p s2" "err \<noteq> 0 \<Longrightarrow> e \<noteq> 0" for e p st s2
    using child_pid [OF that(1)] that(2) by (intro post that(1)) (auto simp: EIO_def split: if_splits)
  show ?thesis
    unfolding if_not_P [OF False] wp_bind
  proof (rule wp_legacy_attempts [where E = E, OF c E], goal_cases)
    case (1 p2 status2 err2 s2)
    show ?case
    proof (cases "p2 > 0")
      case True
      show ?thesis
        unfolding prod.case wp_bind if_P [OF True]
        by (rule wp_legacy_last_resort [where E = E, OF 1(1) E], unfold prod.case wp_ret, rule fin, assumption, rule 1(2))
    next
      case no: False
      show ?thesis unfolding prod.case wp_bind if_not_P [OF no] wp_ret prod.case if_not_P [OF no]
        using fin [of p2 s2 err2 status2, OF 1] no by (simp split: if_splits)
    qed
  qed
qed

lemma wp_nq_process_legacy_wait:
  assumes child: "child L R pid s0 rd pid s" and E: "E Blocked"
    and post: "\<And>err p' status s'. child L R pid s0 rd p' s' \<Longrightarrow> (err = 0 \<Longrightarrow> p' = 0) \<Longrightarrow> Q (err, p', status) s'"
  shows "wp E (nq_process_legacy_wait pid status abort_child) Q s"
proof -
  have rest: "wp E (if \<not> abort_child \<and> p1 = 0 then ret (err, p1, status)
     else bind (legacy_attempts 2 p1 status err) (\<lambda>(pid, status, first_error).
       bind (if pid > 0 then legacy_last_resort pid status else ret (pid, status)) (\<lambda>(pid, status).
         ret (if first_error \<noteq> 0 then first_error else if pid > 0 then EIO else 0, pid, status)))) Q s1"
    if c: "child L R pid s0 rd p1 s1" for p1 err status s1
    by (rule wp_legacy_rest [where E = E, OF c E]) (rule post)
  show ?thesis
  proof (cases "\<not> abort_child")
    case True
    show ?thesis
      unfolding nq_process_legacy_wait_def if_P [OF True] wp_bind
      by (rule wp_reap_pid [where E = E, OF child E]) (simp only: prod.case rest)
  next
    case False
    show ?thesis
      unfolding nq_process_legacy_wait_def if_not_P [OF False] wp_bind wp_ret prod.case
      using rest [OF child, of 0] by simp
  qed
qed

text \<open>A state with one owned process and nothing else, for the examples.\<close>

definition example_process :: nq_process_state where
  "example_process = \<lparr>ps_pid = 7, ps_group = True, ps_ready = False, ps_signalled = False,
     ps_terminal_signalled = False, ps_input_fd = -1, ps_output_fd = -1, ps_error_fd = -1,
     ps_input = nq_empty_str, ps_sent = 0, ps_limit = 0, ps_output = zero_buffer, ps_error = zero_buffer,
     ps_outcome = \<lparr>po_exit_code = 0, po_stdout = nq_empty_str, po_stderr = nq_empty_str,
        po_timed_out = False, po_cancelled = False\<rparr>\<rparr>"

definition example_process_state :: nqstate where
  "example_process_state = (boot [] [])\<lparr>heap := [0 \<mapsto> BProc example_process], next_block := 1\<rparr>"

section \<open>Properties\<close>

definition ends_or_blocks :: "stop \<Rightarrow> bool" where
  "ends_or_blocks r \<longleftrightarrow> r = Blocked \<or> r = QuickExit 1"

text \<open>
  C20: Dropping an owned process leaves no zombie and never touches a stranger. When
  \<open>nq_process_drop\<close> returns, the child has been waited for or the kernel has said that there is
  none; every signal and every wait named the child (or its group), and none came after it had
  been reaped, when its identifier may already belong to another process; no process is made on the
  way. All memory of the process state is released, once. If the child cannot be reaped the process ends with status 1.
\<close>

theorem dropped_process_is_reaped:
  assumes "0 < ps_pid st" and "R b = None"
    and "process_owns st L (R(b \<mapsto> BProc st)) L' R'" and "owns L' R' s"
  shows "wp ends_or_blocks (nq_process_drop (Some (Some b)))
     (\<lambda>v s'. v = Some None \<and> owns L R s' \<and>
        (\<exists>h. calls s h s' \<and> disciplined (ps_pid st) h \<and> (\<exists>c \<in> set h. gone (ps_pid st) c))) s"
proof (rule wp_nq_process_drop [where E = ends_or_blocks, OF child_start [OF assms(1,4)] assms(3,2)], goal_cases)
  case (3 s')
  then show ?case unfolding child_def by auto
qed (simp_all add: ends_or_blocks_def)

theorem dropped_process_is_reaped_witness:
  "wp ends_or_blocks (nq_process_drop (Some (Some 0))) (\<lambda>v s'. v = Some None \<and> heap s' = Map.empty) example_process_state"
proof -
  let ?st = example_process
  have empty: "owns (add_mset (nq_empty_str, []) L) R s'" if "owns L R s'" for L R s'
    by (rule owns_add_static [OF that]) (simp_all add: nq_empty_str_def str_view_def)
  have owned: "owns {#} [0 \<mapsto> BProc ?st] example_process_state"
    by (auto simp: owns_def example_process_state_def accounted_def)
  have slot: "buffer_slot zero_buffer [] R R" for R by (simp add: buffer_slot_def holds_zero_buffer)
  have mine: "process_owns ?st {#} (Map.empty(0 \<mapsto> BProc ?st))
      {#(nq_empty_str, []), (nq_empty_str, []), (nq_empty_str, [])#} [0 \<mapsto> BProc ?st]"
    unfolding process_owns_def
    by (intro exI [of _ "[]"] exI [of _ "[0 \<mapsto> BProc ?st]"]) (simp add: example_process_def slot)
  have pid: "0 < ps_pid ?st" by (simp add: example_process_def)
  show ?thesis
    by (rule wp_mono [OF dropped_process_is_reaped [OF pid _ mine empty [OF empty [OF empty [OF owned]]]]])
      (auto dest: owns_empty_heap)
qed

text \<open>
  The wait of \<open>nq_run_process\<close> keeps the same discipline: with whatever replies, it signals
  and waits for nothing but the child it forked, never after reaping it, and reports success
  only when the child is gone.
\<close>

theorem run_process_wait_is_disciplined:
  assumes "0 < pid" and "owns L R s"
  shows "wp only_blocks (nq_process_legacy_wait pid status abort_child)
     (\<lambda>(err, p, status) s'. owns L R s' \<and> (\<exists>h. calls s h s' \<and> disciplined pid h \<and>
        (err = 0 \<longrightarrow> (\<exists>c \<in> set h. gone pid c)))) s"
proof (rule wp_nq_process_legacy_wait [where E = only_blocks, OF child_start [OF assms]], goal_cases)
  case (2 err p' status s')
  then show ?case using assms(1) unfolding child_def prod.case by force
qed simp

theorem run_process_wait_is_disciplined_witness:
  "wp only_blocks (nq_process_legacy_wait 7 0 True)
     (\<lambda>(err, p, status) s'. heap s' = Map.empty \<and> (\<forall>p. Kill p \<in> set (trace s') \<longrightarrow> p = 7 \<or> p = -7)) (boot [] [])"
proof -
  have kills: "p = 7 \<or> p = -7" if "disciplined 7 h" "Kill p \<in> fst ` set h" for h p
    using that by (induction h) (force split: if_splits)+
  have "(0::int) < 7" by simp
  from run_process_wait_is_disciplined [OF this owns_boot]
  show ?thesis
    by (rule wp_mono) (auto simp: calls_def dest: owns_empty_heap kills)
qed

end
