(* ===== verification/Handshake.thy ===== *)
theory Handshake
  imports Launch Reaping Atomic_Write
begin

text \<open>
  The exec handshake: a child that cannot run its program writes the errno into a close-on-exec
  pipe and leaves; the parent reads it, or the end of the pipe when \<open>exec\<close> has succeeded. And
  the child itself: whatever fails, it never returns into the program.
\<close>

section \<open>An int and its bytes\<close>

lemma nth_int_bytes: "k < 4 \<Longrightarrow> int_bytes x ! k = char_of (nat (x div 256 ^ k mod 256))"
  by (simp add: int_bytes_def)

lemma length_int_bytes [simp]: "length (int_bytes x) = 4"
  by (simp add: int_bytes_def)

lemma of_char_byte: "0 \<le> y \<Longrightarrow> y < 256 \<Longrightarrow> int (of_char (char_of (nat y) :: char)) = y"
  by simp

lemma digits_sum:
  assumes "0 < (b::int)"
  shows "(\<Sum>k<n. x div b ^ k mod b * b ^ k) = x mod b ^ n"
proof (induction n)
  case (Suc n)
  have "x mod (b ^ n * b) = b ^ n * (x div b ^ n mod b) + x mod b ^ n"
    using assms by (intro zmod_zmult2_eq) simp
  with Suc show ?case by (simp add: mult.commute)
qed simp

lemma bytes_int_bytes:
  assumes "INT32_MIN \<le> x" and "x \<le> INT32_MAX"
  shows "bytes_int (int_bytes x) = x"
proof -
  have byte: "int (of_char (int_bytes x ! k)) = x div 256 ^ k mod 256" if "k < 4" for k
    using that by (simp add: nth_int_bytes)
  have "(\<Sum>k<4. int (of_char (int_bytes x ! k)) * 256 ^ k) = (\<Sum>k<4. x div 256 ^ k mod 256 * 256 ^ k)"
    by (intro sum.cong) (simp_all add: byte)
  also have "\<dots> = x mod 4294967296" using digits_sum [of 256 x 4] by simp
  finally have "(\<Sum>k<4. int (of_char (int_bytes x ! k)) * 256 ^ k) = x mod 4294967296" .
  then show ?thesis
    using assms unfolding bytes_int_def by (simp add: to_i32_def width_defs mod_simps)
qed

section \<open>The parent reads\<close>

text \<open>Replies to \<open>read\<close> that deliver bytes, in pieces of any size, interrupted any number of times.\<close>

definition delivers :: "reply \<Rightarrow> bool" where
  "delivers r \<longleftrightarrow> interrupted r \<or> 0 \<le> r_ret r \<and> r_bytes r \<noteq> []"

fun delivered :: "reply list \<Rightarrow> string" where
  "delivered [] = []"
| "delivered (r # rs) = (if interrupted r then [] else r_bytes r) @ delivered rs"

lemma wp_exec_error_rounds:
  assumes "\<forall>r \<in> set chunks. delivers r" and "script s = chunks @ rest"
    and "received @ delivered chunks = bs" and "length bs = 4"
    and "\<And>s'. Q (if bytes_int bs > 0 then bytes_int bs else EIO) s'"
  shows "wp E (loop (exec_error_round fd) received) Q s"
proof (rule wp_loop [where I = "\<lambda>received s. \<exists>chunks. (\<forall>r \<in> set chunks. delivers r) \<and>
    script s = chunks @ rest \<and> received @ delivered chunks = bs"], goal_cases)
  case 1 then show ?case using assms by blast
next
  case (2 received s)
  then obtain chunks where chunks: "\<forall>r \<in> set chunks. delivers r" "script s = chunks @ rest"
    and bs: "received @ delivered chunks = bs" by blast
  show ?case
  proof (cases "length received < 4")
    case False
    have "length received + length (delivered chunks) = 4" using assms(4) unfolding bs [symmetric] by simp
    with False have "length (delivered chunks) = 0" by linarith
    then have "received = bs" using bs by simp
    with False show ?thesis by (simp add: exec_error_round_def wp_ret assms(5))
  next
    case True
    then obtain r rs where r: "chunks = r # rs" using bs assms(4) by (cases chunks) auto
    have len: "length (received @ r_bytes r) \<le> 4" if "\<not> interrupted r"
      using that arg_cong [OF bs, of length] assms(4) by (simp add: r)
    show ?thesis
    proof (cases "interrupted r")
      case intr: True
      then show ?thesis
        using chunks bs True
        by (auto simp: exec_error_round_def c_read_def wp_simps r interrupted_def intro!: exI [of _ rs])
    next
      case False
      then have "\<not> r_ret r < 0" "r_bytes r \<noteq> []" using chunks(1) by (auto simp: r delivers_def)
      moreover have "take (4 - length received) (r_bytes r) = r_bytes r" using len [OF False] by simp
      ultimately show ?thesis
        using chunks bs True False
        by (auto simp: exec_error_round_def c_read_def wp_simps r intro!: exI [of _ rs])
    qed
  qed
qed

section \<open>The child writes, and leaves\<close>

lemma wp_child_error_rounds:
  assumes "E Blocked"
    and post: "\<And>s' evs code. write_all fd bs (script s) = Some (evs, code, script s') \<Longrightarrow> trace s' = trace s @ evs \<Longrightarrow>
        heap s' = heap s \<Longrightarrow> Q () s'"
  shows "wp E (loop (child_error_round fd bs) 0) Q s"
proof (rule wp_loop [where I = "\<lambda>offset s1. offset \<le> length bs \<and> heap s1 = heap s \<and> (\<exists>made. trace s1 = trace s @ made \<and>
        (\<forall>evs code rest. write_all fd (drop offset bs) (script s1) = Some (evs, code, rest) \<longrightarrow>
           write_all fd bs (script s) = Some (made @ evs, code, rest)))"], goal_cases)
  case 1 show ?case by simp
next
  case (2 offset s1)
  then obtain made where le: "offset \<le> length bs" and heap: "heap s1 = heap s" and tr: "trace s1 = trace s @ made"
    and spec: "\<And>evs code rest. write_all fd (drop offset bs) (script s1) = Some (evs, code, rest) \<Longrightarrow>
        write_all fd bs (script s) = Some (made @ evs, code, rest)" by blast
  show ?case
  proof (cases "offset < length bs")
    case False
    then have "write_all fd bs (script s) = Some (made, None, script s1)"
      using spec [of "[]" None "script s1"] le by simp
    with False tr heap show ?thesis by (auto simp: child_error_round_def wp_ret intro: post)
  next
    case True
    let ?bs = "drop offset bs"
    have ne: "?bs \<noteq> []" using True by simp
    show ?thesis
    proof (cases "script s1")
      case Nil
      then show ?thesis using True assms(1) by (simp add: child_error_round_def c_write_def wp_simps)
    next
      case (Cons r rs)
      note step = write_all_step [OF ne, of fd r rs]
      consider (again) "r_ret r < 0" "r_errno r = EINTR" | (bad) "r_ret r \<le> 0" "\<not> (r_ret r < 0 \<and> r_errno r = EINTR)"
        | (some) "0 < r_ret r" by linarith
      then show ?thesis
      proof cases
        case again
        have "write_all fd bs (script s) = Some ((made @ [WriteFd fd ?bs]) @ evs, code, rest)"
          if "write_all fd ?bs rs = Some (evs, code, rest)" for evs code rest
          using spec [of "WriteFd fd ?bs # evs" code rest] that again by (simp add: Cons step)
        then show ?thesis
          using True again tr heap le
          by (auto simp: child_error_round_def c_write_def wp_simps Cons)
      next
        case bad
        have "write_all fd bs (script s) = Some (made @ [WriteFd fd ?bs],
            Some (if r_ret r = 0 then EIO else r_errno r), rs)"
          using spec [of "[WriteFd fd ?bs]"] bad by (simp add: Cons step)
        then show ?thesis
          using True bad tr heap
          by (auto simp: child_error_round_def c_write_def wp_simps Cons min_def intro!: post)
      next
        case some
        define m where "m = min (r_ret r) (int (length ?bs))"
        have m: "0 < m" using some True by (simp add: m_def min_def)
        have n: "drop (nat (r_ret r)) ?bs = drop (offset + nat m) bs"
          by (cases "nat (r_ret r) \<le> length ?bs") (auto simp: add.commute m_def)
        have "write_all fd bs (script s) = Some ((made @ [WriteFd fd ?bs]) @ evs, code, rest)"
          if "write_all fd (drop (offset + nat m) bs) rs = Some (evs, code, rest)" for evs code rest
          using spec [of "WriteFd fd ?bs # evs" code rest] that some by (simp only: Cons step n) simp
        moreover have "(if r_ret r < 0 then - 1 else min (r_ret r) (int (length ?bs))) = m"
          using some by (simp add: m_def)
        moreover have "offset + nat m \<le> length bs" using True by (simp add: m_def)
        ultimately show ?thesis
          using True m tr heap unfolding child_error_round_def c_write_def
          by (simp add: wp_simps Cons)
      qed
    qed
  qed
qed

lemma wp_nq_process_child_error:
  assumes "E Blocked" and "E (QuickExit 127)"
  shows "wp E (nq_process_child_error fd code) Q s"
  unfolding nq_process_child_error_def wp_andthen
  by (rule wp_child_error_rounds [where E = E, OF assms(1)]) (simp add: wp_stop assms(2))

section \<open>The child\<close>

definition child_ends :: "stop \<Rightarrow> bool" where
  "child_ends r \<longleftrightarrow> r = Execed \<or> r = QuickExit 127 \<or> r = Blocked"

text \<open>System calls do not touch the memory of the process.\<close>

lemma wp_sys_heap:
  assumes "child_ends = E" and "\<And>r s'. heap s' = heap s \<Longrightarrow> length (script s') < length (script s) \<Longrightarrow> Q r s'"
  shows "wp E (sys ev) Q s"
  using assms by (auto simp: wp_sys child_ends_def split: list.splits)

lemma wp_retry_heap:
  assumes "\<And>r s'. heap s' = heap s \<Longrightarrow> Q r s'"
  shows "wp child_ends (retry_call ev) Q s"
  unfolding retry_call_def
proof (rule wp_loop [where I = "\<lambda>_ s'. heap s' = heap s"], goal_cases)
  case 1 show ?case by simp
next
  case (2 a s1)
  show ?case
    unfolding wp_bind wp_get_errno wp_ret
    by (rule wp_sys_heap [where E = child_ends, OF refl]) (use 2 assms in auto)
qed

text \<open>What the child needs of the memory it inherits: two C strings, and two vectors for \<open>exec\<close>.\<close>

definition has_c_string :: "(nat \<Rightarrow> block option) \<Rightarrow> ptr \<Rightarrow> bool" where
  "has_c_string h p \<longleftrightarrow> c_string h p \<noteq> None"

definition has_vector :: "(nat \<Rightarrow> block option) \<Rightarrow> ptr \<Rightarrow> bool" where
  "has_vector h p \<longleftrightarrow> (\<exists>b cs. p = PHeap b 0 \<and> h b = Some (BPtrs cs) \<and> cell_strings h cs \<noteq> None)"

lemma wp_load_c_string_heap:
  "has_c_string (heap s) p \<Longrightarrow> (\<And>v. Q v s) \<Longrightarrow> wp E (load_c_string p) Q s"
  by (auto simp: has_c_string_def wp_def load_c_string_def simp del: c_string.simps)

lemma wp_load_vector_heap:
  "has_vector (heap s) p \<Longrightarrow> (\<And>v. Q v s) \<Longrightarrow> wp E (load_vector p) Q s"
  by (auto simp: has_vector_def wp_def load_vector_def)

lemma wp_report: "wp child_ends (bind get_errno (\<lambda>e. nq_process_child_error fd e)) Q s"
  unfolding wp_bind wp_get_errno by (rule wp_nq_process_child_error) (simp_all add: child_ends_def)

lemma wp_close_all: "(\<And>s'. heap s' = heap s \<Longrightarrow> Q () s') \<Longrightarrow> wp child_ends (close_all fds) Q s"
proof (induction fds arbitrary: s)
  case (Cons fd fds)
  show ?case
  proof (cases "fd \<ge> 0")
    case True
    show ?thesis
      unfolding close_all.simps wp_andthen close_if_open_def if_P [OF True] ignore_def c_close_def wp_bind wp_ret
      by (rule wp_sys_heap [where E = child_ends, OF refl], rule Cons.IH) (use Cons.prems in simp)
  next
    case False
    then show ?thesis using Cons by (simp add: wp_andthen wp_ret close_if_open_def)
  qed
qed (simp add: wp_ret)

lemma wp_child_dups: "(\<And>r s'. heap s' = heap s \<Longrightarrow> Q r s') \<Longrightarrow> wp child_ends (child_dups pipes index n) Q s"
proof (induction n arbitrary: index s)
  case (Suc n)
  let ?fd = "child_end index (pipes ! index)"
  have next_one: "wp child_ends (if r < 0 then ret r else child_dups pipes (index + 1) n) Q s'" if "heap s' = heap s" for r s'
  proof (cases "r < 0")
    case True then show ?thesis using Suc.prems that by (simp add: wp_ret)
  next
    case False
    then show ?thesis using Suc that by (simp del: child_dups.simps)
  qed
  show ?case
  proof (cases "?fd \<ge> 0")
    case True
    show ?thesis
      unfolding child_dups.simps Let_def if_P [OF True] nq_process_dup2_def wp_bind wp_ret
      by (rule wp_retry_heap) (rule next_one)
  next
    case False
    show ?thesis
      unfolding child_dups.simps Let_def if_not_P [OF False] wp_bind wp_ret by (rule next_one) simp
  qed
qed (simp add: wp_ret)

lemma wp_start_child:
  assumes "has_c_string (heap s) (la_directory l)" and "has_c_string (heap s) (la_executable l)"
    and "has_vector (heap s) (la_argv l)" and "has_vector (heap s) (la_envp l)"
  shows "wp child_ends (start_child l) Q s"
  unfolding start_child_def Let_def wp_bind
proof (rule wp_retry_heap, goal_cases)
  case (1 r s1)
  show ?case
  proof (cases "r_ret r < 0")
    case True
    show ?thesis unfolding if_P [OF True] by (rule wp_report)
  next
    case no: False
    show ?thesis
      unfolding if_not_P [OF no] wp_bind
    proof (rule wp_load_c_string_heap, use 1 assms(1) in simp, rule wp_retry_heap, goal_cases)
      case (1 dir r s2)
      show ?case
      proof (cases "r_ret r < 0")
        case True
        show ?thesis unfolding if_P [OF True] by (rule wp_report)
      next
        case no: False
        show ?thesis
          unfolding if_not_P [OF no] wp_bind
        proof (rule wp_child_dups, goal_cases)
          case (1 r s3)
          show ?case
          proof (cases "r < 0")
            case True
            show ?thesis unfolding if_P [OF True] by (rule wp_report)
          next
            case no: False
            have h: "heap s3 = heap s" using 1 \<open>heap s2 = heap s1\<close> \<open>heap s1 = heap s\<close> by simp
            show ?thesis
              unfolding if_not_P [OF no] wp_andthen
            proof (rule wp_close_all, unfold wp_bind wp_andthen, rule wp_load_c_string_heap, use h assms(2) in simp,
                rule wp_load_vector_heap, use h assms(3) in simp, rule wp_load_vector_heap, use h assms(4) in simp, goal_cases)
              case (1 s4 program args env)
              show ?case
              proof (rule wp_loop [where I = "\<lambda>_ _. True"], goal_cases)
                case (2 a s5)
                show ?case
                  unfolding call_int_def wp_bind wp_ret
                  by (rule wp_sys_heap [where E = child_ends, OF refl])
                    (auto simp: wp_simps child_ends_def intro!: wp_nq_process_child_error)
              qed simp
            qed
          qed
        qed
      qed
    qed
  qed
qed

lemma wp_call_heap:
  assumes "\<And>r s'. heap s' = heap s \<Longrightarrow> Q r s'"
  shows "wp child_ends (call_int ev) Q s"
  unfolding call_int_def wp_bind wp_ret
  by (rule wp_sys_heap [where E = child_ends, OF refl]) (rule assms)

lemma wp_close_heap:
  assumes "\<And>s'. heap s' = heap s \<Longrightarrow> Q () s'"
  shows "wp child_ends (ignore (c_close fd)) Q s"
  unfolding ignore_def c_close_def wp_bind wp_ret
  by (rule wp_sys_heap [where E = child_ends, OF refl]) (rule assms)

text \<open>A step of the child that may fail: it reports, or goes on.\<close>

lemma wp_or_report:
  assumes "wp child_ends m Q s"
  shows "wp child_ends (if b then bind get_errno (\<lambda>e. nq_process_child_error fd e) else m) Q s"
  using assms by (cases b) (simp_all add: wp_report)

lemma wp_run_child:
  assumes "has_c_string (heap s) (rn_cwd l)" and "has_c_string (heap s) (rn_program l)"
    and "has_vector (heap s) (rn_argv l)"
  shows "wp child_ends (run_child l pipe0 pipe1) Q s"
proof -
  have exec: "wp child_ends (bind (load_c_string (rn_program l)) (\<lambda>p. bind (load_vector (rn_argv l)) (\<lambda>args.
      bind (call_int (Execvp p args)) (\<lambda>r.
        if r \<ge> 0 then stop Execed else bind get_errno (\<lambda>e. nq_process_child_error pipe1 e))))) Q s'"
    if h: "heap s' = heap s" for s'
    unfolding wp_bind
    by (rule wp_load_c_string_heap, use h assms(2) in simp, rule wp_load_vector_heap, use h assms(3) in simp,
        rule wp_call_heap) (auto simp: wp_stop child_ends_def intro: wp_report)
  have dups: "wp child_ends (bind (call_int (Dup2 (rn_stdout_fd l) 1)) (\<lambda>r.
      if r < 0 then bind get_errno (\<lambda>e. nq_process_child_error pipe1 e) else
      bind (call_int (Dup2 (rn_stderr_fd l) 2)) (\<lambda>r.
      if r < 0 then bind get_errno (\<lambda>e. nq_process_child_error pipe1 e) else
      andthen (ignore (c_close (rn_stdout_fd l))) (andthen (ignore (c_close (rn_stderr_fd l)))
      (bind (load_c_string (rn_program l)) (\<lambda>p. bind (load_vector (rn_argv l)) (\<lambda>args.
      bind (call_int (Execvp p args)) (\<lambda>r.
        if r \<ge> 0 then stop Execed else bind get_errno (\<lambda>e. nq_process_child_error pipe1 e)))))))))
      Q s'" if h: "heap s' = heap s" for s'
    unfolding wp_bind [of _ "call_int (Dup2 (rn_stdout_fd l) 1)"]
  proof (rule wp_call_heap, rule wp_or_report, goal_cases)
    case (1 r s1)
    show ?case
      unfolding wp_bind [of _ "call_int (Dup2 (rn_stderr_fd l) 2)"]
    proof (rule wp_call_heap, rule wp_or_report, goal_cases)
      case (1 r s2)
      then show ?case
        unfolding wp_andthen
        by (intro wp_close_heap exec) (use h \<open>heap s1 = heap s'\<close> in simp)
    qed
  qed
  show ?thesis
    unfolding run_child_def Let_def wp_andthen
  proof (rule wp_close_heap, goal_cases)
    case (1 s1)
    show ?case
      unfolding wp_bind [of _ "load_c_string (rn_cwd l)"]
    proof (rule wp_load_c_string_heap, use 1 assms(1) in simp, goal_cases)
      case (1 dir)
      have next_one: "wp child_ends (if r \<noteq> 0 then bind get_errno (\<lambda>e. nq_process_child_error pipe1 e) else
          bind (call_int (Dup2 (rn_stdout_fd l) 1)) (\<lambda>r.
      if r < 0 then bind get_errno (\<lambda>e. nq_process_child_error pipe1 e) else
      bind (call_int (Dup2 (rn_stderr_fd l) 2)) (\<lambda>r.
      if r < 0 then bind get_errno (\<lambda>e. nq_process_child_error pipe1 e) else
      andthen (ignore (c_close (rn_stdout_fd l))) (andthen (ignore (c_close (rn_stderr_fd l)))
      (bind (load_c_string (rn_program l)) (\<lambda>p. bind (load_vector (rn_argv l)) (\<lambda>args.
      bind (call_int (Execvp p args)) (\<lambda>r.
        if r \<ge> 0 then stop Execed else bind get_errno (\<lambda>e. nq_process_child_error pipe1 e))))))))) Q s2"
        if "heap s2 = heap s" for r :: int and s2
        by (rule wp_or_report, rule dups [OF that])
      show ?case
      proof (cases "dir = []")
        case True
        show ?thesis unfolding if_P [OF True] wp_bind [of _ "ret 0"] wp_ret
          by (rule next_one) (use \<open>heap s1 = heap s\<close> in simp)
      next
        case False
        show ?thesis unfolding if_not_P [OF False] wp_bind [of _ "call_int (Chdir dir)"]
          by (rule wp_call_heap, rule next_one) (use \<open>heap s1 = heap s\<close> in simp)
      qed
    qed
  qed
qed

section \<open>The keys of an environment\<close>

text \<open>What an environment entry is: a key, \<open>=\<close> and a value; a key is an identifier of C.\<close>

definition letter :: "char \<Rightarrow> bool" where
  "letter ch \<longleftrightarrow> (let n = of_char ch :: nat in 97 \<le> n \<and> n \<le> 122 \<or> 65 \<le> n \<and> n \<le> 90 \<or> n = 95)"

definition digit_or_letter :: "char \<Rightarrow> bool" where
  "digit_or_letter ch \<longleftrightarrow> letter ch \<or> (let n = of_char ch :: nat in 48 \<le> n \<and> n \<le> 57)"

definition env_name :: "string \<Rightarrow> bool" where
  "env_name key \<longleftrightarrow> key \<noteq> [] \<and> letter (hd key) \<and> (\<forall>ch \<in> set (tl key). digit_or_letter ch)"

lemma key_char_alt: "key_char index ch \<longleftrightarrow> (if index = 0 then letter ch else digit_or_letter ch)"
  by (auto simp: key_char_def letter_def digit_or_letter_def Let_def)

lemma equals_no_letter: "\<not> digit_or_letter (CHR ''='')" "\<not> letter (CHR ''='')"
  by (simp_all add: digit_or_letter_def letter_def Let_def)

lemma env_key_scan_later:
  "0 < index \<Longrightarrow> env_key_scan index bs = n \<longleftrightarrow>
     (if \<exists>key v. bs = key @ ''='' @ v \<and> (\<forall>ch \<in> set key. digit_or_letter ch)
      then n = index + length (takeWhile (\<lambda>ch. ch \<noteq> CHR ''='') bs) else n = 0)"
proof (induction index bs arbitrary: n rule: env_key_scan.induct)
  case (2 index ch rest)
  show ?case
  proof (cases "ch = CHR ''=''")
    case True
    then have "\<exists>key v. ch # rest = key @ ''='' @ v \<and> (\<forall>ch \<in> set key. digit_or_letter ch)"
      by (intro exI [of _ "[]"] exI [of _ rest]) simp
    with True show ?thesis by auto
  next
    case no: False
    have split: "(\<exists>key v. ch # rest = key @ ''='' @ v \<and> (\<forall>ch \<in> set key. digit_or_letter ch)) \<longleftrightarrow>
        digit_or_letter ch \<and> (\<exists>key v. rest = key @ ''='' @ v \<and> (\<forall>ch \<in> set key. digit_or_letter ch))"
    proof
      assume "\<exists>key v. ch # rest = key @ ''='' @ v \<and> (\<forall>ch \<in> set key. digit_or_letter ch)"
      then obtain key v where "ch # rest = key @ ''='' @ v" "\<forall>ch \<in> set key. digit_or_letter ch" by blast
      with no show "digit_or_letter ch \<and> (\<exists>key v. rest = key @ ''='' @ v \<and> (\<forall>ch \<in> set key. digit_or_letter ch))"
        by (cases key) auto
    next
      assume "digit_or_letter ch \<and> (\<exists>key v. rest = key @ ''='' @ v \<and> (\<forall>ch \<in> set key. digit_or_letter ch))"
      then obtain key v where "digit_or_letter ch" "rest = key @ ''='' @ v" "\<forall>ch \<in> set key. digit_or_letter ch" by blast
      then show "\<exists>key v. ch # rest = key @ ''='' @ v \<and> (\<forall>ch \<in> set key. digit_or_letter ch)"
        by (intro exI [of _ "ch # key"] exI [of _ v]) simp
    qed
    have kc: "key_char index ch \<longleftrightarrow> digit_or_letter ch" using "2.prems" by (simp add: key_char_alt)
    show ?thesis
    proof (cases "digit_or_letter ch")
      case True
      with 2 no kc show ?thesis unfolding split by (auto simp: add.commute)
    next
      case False
      with no kc show ?thesis unfolding split by auto
    qed
  qed
qed simp

text \<open>The scan finds the name before the first \<open>=\<close>, and nothing in an entry that has none.\<close>

lemma env_key_scan_name:
  assumes "env_name key"
  shows "env_key_scan 0 (key @ ''='' @ v) = length key"
proof -
  obtain ch rest where key: "key = ch # rest" and ch: "letter ch" and rest: "\<forall>ch \<in> set rest. digit_or_letter ch"
    using assms by (cases key) (auto simp: env_name_def)
  have "takeWhile (\<lambda>ch. ch \<noteq> CHR ''='') (rest @ ''='' @ v) = rest"
    using rest equals_no_letter by (induction rest) auto
  moreover have "\<exists>key v'. rest @ ''='' @ v = key @ ''='' @ v' \<and> (\<forall>ch \<in> set key. digit_or_letter ch)"
    using rest by blast
  ultimately have "env_key_scan 1 (rest @ ''='' @ v) = 1 + length rest"
    by (simp add: env_key_scan_later)
  moreover have "ch \<noteq> CHR ''=''" using ch equals_no_letter by auto
  ultimately show ?thesis using ch by (simp add: key key_char_alt)
qed

lemma env_key_scan_found:
  assumes "env_key_scan 0 bs = n" and "n \<noteq> 0"
  shows "\<exists>key v. bs = key @ ''='' @ v \<and> env_name key \<and> n = length key"
proof (cases bs)
  case (Cons ch rest)
  then have ch: "ch \<noteq> CHR ''=''" "letter ch" and scan: "env_key_scan 1 rest = n"
    using assms by (auto simp: key_char_alt split: if_splits)
  note scan' = scan [unfolded env_key_scan_later [OF zero_less_one]]
  have "\<exists>key v. rest = key @ ''='' @ v \<and> (\<forall>ch \<in> set key. digit_or_letter ch)"
    by (rule ccontr) (use scan' assms(2) in \<open>simp only: if_False simp_thms\<close>)
  then obtain key v where rest: "rest = key @ ''='' @ v" and key: "\<forall>ch \<in> set key. digit_or_letter ch" by blast
  have "env_name (ch # key)" using ch key by (simp add: env_name_def)
  moreover have "bs = (ch # key) @ ''='' @ v" by (simp add: Cons rest)
  moreover have "n = length (ch # key)"
    using env_key_scan_name [OF \<open>env_name (ch # key)\<close>, of v] assms(1)
    unfolding \<open>bs = (ch # key) @ ''='' @ v\<close> by metis
  ultimately show ?thesis by blast
qed (use assms in simp)

lemma env_key_scan_iff:
  "env_key_scan 0 bs = (if \<exists>key v. bs = key @ ''='' @ v \<and> env_name key
     then length (takeWhile (\<lambda>ch. ch \<noteq> CHR ''='') bs) else 0)"
proof (cases "\<exists>key v. bs = key @ ''='' @ v \<and> env_name key")
  case True
  then obtain key v where bs: "bs = key @ ''='' @ v" and key: "env_name key" by blast
  have "takeWhile (\<lambda>ch. ch \<noteq> CHR ''='') (key @ ''='' @ v) = key"
    using key equals_no_letter
    by (auto simp: env_name_def takeWhile_append digit_or_letter_def neq_Nil_conv intro!: takeWhile_eq_all_conv [THEN iffD2])
  with True env_key_scan_name [OF key, of v] show ?thesis by (simp add: bs)
next
  case False
  with env_key_scan_found [of bs] show ?thesis by auto
qed

definition env_key :: "string \<Rightarrow> string" where
  "env_key = takeWhile (\<lambda>ch. ch \<noteq> CHR ''='')"

definition env_entry :: "string \<Rightarrow> bool" where
  "env_entry v \<longleftrightarrow> (\<exists>key x. v = key @ ''='' @ x \<and> env_name key)"

lemma env_scan_entry: "env_key_scan 0 v = (if env_entry v then length (env_key v) else 0)"
  unfolding env_entry_def env_key_def by (rule env_key_scan_iff)

lemma env_key_take: "take (length (env_key v)) v = env_key v"
  unfolding env_key_def by (rule takeWhile_eq_take [symmetric])

lemma env_entry_key: "env_entry v \<Longrightarrow> env_key v \<noteq> [] \<and> length (env_key v) \<le> length v"
  using env_key_scan_found [of v] env_key_scan_name
  by (auto simp: env_entry_def env_key_def env_name_def length_takeWhile_le neq_Nil_conv)
    (metis equals_no_letter(2))

text \<open>The checks only read: the strings of a list, where they are.\<close>

definition list_cells :: "nqstr list \<Rightarrow> string list \<Rightarrow> strs \<Rightarrow> raws \<Rightarrow> nat \<Rightarrow> nqstate \<Rightarrow> bool" where
  "list_cells ts vs L R b s \<longleftrightarrow> owns L R s \<and> length ts = length vs \<and>
     (\<exists>cs. R b = Some (BStrs cs) \<and> length vs \<le> length cs \<and> (\<forall>i < length vs. cs ! i = Some (ts ! i))) \<and>
     (\<forall>i < length vs. (ts ! i, vs ! i) \<in># L \<and> length (vs ! i) \<le> SIZE_MAX)"

lemma wp_entry_key:
  assumes "list_cells ts vs L R b s" and "i < length vs"
    and "Q (if env_entry (vs ! i) then length (env_key (vs ! i)) else 0) s"
  shows "wp E (nq_process_env_key (ts ! i)) Q s"
proof -
  have owns: "owns L R s" and live: "(ts ! i, vs ! i) \<in># L" using assms(1,2) by (auto simp: list_cells_def)
  have len: "s_len (ts ! i) = int (length (vs ! i))" by (rule owns_live_len [OF owns live])
  have reads: "readable L R (s_data (ts ! i)) (length (vs ! i)) (vs ! i)"
    using readable_live [OF live, of R] len by simp
  have sz: "to_size (s_len (ts ! i)) = length (vs ! i)"
    using assms(1,2) by (simp add: len to_size_of_nat list_cells_def)
  show ?thesis
    unfolding nq_process_env_key_def wp_bind wp_ret sz
    by (rule wp_load_bytes [OF owns reads]) (use assms(3) in \<open>simp add: env_scan_entry\<close>)
qed

lemma wp_cells_load:
  assumes "list_cells ts vs L R b s" and "i < length vs" and "Q (ts ! i) s"
  shows "wp E (load_str (PHeap b 0) i) Q s"
  using assms by (auto simp: list_cells_def intro: wp_load_str)

lemma wp_key_is:
  assumes "list_cells ts vs L R b s" and "i < length vs" and "length key \<le> length (vs ! i)"
    and "Q (take (length key) (vs ! i) = key) s"
  shows "wp E (key_is (ts ! i) key) Q s"
proof -
  have owns: "owns L R s" and live: "(ts ! i, vs ! i) \<in># L" using assms(1,2) by (auto simp: list_cells_def)
  have len: "s_len (ts ! i) = int (length (vs ! i))" by (rule owns_live_len [OF owns live])
  have "readable L R (s_data (ts ! i)) (length key) (take (length key) (vs ! i))"
    unfolding readable_def
  proof (intro allI impI)
    fix L' R' s' assume "L \<subseteq># L'" "R \<subseteq>\<^sub>m R'" "owns L' R' s'"
    then have "read_bytes (heap s') (s_data (ts ! i)) (length (vs ! i)) = Some (vs ! i)"
      using readable_live [OF live, of R] len by (simp add: readable_def)
    from read_bytes_part [OF this, of 0 "length key"] assms(3)
    show "read_bytes (heap s') (s_data (ts ! i)) (length key) = Some (take (length key) (vs ! i))"
      by (cases "s_data (ts ! i)") simp_all
  qed
  then show ?thesis
    unfolding key_is_def wp_bind wp_ret by (rule wp_load_bytes [OF owns]) (rule assms(4))
qed

text \<open>Whether an entry has the given key.\<close>

lemma same_key:
  assumes "key \<noteq> []"
  shows "(if (if env_entry v then length (env_key v) else 0) = length key then take (length key) v = key else False)
     \<longleftrightarrow> env_entry v \<and> env_key v = key"
  using assms env_key_take [of v] by (cases "env_entry v") auto

lemma wp_key_duplicated:
  assumes cells: "list_cells ts vs L R b s" and key: "key \<noteq> []" and "i + n \<le> length vs"
    and "Q (dup \<or> (\<exists>j. i \<le> j \<and> j < i + n \<and> env_entry (vs ! j) \<and> env_key (vs ! j) = key)) s"
  shows "wp E (key_duplicated (PHeap b 0) key i n dup) Q s"
  using assms(3,4)
proof (induction n arbitrary: i dup)
  case 0
  have "\<not> (\<exists>j. i \<le> j \<and> j < i + 0 \<and> env_entry (vs ! j) \<and> env_key (vs ! j) = key)" by auto
  with 0 show ?case by (simp only: key_duplicated.simps wp_ret simp_thms)
next
  case (Suc n)
  then have i: "i < length vs" by simp
  let ?same = "env_entry (vs ! i) \<and> env_key (vs ! i) = key"
  have shift: "(\<exists>j. i \<le> j \<and> j < i + Suc n \<and> P j) \<longleftrightarrow> P i \<or> (\<exists>j. i + 1 \<le> j \<and> j < i + 1 + n \<and> P j)" for P
  proof -
    have "(i \<le> j \<and> j < i + Suc n \<and> P j) = (j = i \<and> P i \<or> i + 1 \<le> j \<and> j < i + 1 + n \<and> P j)" for j
      by (cases "j = i") auto
    then show ?thesis by (simp only: ex_disj_distrib) blast
  qed
  have rest: "wp E (key_duplicated (PHeap b 0) key (i + 1) n (dup \<or> ?same)) Q s"
    by (rule Suc.IH) (use Suc.prems shift [of "\<lambda>j. env_entry (vs ! j) \<and> env_key (vs ! j) = key"] in auto)
  have rest': "wp E (key_duplicated (PHeap b 0) key (i + 1) n (dup \<or> same)) Q s" if "same \<longleftrightarrow> ?same" for same
    unfolding that by (rule rest)
  let ?len = "if env_entry (vs ! i) then length (env_key (vs ! i)) else 0"
  have test: "wp E (if ?len = length key then key_is (ts ! i) key else ret False)
      (\<lambda>same. wp E (key_duplicated (PHeap b 0) key (i + 1) n (dup \<or> same)) Q) s"
  proof (cases "?len = length key")
    case True
    then have "length key \<le> length (vs ! i)" using env_entry_key [of "vs ! i"] key by (auto split: if_splits)
    then show ?thesis
      unfolding if_P [OF True]
      by - (rule wp_key_is [OF cells i], assumption, rule rest', use same_key [OF key, of "vs ! i"] in \<open>simp only: True if_True refl simp_thms\<close>)
  next
    case False
    then show ?thesis
      unfolding if_not_P [OF False] wp_ret
      by (intro rest') (use same_key [OF key, of "vs ! i"] in \<open>simp only: False if_False simp_thms\<close>)
  qed
  show ?case
    unfolding key_duplicated.simps wp_bind
    by (rule wp_cells_load [OF cells i], rule wp_entry_key [OF cells i], rule test)
qed

lemma wp_check_env:
  assumes cells: "list_cells ts vs L R b s" and "i + n = length vs"
    and "\<forall>v \<in> set (take i vs). env_entry v" and "distinct (map env_key (take i vs))"
    and post: "\<And>r. r = None \<longleftrightarrow> (\<forall>v \<in> set vs. env_entry v) \<and> distinct (map env_key vs) \<Longrightarrow> Q r s"
  shows "wp E (check_env (PHeap b 0) i n) Q s"
  using assms(2-4)
proof (induction n arbitrary: i)
  case 0
  then show ?case by (simp add: wp_ret post)
next
  case (Suc n)
  then have i: "i < length vs" by simp
  let ?len = "if env_entry (vs ! i) then length (env_key (vs ! i)) else 0"
  have take: "take (Suc i) vs = take i vs @ [vs ! i]" using i by (rule take_Suc_conv_app_nth)
  have step: "wp E (if ?len = 0 then ret (Some ''invalid environment key'')
       else bind (load_bytes (s_data (ts ! i)) ?len) (\<lambda>name.
         bind (key_duplicated (PHeap b 0) name 0 i False) (\<lambda>duplicate.
           if duplicate then ret (Some ''invalid or duplicate environment key'')
           else check_env (PHeap b 0) (i + 1) n))) Q s"
  proof (cases "env_entry (vs ! i)")
    case False
    then have "\<not> (\<forall>v \<in> set vs. env_entry v)" using i nth_mem by blast
    with False show ?thesis by (auto simp: wp_ret intro!: post)
  next
    case True
    have key: "env_key (vs ! i) \<noteq> []" "length (env_key (vs ! i)) \<le> length (vs ! i)"
      using env_entry_key [OF True] by simp_all
    have owns: "owns L R s" and live: "(ts ! i, vs ! i) \<in># L" using cells i by (auto simp: list_cells_def)
    have load: "load_bytes (s_data (ts ! i)) (length (env_key (vs ! i))) s = Ret (env_key (vs ! i)) s"
    proof -
      have "read_bytes (heap s) (s_data (ts ! i)) (length (vs ! i)) = Some (vs ! i)"
        using readableD [OF readable_live [OF live, of R] owns] owns_live_len [OF owns live] by simp
      from read_bytes_part [OF this, of 0 "length (env_key (vs ! i))"] key(2)
      have "read_bytes (heap s) (s_data (ts ! i)) (length (env_key (vs ! i))) = Some (env_key (vs ! i))"
        by (cases "s_data (ts ! i)") (simp_all add: env_key_take)
      then show ?thesis by (simp add: load_bytes_def)
    qed
    let ?dup = "\<exists>j < i. env_key (vs ! j) = env_key (vs ! i)"
    have entry: "env_entry (vs ! j)" if "j < i" for j
      using Suc.prems(2) that i nth_mem [of j "take i vs"] by simp
    have dup: "(False \<or> (\<exists>j. 0 \<le> j \<and> j < 0 + i \<and> env_entry (vs ! j) \<and> env_key (vs ! j) = env_key (vs ! i))) \<longleftrightarrow> ?dup"
      using entry by auto
    have "wp E (key_duplicated (PHeap b 0) (env_key (vs ! i)) 0 i False) (\<lambda>duplicate. wp E
        (if duplicate then ret (Some ''invalid or duplicate environment key'')
           else check_env (PHeap b 0) (i + 1) n) Q) s"
    proof (rule wp_key_duplicated [OF cells key(1)], use i in simp, unfold dup, cases ?dup)
      case True
      then have "\<not> distinct (map env_key vs)"
        using i by (auto simp: distinct_conv_nth) (metis less_trans nat_neq_iff)
      with True show "wp E (if ?dup then ret (Some ''invalid or duplicate environment key'')
           else check_env (PHeap b 0) (i + 1) n) Q s"
        by (auto simp: wp_ret intro!: post)
    next
      case no: False
      have "wp E (check_env (PHeap b 0) (i + 1) n) Q s"
      proof (rule Suc.IH)
        show "\<forall>v \<in> set (take (i + 1) vs). env_entry v" using Suc.prems(2) True by (simp add: take)
        show "distinct (map env_key (take (i + 1) vs))"
          using Suc.prems(3) no i by (auto simp: take set_conv_nth)
      qed (use Suc.prems(1) in simp)
      then show "wp E (if ?dup then ret (Some ''invalid or duplicate environment key'')
           else check_env (PHeap b 0) (i + 1) n) Q s" unfolding if_not_P [OF no] .
    qed
    then show ?thesis using True key(1) load by (simp add: wp_bind) (simp add: wp_def)
  qed
  show ?case
    unfolding check_env.simps wp_bind
    by (rule wp_cells_load [OF cells i], rule wp_entry_key [OF cells i], rule step [unfolded wp_bind])
qed

section \<open>Properties\<close>

text \<open>
  C21: The exec handshake is faithful. The child writes the four bytes of the errno in order,
  repeating interrupted and continuing short writes; however the pipe splits and interrupts
  them, the parent reads back exactly that errno. When the pipe ends at once, because \<open>exec\<close>
  closed it, the parent reads success.
\<close>

theorem exec_handshake_roundtrip:
  assumes "0 < e" and "e \<le> INT32_MAX"
    and "\<forall>r \<in> set chunks. delivers r" and "delivered chunks = int_bytes e"
    and "0 \<le> r_ret eof" and "r_bytes eof = []"
  shows "wp only_blocks (loop (child_error_round fd (int_bytes e)) 0)
       (\<lambda>_ s'. \<exists>evs code. write_all fd (int_bytes e) (script s) = Some (evs, code, script s') \<and>
          trace s' = trace s @ evs) s \<and>
    wp no_stop (nq_process_exec_error fd) (\<lambda>v _. v = e) (s1\<lparr>script := chunks @ rest\<rparr>) \<and>
    wp no_stop (nq_process_exec_error fd) (\<lambda>v _. v = 0) (s1\<lparr>script := eof # rest\<rparr>)"
proof (intro conjI)
  show "wp only_blocks (loop (child_error_round fd (int_bytes e)) 0)
       (\<lambda>_ s'. \<exists>evs code. write_all fd (int_bytes e) (script s) = Some (evs, code, script s') \<and>
          trace s' = trace s @ evs) s"
    by (rule wp_child_error_rounds) auto
  have "bytes_int (int_bytes e) = e" using assms(1,2) by (intro bytes_int_bytes) (simp_all add: width_defs)
  then show "wp no_stop (nq_process_exec_error fd) (\<lambda>v _. v = e) (s1\<lparr>script := chunks @ rest\<rparr>)"
    unfolding nq_process_exec_error_def
    by (intro wp_exec_error_rounds [where chunks = chunks and rest = rest and bs = "int_bytes e"]) (use assms in auto)
  show "wp no_stop (nq_process_exec_error fd) (\<lambda>v _. v = 0) (s1\<lparr>script := eof # rest\<rparr>)"
    unfolding nq_process_exec_error_def
    by (rule wp_loop [where I = "\<lambda>received s. received = [] \<and> script s = eof # rest"])
      (use assms(5,6) in \<open>auto simp: exec_error_round_def c_read_def wp_simps\<close>)
qed

theorem exec_handshake_roundtrip_witness:
  "wp no_stop (nq_process_exec_error 9) (\<lambda>v _. v = ENOENT)
     (boot [] [\<lparr>r_ret = 1, r_errno = 0, r_bytes = [CHR 0x02], r_ints = []\<rparr>,
        \<lparr>r_ret = -1, r_errno = EINTR, r_bytes = [], r_ints = []\<rparr>,
        \<lparr>r_ret = 3, r_errno = 0, r_bytes = [CHR 0x00, CHR 0x00, CHR 0x00], r_ints = []\<rparr>])"
proof -
  let ?a = "\<lparr>r_ret = 1, r_errno = 0, r_bytes = [CHR 0x02], r_ints = []\<rparr>"
  let ?b = "\<lparr>r_ret = -1, r_errno = EINTR, r_bytes = [], r_ints = []\<rparr>"
  let ?c = "\<lparr>r_ret = 3, r_errno = 0, r_bytes = [CHR 0x00, CHR 0x00, CHR 0x00], r_ints = []\<rparr>"
  let ?d = "\<lparr>r_ret = 0, r_errno = 0, r_bytes = [], r_ints = []\<rparr>"
  have bytes: "int_bytes 2 = [CHR 0x02, CHR 0x00, CHR 0x00, CHR 0x00]"
    by (simp add: int_bytes_def char_of_def upt_rec bit_0)
  have "wp no_stop (nq_process_exec_error 9) (\<lambda>v _. v = ENOENT) ((boot [] [])\<lparr>script := [?a, ?b, ?c] @ []\<rparr>)"
    by (rule exec_handshake_roundtrip [where eof = ?d, THEN conjunct2, THEN conjunct1])
      (auto simp: delivers_def interrupted_def bytes ENOENT_def width_defs)
  then show ?thesis by (simp add: boot_def)
qed

text \<open>
  C22: A forked child never comes back. Given the memory that the parent prepared (two C strings
  and two NULL-terminated vectors), the child of \<open>nq_process_start\<close> and the child of
  \<open>nq_run_process\<close> either become the new program or leave with status 127, whatever fails on the
  way; no undefined behaviour, no endless loop, and no return into the parent's code.
\<close>

theorem child_never_returns:
  assumes "has_c_string (heap s) (la_directory l)" and "has_c_string (heap s) (la_executable l)"
    and "has_vector (heap s) (la_argv l)" and "has_vector (heap s) (la_envp l)"
    and "has_c_string (heap s) (rn_cwd r)" and "has_c_string (heap s) (rn_program r)"
    and "has_vector (heap s) (rn_argv r)"
  shows "wp child_ends (start_child l) (\<lambda>_ _. False) s \<and>
    wp child_ends (run_child r pipe0 pipe1) (\<lambda>_ _. False) s"
  by (intro conjI wp_start_child wp_run_child assms)

theorem child_never_returns_witness:
  "wp child_ends (run_child \<lparr>rn_program = PLit ''ls'' 0, rn_cwd = PLit '''' 0, rn_stdout = [], rn_stderr = [],
       rn_stdout_fd = 5, rn_stderr_fd = 6, rn_argv = PHeap 0 0, rn_count = 0\<rparr> 3 4) (\<lambda>_ _. False)
     ((boot [] [])\<lparr>heap := [0 \<mapsto> BPtrs [Some (PLit ''ls'' 0), Some PNull]], next_block := 1\<rparr>)"
  by (rule child_never_returns [where l = "no_launch\<lparr>la_directory := PLit ''/'' 0, la_executable := PLit ''ls'' 0,
        la_argv := PHeap 0 0, la_envp := PHeap 0 0\<rparr>", THEN conjunct2])
    (simp_all add: has_c_string_def has_vector_def no_launch_def)

text \<open>
  C23: The environment check accepts exactly the lists whose entries all have the form
  \<open>KEY=value\<close>, with a C identifier before the first \<open>=\<close>, no two of them with the same key. It
  reads only, and never outside the strings.
\<close>

theorem environment_check_exact:
  assumes "live_list env vs L R s" and "\<forall>v \<in> set vs. length v \<le> nat INT32_MAX"
  shows "wp no_stop (check_env (l_data env) 0 (nat (l_len env)))
     (\<lambda>r s'. s' = s \<and> (r = None \<longleftrightarrow> (\<forall>v \<in> set vs. env_entry v) \<and> distinct (map env_key vs))) s"
proof -
  obtain ts R' where len: "length ts = length vs" and holds: "holds_list env ts R R'"
    and owns: "owns (mset (zip ts vs) + L) R' s" using assms(1) by (auto simp: live_list_def)
  show ?thesis
  proof (cases "env = nq_list__str_make")
    case True
    then have "vs = []" using holds_list_len [OF holds] len by (simp add: nq_list__str_make_def)
    with True show ?thesis by (simp add: nq_list__str_make_def wp_ret)
  next
    case False
    then obtain b junk where b: "l_data env = PHeap b 0" "l_len env = int (length ts)"
      "R' = R(b \<mapsto> BStrs (map Some ts @ junk))"
      using holds by (auto simp: holds_list_def)
    have "list_cells ts vs (mset (zip ts vs) + L) R' b s"
      unfolding list_cells_def
    proof (intro conjI exI allI impI)
      fix i assume "i < length vs"
      then show "(ts ! i, vs ! i) \<in># mset (zip ts vs) + L" "length (vs ! i) \<le> SIZE_MAX"
        "(map Some ts @ junk) ! i = Some (ts ! i)"
        using zip_nth_in [OF len] bspec [OF assms(2) nth_mem [of i vs]] len
        by (simp_all add: width_defs nth_append)
    qed (use owns len b in simp_all)
    then show ?thesis
      unfolding b(1,2) nat_int len by (rule wp_check_env) simp_all
  qed
qed

theorem environment_check_exact_witness:
  "wp fails_fast (bind (nq_list__str_from_array plain_config [literal ''A=1'', literal ''A=2''] 2)
       (\<lambda>l. check_env (l_data l) 0 (nat (l_len l)))) (\<lambda>r s'. r \<noteq> None) (boot [] [])"
proof -
  have owns: "owns (mset (zip [literal ''A=1'', literal ''A=2''] [''A=1'', ''A=2'']) + {#}) Map.empty (boot [] [])"
    using owns_literal [OF owns_literal [OF owns_boot, where v = "''A=2''"], where v = "''A=1''"] by simp
  have make: "wp fails_fast (nq_list__str_from_array plain_config [literal ''A=1'', literal ''A=2'']
      (int (length [literal ''A=1'', literal ''A=2'']))) (\<lambda>l s'. live_list l [''A=1'', ''A=2''] {#} Map.empty s') (boot [] [])"
    by (rule wp_nq_list__str_from_array [where E = fails_fast, OF _ owns]) auto
  have "wp fails_fast (check_env (l_data l) 0 (nat (l_len l))) (\<lambda>r s'. r \<noteq> None) s"
    if "live_list l [''A=1'', ''A=2''] {#} Map.empty s" for l s
    by (rule wp_weaken [OF wp_mono [OF environment_check_exact [OF that]]])
      (auto simp: env_key_def width_defs no_stop_def)
  then show ?thesis unfolding wp_bind by (rule wp_mono [OF make [simplified]])
qed

end
