(* ===== verification/Pumping.thy ===== *)
theory Pumping
  imports Launch Reaping
begin

text \<open>
  Waiting for an owned process: the pump (\<open>nq_process_pump\<close>) feeds the child's input, collects
  its output, watches the deadline and reaps the child. The invariant of its loop says that the
  two buffers hold exactly the bytes that have been read from the child's two pipes.
\<close>

section \<open>Terminated buffers\<close>

text \<open>A buffer of the pump is empty without storage, or has a NUL behind its bytes.\<close>

definition closed_buffer :: "nq_byte_buffer \<Rightarrow> string \<Rightarrow> raws \<Rightarrow> raws \<Rightarrow> bool" where
  "closed_buffer b v R R' \<longleftrightarrow>
     b = zero_buffer \<and> v = [] \<and> R' = R \<or>
     (\<exists>k junk. b = \<lparr>bb_data = PHeap k 0, bb_len = length v, bb_cap = length v + 1 + length junk\<rparr> \<and>
        R k = None \<and> R' = R(k \<mapsto> BBytes (map Some (v @ [CHR 0x00]) @ junk)))"

lemma closed_zero_buffer: "closed_buffer zero_buffer [] R R"
  by (simp add: closed_buffer_def)

lemma closed_bufferI:
  "R k = None \<Longrightarrow> n = length v \<Longrightarrow> cap = length v + 1 + length junk \<Longrightarrow>
     R' = R(k \<mapsto> BBytes (map Some (v @ [CHR 0x00]) @ junk)) \<Longrightarrow>
     closed_buffer \<lparr>bb_data = PHeap k 0, bb_len = n, bb_cap = cap\<rparr> v R R'"
  unfolding closed_buffer_def by blast

lemma closed_bufferE:
  assumes "closed_buffer b v R R'"
  obtains "b = zero_buffer" "v = []" "R' = R"
  | k junk where "b = \<lparr>bb_data = PHeap k 0, bb_len = length v, bb_cap = length v + 1 + length junk\<rparr>"
      "R k = None" "R' = R(k \<mapsto> BBytes (map Some (v @ [CHR 0x00]) @ junk))"
  using assms unfolding closed_buffer_def by blast

lemma closed_holds: "closed_buffer b v R R' \<Longrightarrow> holds_buffer b v R R'"
  by (erule closed_bufferE)
    (simp add: holds_zero_buffer, simp add: holds_bufferI [of R _ _ v _ "Some (CHR 0x00) # _", simplified])

lemma closed_buffer_len: "closed_buffer b v R R' \<Longrightarrow> bb_len b = length v"
  using holds_buffer_len [OF closed_holds] by blast

text \<open>Two buffers can be looked at in either order.\<close>

lemma closed_buffer_swap:
  assumes "closed_buffer b v R R1" and "closed_buffer b' v' R1 R2"
  obtains R1' where "closed_buffer b' v' R R1'" and "closed_buffer b v R1' R2"
  using assms(1)
proof (cases rule: closed_bufferE)
  case 1
  then show ?thesis using that [of R2] assms(2) by (simp add: closed_zero_buffer)
next
  case b: (2 k junk)
  from assms(2) show ?thesis
  proof (cases rule: closed_bufferE)
    case 1
    then show ?thesis using that [of R] assms(1) by (simp add: closed_zero_buffer)
  next
    case (2 k' junk')
    then have k: "R k' = None" "k \<noteq> k'" using b(3) by (auto split: if_splits)
    let ?R = "R(k' \<mapsto> BBytes (map Some (v' @ [CHR 0x00]) @ junk'))"
    have "closed_buffer b' v' R ?R" unfolding 2(1) by (rule closed_bufferI) (use k in simp_all)
    moreover have "closed_buffer b v ?R R2"
      unfolding b(1) by (rule closed_bufferI) (use k b 2 in \<open>simp_all add: fun_upd_twist del: map_append\<close>)
    ultimately show ?thesis by (rule that)
  qed
qed

text \<open>Appending bytes and their terminator, as \<open>nq_process_read_output\<close> does.\<close>

lemma wp_buffer_append:
  assumes buf: "holds_buffer b v R R'" and owns: "owns L R' s" and "length v + (length ys + 1) \<le> bb_cap b"
    and post: "\<And>R'' s'. closed_buffer (b\<lparr>bb_len := bb_len b + length ys\<rparr>) (v @ ys) R R'' \<Longrightarrow> owns L R'' s' \<Longrightarrow>
        world s' = world s \<Longrightarrow> Q () s'"
  shows "wp E (store_bytes (ptr_plus (bb_data b) (bb_len b)) ys)
     (\<lambda>_. wp E (store_bytes (ptr_plus (bb_data b) (bb_len b + length ys)) [CHR 0x00]) Q) s"
proof -
  obtain k junk where b: "b = \<lparr>bb_data = PHeap k 0, bb_len = length v, bb_cap = length v + length junk\<rparr>"
    and k: "R k = None" and R': "R' = R(k \<mapsto> BBytes (map Some v @ junk))"
    using buf assms(3) by (auto simp: holds_buffer_def zero_buffer_def)
  have room: "length ys + 1 \<le> length junk" using assms(3) b by simp
  show ?thesis
    unfolding b nq_byte_buffer.simps ptr_plus.simps add_0
  proof (rule wp_store_bytes [OF owns, where cs = "map Some v @ junk"], goal_cases)
    case (3 s1)
    have over: "overwrite (map Some v @ junk) (length v) (map Some ys) = map Some (v @ ys) @ drop (length ys) junk"
      by (simp add: overwrite_def)
    show ?case
    proof (rule wp_store_bytes [OF 3(1), where cs = "map Some (v @ ys) @ drop (length ys) junk"], goal_cases)
      case 1 show ?case by (simp only: over) simp
    next
      case 2 show ?case using room by simp
    next
      case (3 s2)
      have over: "overwrite (map Some (v @ ys) @ drop (length ys) junk) (length v + length ys) (map Some [CHR 0x00])
          = map Some ((v @ ys) @ [CHR 0x00]) @ drop (Suc (length ys)) junk"
        by (simp add: overwrite_def)
      show ?case
      proof (rule post [OF _ 3(1)], goal_cases)
        case 1
        show ?case
          unfolding closed_buffer_def b over
          by (rule disjI2, rule exI [of _ k], rule exI [of _ "drop (Suc (length ys)) junk"])
            (use k room R' in \<open>simp del: map_append\<close>)
      next
        case 2 show ?case using 3(2) \<open>world s1 = world s\<close> by simp
      qed
    qed
  qed (use room R' in \<open>simp_all\<close>)
qed

section \<open>The invariant of the pump\<close>

text \<open>
  What one call of the pump is about: the descriptors of the child's output, the input to feed
  it, the capture limit, what others own, the child's identifier and the state in which the
  child was taken over.
\<close>

record job =
  jb_fd :: "channel \<Rightarrow> int"
  jb_text :: string
  jb_limit :: nat
  jb_strs :: strs
  jb_raws :: raws
  jb_pid :: int
  jb_from :: nqstate

definition good_job :: "job \<Rightarrow> bool" where
  "good_job J \<longleftrightarrow> jb_limit J \<le> SIZE_MAX \<and> length (jb_text J) \<le> nat INT32_MAX \<and> (jb_fd J Stdout = jb_fd J Stderr \<longrightarrow> jb_fd J Stdout < 0)"

definition buffers :: "(channel \<Rightarrow> string) \<Rightarrow> nq_process_state \<Rightarrow> raws \<Rightarrow> raws \<Rightarrow> bool" where
  "buffers v st R R' \<longleftrightarrow>
     (\<exists>R1. closed_buffer (ps_error st) (v Stderr) R R1 \<and> closed_buffer (ps_output st) (v Stdout) R1 R')"

text \<open>
  \<open>running J v rd st s\<close>: the buffers hold \<open>v\<close>, the bytes \<open>rd\<close> have been read, and the process
  state owns its input and its buffers; the strings of the outcome are still empty.
\<close>

definition running :: "job \<Rightarrow> (channel \<Rightarrow> string) \<Rightarrow> (int \<Rightarrow> string) \<Rightarrow> nq_process_state \<Rightarrow> nqstate \<Rightarrow> bool" where
  "running J v rd st s \<longleftrightarrow> inert (po_stdout (ps_outcome st)) \<and> inert (po_stderr (ps_outcome st)) \<and>
     (\<exists>R'. buffers v st (jb_raws J) R' \<and>
        child (add_mset (ps_input st, jb_text J) (jb_strs J)) R' (jb_pid J) (jb_from J) rd (ps_pid st) s)"

definition on_course :: "job \<Rightarrow> nq_process_state \<Rightarrow> bool" where
  "on_course J st \<longleftrightarrow> (\<forall>ch. fd_of ch st = jb_fd J ch \<or> fd_of ch st < 0) \<and>
     ps_limit st = jb_limit J \<and> ps_sent st \<le> length (jb_text J)"

definition received :: "job \<Rightarrow> (int \<Rightarrow> string) \<Rightarrow> channel \<Rightarrow> string" where
  "received J rd ch = rd (jb_fd J ch)"

definition pumping :: "job \<Rightarrow> nq_process_state \<Rightarrow> nqstate \<Rightarrow> bool" where
  "pumping J st s \<longleftrightarrow> on_course J st \<and>
     (\<exists>rd. running J (received J rd) rd st s \<and>
        length (received J rd Stdout) + length (received J rd Stderr) \<le> jb_limit J)"

text \<open>After a failure the caller owns the error and cleans the process state up.\<close>

definition given_up :: "job \<Rightarrow> nq_process_state \<Rightarrow> nqioerr \<Rightarrow> nqstate \<Rightarrow> bool" where
  "given_up J st e s \<longleftrightarrow>
     (\<exists>w rd L' R'. child L' R' (jb_pid J) (jb_from J) rd (ps_pid st) s \<and>
        process_owns st (with_err e w (jb_strs J)) (jb_raws J) L' R')"

lemma set_fd_simps [simp]:
  "ps_pid (set_fd ch x st) = ps_pid st" "ps_input (set_fd ch x st) = ps_input st"
  "ps_outcome (set_fd ch x st) = ps_outcome st" "ps_output (set_fd ch x st) = ps_output st"
  "ps_error (set_fd ch x st) = ps_error st" "ps_limit (set_fd ch x st) = ps_limit st"
  "ps_sent (set_fd ch x st) = ps_sent st" "buffer_of ch' (set_fd ch x st) = buffer_of ch' st"
  "fd_of ch' (set_fd ch x st) = (if ch' = ch then x else fd_of ch' st)"
  by (cases ch; cases ch'; simp)+

lemma set_buffer_simps [simp]:
  "ps_pid (set_buffer ch b st) = ps_pid st" "ps_input (set_buffer ch b st) = ps_input st"
  "ps_outcome (set_buffer ch b st) = ps_outcome st" "ps_limit (set_buffer ch b st) = ps_limit st"
  "ps_sent (set_buffer ch b st) = ps_sent st" "fd_of ch' (set_buffer ch b st) = fd_of ch' st"
  "buffer_of ch (set_buffer ch b st) = b" "set_buffer ch b' (set_buffer ch b st) = set_buffer ch b' st"
  by (cases ch; cases ch'; simp)+

text \<open>One of the buffers can be replaced.\<close>

lemma buffers_split:
  assumes "buffers v st R R'"
  obtains R1 where "closed_buffer (buffer_of ch st) (v ch) R1 R'"
    and "\<And>b x R''. closed_buffer b x R1 R'' \<Longrightarrow> buffers (v(ch := x)) (set_buffer ch b st) R R''"
proof -
  obtain R1 where err: "closed_buffer (ps_error st) (v Stderr) R R1"
    and out: "closed_buffer (ps_output st) (v Stdout) R1 R'"
    using assms by (auto simp: buffers_def)
  show ?thesis
  proof (cases ch)
    case Stdout
    with out err show ?thesis by (intro that [of R1]) (auto simp: buffers_def)
  next
    case Stderr
    obtain R2 where out': "closed_buffer (ps_output st) (v Stdout) R R2"
      and err': "closed_buffer (ps_error st) (v Stderr) R2 R'"
      by (rule closed_buffer_swap [OF err out])
    show ?thesis
    proof (rule that [of R2])
      fix b x R'' assume "closed_buffer b x R2 R''"
      with out' obtain R3 where "closed_buffer b x R R3" "closed_buffer (ps_output st) (v Stdout) R3 R''"
        by (rule closed_buffer_swap)
      then show "buffers (v(ch := x)) (set_buffer ch b st) R R''" by (auto simp: buffers_def Stderr)
    qed (simp add: Stderr err')
  qed
qed

lemma running_upd [simp]:
  "running J v rd (st\<lparr>ps_input_fd := x\<rparr>) s = running J v rd st s"
  "running J v rd (st\<lparr>ps_sent := n\<rparr>) s = running J v rd st s"
  "running J v rd (set_fd ch x st) s = running J v rd st s"
  "running J v rd (st\<lparr>ps_outcome := (ps_outcome st)\<lparr>po_timed_out := p, po_cancelled := q\<rparr>\<rparr>) s = running J v rd st s"
  by (simp_all add: running_def buffers_def)

lemma running_same:
  assumes "same_child st st'" and "running J v rd st s"
    and "\<And>L R. child L R (jb_pid J) (jb_from J) rd (ps_pid st) s \<Longrightarrow> child L R (jb_pid J) (jb_from J) rd (ps_pid st') s'"
  shows "running J v rd st' s'"
  using assms unfolding running_def buffers_def same_child_def by auto

lemma running_child:
  assumes "running J v rd st s"
  obtains R' where "buffers v st (jb_raws J) R'"
    and "child (add_mset (ps_input st, jb_text J) (jb_strs J)) R' (jb_pid J) (jb_from J) rd (ps_pid st) s"
  using assms by (auto simp: running_def)

lemma running_again:
  "running J v rd st s \<Longrightarrow> buffers v st (jb_raws J) R' \<Longrightarrow>
     child (add_mset (ps_input st, jb_text J) (jb_strs J)) R' (jb_pid J) (jb_from J) rd' (ps_pid st) s' \<Longrightarrow>
     running J v rd' st s'"
  by (auto simp: running_def)

lemma on_course_same: "same_child st st' \<Longrightarrow> on_course J st' = on_course J st"
proof -
  assume same: "same_child st st'"
  have "fd_of ch st' = fd_of ch st" for ch using same by (cases ch) (simp_all add: same_child_def)
  with same show ?thesis by (simp add: on_course_def same_child_def)
qed

section \<open>Leaving with an error\<close>

text \<open>Looking at the clock concerns no child.\<close>

lemma disciplined_quiet:
  "\<not> reserved ev \<Longrightarrow> disciplined pid (h @ map (Pair ev) rs) = disciplined pid h"
proof (induction rs rule: rev_induct)
  case (snoc r rs)
  then show ?case using disciplined_snoc [of pid "h @ map (Pair ev) rs" "(ev, r)"] by simp
qed simp

lemma moved_quiet: "\<not> moves ev \<Longrightarrow> moved (h @ map (Pair ev) rs) = moved h"
proof (induction rs rule: rev_induct)
  case (snoc r rs)
  then show ?case using moved_snoc [of "h @ map (Pair ev) rs" "(ev, r)"] by (simp add: transfer_still)
qed simp

lemma child_clock:
  assumes "child L R pid s0 rd p s" and "clock_calls m s s'" and "owns L' R' s'"
  shows "child L' R' pid s0 rd p s'"
proof -
  obtain h where h: "calls s0 h s" "disciplined pid h" "moved h = rd"
    "p = 0 \<and> (\<exists>c \<in> set h. gone pid c) \<or> p = pid \<and> \<not> reaped pid h" and pid: "0 < pid"
    using assms(1) by (auto simp: child_def)
  obtain rs where rs: "script s = rs @ script s'" "trace s' = trace s @ replicate (length rs) (ClockGettime m)"
    using assms(2) by (auto simp: clock_calls_def)
  let ?h = "h @ map (Pair (ClockGettime m)) rs"
  have "calls s0 ?h s'" using h(1) rs by (simp add: calls_def comp_def map_replicate_const)
  moreover have "reaped pid ?h = reaped pid h" by (auto simp: reaped_def reaps_def)
  ultimately show ?thesis
    using h pid assms(3) unfolding child_def
    by (intro conjI exI [of _ ?h]) (auto simp: disciplined_quiet moved_quiet)
qed

lemma clock_calls_none: "world s' = world s \<Longrightarrow> clock_calls m s s'"
  by (simp add: clock_calls_def world_def)

lemma clock_calls_script: "clock_calls m s s' \<Longrightarrow> length (script s') \<le> length (script s)"
  by (auto simp: clock_calls_def)

lemma abandonedI:
  assumes run: "running J v rd st s" and buf: "buffers v st (jb_raws J) R'"
    and c: "child (add_mset (ps_input st, jb_text J) (jb_strs J)) R' (jb_pid J) (jb_from J) rd (ps_pid st) s"
    and err: "owns (with_err e w (add_mset (ps_input st, jb_text J) (jb_strs J))) R' s'"
    and clock: "clock_calls True s s'"
  shows "given_up J st e s'"
proof -
  have inert: "inert (po_stdout (ps_outcome st))" "inert (po_stderr (ps_outcome st))"
    using run by (simp_all add: running_def)
  let ?L = "add_mset (ps_input st, jb_text J) (add_mset (po_stdout (ps_outcome st), [])
     (add_mset (po_stderr (ps_outcome st), []) (with_err e w (jb_strs J))))"
  have "owns (add_mset (po_stdout (ps_outcome st), []) (add_mset (po_stderr (ps_outcome st), [])
      (with_err e w (add_mset (ps_input st, jb_text J) (jb_strs J))))) R' s'"
    using err by (intro owns_add_inert inert)
  then have "owns ?L R' s'" by (simp add: with_err_def add_mset_commute)
  then have "child ?L R' (jb_pid J) (jb_from J) rd (ps_pid st) s'" by (rule child_clock [OF c clock])
  moreover have "process_owns st (with_err e w (jb_strs J)) (jb_raws J) ?L R'"
    using buf unfolding process_owns_def buffers_def buffer_slot_def by (blast dest: closed_holds)
  ultimately show ?thesis unfolding given_up_def by blast
qed

text \<open>The three kinds of errors the pump makes.\<close>

lemma wp_abandon_errno:
  assumes "good_config c" and "label op" and run: "running J v rd st s"
    and post: "\<And>e s'. given_up J st e s' \<Longrightarrow> Q (f e) s'"
  shows "wp E (bind (nq_errno_io_err c (Some op) None None code) (\<lambda>e. ret (f e))) Q s"
  using run
proof (rule running_child)
  fix R' assume buf: "buffers v st (jb_raws J) R'"
    and c: "child (add_mset (ps_input st, jb_text J) (jb_strs J)) R' (jb_pid J) (jb_from J) rd (ps_pid st) s"
  show ?thesis
    by (rule wp_fail_errno [where pv = None and ov = None, OF assms(1) child_owns [OF c] assms(2)])
      (auto intro!: post abandonedI [OF run buf c] clock_calls_none)
qed

lemma wp_abandon_data:
  assumes "good_config c" and "label op" and run: "running J v rd st s" and "CHR 0x00 \<notin> set detail"
    and post: "\<And>e s'. given_up J st e s' \<Longrightarrow> Q (f e) s'"
  shows "wp E (bind (nq_invalid_data_io_err c (Some op) None detail) (\<lambda>e. ret (f e))) Q s"
  using run
proof (rule running_child)
  fix R' assume buf: "buffers v st (jb_raws J) R'"
    and c: "child (add_mset (ps_input st, jb_text J) (jb_strs J)) R' (jb_pid J) (jb_from J) rd (ps_pid st) s"
  show ?thesis
    by (rule wp_fail_data [OF assms(1) child_owns [OF c] assms(2,4)])
      (auto intro!: post abandonedI [OF run buf c] clock_calls_none)
qed

lemma wp_abandon_alloc:
  assumes "good_config c" and "label op" and run: "running J v rd st s"
    and post: "\<And>e s'. given_up J st e s' \<Longrightarrow> Q (f e) s'"
  shows "wp E (bind (nq_allocation_io_err c (Some op) status) (\<lambda>e. ret (f e))) Q s"
  using run
proof (rule running_child)
  fix R' assume buf: "buffers v st (jb_raws J) R'"
    and c: "child (add_mset (ps_input st, jb_text J) (jb_strs J)) R' (jb_pid J) (jb_from J) rd (ps_pid st) s"
  show ?thesis
    by (rule wp_fail_alloc [OF assms(1) child_owns [OF c] assms(2)])
      (auto intro!: post abandonedI [OF run buf c] clock_calls_none)
qed

section \<open>Reading the child's output\<close>

lemma wp_running_close:
  assumes run: "running J v rd st s" and E: "E Blocked"
    and post: "\<And>fd' s'. running J v rd st s' \<Longrightarrow> fd' < 0 \<Longrightarrow> length (script s') \<le> length (script s) \<Longrightarrow> Q fd' s'"
  shows "wp E (nq_process_close_fd fd) Q s"
  using run
proof (rule running_child)
  fix R' assume buf: "buffers v st (jb_raws J) R'"
    and c: "child (add_mset (ps_input st, jb_text J) (jb_strs J)) R' (jb_pid J) (jb_from J) rd (ps_pid st) s"
  show ?thesis
    by (rule wp_child_close_fd [where E = E, OF c E]) (auto intro!: post running_again [OF run buf])
qed

lemma wp_close_channel:
  assumes run: "running J v rd st s" and E: "E Blocked"
    and post: "\<And>fd' s'. running J v rd (set_fd ch fd' st) s' \<Longrightarrow> fd' < 0 \<Longrightarrow>
        length (script s') \<le> length (script s) \<Longrightarrow> Q (set_fd ch fd' st) s'"
  shows "wp E (close_channel ch st) Q s"
  unfolding close_channel_def wp_bind wp_ret
  by (rule wp_running_close [where E = E, OF run E]) (rule post; simp)

lemma captured_exact:
  assumes "running J v rd st s" and "length (v Stdout) + length (v Stderr) \<le> SIZE_MAX"
  shows "captured st = length (v Stdout) + length (v Stderr)"
  using assms(1)
proof (rule running_child)
  fix R' assume "buffers v st (jb_raws J) R'"
  then have "bb_len (ps_output st) = length (v Stdout)" "bb_len (ps_error st) = length (v Stderr)"
    by (auto simp: buffers_def closed_buffer_len)
  then show ?thesis using assms(2) by (simp add: captured_def size_plus_id)
qed

lemma wp_take_output:
  assumes cfg: "good_config c" "label op" and run: "running J v rd st s" and E: "E Blocked"
    and limit: "ps_limit st = jb_limit J" "jb_limit J \<le> SIZE_MAX"
      "length (v Stdout) + length (v Stderr) \<le> jb_limit J"
    and ok: "\<And>st' left s'. running J (v(ch := v ch @ bs)) rd st' s' \<Longrightarrow>
        length (v Stdout) + length (v Stderr) + length bs \<le> jb_limit J \<Longrightarrow>
        (\<forall>ch'. fd_of ch' st' = fd_of ch' st \<or> ch' = ch \<and> fd_of ch' st' < 0) \<Longrightarrow>
        ps_limit st' = ps_limit st \<Longrightarrow> ps_sent st' = ps_sent st \<Longrightarrow>
        length (script s') \<le> length (script s) \<Longrightarrow> Q (st', left, None) s'"
    and err: "\<And>st' left e s'. given_up J st' e s' \<Longrightarrow> Q (st', left, Some e) s'"
  shows "wp E (take_output c st ch left op bs) Q s"
proof (cases "length bs > size_minus (ps_limit st) (captured st)")
  case True
  show ?thesis
    unfolding take_output_def if_P [OF True] by (rule wp_abandon_data [OF cfg run]) (auto intro: err)
next
  case False
  have cap: "captured st = length (v Stdout) + length (v Stderr)"
    by (rule captured_exact [OF run]) (use limit in simp)
  then have room: "length (v Stdout) + length (v Stderr) + length bs \<le> jb_limit J"
    using False limit by (simp add: size_minus_id)
  obtain R' where buf: "buffers v st (jb_raws J) R'"
    and c: "child (add_mset (ps_input st, jb_text J) (jb_strs J)) R' (jb_pid J) (jb_from J) rd (ps_pid st) s"
    by (rule running_child [OF run])
  obtain R1 where mine: "closed_buffer (buffer_of ch st) (v ch) R1 R'"
    and put: "\<And>b x R''. closed_buffer b x R1 R'' \<Longrightarrow> buffers (v(ch := x)) (set_buffer ch b st) (jb_raws J) R''"
    using buffers_split [OF buf, where ch = ch] by blast
  have inert: "inert (po_stdout (ps_outcome st))" "inert (po_stderr (ps_outcome st))"
    using run by (simp_all add: running_def)
  have len: "bb_len b = length (v ch)" if "holds_buffer b (v ch) R1 R''" for b R''
    using holds_buffer_len [OF that] by simp
  show ?thesis
    unfolding take_output_def if_not_P [OF False] Let_def wp_bind [of _ "nq_buffer_reserve c (buffer_of ch st) (length bs + 1) _"]
  proof (rule wp_nq_buffer_reserve [OF closed_holds [OF mine] child_owns [OF c]], goal_cases)
    case (2 e s1)
    have "running J (v(ch := v ch)) rd (set_buffer ch (buffer_of ch st) st) s1"
      unfolding running_def using put [OF mine] inert child_world [OF c 2] by auto
    then show ?case
      unfolding prod.case option.case by (intro wp_abandon_alloc [OF cfg]) (auto intro: err)
  next
    case (1 b R2 s1)
    let ?b = "b\<lparr>bb_len := bb_len b + length bs\<rparr>"
    let ?rest = "case left of
                  None \<Rightarrow> ret (set_buffer ch ?b st, None, None)
                | Some left \<Rightarrow>
                    let left = size_minus left (length bs) in
                    bind (if left = 0 then close_channel ch (set_buffer ch ?b st) else ret (set_buffer ch ?b st)) (\<lambda>st.
                      ret (st, Some left, None))"
    have "wp E (store_bytes (ptr_plus (bb_data b) (bb_len b)) bs)
      (\<lambda>_. wp E (store_bytes (ptr_plus (bb_data b) (bb_len b + length bs)) [CHR 0x00]) (\<lambda>_. wp E ?rest Q)) s1"
    proof (rule wp_buffer_append [OF 1(1,2,4)], goal_cases)
      case (1 R3 s2)
      have world: "world s2 = world s" using 1(3) \<open>world s1 = world s\<close> by simp
      have "running J (v(ch := v ch @ bs)) rd (set_buffer ch ?b st) s2"
        unfolding running_def using put [OF 1(1)] inert child_world [OF c 1(2) world] by auto
      moreover have "length (script s2) \<le> length (script s)" using world by (simp add: world_def)
      ultimately show ?case
        using room
        by (auto simp: wp_simps Let_def intro!: ok wp_close_channel [where E = E, OF _ E] split: option.split if_splits)
    qed
    then show ?case by (simp add: wp_simps Let_def cong: option.case_cong if_cong)
  qed
qed

lemma child_read:
  assumes "running J v rd st s" and E: "E Blocked"
    and "\<And>r s'. running J v (transfer (ReadFd fd n, r) rd) st s' \<Longrightarrow> length (script s') < length (script s) \<Longrightarrow> Q r s'"
  shows "wp E (sys (ReadFd fd n)) Q s"
  using assms(1)
proof (rule running_child)
  fix R' assume buf: "buffers v st (jb_raws J) R'"
    and c: "child (add_mset (ps_input st, jb_text J) (jb_strs J)) R' (jb_pid J) (jb_from J) rd (ps_pid st) s"
  show ?thesis
    by (rule wp_child_moves [where E = E, OF c E]) (auto intro!: assms(3) running_again [OF assms(1) buf])
qed

text \<open>What the pump reads from a channel ends up in the channel's buffer, and nowhere else.\<close>

lemma received_read:
  assumes "good_job J" and "0 \<le> fd" and "fd = jb_fd J ch"
  shows "received J (rd(fd := rd fd @ bs)) = (received J rd)(ch := received J rd ch @ bs)"
proof
  fix ch'
  have "jb_fd J ch' \<noteq> fd" if "ch' \<noteq> ch" using assms that by (cases ch; cases ch') (auto simp: good_job_def)
  then show "received J (rd(fd := rd fd @ bs)) ch' = ((received J rd)(ch := received J rd ch @ bs)) ch'"
    using assms(3) by (auto simp: received_def)
qed



lemma wp_read_output:
  assumes cfg: "good_config c" "label op" and job: "good_job J" and run: "pumping J st s" and E: "E Blocked"
    and fd: "0 \<le> fd_of ch st"
    and ok: "\<And>st' left s'. pumping J st' s' \<Longrightarrow> (\<forall>ch'. ch' \<noteq> ch \<longrightarrow> fd_of ch' st' = fd_of ch' st) \<Longrightarrow>
        length (script s') \<le> length (script s) \<Longrightarrow> Q (st', left, None) s'"
    and err: "\<And>st' left e s'. given_up J st' e s' \<Longrightarrow> Q (st', left, Some e) s'"
  shows "wp E (nq_process_read_output c st ch left op) Q s"
proof -
  obtain rd where r: "running J (received J rd) rd st s" and course: "on_course J st"
    and len: "length (received J rd Stdout) + length (received J rd Stderr) \<le> jb_limit J"
    using run by (auto simp: pumping_def)
  let ?amount = "case left of Some left \<Rightarrow> if left < 8192 then left else 8192 | None \<Rightarrow> 8192"
  have closed: "pumping J (set_fd ch fd' st) s'"
    if "running J (received J rd) rd (set_fd ch fd' st) s'" "fd' < 0" for fd' s'
    unfolding pumping_def using that course len by (auto simp: on_course_def)
  have close: "wp E (bind (close_channel ch st) (\<lambda>st. ret (st, left, None))) Q s1"
    if "running J (received J rd) rd st s1" "length (script s1) \<le> length (script s)" for s1
    unfolding wp_bind wp_ret by (rule wp_close_channel [where E = E, OF that(1) E]) (use that(2) closed in \<open>auto intro!: ok\<close>)
  have mine: "fd_of ch st = jb_fd J ch" using course fd by (force simp: on_course_def)
  show ?thesis
  proof (cases "?amount = 0")
    case True
    then show ?thesis
      using close [OF r] by (simp add: nq_process_read_output_def)
  next
    case False
    show ?thesis
      unfolding nq_process_read_output_def Let_def if_not_P [OF False] c_read_def wp_bind wp_ret
    proof (rule child_read [where E = E, OF r E], goal_cases)
      case (1 r s1)
      show ?case
      proof (cases "r_ret r < 0")
        case True
        then have r1: "running J (received J rd) rd st s1" using 1(1) by simp
        show ?thesis
          unfolding if_P [OF True] option.case wp_bind [of _ get_errno] wp_get_errno
          using 1(2) course len r1
          by (auto simp: wp_ret pumping_def intro!: ok err wp_abandon_errno [OF cfg r1])
      next
        case no: False
        let ?bs = "take ?amount (r_bytes r)"
        have rd1: "transfer (ReadFd (fd_of ch st) ?amount, r) rd = rd(fd_of ch st := rd (fd_of ch st) @ ?bs)"
          using no by simp
        note r1 = 1(1) [unfolded rd1]
        show ?thesis
        proof (cases "?bs = []")
          case True
          have "running J (received J rd) rd st s1" using r1 True by simp
          then show ?thesis
            using no True close [of s1] 1(2) by (auto intro!: err wp_abandon_data [OF cfg])
        next
          case bs: False
          note new = received_read [OF job fd mine, of rd ?bs, symmetric]
          have limits: "ps_limit st = jb_limit J" "jb_limit J \<le> SIZE_MAX"
            using course job by (simp_all add: on_course_def good_job_def)
          have "wp E (take_output c st ch left op ?bs) Q s1"
          proof (rule wp_take_output [where E = E, OF cfg r1 E limits len], goal_cases)
            case (1 st' left' s2)
            have "on_course J st'" using course 1(3-5) by (auto simp: on_course_def) metis
            moreover have "length (received J (rd(fd_of ch st := rd (fd_of ch st) @ ?bs)) Stdout) +
                length (received J (rd(fd_of ch st := rd (fd_of ch st) @ ?bs)) Stderr) \<le> jb_limit J"
              using 1(2) unfolding new [symmetric] by (cases ch) auto
            ultimately have "pumping J st' s2" using 1(1) unfolding new pumping_def by blast
            with 1 \<open>length (script s1) < length (script s)\<close> show ?case by (intro ok) auto
          qed (rule err)
          with no bs show ?thesis by simp
        qed
      qed
    qed
  qed
qed

section \<open>A round, step by step\<close>

lemma pumpingE:
  assumes "pumping J st s"
  obtains rd where "running J (received J rd) rd st s" and "on_course J st"
    and "\<And>st' s'. running J (received J rd) rd st' s' \<Longrightarrow> on_course J st' \<Longrightarrow> pumping J st' s'"
  using assms by (auto simp: pumping_def)

text \<open>Signalling and waiting change nothing but the record of the child.\<close>

lemma running_moved:
  assumes "running J v rd st s" and "buffers v st (jb_raws J) R'" and "same_child st st'"
    and "child (add_mset (ps_input st, jb_text J) (jb_strs J)) R' (jb_pid J) (jb_from J) rd (ps_pid st') s'"
  shows "running J v rd st' s'"
  using assms unfolding running_def buffers_def same_child_def by auto

lemma wp_running_probe:
  assumes run: "running J v rd st s" and E: "E Blocked"
    and post: "\<And>st' err ex s'. running J v rd st' s' \<Longrightarrow> same_child st st' \<Longrightarrow>
        (err = 0 \<Longrightarrow> ps_pid st' = jb_pid J) \<Longrightarrow> length (script s') \<le> length (script s) \<Longrightarrow>
        (err = 0 \<Longrightarrow> length (script s') < length (script s)) \<Longrightarrow> Q (st', err, ex) s'"
  shows "wp E (nq_process_probe st exited) Q s"
  using run
proof (rule running_child)
  fix R' assume buf: "buffers v st (jb_raws J) R'"
    and c: "child (add_mset (ps_input st, jb_text J) (jb_strs J)) R' (jb_pid J) (jb_from J) rd (ps_pid st) s"
  show ?thesis
    by (rule wp_nq_process_probe [where E = E, OF c E]) (auto intro!: post running_moved [OF run buf])
qed

lemma wp_running_signal:
  assumes run: "running J v rd st s" and E: "E Blocked"
    and post: "\<And>st' err ex s'. running J v rd st' s' \<Longrightarrow> same_child st st' \<Longrightarrow>
        (err = 0 \<Longrightarrow> ps_pid st' = jb_pid J) \<Longrightarrow> length (script s') \<le> length (script s) \<Longrightarrow> Q (st', err, ex) s'"
  shows "wp E (nq_process_signal_owned st observed) Q s"
  using run
proof (rule running_child)
  fix R' assume buf: "buffers v st (jb_raws J) R'"
    and c: "child (add_mset (ps_input st, jb_text J) (jb_strs J)) R' (jb_pid J) (jb_from J) rd (ps_pid st) s"
  show ?thesis
    by (rule wp_nq_process_signal_owned [where E = E, OF c E]) (auto intro!: post running_moved [OF run buf])
qed

lemma wp_running_terminal:
  assumes run: "running J v rd st s" and E: "E Blocked"
    and post: "\<And>st' err s'. running J v rd st' s' \<Longrightarrow> same_child st st' \<Longrightarrow>
        (err = 0 \<Longrightarrow> ps_pid st = jb_pid J \<Longrightarrow> ps_pid st' = jb_pid J) \<Longrightarrow>
        length (script s') \<le> length (script s) \<Longrightarrow> Q (st', err) s'"
  shows "wp E (nq_process_signal_terminal st) Q s"
  using run
proof (rule running_child)
  fix R' assume buf: "buffers v st (jb_raws J) R'"
    and c: "child (add_mset (ps_input st, jb_text J) (jb_strs J)) R' (jb_pid J) (jb_from J) rd (ps_pid st) s"
  show ?thesis
    by (rule wp_nq_process_signal_terminal [where E = E, OF c E]) (auto intro!: post running_moved [OF run buf])
qed

lemma wp_running_retry:
  assumes run: "running J v rd st s" and E: "E Blocked" and "\<not> reserved ev" and "\<not> moves ev"
    and post: "\<And>r s'. running J v rd st s' \<Longrightarrow> length (script s') \<le> length (script s) \<Longrightarrow> Q r s'"
  shows "wp E (retry_call ev) Q s"
  using run
proof (rule running_child)
  fix R' assume buf: "buffers v st (jb_raws J) R'"
    and c: "child (add_mset (ps_input st, jb_text J) (jb_strs J)) R' (jb_pid J) (jb_from J) rd (ps_pid st) s"
  show ?thesis
    by (rule wp_child_retry_other [where E = E, OF c E assms(3,4)]) (auto intro!: post running_again [OF run buf])
qed

lemma wp_pump_fails:
  assumes "good_config c" and "label op" and "running J v rd st s"
    and "\<And>e s'. given_up J st e s' \<Longrightarrow> Q (st, Inl e) s'"
  shows "wp E (pump_fails c op code st) Q s"
  unfolding pump_fails_def by (rule wp_abandon_errno [OF assms(1-3)]) (rule assms(4))

lemma wp_pump_deadline:
  assumes cfg: "good_config c" "label op" and run: "pumping J st s" and E: "E Blocked"
    and d: "\<forall>d. deadline = Some d \<longrightarrow> i64_range (i_ns d)"
    and ok: "\<And>x s'. pumping J st s' \<Longrightarrow> length (script s') \<le> length (script s) \<Longrightarrow> Q (st, Inr x) s'"
    and err: "\<And>e s'. given_up J st e s' \<Longrightarrow> Q (st, Inl e) s'"
  shows "wp E (pump_deadline c st deadline cancel exited op) Q s"
proof -
  obtain rd where r: "running J (received J rd) rd st s" and course: "on_course J st"
    and again: "\<And>st' s'. running J (received J rd) rd st' s' \<Longrightarrow> on_course J st' \<Longrightarrow> pumping J st' s'"
    using pumpingE [OF run] by blast
  obtain R' where buf: "buffers (received J rd) st (jb_raws J) R'"
    and c: "child (add_mset (ps_input st, jb_text J) (jb_strs J)) R' (jb_pid J) (jb_from J) rd (ps_pid st) s"
    by (rule running_child [OF r])
  show ?thesis
  proof (cases deadline)
    case None
    then show ?thesis using run by (simp add: pump_deadline_def wp_ret ok)
  next
    case (Some d)
    show ?thesis
    proof (cases "\<not> exited \<and> \<not> ps_signalled st \<and> \<not> cancel")
      case False
      then show ?thesis using Some run by (auto simp: pump_deadline_def wp_ret intro!: ok)
    next
      case True
      show ?thesis
        unfolding pump_deadline_def Some option.case if_P [OF True] wp_bind [of _ "nq_clock_ns c True op"]
      proof (rule wp_nq_clock_ns [where E = E, OF cfg(1) child_owns [OF c] cfg(2) E], goal_cases)
        case (1 now s1)
        have p1: "pumping J st s1"
          by (rule again [OF running_again [OF r buf child_clock [OF c 1(4,1)]] course])
        have len: "length (script s1) \<le> length (script s)" by (rule clock_calls_script [OF 1(4)])
        show ?case
        proof (cases "i_ns d \<le> now")
          case True
          then show ?thesis using p1 len by (simp add: wp_ret ok)
        next
          case False
          then have range: "INT64_MIN \<le> i_ns d - now" "i_ns d - now \<le> INT64_MAX"
            using d Some 1(2,3) by (auto simp: i64_range_def clock_answered_def INT64_MIN_def)
          show ?thesis
            unfolding sum.case if_not_P [OF False] wp_bind wp_i64_difference [OF range] wp_ret
            by (rule ok [OF p1 len])
        qed
      next
        case (2 e w s1)
        then show ?case
          unfolding sum.case wp_ret by (intro err abandonedI [OF r buf c])
      qed
    qed
  qed
qed

lemma fd_of_upd [simp]:
  "fd_of ch (st\<lparr>ps_input_fd := x\<rparr>) = fd_of ch st" "fd_of ch (st\<lparr>ps_outcome := y\<rparr>) = fd_of ch st"
  "fd_of ch (st\<lparr>ps_sent := n\<rparr>) = fd_of ch st"
  by (cases ch; simp)+

lemma on_course_upd [simp]:
  "on_course J (st\<lparr>ps_input_fd := x\<rparr>) = on_course J st" "on_course J (st\<lparr>ps_outcome := y\<rparr>) = on_course J st"
  by (simp_all add: on_course_def)

lemma on_course_closed: "on_course J st \<Longrightarrow> fd < 0 \<Longrightarrow> on_course J (set_fd ch fd st)"
  by (simp add: on_course_def)

lemma wp_pump_signal:
  assumes cfg: "good_config c" "label op" and run: "pumping J st s" and E: "E Blocked"
    and pid: "ps_pid st = jb_pid J"
    and ok: "\<And>st' x s'. pumping J st' s' \<Longrightarrow> ps_pid st' = jb_pid J \<Longrightarrow>
        length (script s') \<le> length (script s) \<Longrightarrow> Q (st', Inr x) s'"
    and err: "\<And>st' e s'. given_up J st' e s' \<Longrightarrow> Q (st', Inl e) s'"
  shows "wp E (pump_signal c st exited expired cancel op) Q s"
proof (cases "\<not> ps_signalled st \<and> (exited \<or> expired \<or> cancel)")
  case False
  then show ?thesis using run pid by (auto simp: pump_signal_def wp_ret intro!: ok)
next
  case True
  obtain rd where r: "running J (received J rd) rd st s" and course: "on_course J st"
    and again: "\<And>st' s'. running J (received J rd) rd st' s' \<Longrightarrow> on_course J st' \<Longrightarrow> pumping J st' s'"
    using pumpingE [OF run] by blast
  show ?thesis
    unfolding pump_signal_def if_P [OF True] wp_bind [of _ "nq_process_signal_owned st exited"]
  proof (rule wp_running_signal [where E = E, OF r E], goal_cases)
    case (1 st1 err ex s1)
    have c1: "on_course J st1" using course on_course_same [OF 1(2)] by simp
    show ?case
    proof (cases "err \<noteq> 0")
      case True
      then show ?thesis using 1(1) by (auto intro!: wp_pump_fails [OF cfg] assms(7))
    next
      case False
      let ?st = "st1\<lparr>ps_outcome := (ps_outcome st1)\<lparr>po_timed_out := \<not> ex \<and> expired, po_cancelled := \<not> ex \<and> cancel\<rparr>\<rparr>"
      have "running J (received J rd) rd ?st s1" using 1(1) by simp
      then show ?thesis
        unfolding prod.case if_not_P [OF False] Let_def wp_bind wp_ret
        by (rule wp_running_close [where E = E, OF _ E])
          (use 1(3,4) False c1 in \<open>auto intro!: ok again\<close>)
    qed
  qed
qed

lemma wp_queued:
  assumes "running J v rd st s" and "E Blocked"
    and "\<And>x s'. running J v rd st s' \<Longrightarrow> length (script s') \<le> length (script s) \<Longrightarrow> Q x s'"
  shows "wp E (nq_process_queued fd left) Q s"
proof (cases "fd < 0")
  case True
  then show ?thesis using assms by (simp add: nq_process_queued_def wp_ret)
next
  case False
  show ?thesis
    unfolding nq_process_queued_def if_not_P [OF False] Let_def wp_bind wp_get_errno wp_ret
    by (rule wp_running_retry [where E = E, OF assms(1,2)]) (auto intro: assms(3))
qed

lemma wp_pump_drain:
  assumes cfg: "good_config c" "label op" and run: "pumping J st s" and E: "E Blocked"
    and pid: "ps_pid st = jb_pid J"
    and ok: "\<And>st' x s'. pumping J st' s' \<Longrightarrow> ps_pid st' = jb_pid J \<Longrightarrow>
        length (script s') \<le> length (script s) \<Longrightarrow> Q (st', Inr x) s'"
    and err: "\<And>st' e s'. given_up J st' e s' \<Longrightarrow> Q (st', Inl e) s'"
  shows "wp E (pump_drain c st out err op) Q s"
proof -
  obtain rd where r: "running J (received J rd) rd st s" and course: "on_course J st"
    and again: "\<And>st' s'. running J (received J rd) rd st' s' \<Longrightarrow> on_course J st' \<Longrightarrow> pumping J st' s'"
    using pumpingE [OF run] by blast
  have closing: "wp E (bind (if out' = 0 then close_channel Stdout st1 else ret st1) (\<lambda>st.
              bind (if err' = 0 then close_channel Stderr st else ret st) (\<lambda>st.
                ret (st, Inr (out', err'))))) Q s1"
    if "running J (received J rd) rd st1 s1" "on_course J st1" "ps_pid st1 = jb_pid J"
      "length (script s1) \<le> length (script s)" for out' err' st1 s1
  proof -
    have second: "wp E (bind (if err' = 0 then close_channel Stderr st2 else ret st2) (\<lambda>st. ret (st, Inr (out', err')))) Q s2"
      if "running J (received J rd) rd st2 s2" "on_course J st2" "ps_pid st2 = jb_pid J"
        "length (script s2) \<le> length (script s)" for st2 s2
      using that by (auto simp: wp_bind wp_ret on_course_closed simp del: set_fd.simps intro!: ok again wp_close_channel [where E = E, OF that(1) E])
    show ?thesis
    proof (cases "out' = 0")
      case True
      show ?thesis
        unfolding if_P [OF True] wp_bind [of _ "close_channel Stdout st1"]
        by (rule wp_close_channel [where E = E, OF that(1) E], rule second)
          (use that in \<open>auto simp: on_course_closed simp del: set_fd.simps\<close>)
    next
      case False
      show ?thesis
        unfolding if_not_P [OF False] wp_bind [of _ "ret st1"] wp_ret by (rule second [OF that])
    qed
  qed
  show ?thesis
    unfolding pump_drain_def wp_bind [of _ "nq_process_signal_terminal st"]
  proof (rule wp_running_terminal [where E = E, OF r E], goal_cases)
    case (1 st1 e1 s1)
    have c1: "on_course J st1" using course on_course_same [OF 1(2)] by simp
    show ?case
    proof (cases "e1 \<noteq> 0")
      case True
      then show ?thesis using 1(1) by (auto intro!: wp_pump_fails [OF cfg] assms(7))
    next
      case False
      then have p1: "ps_pid st1 = jb_pid J" using 1(3) pid by simp
      have check: "wp E (if e \<noteq> 0 then pump_fails c op e st1 else
         let room = size_minus (ps_limit st1) (captured st1) in
         if out' > room \<or> err' > size_minus room out'
         then bind (nq_invalid_data_io_err c (Some op) None
                ''combined process output exceeds capture limit'') (\<lambda>e. ret (st1, Inl e))
         else bind (if out' = 0 then close_channel Stdout st1 else ret st1) (\<lambda>st.
              bind (if err' = 0 then close_channel Stderr st else ret st) (\<lambda>st.
                ret (st, Inr (out', err'))))) Q s2"
        if "running J (received J rd) rd st1 s2" "length (script s2) \<le> length (script s)" for e out' err' s2
        using closing [OF that(1) c1 p1 that(2)] that(1)
        by (auto simp: Let_def intro!: wp_pump_fails [OF cfg] wp_abandon_data [OF cfg] assms(7))
      show ?thesis
        unfolding prod.case if_not_P [OF False] wp_bind [of _ "nq_process_queued (ps_output_fd st1) out"]
      proof (rule wp_queued [where E = E, OF 1(1) E], goal_cases)
        case (1 x s2)
        obtain e out' where x: "x = (e, out')" by (cases x)
        have l2: "length (script s2) \<le> length (script s)" using 1(2) \<open>length (script s1) \<le> length (script s)\<close> by simp
        show ?case
        proof (cases "e = 0")
          case True
          show ?thesis
            unfolding x prod.case if_P [OF True] wp_bind [of _ "nq_process_queued (ps_error_fd st1) err"]
          proof (rule wp_queued [where E = E, OF 1(1) E], goal_cases)
            case (1 y s3)
            obtain e' err' where y: "y = (e', err')" by (cases y)
            show ?case unfolding y prod.case by (rule check [OF 1(1)]) (use 1(2) l2 in simp)
          qed
        next
          case no: False
          show ?thesis
            unfolding x prod.case if_not_P [OF no] wp_bind [of _ "ret _"] wp_ret
            by (rule check [OF 1(1) l2])
        qed
      qed
    qed
  qed
qed

text \<open>Feeding the input: only bytes of the input that have not been sent are offered.\<close>

lemma readable_part:
  "readable L R p n v \<Longrightarrow> i + k \<le> n \<Longrightarrow> readable L R (ptr_plus p i) k (take k (drop i v))"
  unfolding readable_def using read_bytes_part by blast

lemma wp_pump_input:
  assumes cfg: "good_config c" "label op" and job: "good_job J" and run: "pumping J st s" and E: "E Blocked"
    and ok: "\<And>st' s'. pumping J st' s' \<Longrightarrow> length (script s') \<le> length (script s) \<Longrightarrow> Q (st', Inr ()) s'"
    and err: "\<And>st' e s'. given_up J st' e s' \<Longrightarrow> Q (st', Inl e) s'"
  shows "wp E (pump_input c st op) Q s"
proof -
  obtain rd where r: "running J (received J rd) rd st s" and course: "on_course J st"
    and again: "\<And>st' s'. running J (received J rd) rd st' s' \<Longrightarrow> on_course J st' \<Longrightarrow> pumping J st' s'"
    using pumpingE [OF run] by blast
  obtain R' where buf: "buffers (received J rd) st (jb_raws J) R'"
    and c: "child (add_mset (ps_input st, jb_text J) (jb_strs J)) R' (jb_pid J) (jb_from J) rd (ps_pid st) s"
    by (rule running_child [OF r])
  note owns = child_owns [OF c]
  let ?text = "jb_text J"
  have len: "s_len (ps_input st) = int (length ?text)" by (rule owns_live_len [OF child_owns [OF c]]) simp
  have sent: "ps_sent st \<le> length ?text" using course by (simp add: on_course_def)
  let ?left = "length ?text - ps_sent st"
  let ?amount = "if ?left < 8192 then ?left else 8192"
  have left: "size_minus (to_size (s_len (ps_input st))) (ps_sent st) = ?left"
    using job sent by (simp add: len good_job_def to_size_def size_minus_id SIZE_MAX_def INT32_MAX_def)
  have "readable (add_mset (ps_input st, ?text) (jb_strs J)) R' (ptr_plus (s_data (ps_input st)) (ps_sent st)) ?amount
      (take ?amount (drop (ps_sent st) ?text))"
    by (rule readable_part [where n = "length ?text"])
      (use readable_live [of "ps_input st" ?text "add_mset (ps_input st, ?text) (jb_strs J)" R'] sent in \<open>auto simp: len\<close>)
  then show ?thesis
    unfolding pump_input_def left Let_def wp_bind
  proof (rule wp_load_bytes [OF owns], goal_cases)
    case 1
    let ?bs = "take ?amount (drop (ps_sent st) ?text)"
    show ?case
      unfolding wp_get_errno
    proof (rule wp_nq_process_write_input [where E = E, OF c E], goal_cases)
      case (1 n s1)
      have r1: "running J (received J rd) rd st s1" by (rule running_again [OF r buf 1(1)])
      have n: "n \<le> int ?left" using 1(3) by (auto split: if_splits)
      have p1: "pumping J st s1" by (rule again [OF r1 course])
      have fails: "wp E (pump_fails c op code st) Q s1" for code by (rule wp_pump_fails [OF cfg r1]) (rule err)
      show ?case
      proof (cases "n < 0")
        case True
        have "wp E (nq_process_close_fd (ps_input_fd st)) (\<lambda>fd. Q (st\<lparr>ps_input_fd := fd\<rparr>, Inr ())) s1"
          by (rule wp_running_close [where E = E, OF r1 E]) (use 1(2) course in \<open>auto intro!: ok again\<close>)
        with True 1(2) p1 show ?thesis by (auto simp: wp_simps intro!: fails ok)
      next
        case False
        have "ps_sent st + nat n \<le> length ?text" using n sent False by linarith
        then have "size_plus (ps_sent st) (nat n) = ps_sent st + nat n"
          using job by (intro size_plus_id) (simp add: good_job_def SIZE_MAX_def INT32_MAX_def)
        then have "on_course J (st\<lparr>ps_sent := size_plus (ps_sent st) (nat n)\<rparr>)"
          using course n False sent by (simp add: on_course_def)
        then have "pumping J (st\<lparr>ps_sent := size_plus (ps_sent st) (nat n)\<rparr>) s1" using r1 by (intro again) simp_all
        with False 1(2) show ?thesis by (auto simp: wp_ret intro!: fails ok)
      qed
    qed
  qed
qed

lemma wp_pump_serve:
  assumes cfg: "good_config c" "label op" and job: "good_job J" and run: "pumping J st s" and E: "E Blocked"
    and out: "revents ! 1 \<noteq> 0 \<Longrightarrow> 0 \<le> fd_of Stdout st" and error: "revents ! 2 \<noteq> 0 \<Longrightarrow> 0 \<le> fd_of Stderr st"
    and ok: "\<And>st' x s'. pumping J st' s' \<Longrightarrow> length (script s') \<le> length (script s) \<Longrightarrow> Q (st', Inr x) s'"
    and err: "\<And>st' e s'. given_up J st' e s' \<Longrightarrow> Q (st', Inl e) s'"
  shows "wp E (pump_serve c st draining n m revents op) Q s"
proof (cases "\<exists>i<3. POLLNVAL (revents ! i)")
  case True
  obtain rd where r: "running J (received J rd) rd st s" using run by (auto simp: pumping_def)
  show ?thesis unfolding pump_serve_def if_P [OF True] by (rule wp_pump_fails [OF cfg r]) (rule err)
next
  case False
  let ?input = "\<lambda>st (x :: nat \<times> nat). bind (if revents ! 0 \<noteq> 0 then pump_input c st op else ret (st, Inr ())) (\<lambda>(st, r).
        case r of Inl e \<Rightarrow> ret (st, Inl e) | Inr _ \<Rightarrow> ret (st, Inr x))"
  have input: "wp E (?input st' x) Q s'"
    if "pumping J st' s'" "length (script s') \<le> length (script s)" for st' s' x
  proof (cases "revents ! 0 \<noteq> 0")
    case True
    show ?thesis
      unfolding if_P [OF True] wp_bind
      by (rule wp_pump_input [where E = E, OF cfg job that(1) E])
        (use that(2) in \<open>auto simp: wp_ret intro!: ok err\<close>)
  next
    case False
    then show ?thesis using that by (simp add: wp_bind wp_ret ok)
  qed
  let ?error = "\<lambda>st left_out. bind (if revents ! 2 \<noteq> 0
              then nq_process_read_output c st Stderr (if draining then Some m else None) op
              else ret (st, if draining then Some m else None, None)) (\<lambda>(st, left_err, failed).
        case failed of Some e \<Rightarrow> ret (st, Inl e) | None \<Rightarrow>
          ?input st (case left_out of Some n \<Rightarrow> n | None \<Rightarrow> n, case left_err of Some n \<Rightarrow> n | None \<Rightarrow> m))"
  have error: "wp E (?error st' left_out) Q s'"
    if "pumping J st' s'" "length (script s') \<le> length (script s)" "fd_of Stderr st' = fd_of Stderr st" for st' s' left_out
  proof (cases "revents ! 2 \<noteq> 0")
    case True
    then have fd: "0 \<le> fd_of Stderr st'" using error that(3) by simp
    show ?thesis
      unfolding if_P [OF True] wp_bind [of _ "nq_process_read_output c st' Stderr _ op"]
    proof (rule wp_read_output [where E = E, OF cfg job that(1) E fd], goal_cases)
      case (1 st2 left s2)
      show ?case unfolding prod.case option.case by (rule input [OF 1(1)]) (use 1(3) that(2) in simp)
    next
      case (2 st2 left e s2)
      then show ?case unfolding prod.case option.case wp_ret by (rule err)
    qed
  next
    case False
    show ?thesis
      unfolding if_not_P [OF False] wp_bind [of _ "ret _"] wp_ret prod.case option.case
      by (rule input [OF that(1,2)])
  qed
  show ?thesis
  proof (cases "revents ! 1 \<noteq> 0")
    case True
    show ?thesis
      unfolding pump_serve_def if_not_P [OF False] if_P [OF True] wp_bind [of _ "nq_process_read_output c st Stdout _ op"]
    proof (rule wp_read_output [where E = E, OF cfg job run E out [OF True]], goal_cases)
      case (1 st2 left s2)
      show ?case unfolding prod.case option.case by (rule error [OF 1(1,3)]) (use 1(2) [rule_format, of Stderr] in simp)
    next
      case (2 st2 left e s2)
      then show ?case unfolding prod.case option.case wp_ret by (rule err)
    qed
  next
    case no: False
    show ?thesis
      unfolding pump_serve_def if_not_P [OF False] if_not_P [OF no] wp_bind [of _ "ret (st, if draining then Some n else None, None)"]
        wp_ret prod.case option.case
      by (rule error [OF run]) simp_all
  qed
qed

lemma wp_pump_wait:
  assumes cfg: "good_config c" "label op" and job: "good_job J" and run: "pumping J (pu_state p) s" and E: "E Blocked"
    and ok: "\<And>p' s'. pumping J (pu_state p') s' \<Longrightarrow> length (script s') \<le> length (script s) \<Longrightarrow> Q (Inl p') s'"
    and err: "\<And>st' e s'. given_up J st' e s' \<Longrightarrow> Q (Inr (st', Some e)) s'"
  shows "wp E (pump_wait c p exited timeout op) Q s"
proof -
  let ?poll = "\<lambda>st. let waiting = (\<not> exited \<and> ps_input_fd st < 0 \<and> ps_output_fd st < 0 \<and> ps_error_fd st < 0);
          timeout = (if waiting \<and> pu_idle_attempts p < 5 \<and> timeout > 1 then 1 else timeout);
          idle = (if waiting then if pu_idle_attempts p < 5 then pu_idle_attempts p + 1 else pu_idle_attempts p
                  else 0);
          p = p\<lparr>pu_state := st, pu_idle_attempts := idle\<rparr> in
      bind (c_poll [(ps_input_fd st, True), (ps_output_fd st, False), (ps_error_fd st, False)] timeout) (\<lambda>polled.
        case polled of
          None \<Rightarrow> bind get_errno (\<lambda>e.
            if e = EINTR then ret (Inl p)
            else bind (nq_errno_io_err c (Some op) None None e) (\<lambda>err. ret (Inr (st, Some err))))
        | Some revents \<Rightarrow>
            bind (pump_serve c st (pu_draining p) (pu_output_remaining p) (pu_error_remaining p) revents op)
              (\<lambda>(st, r). case r of
                Inl e \<Rightarrow> ret (Inr (st, Some e))
              | Inr (out, err) \<Rightarrow>
                  ret (Inl (p\<lparr>pu_state := st, pu_output_remaining := out, pu_error_remaining := err\<rparr>))))"
  have poll: "wp E (?poll st) Q s'" if p: "pumping J st s'" and l: "length (script s') \<le> length (script s)" for st s'
  proof -
    obtain rd where r: "running J (received J rd) rd st s'" and course: "on_course J st"
      and again: "\<And>st' s'. running J (received J rd) rd st' s' \<Longrightarrow> on_course J st' \<Longrightarrow> pumping J st' s'"
      using pumpingE [OF p] by blast
    obtain R' where buf: "buffers (received J rd) st (jb_raws J) R'"
      and c: "child (add_mset (ps_input st, jb_text J) (jb_strs J)) R' (jb_pid J) (jb_from J) rd (ps_pid st) s'"
      by (rule running_child [OF r])
    show ?thesis
      unfolding Let_def c_poll_def wp_bind [of _ "bind _ _"] wp_bind [of _ "sys _"] wp_ret
    proof (rule wp_child_other [where E = E, OF c E], goal_cases)
      case (3 r1 s1)
      have run1: "running J (received J rd) rd st s1" by (rule running_again [OF r buf 3(1)])
      have p1: "pumping J st s1" by (rule again [OF run1 course])
      have l1: "length (script s1) \<le> length (script s)" using 3(2) l by simp
      show ?case
      proof (cases "r_ret r1 < 0")
        case True
        then show ?thesis
          using p1 l1 by (auto simp: wp_get_errno wp_bind [of _ get_errno] wp_ret intro!: ok err wp_abandon_errno [OF cfg run1])
      next
        case False
        show ?thesis
          unfolding if_not_P [OF False] option.case wp_bind
        proof (rule wp_pump_serve [where E = E, OF cfg job p1 E], goal_cases)
          case (3 st2 x s2)
          then show ?case using l1 by (auto simp: wp_ret split: prod.split intro!: ok)
        next
          case (4 st2 e s2)
          then show ?case by (simp add: wp_ret err)
        qed (auto split: if_splits)
      qed
    qed simp_all
  qed
  show ?thesis
  proof (cases "ps_input_fd (pu_state p) \<ge> 0 \<and> ps_sent (pu_state p) = to_size (s_len (ps_input (pu_state p)))")
    case True
    obtain rd where r: "running J (received J rd) rd (pu_state p) s" and course: "on_course J (pu_state p)"
      and again: "\<And>st' s'. running J (received J rd) rd st' s' \<Longrightarrow> on_course J st' \<Longrightarrow> pumping J st' s'"
      using pumpingE [OF run] by blast
    show ?thesis
      unfolding pump_wait_def Let_def if_P [OF True] wp_bind [of _ "bind _ _"] wp_bind [of _ "nq_process_close_fd _"] wp_ret
      by (rule wp_running_close [where E = E, OF r E], rule poll [unfolded Let_def]) (use course in \<open>auto intro: again\<close>)
  next
    case False
    show ?thesis
      unfolding pump_wait_def Let_def if_not_P [OF False] wp_bind [of _ "ret (pu_state p)"] wp_ret
      by (rule poll [unfolded Let_def, OF run]) simp
  qed
qed

section \<open>The end of the child\<close>



lemma wp_retry_reply:
  assumes "E Blocked"
  shows "wp E (retry_call ev) (\<lambda>r s'. \<exists>pre. script s = pre @ r # script s' \<and>
     trace s' = trace s @ replicate (Suc (length pre)) ev \<and> errno s' = r_errno r) s"
  unfolding retry_call_def
proof (rule wp_loop [where I = "\<lambda>_ s1. \<exists>pre. script s = pre @ script s1 \<and> trace s1 = trace s @ replicate (length pre) ev"], goal_cases)
  case (2 a s1)
  then obtain pre where pre: "script s = pre @ script s1" "trace s1 = trace s @ replicate (length pre) ev" by blast
  have "\<exists>pre. script s = pre @ rs \<and> trace s1 @ [ev] = trace s @ replicate (length pre) ev" if "script s1 = r # rs" for r rs
    using pre that by (intro exI [of _ "pre @ [r]"]) (simp flip: replicate_append_same)
  moreover have "\<exists>pre. script s = pre @ r # rs \<and> trace s1 @ [ev] = trace s @ ev # replicate (length pre) ev" if "script s1 = r # rs" for r rs
    using pre that by (intro exI [of _ "pre"]) (simp add: replicate_append_same)
  ultimately show ?case
    using assms by (auto simp: wp_bind wp_sys wp_get_errno wp_ret split: list.splits)
qed simp

text \<open>The child's status is that of the reply that reaped it.\<close>

definition exit_code :: "int \<Rightarrow> int" where
  "exit_code status = (if WIFEXITED status then WEXITSTATUS status else 128 + WTERMSIG status)"

text \<open>A call that fails says why: a documented property of the kernel.\<close>

definition explains :: "nqstate \<Rightarrow> bool" where
  "explains s \<longleftrightarrow> (\<forall>r \<in> set (script s). r_ret r < 0 \<longrightarrow> r_errno r \<noteq> 0)"

definition reaped_by :: "job \<Rightarrow> (int \<Rightarrow> string) \<Rightarrow> reply \<Rightarrow> nqstate \<Rightarrow> bool" where
  "reaped_by J rd r s \<longleftrightarrow> r_ret r = jb_pid J \<and>
     (\<exists>h. calls (jb_from J) h s \<and> disciplined (jb_pid J) h \<and> moved h = rd \<and> (Waitpid (jb_pid J), r) \<in> set h)"

lemma reaped_by_world: "reaped_by J rd r s \<Longrightarrow> world s' = world s \<Longrightarrow> reaped_by J rd r s'"
  unfolding reaped_by_def using calls_world by blast

lemma reaped_by_call:
  assumes "reaped_by J rd r s" and "\<not> reserved ev" and "\<not> moves ev"
    and "script s = r' # script s'" and "trace s' = trace s @ [ev]"
  shows "reaped_by J rd r s'"
proof -
  obtain h where h: "calls (jb_from J) h s" "disciplined (jb_pid J) h" "moved h = rd"
      "(Waitpid (jb_pid J), r) \<in> set h" and r: "r_ret r = jb_pid J"
    using assms(1) by (auto simp: reaped_by_def)
  show ?thesis
    unfolding reaped_by_def
    by (intro conjI r exI [of _ "h @ [(ev, r')]"])
      (use h calls_snoc [OF h(1) assms(4,5)] assms(2,3) in \<open>simp_all add: disciplined_snoc moved_snoc transfer_still\<close>)
qed

lemma reaped_by_last:
  assumes "child L R (jb_pid J) (jb_from J) rd0 p0 s0" and "child L' R' (jb_pid J) (jb_from J) rd p s"
    and "script s0 = pre @ r # script s" and "trace s = trace s0 @ replicate (Suc (length pre)) (Waitpid (jb_pid J))"
    and "r_ret r = jb_pid J"
  shows "reaped_by J rd r s"
proof -
  obtain h0 where h0: "calls (jb_from J) h0 s0" using assms(1) by (auto simp: child_def)
  obtain h where h: "calls (jb_from J) h s" "disciplined (jb_pid J) h" "moved h = rd"
    using assms(2) by (auto simp: child_def)
  have "map snd h = map snd (h0 @ map (Pair (Waitpid (jb_pid J))) (pre @ [r]))"
    using h0 h(1) assms(3) by (simp add: calls_def comp_def)
  moreover have "map fst h = map fst (h0 @ map (Pair (Waitpid (jb_pid J))) (pre @ [r]))"
    using h0 h(1) assms(4) by (simp add: calls_def comp_def map_replicate_const replicate_append_same)
  ultimately have "h = h0 @ map (Pair (Waitpid (jb_pid J))) (pre @ [r])"
    by (metis zip_map_fst_snd)
  then show ?thesis using h assms(5) by (auto simp: reaped_by_def)
qed

lemma wp_waitpid_status:
  assumes child: "child L R (jb_pid J) (jb_from J) rd (jb_pid J) s" and E: "E Blocked"
    and kernel: "explains (jb_from J)"
    and ok: "\<And>r s'. child L R (jb_pid J) (jb_from J) rd 0 s' \<Longrightarrow> reaped_by J rd r s' \<Longrightarrow>
        Q (0, to_i32 (reply_int r 0)) s'"
    and err: "\<And>err status s'. err \<noteq> 0 \<Longrightarrow> child L R (jb_pid J) (jb_from J) rd (if err = ECHILD then 0 else jb_pid J) s' \<Longrightarrow>
        Q (err, status) s'"
  shows "wp E (nq_process_waitpid (jb_pid J) status) Q s"
proof -
  let ?child = "\<lambda>a. child L R (jb_pid J) (jb_from J) rd (if fst a = 0 \<or> fst a = ECHILD then 0 else jb_pid J)"
  let ?reply = "\<lambda>a s'. fst a = (0::int) \<longrightarrow> ?child a s' \<longrightarrow>
    (\<exists>r. reaped_by J rd r s' \<and> snd a = to_i32 (reply_int r 0))"
  have "wp E (nq_process_waitpid (jb_pid J) status) ?reply s"
    unfolding nq_process_waitpid_def wp_bind wp_get_errno wp_ret
  proof (rule wp_mono [OF wp_retry_reply [where E = E, OF E]], elim exE conjE, goal_cases)
    case (1 r s' pre)
    obtain h where "calls (jb_from J) h s" using child by (auto simp: child_def)
    then have "r \<in> set (script (jb_from J))" using 1(1) by (simp add: calls_def)
    then have "r_ret r < 0 \<longrightarrow> r_errno r \<noteq> 0" using kernel by (simp add: explains_def)
    then show ?case
      using reaped_by_last [OF child _ 1(1,2)] 1(3) by (auto simp: EIO_def intro!: exI [of _ r])
  qed
  moreover have "wp E (nq_process_waitpid (jb_pid J) status) ?child s"
    by (rule wp_waitpid [where E = E, OF child E]) auto
  ultimately have "wp E (nq_process_waitpid (jb_pid J) status) (\<lambda>a s'. ?reply a s' \<and> ?child a s') s"
    by (rule wp_conj)
  then show ?thesis
  proof (rule wp_mono, goal_cases)
    case (1 a s')
    then show ?case by (cases a) (auto simp: ECHILD_def split: if_splits intro: ok err)
  qed
qed

section \<open>The outcome\<close>

lemma wp_take_capture:
  assumes buf: "closed_buffer b v R R'" and owns: "owns L R' s" and "inert t"
    and ok: "\<And>b' t' s'. bb_data b' = PNull \<Longrightarrow> owns (add_mset (t', v) L) R s' \<Longrightarrow> world s' = world s \<Longrightarrow> Q (b', t', None) s'"
    and err: "\<And>b' e s'. bb_data b' = PNull \<Longrightarrow> owns L R s' \<Longrightarrow> world s' = world s \<Longrightarrow> Q (b', t, Some e) s'"
  shows "wp E (take_capture c b t) Q s"
  using buf
proof (cases rule: closed_bufferE)
  case 1
  then show ?thesis
    using owns owns_add_inert [OF owns assms(3)] by (simp add: take_capture_def zero_buffer_def wp_ret ok)
next
  case (2 k junk)
  have same: "R'(k := None) = R" using 2 by simp
  have data: "bb_data b = PHeap k 0" "bb_len b = length v" by (simp_all add: 2(1))
  show ?thesis
    unfolding take_capture_def data if_P [OF ptr.distinct(4)] wp_bind
    by (rule wp_nq_try_str_take [OF owns, where cs = "map Some (v @ [CHR 0x00]) @ junk" and v = v])
      (use 2 same in \<open>auto simp: Let_def wp_ret those_eq_Some intro!: ok err\<close>)
qed

text \<open>
  \<open>outcome_ready J out s\<close>: the outcome owns two strings, the bytes that were read from the child's
  stdout and stderr, and the exit code is that of the reply that reaped the child.
\<close>

definition outcome_ready :: "job \<Rightarrow> nq_process_outcome_t \<Rightarrow> nqstate \<Rightarrow> bool" where
  "outcome_ready J out s \<longleftrightarrow> (\<exists>rd r. reaped_by J rd r s \<and> po_exit_code out = exit_code (to_i32 (reply_int r 0)) \<and>
     length (received J rd Stdout) + length (received J rd Stderr) \<le> jb_limit J \<and>
     owns (add_mset (po_stderr out, received J rd Stderr) (add_mset (po_stdout out, received J rd Stdout) (jb_strs J)))
       (jb_raws J) s)"

definition finished :: "job \<Rightarrow> nq_process_state \<Rightarrow> nqstate \<Rightarrow> bool" where
  "finished J st s \<longleftrightarrow> ps_pid st = 0 \<and> ps_input_fd st < 0 \<and> ps_output_fd st < 0 \<and> ps_error_fd st < 0 \<and>
     inert (ps_input st) \<and> bb_data (ps_output st) = PNull \<and> bb_data (ps_error st) = PNull \<and>
     outcome_ready J (ps_outcome st) s"

lemma wp_reaped_close:
  assumes "owns L R s" and "reaped_by J rd r s" and "E Blocked"
    and "\<And>fd' s'. owns L R s' \<Longrightarrow> reaped_by J rd r s' \<Longrightarrow> fd' < 0 \<Longrightarrow> Q fd' s'"
  shows "wp E (nq_process_close_fd fd) Q s"
proof (cases "fd \<ge> 0")
  case True
  show ?thesis
    unfolding nq_process_close_fd_def if_P [OF True] wp_andthen ignore_def wp_bind c_close_def wp_ret
    by (rule wp_sys_owns [where E = E, OF assms(1,3)]) (auto intro!: assms(4) reaped_by_call [OF assms(2)])
next
  case False
  then show ?thesis using assms by (simp add: nq_process_close_fd_def wp_ret)
qed

lemma wp_nq_process_finish:
  assumes cfg: "good_config c" "label op" and run: "pumping J st s" and E: "E Blocked"
    and pid: "ps_pid st = jb_pid J" and kernel: "explains (jb_from J)"
    and fds: "ps_output_fd st < 0" "ps_error_fd st < 0"
    and ok: "\<And>st' s'. finished J st' s' \<Longrightarrow> Q (st', None) s'"
    and err: "\<And>st' e s'. given_up J st' e s' \<Longrightarrow> Q (st', Some e) s'"
  shows "wp E (nq_process_finish c st op) Q s"
proof -
  obtain rd where r: "running J (received J rd) rd st s"
    and len: "length (received J rd Stdout) + length (received J rd Stderr) \<le> jb_limit J"
    using run by (auto simp: pumping_def)
  obtain R1 R' where error: "closed_buffer (ps_error st) (received J rd Stderr) (jb_raws J) R1"
    and out: "closed_buffer (ps_output st) (received J rd Stdout) R1 R'"
    and c: "child (add_mset (ps_input st, jb_text J) (jb_strs J)) R' (jb_pid J) (jb_from J) rd (ps_pid st) s"
    by (rule running_child [OF r]) (auto simp: buffers_def)
  have inert: "inert (po_stdout (ps_outcome st))" "inert (po_stderr (ps_outcome st))"
    using r by (simp_all add: running_def)
  show ?thesis
    unfolding nq_process_finish_def pid wp_bind [of _ "nq_process_waitpid (jb_pid J) 0"]
  proof (rule wp_waitpid_status [where E = E, OF c [unfolded pid] E kernel], goal_cases)
    case (2 e status s1)
    let ?st = "if e = ECHILD then st\<lparr>ps_pid := 0\<rparr> else st"
    have "running J (received J rd) rd ?st s1"
      using 2(2) error out inert pid unfolding running_def buffers_def by auto
    with 2(1) show ?case by (auto simp: Let_def intro!: wp_abandon_errno [OF cfg] err)
  next
    case (1 reply s1)
    let ?k = "exit_code (to_i32 (reply_int reply 0))"
    let ?S = "\<lambda>b t b' t'. st\<lparr>ps_pid := 0, ps_output := b, ps_error := b',
       ps_outcome := (ps_outcome st)\<lparr>po_exit_code := ?k, po_stdout := t, po_stderr := t'\<rparr>\<rparr>"
    have fail: "wp E (bind (nq_allocation_io_err c (Some op) f) (\<lambda>e. ret (?S b t b' t', Some e))) Q s2"
      if b: "bb_data b = PNull" "buffer_slot b' ve (jb_raws J) R2" and s2: "world s2 = world s1"
        and owns: "owns (add_mset (t', y) (add_mset (t, x) (add_mset (ps_input st, jb_text J) (jb_strs J)))) R2 s2"
      for b t b' t' f s2 x y ve R2
    proof (rule wp_fail_alloc [OF cfg(1) owns cfg(2)])
      fix e w
      let ?L = "add_mset (ps_input st, jb_text J) (add_mset (t, x) (add_mset (t', y) (with_err e w (jb_strs J))))"
      assume "owns (with_err e w (add_mset (t', y) (add_mset (t, x) (add_mset (ps_input st, jb_text J) (jb_strs J))))) R2 s2"
      then have "owns ?L R2 s2" by (simp add: with_err_def add_mset_commute)
      then have "child ?L R2 (jb_pid J) (jb_from J) rd 0 s2" by (rule child_world [OF 1(1) _ s2])
      moreover have "process_owns (?S b t b' t') (with_err e w (jb_strs J)) (jb_raws J) ?L R2"
        unfolding process_owns_def using b
        by (intro exI [of _ "[]"] exI [of _ ve] exI [of _ "jb_text J"] exI [of _ x] exI [of _ y] exI [of _ R2])
          (simp add: buffer_slot_def)
      ultimately show "Q (?S b t b' t', Some e) s2"
        by (intro err) (auto simp: given_up_def)
    qed
    have settle: "wp E (bind (nq_process_close_fd (ps_input_fd st)) (\<lambda>fd.
             bind (at_ptr nq_str_drop (ps_input st)) (\<lambda>u.
               ret ((?S b t b' t')\<lparr>ps_input_fd := fd, ps_input := u, ps_ready := True\<rparr>, None)))) Q s2"
      if b: "bb_data b = PNull" "bb_data b' = PNull" and s2: "world s2 = world s1"
        and owns: "owns (add_mset (t', received J rd Stderr) (add_mset (t, received J rd Stdout)
            (add_mset (ps_input st, jb_text J) (jb_strs J)))) (jb_raws J) s2"
      for b t b' t' s2
      unfolding wp_bind
    proof (rule wp_reaped_close [where E = E, OF owns reaped_by_world [OF 1(2) s2] E], goal_cases)
      case (1 fd s3)
      have "owns (add_mset (ps_input st, jb_text J) (add_mset (t', received J rd Stderr)
          (add_mset (t, received J rd Stdout) (jb_strs J)))) (jb_raws J) s3"
        using 1(1) by (simp add: add_mset_commute)
      then show ?case
      proof (rule wp_at_nq_str_drop, goal_cases)
        case (1 s4)
        have "reaped_by J rd reply s4" by (rule reaped_by_world [OF _ 1(2)]) fact
        then have "outcome_ready J (ps_outcome (?S b t b' t')) s4"
          using 1(1) len unfolding outcome_ready_def by auto
        then show ?case
          unfolding wp_ret using fds b \<open>fd < 0\<close> by (intro ok) (simp add: finished_def)
      qed
    qed
    let ?outcome = "\<lambda>b t (b', t', allocation). case allocation of
           Some f \<Rightarrow> bind (nq_allocation_io_err c (Some op) f) (\<lambda>e. ret (?S b t b' t', Some e))
         | None \<Rightarrow> bind (nq_process_close_fd (ps_input_fd st)) (\<lambda>fd. bind (at_ptr nq_str_drop (ps_input st)) (\<lambda>u.
               ret ((?S b t b' t')\<lparr>ps_input_fd := fd, ps_input := u, ps_ready := True\<rparr>, None)))"
    have "wp E (bind (take_capture c (ps_output st) (po_stdout (ps_outcome st))) (\<lambda>(b, t, allocation).
         bind (if allocation = None then take_capture c (ps_error st) (po_stderr (ps_outcome st))
               else ret (ps_error st, po_stderr (ps_outcome st), allocation)) (?outcome b t))) Q s1"
      unfolding wp_bind [of _ "take_capture c (ps_output st) _"]
    proof (rule wp_take_capture [OF out child_owns [OF 1(1)] inert(1)], goal_cases)
      case (2 b f s2)
      have "owns (add_mset (po_stderr (ps_outcome st), []) (add_mset (po_stdout (ps_outcome st), [])
          (add_mset (ps_input st, jb_text J) (jb_strs J)))) R1 s2"
        by (intro owns_add_inert inert 2(2))
      then show ?case
        unfolding prod.case if_not_P [OF option.distinct(2)] wp_bind [of _ "ret _"] wp_ret option.case
        using closed_holds [OF error] by (intro fail) (use 2(1,3) in \<open>auto simp: buffer_slot_def\<close>)
    next
      case (1 b t s2)
      note s2 = 1
      show ?case
        unfolding prod.case if_P [OF refl] wp_bind [of _ "take_capture c (ps_error st) _"]
      proof (rule wp_take_capture [OF error s2(2) inert(2)], goal_cases)
        case (1 b' t' s3)
        show ?case
          unfolding prod.case option.case by (rule settle) (use 1 s2 in auto)
      next
        case (2 b' f s3)
        have "owns (add_mset (po_stderr (ps_outcome st), []) (add_mset (t, received J rd Stdout)
            (add_mset (ps_input st, jb_text J) (jb_strs J)))) (jb_raws J) s3"
          by (intro owns_add_inert inert 2(2))
        then show ?case
          unfolding prod.case option.case
          by (intro fail) (use 2 s2 in \<open>auto simp: buffer_slot_def\<close>)
      qed
    qed
    then show ?case by (simp add: Let_def exit_code_def cong: if_cong option.case_cong)
  qed
qed

section \<open>The loop\<close>

lemma wp_pump_round:
  assumes cfg: "good_config c" "label op" and job: "good_job J" and run: "pumping J (pu_state p) s" and E: "E Blocked"
    and d: "\<forall>d. deadline = Some d \<longrightarrow> i64_range (i_ns d)" and kernel: "explains (jb_from J)"
    and more: "\<And>p' s'. pumping J (pu_state p') s' \<Longrightarrow> length (script s') < length (script s) \<Longrightarrow> Q (Inl p') s'"
    and ok: "\<And>st' s'. finished J st' s' \<Longrightarrow> Q (Inr (st', None)) s'"
    and err: "\<And>st' e s'. given_up J st' e s' \<Longrightarrow> Q (Inr (st', Some e)) s'"
  shows "wp E (pump_round c deadline cancel op p) Q s"
proof -
  obtain rd where r: "running J (received J rd) rd (pu_state p) s" and course: "on_course J (pu_state p)"
    and again: "\<And>st' s'. running J (received J rd) rd st' s' \<Longrightarrow> on_course J st' \<Longrightarrow> pumping J st' s'"
    using pumpingE [OF run] by blast
  have last: "wp E (if exited \<and> ps_output_fd (pu_state p') < 0 \<and> ps_error_fd (pu_state p') < 0
          then bind (nq_process_finish c (pu_state p') op) (\<lambda>x. ret (Inr x))
          else pump_wait c p' exited timeout op) Q s'"
    if p: "pumping J (pu_state p') s'" and pid: "ps_pid (pu_state p') = jb_pid J" and l: "length (script s') < length (script s)"
    for p' s' exited timeout
  proof (cases "exited \<and> ps_output_fd (pu_state p') < 0 \<and> ps_error_fd (pu_state p') < 0")
    case True
    show ?thesis
      unfolding if_P [OF True] wp_bind wp_ret
      by (rule wp_nq_process_finish [where E = E, OF cfg p E pid kernel]) (use True in \<open>auto intro: ok err\<close>)
  next
    case False
    show ?thesis
      unfolding if_not_P [OF False]
      by (rule wp_pump_wait [where E = E, OF cfg job p E]) (use l in \<open>auto intro: more err\<close>)
  qed
  let ?tail = "\<lambda>exited timeout (st, r). case r of Inl e \<Rightarrow> ret (Inr (st, Some e)) | Inr (out, err) \<Rightarrow>
          let p = p\<lparr>pu_state := st, pu_draining := pu_draining p \<or> exited,
                    pu_output_remaining := out, pu_error_remaining := err\<rparr> in
          if exited \<and> ps_output_fd st < 0 \<and> ps_error_fd st < 0
          then bind (nq_process_finish c st op) (\<lambda>x. ret (Inr x))
          else pump_wait c p exited timeout op"
  have tail: "wp E (?tail exited timeout (st, Inr (n, m))) Q s'"
    if "pumping J st s'" and "ps_pid st = jb_pid J" and "length (script s') < length (script s)"
    for st s' exited timeout n m
    using last [of "p\<lparr>pu_state := st, pu_draining := pu_draining p \<or> exited,
                    pu_output_remaining := n, pu_error_remaining := m\<rparr>" s' exited timeout] that
    by (simp add: Let_def cong: if_cong)
  have drain: "wp E (bind (if exited \<and> \<not> pu_draining p
              then pump_drain c st (pu_output_remaining p) (pu_error_remaining p) op
              else ret (st, Inr (pu_output_remaining p, pu_error_remaining p))) (?tail exited timeout)) Q s'"
    if p: "pumping J st s'" and pid: "ps_pid st = jb_pid J" and l: "length (script s') < length (script s)"
    for st s' exited timeout
  proof (cases "exited \<and> \<not> pu_draining p")
    case True
    show ?thesis
      unfolding if_P [OF True] wp_bind [of _ "pump_drain c st _ _ op"]
    proof (rule wp_pump_drain [where E = E, OF cfg p E pid], goal_cases)
      case (1 st2 x s2)
      show ?case by (cases x) (use 1 l tail in simp)
    next
      case (2 st2 e s2)
      then show ?case unfolding prod.case sum.case wp_ret by (rule err)
    qed
  next
    case False
    show ?thesis
      unfolding if_not_P [OF False] wp_bind [of _ "ret _"] wp_ret by (rule tail [OF p pid l])
  qed
  show ?thesis
    unfolding pump_round_def Let_def [of "\<lambda>st e. ret (Inr (st, Some e))"] wp_bind [of _ "nq_process_probe (pu_state p) False"]
  proof (rule wp_running_probe [where E = E, OF r E], goal_cases)
    case (1 st1 e1 ex s1)
    have p1: "pumping J st1 s1" by (rule again [OF 1(1)]) (use course on_course_same [OF 1(2)] in simp)
    show ?case
    proof (cases "e1 \<noteq> 0")
      case True
      show ?thesis
        unfolding prod.case if_P [OF True] by (rule wp_abandon_errno [OF cfg 1(1)]) (rule err)
    next
      case False
      then have pid: "ps_pid st1 = jb_pid J" and l1: "length (script s1) < length (script s)" using 1(3,5) by simp_all
      show ?thesis
        unfolding prod.case if_not_P [OF False] wp_bind [of _ "pump_deadline c st1 deadline cancel ex op"]
      proof (rule wp_pump_deadline [where E = E, OF cfg p1 E d], goal_cases)
        case (2 e s2)
        then show ?case unfolding prod.case sum.case wp_ret by (rule err)
      next
        case (1 x s2)
        obtain timeout expired where x: "x = (timeout, expired)" by (cases x)
        show ?case
          unfolding x prod.case sum.case wp_bind [of _ "pump_signal c st1 ex expired cancel op"]
        proof (rule wp_pump_signal [where E = E, OF cfg 1(1) E pid], goal_cases)
          case (2 st3 e s3)
          then show ?case unfolding prod.case sum.case wp_ret by (rule err)
        next
          case (1 st3 ex3 s3)
          then show ?case
            unfolding prod.case sum.case by (intro drain) (use \<open>length (script s2) \<le> length (script s1)\<close> l1 in simp_all)
        qed
      qed
    qed
  qed
qed

lemma wp_nq_process_pump:
  assumes cfg: "good_config c" "label op" and job: "good_job J" and run: "pumping J st s" and E: "E Blocked"
    and d: "\<forall>d. deadline = Some d \<longrightarrow> i64_range (i_ns d)" and kernel: "explains (jb_from J)"
    and ok: "\<And>st' s'. finished J st' s' \<Longrightarrow> Q (st', None) s'"
    and err: "\<And>st' e s'. given_up J st' e s' \<Longrightarrow> Q (st', Some e) s'"
  shows "wp E (nq_process_pump c st deadline cancel op) Q s"
  unfolding nq_process_pump_def
proof (rule wp_loop [where I = "\<lambda>p. pumping J (pu_state p)"], goal_cases)
  case 1 show ?case using run by simp
next
  case (2 p s1)
  show ?case
    by (rule wp_pump_round [where E = E, OF cfg job 2 E d kernel]) (auto intro: ok err)
qed

section \<open>Waiting for the process\<close>

lemma holds_buffer_put:
  assumes "holds_buffer bb v R R'" and "R b = Some x"
  shows "holds_buffer bb v (R(b \<mapsto> y)) (R'(b \<mapsto> y)) \<and> R' b = Some x"
  using assms(1) [unfolded holds_buffer_def]
proof (elim disjE exE conjE)
  fix k junk
  assume bb: "bb = \<lparr>bb_data = PHeap k 0, bb_len = length v, bb_cap = length v + length junk\<rparr>"
    and k: "R k = None" and R': "R' = R(k \<mapsto> BBytes (map Some v @ junk))"
  then have "k \<noteq> b" using assms(2) by auto
  moreover have "holds_buffer bb v (R(b \<mapsto> y)) (R(b \<mapsto> y, k \<mapsto> BBytes (map Some v @ junk)))"
    unfolding bb using k \<open>k \<noteq> b\<close> by (intro holds_bufferI) simp_all
  ultimately show ?thesis using assms(2) by (simp add: R' fun_upd_twist holds_buffer_def)
qed (use assms(2) in \<open>simp add: holds_zero_buffer\<close>)

lemma process_owns_store:
  assumes "process_owns st L R L' R'" and "R b = Some x"
  shows "process_owns st L (R(b \<mapsto> y)) L' (R'(b \<mapsto> y)) \<and> R' b = Some x"
proof -
  have slot: "buffer_slot bb v (R1(b \<mapsto> y)) (R2(b \<mapsto> y)) \<and> R2 b = Some x"
    if "buffer_slot bb v R1 R2" "R1 b = Some x" for bb v R1 R2
    using that(1) [unfolded buffer_slot_def]
  proof (elim disjE conjE)
    assume "holds_buffer bb v R1 R2"
    from holds_buffer_put [OF this that(2)] show ?thesis by (simp add: buffer_slot_def)
  qed (use that(2) in \<open>simp add: buffer_slot_def\<close>)
  obtain vo ve vi x' y' R1 where err: "buffer_slot (ps_error st) ve R R1"
    and out: "buffer_slot (ps_output st) vo R1 R'"
    and L': "L' = add_mset (ps_input st, vi) (add_mset (po_stdout (ps_outcome st), x')
         (add_mset (po_stderr (ps_outcome st), y') L))"
    using assms(1) unfolding process_owns_def by blast
  have err': "buffer_slot (ps_error st) ve (R(b \<mapsto> y)) (R1(b \<mapsto> y))" and R1: "R1 b = Some x"
    using slot [OF err assms(2)] by simp_all
  have out': "buffer_slot (ps_output st) vo (R1(b \<mapsto> y)) (R'(b \<mapsto> y))" and R': "R' b = Some x"
    using slot [OF out R1] by simp_all
  from err' out' R' L' show ?thesis unfolding process_owns_def by blast
qed

lemma wp_load_proc: "owns L R s \<Longrightarrow> R b = Some (BProc st) \<Longrightarrow> Q st s \<Longrightarrow> wp E (load_proc b) Q s"
  using owns_raw [of L R s b] by (simp add: wp_def load_proc_def)

lemma wp_store_proc:
  assumes "owns L R s" and "R b = Some (BProc st)"
    and "\<And>s'. owns L (R(b \<mapsto> BProc st')) s' \<Longrightarrow> world s' = world s \<Longrightarrow> Q () s'"
  shows "wp E (store_proc b st') Q s"
  using assms owns_raw [OF assms(1,2)] owns_put_raw [OF assms(1,2), of "BProc st'"]
  by (simp add: wp_def store_proc_def)

text \<open>Cleaning up after a child that has been reaped makes no calls.\<close>

lemma wp_cleanup_finished:
  assumes "ps_pid st = 0" and fds: "ps_input_fd st < 0" "ps_output_fd st < 0" "ps_error_fd st < 0"
    and "inert (ps_input st)" and "inert (po_stdout (ps_outcome st))" and "inert (po_stderr (ps_outcome st))"
    and "bb_data (ps_output st) = PNull" and "bb_data (ps_error st) = PNull" and "\<And>u. Q u s"
  shows "wp E (nq_process_cleanup st) Q s"
proof -
  have close: "wp E (ignore (nq_process_close_fd fd)) Q' s = Q' () s" if "fd < 0" for fd Q'
    using that by (simp add: ignore_def nq_process_close_fd_def wp_bind wp_ret)
  have outcome: "wp E (nq_process_outcome_drop (Some (ps_outcome st))) (\<lambda>_. Q ()) s"
    by (rule outcome.drop_dead) (use assms in \<open>auto simp: dead_outcome_def\<close>)
  show ?thesis
    using assms outcome
    by (simp add: nq_process_cleanup_def wp_bind wp_ret wp_andthen close) (simp add: ignore_def wp_bind wp_ret wp_nq_str_drop_inert wp_c_free_null)
qed

text \<open>A child that \<open>nq_process_start\<close> has just started.\<close>

definition started :: "nq_process_state \<Rightarrow> bool" where
  "started st \<longleftrightarrow> 0 < ps_pid st \<and> \<not> ps_ready st \<and> ps_sent st = 0 \<and> ps_limit st \<le> SIZE_MAX \<and>
     ps_output st = zero_buffer \<and> ps_error st = zero_buffer \<and>
     inert (po_stdout (ps_outcome st)) \<and> inert (po_stderr (ps_outcome st)) \<and>
     (ps_output_fd st = ps_error_fd st \<longrightarrow> ps_output_fd st < 0)"

definition job_of :: "nq_process_state \<Rightarrow> string \<Rightarrow> strs \<Rightarrow> raws \<Rightarrow> nqstate \<Rightarrow> job" where
  "job_of st text L R s = \<lparr>jb_fd = (\<lambda>ch. fd_of ch st), jb_text = text, jb_limit = ps_limit st, jb_strs = L,
     jb_raws = R, jb_pid = ps_pid st, jb_from = s\<rparr>"

lemma job_of_simps [simp]:
  "jb_fd (job_of st text L R s) ch = fd_of ch st" "jb_text (job_of st text L R s) = text"
  "jb_limit (job_of st text L R s) = ps_limit st" "jb_strs (job_of st text L R s) = L"
  "jb_raws (job_of st text L R s) = R" "jb_pid (job_of st text L R s) = ps_pid st"
  "jb_from (job_of st text L R s) = s"
  by (simp_all add: job_of_def)

lemma good_job_of: "started st \<Longrightarrow> length text \<le> nat INT32_MAX \<Longrightarrow> good_job (job_of st text L R s)"
  by (simp add: good_job_def started_def)

lemma pumping_started:
  assumes "started st" and "owns (add_mset (ps_input st, text) L) R s"
  shows "pumping (job_of st text L R s) st s"
proof -
  let ?J = "job_of st text L R s"
  have "child (add_mset (ps_input st, text) L) R (ps_pid st) s (\<lambda>_. []) (ps_pid st) s"
    by (rule child_start) (use assms in \<open>simp_all add: started_def\<close>)
  moreover have "buffers (\<lambda>_. []) st R R"
    using assms(1) by (auto simp: buffers_def started_def intro: closed_zero_buffer)
  moreover have "received ?J (\<lambda>_. []) = (\<lambda>_. [])" by (simp add: received_def fun_eq_iff)
  ultimately have "running ?J (received ?J (\<lambda>_. [])) (\<lambda>_. []) st s"
    using assms(1) by (auto simp: running_def started_def)
  moreover have "on_course ?J st" using assms(1) by (simp add: on_course_def started_def)
  ultimately show ?thesis by (auto simp: pumping_def received_def)
qed

lemma wp_drop_given_up:
  assumes lost: "given_up (job_of st0 text L (R(b \<mapsto> BProc st1)) s0) st e s" and b: "R b = None"
    and E: "E Blocked" "E (QuickExit 1)"
    and post: "\<And>w rd s'. child (with_err e w L) R (ps_pid st0) s0 rd 0 s' \<Longrightarrow> Q (Some None) s'"
  shows "wp E (andthen (store_proc b st) (nq_process_drop (Some (Some b)))) Q s"
proof -
  obtain w rd L' R' where c: "child L' R' (ps_pid st0) s0 rd (ps_pid st) s"
    and mine: "process_owns st (with_err e w L) (R(b \<mapsto> BProc st1)) L' R'"
    using lost by (auto simp: given_up_def)
  have stored: "process_owns st (with_err e w L) (R(b \<mapsto> BProc st)) L' (R'(b \<mapsto> BProc st)) \<and> R' b = Some (BProc st1)"
    using process_owns_store [OF mine, of b "BProc st1" "BProc st"] by simp
  show ?thesis
    unfolding wp_andthen
  proof (rule wp_store_proc [OF child_owns [OF c] conjunct2 [OF stored]], goal_cases)
    case (1 s1)
    show ?case
      by (rule wp_nq_process_drop [where E = E, OF child_world [OF c 1] conjunct1 [OF stored] b E]) (rule post)
  qed
qed

lemma wp_drop_finished:
  assumes fin: "finished J st s" and J: "jb_raws J = R(b \<mapsto> BProc st1)" and b: "R b = None"
    and post: "\<And>s' rd r. reaped_by J rd r s' \<Longrightarrow> po_exit_code (ps_outcome st) = exit_code (to_i32 (reply_int r 0)) \<Longrightarrow>
        length (received J rd Stdout) + length (received J rd Stderr) \<le> jb_limit J \<Longrightarrow>
        owns (add_mset (po_stderr (ps_outcome st), received J rd Stderr)
          (add_mset (po_stdout (ps_outcome st), received J rd Stdout) (jb_strs J))) R s' \<Longrightarrow> Q (Some None) s'"
  shows "wp E (andthen (store_proc b (st\<lparr>ps_outcome := zero_outcome\<rparr>)) (nq_process_drop (Some (Some b)))) Q s"
proof -
  obtain rd r where reaped: "reaped_by J rd r s" and code: "po_exit_code (ps_outcome st) = exit_code (to_i32 (reply_int r 0))"
    and len: "length (received J rd Stdout) + length (received J rd Stderr) \<le> jb_limit J"
    and owns: "owns (add_mset (po_stderr (ps_outcome st), received J rd Stderr)
       (add_mset (po_stdout (ps_outcome st), received J rd Stdout) (jb_strs J))) (R(b \<mapsto> BProc st1)) s"
    using fin J by (auto simp: finished_def outcome_ready_def)
  let ?st = "st\<lparr>ps_outcome := zero_outcome\<rparr>"
  show ?thesis
    unfolding wp_andthen
  proof (rule wp_store_proc [OF owns], simp, goal_cases)
    case (1 s1)
    show ?case
      unfolding nq_process_drop_def option.case wp_bind
    proof (rule wp_load_proc [OF 1(1)], simp, unfold wp_andthen wp_ret, rule wp_cleanup_finished, goal_cases)
      case 10
      show ?case
        by (rule wp_free_os [OF 1(1) [unfolded fun_upd_upd] b], rule post [OF reaped_by_world [OF reaped] code len])
          (use 1(2) in simp_all)
    qed (use fin in \<open>simp_all add: finished_def zero_outcome_def\<close>)
  qed
qed

section \<open>Properties\<close>

text \<open>
  C19: Waiting for a started process delivers exactly what the child wrote. When
  \<open>nq_process_wait\<close> succeeds, the two strings of the outcome are all the bytes that were read from
  the child's stdout and stderr, in order, together within the capture limit; the exit code is
  that of the reply that reaped the child; the process state is released and nothing else is
  owned. When it fails, only the error is left and the child is gone. On both paths nothing but
  this child was signalled or waited for, and never after it was reaped; the loop ends.
\<close>

theorem process_wait_delivers_output:
  assumes "good_config c" and "started st" and "length text \<le> nat INT32_MAX" and "R b = None"
    and "owns (add_mset (ps_input st, text) L) (R(b \<mapsto> BProc st)) s" and "explains s"
    and "\<forall>d. deadline = Some d \<longrightarrow> i64_range (i_ns d)"
  shows "wp ends_or_blocks (nq_process_wait c (Some b) deadline)
    (\<lambda>res s'. \<exists>h. calls s h s' \<and> disciplined (ps_pid st) h \<and> (case res of
       Ok out \<Rightarrow>
         let vo = moved h (ps_output_fd st); ve = moved h (ps_error_fd st) in
         owns (add_mset (po_stderr out, ve) (add_mset (po_stdout out, vo) L)) R s' \<and>
         length vo + length ve \<le> ps_limit st \<and>
         (\<exists>r. (Waitpid (ps_pid st), r) \<in> set h \<and> r_ret r = ps_pid st \<and>
              po_exit_code out = exit_code (to_i32 (reply_int r 0)))
     | Err e \<Rightarrow> (\<exists>w. owns (with_err e w L) R s') \<and> (\<exists>call \<in> set h. gone (ps_pid st) call))) s"
proof -
  let ?J = "job_of st text L (R(b \<mapsto> BProc st)) s"
  have E: "ends_or_blocks Blocked" "ends_or_blocks (QuickExit 1)" by (simp_all add: ends_or_blocks_def)
  have ready: "\<not> ps_ready st" using assms(2) by (simp add: started_def)
  have kernel: "explains (jb_from ?J)" using assms(6) by simp
  have op: "label ''process_wait''" by (simp add: label_def)
  show ?thesis
    unfolding nq_process_wait_def option.case wp_bind [of _ "load_proc b"]
  proof (rule wp_load_proc [OF assms(5)], simp, unfold if_not_P [OF ready] wp_bind [of _ "nq_process_pump _ _ _ _ _"],
      rule wp_nq_process_pump [where E = ends_or_blocks, OF assms(1) op good_job_of [OF assms(2,3)]
        pumping_started [OF assms(2,5)] E(1) assms(7) kernel], goal_cases)
    case (1 st' s')
    show ?case
      unfolding prod.case option.case wp_andthen wp_bind wp_ret
    proof (rule wp_drop_finished [where R = R and ?st1.0 = st, unfolded wp_andthen, OF 1 _ assms(4)], goal_cases)
      case (2 s2 rd r)
      then obtain h where "calls s h s2" "disciplined (ps_pid st) h" "moved h = rd"
          "(Waitpid (ps_pid st), r) \<in> set h" "r_ret r = ps_pid st"
        by (auto simp: reaped_by_def)
      with 2(2-4) show ?case by (auto simp: Let_def received_def intro!: exI [of _ h])
    qed simp
  next
    case (2 st' e s')
    show ?case
      unfolding prod.case option.case wp_andthen wp_bind wp_ret
    proof (rule wp_drop_given_up [where E = ends_or_blocks, unfolded wp_andthen, OF 2 assms(4) E], goal_cases)
      case (1 w rd s2)
      then show ?case unfolding child_def by auto
    qed
  qed
qed

definition example_replies :: "reply list" where
  "example_replies = map (\<lambda>(n, xs). \<lparr>r_ret = n, r_errno = 0, r_bytes = [], r_ints = xs\<rparr>)
     [(0, [7]), (0, [7]), (0, []), (7, [768])]"

theorem process_wait_delivers_output_witness:
  "wp ends_or_blocks (nq_process_wait plain_config (Some 0) None)
     (\<lambda>res s'. (\<forall>out. res = Ok out \<longrightarrow> po_exit_code out = 3) \<and> (\<forall>p. Kill p \<in> set (trace s') \<longrightarrow> p = 7 \<or> p = -7))
     (example_process_state\<lparr>script := example_replies\<rparr>)"
proof -
  let ?st = example_process and ?s = "example_process_state\<lparr>script := example_replies\<rparr>"
  have started: "started ?st" by (simp add: started_def example_process_def)
  have owned: "owns {#} (Map.empty(0 \<mapsto> BProc ?st)) ?s"
    by (auto simp: owns_def example_process_state_def accounted_def)
  have owns: "owns (add_mset (ps_input ?st, []) {#}) (Map.empty(0 \<mapsto> BProc ?st)) ?s"
    by (rule owns_add_inert [OF owned]) (simp add: example_process_def)
  have kernel: "explains ?s" by (simp add: explains_def example_replies_def)
  have kills: "p = 7 \<or> p = -7" if "disciplined 7 h" "Kill p \<in> fst ` set h" for h p
    using that by (induction h) (force split: if_splits)+
  have pid: "ps_pid ?st = 7" by (simp add: example_process_def)
  have trace: "trace ?s = []" by (simp add: example_process_state_def)
  have short: "length [] \<le> nat INT32_MAX" by simp
  show ?thesis
  proof (rule wp_mono [OF process_wait_delivers_output [OF good_plain_config started short _ owns kernel]], goal_cases)
    case (3 res s')
    then obtain h where h: "calls ?s h s'" "disciplined 7 h" and res: "case res of
       Ok out \<Rightarrow> (\<exists>r. (Waitpid 7, r) \<in> set h \<and> r_ret r = 7 \<and> po_exit_code out = exit_code (to_i32 (reply_int r 0)))
     | Err e \<Rightarrow> True"
      unfolding pid by (cases res) (auto simp: Let_def)
    have replies: "example_replies = map snd h @ script s'" using h(1) by (simp add: calls_def)
    have "r \<in> set example_replies" if "(Waitpid 7, r) \<in> set h" for r
      unfolding replies using image_eqI [of r snd, OF _ that] by simp
    moreover have "r_ints r = [768]" if "r \<in> set example_replies" "r_ret r = 7" for r
      using that by (auto simp: example_replies_def)
    moreover have "exit_code (to_i32 (reply_int r 0)) = 3" if "r_ints r = [768]" for r
      using that by (simp add: exit_code_def WIFEXITED_def WEXITSTATUS_def reply_int_def to_i32_def)
    ultimately have "po_exit_code out = 3" if "res = Ok out" for out
      using res that by auto
    moreover have "set (trace s') = fst ` set h" using h(1) trace by (simp add: calls_def)
    ultimately show ?case using kills [OF h(2)] by auto
  qed simp_all
qed

end
