(* ===== verification/Stages.thy ===== *)
theory Stages
  imports Handshake Pumping
begin

text \<open>
  Bookkeeping for functions that hold many blocks at a time, such as \<open>nq_process_start\<close>: which
  blocks are held, with their contents, on top of those of the caller, and which calls have been
  made so far.
\<close>

section \<open>Blocks that are held\<close>

type_synonym blocks = "(nat \<times> block) multiset"

text \<open>\<open>holding M R R'\<close>: the blocks \<open>R'\<close> are those of \<open>R\<close> and, apart from them and from each other, those of \<open>M\<close>.\<close>

definition holding :: "blocks \<Rightarrow> raws \<Rightarrow> raws \<Rightarrow> bool" where
  "holding M R R' \<longleftrightarrow> (\<forall>k. count (image_mset fst M) k \<le> 1) \<and>
     (\<forall>k x. (k, x) \<in># M \<longrightarrow> R k = None \<and> R' k = Some x) \<and> (\<forall>k. k \<notin># image_mset fst M \<longrightarrow> R' k = R k)"

lemma holding_none [simp]: "holding {#} R R' \<longleftrightarrow> R' = R"
  by (auto simp: holding_def)

lemma holding_at: "holding (add_mset (b, x) M) R R' \<Longrightarrow> R' b = Some x"
  by (simp add: holding_def)

lemma holding_outside: "holding M R R' \<Longrightarrow> R' b = None \<Longrightarrow> b \<notin># image_mset fst M \<and> R b = None"
  by (force simp: holding_def)

lemma holding_new:
  assumes "holding M R R'" and "R' b = None"
  shows "holding (add_mset (b, x) M) R (R'(b \<mapsto> x))"
proof -
  note out = holding_outside [OF assms]
  then have "count (image_mset fst M) b = 0" by (simp only: not_in_iff)
  moreover have "k \<noteq> b" if "(k, y) \<in># M" for k y using that out by force
  ultimately show ?thesis using assms(1) out by (auto simp: holding_def)
qed

lemma holding_apart:
  assumes "holding (add_mset (b, x) M) R R'"
  shows "b \<notin># image_mset fst M" and "R b = None"
proof -
  have "count (image_mset fst (add_mset (b, x) M)) b \<le> 1" using assms unfolding holding_def by blast
  then have "count (image_mset fst M) b = 0" by simp
  then show "b \<notin># image_mset fst M" by (simp only: not_in_iff not_False_eq_True)
  show "R b = None" using assms by (simp add: holding_def)
qed

lemma holding_free:
  assumes "holding (add_mset (b, x) M) R R'"
  shows "holding M R (R'(b := None))"
proof -
  note apart = holding_apart [OF assms]
  have "count (image_mset fst M) k \<le> 1" for k
  proof -
    have "count (image_mset fst (add_mset (b, x) M)) k \<le> 1" using assms unfolding holding_def by blast
    then show ?thesis by (simp split: if_splits)
  qed
  moreover have "k \<noteq> b" if "(k, y) \<in># M" for k y using that apart by force
  ultimately show ?thesis using assms apart(2) by (auto simp: holding_def)
qed

lemma holding_put: "holding (add_mset (b, x) M) R R' \<Longrightarrow> holding (add_mset (b, y) M) R (R'(b \<mapsto> y))"
  using holding_new [OF holding_free, of b x M R R' b y] by simp

lemma holding_below: "holding M R R' \<Longrightarrow> R \<subseteq>\<^sub>m R'"
  unfolding map_le_def holding_def by (metis domIff image_iff in_image_mset option.distinct(1) prod.collapse)

section \<open>Stages of a function\<close>

text \<open>
  \<open>stage M L R W s\<close>: the strings \<open>L\<close> are live, the blocks \<open>M\<close> are held on top of \<open>R\<close>, and what is
  visible outside the process (the calls made, the replies to come) satisfies \<open>W\<close>.
  \<open>since s0 H\<close>: the calls made since \<open>s0\<close> satisfy \<open>H\<close>.
\<close>

type_synonym outside = "reply list \<times> event list \<times> string list option \<times> string list option \<times> int"

definition stage :: "blocks \<Rightarrow> strs \<Rightarrow> raws \<Rightarrow> (outside \<Rightarrow> bool) \<Rightarrow> nqstate \<Rightarrow> bool" where
  "stage M L R W s \<longleftrightarrow> (\<exists>R'. holding M R R' \<and> owns L R' s) \<and> W (world s)"

definition since :: "nqstate \<Rightarrow> (history \<Rightarrow> bool) \<Rightarrow> outside \<Rightarrow> bool" where
  "since s0 H w \<longleftrightarrow> (\<exists>h. script s0 = map snd h @ fst w \<and> fst (snd w) = trace s0 @ map fst h \<and> H h)"

lemma since_world: "since s0 H (world s) \<longleftrightarrow> (\<exists>h. calls s0 h s \<and> H h)"
  by (auto simp: since_def calls_def world_def)

lemma stage_start: "owns L R s \<Longrightarrow> H [] \<Longrightarrow> stage {#} L R (since s H) s"
  by (auto simp: stage_def since_world intro: exI [of _ "[]"])

lemma stage_world:
  assumes "stage M L R W s" and "world s' = world s" and "holding M' R R'" and "owns L' R' s'"
  shows "stage M' L' R W s'"
  using assms unfolding stage_def by auto

lemma stage_errno [simp]: "stage M L R W (s\<lparr>errno := e\<rparr>) = stage M L R W s"
  by (simp add: stage_def)

lemma wp_stage_malloc:
  assumes "stage M L R W s" and "0 < n"
    and "\<And>b s'. stage (add_mset (b, fresh_cells k n) M) L R W s' \<Longrightarrow> world s' = world s \<Longrightarrow> Q (Inr (PHeap b 0)) s'"
    and "\<And>e s'. stage M L R W s' \<Longrightarrow> world s' = world s \<Longrightarrow> Q (Inl e) s'"
  shows "wp E (nq_try_realloc c k PNull n) Q s"
proof -
  obtain R' where R': "holding M R R'" "owns L R' s" using assms(1) by (auto simp: stage_def)
  show ?thesis
  proof (rule wp_nq_try_realloc_new [OF R'(2) assms(2)], goal_cases)
    case (1 b s')
    show ?case by (rule assms(3) [OF stage_world [OF assms(1) 1(3) holding_new [OF R'(1) 1(2)] 1(1)] 1(3)])
  next
    case (2 e s')
    show ?case by (rule assms(4) [OF stage_world [OF assms(1) 2(2) R'(1) 2(1)] 2(2)])
  qed
qed

text \<open>A C string of its own: \<open>data\<close> and the NUL.\<close>

definition text_cell :: "nat \<times> string \<Rightarrow> nat \<times> block" where
  "text_cell x = (fst x, BBytes (map Some (snd x) @ [Some CHR 0x00]))"

definition address :: "nat \<times> string \<Rightarrow> ptr" where
  "address x = PHeap (fst x) 0"

lemma wp_stage_cstr_copy:
  assumes "stage M L R W s" and "readable L R p n v"
    and "\<And>b s'. stage (add_mset (text_cell (b, v)) M) L R W s' \<Longrightarrow> world s' = world s \<Longrightarrow> Q (Inr (address (b, v))) s'"
    and "\<And>e s'. stage M L R W s' \<Longrightarrow> world s' = world s \<Longrightarrow> Q (Inl e) s'"
  shows "wp E (nq_try_cstr_copy c p n) Q s"
proof -
  obtain R' where R': "holding M R R'" "owns L R' s" using assms(1) by (auto simp: stage_def)
  show ?thesis
  proof (rule wp_nq_try_cstr_copy [OF R'(2) readable_mono [OF assms(2) _ holding_below [OF R'(1)]]], simp, goal_cases)
    case (1 b s')
    show ?case
      using assms(3) [unfolded text_cell_def address_def fst_conv snd_conv,
          OF stage_world [OF assms(1) 1(3) holding_new [OF R'(1) 1(2)] 1(1)] 1(3)] .
  next
    case (2 e s')
    show ?case by (rule assms(4) [OF stage_world [OF assms(1) 2(2) R'(1) 2(1)] 2(2)])
  qed
qed

lemma wp_stage_free:
  assumes "stage (add_mset (b, x) M) L R W s" and "\<And>s'. stage M L R W s' \<Longrightarrow> world s' = world s \<Longrightarrow> Q () s'"
  shows "wp E (c_free (PHeap b 0)) Q s"
proof -
  obtain R' where R': "holding (add_mset (b, x) M) R R'" "owns L R' s" using assms(1) by (auto simp: stage_def)
  show ?thesis
    by (rule wp_c_free_raw [OF R'(2) holding_at [OF R'(1)]])
      (rule assms(2) [OF stage_world [OF assms(1) _ holding_free [OF R'(1)]]])
qed

lemma wp_stage_load_cell:
  assumes "stage (add_mset (b, BPtrs cs) M) L R W s" and "i < length cs" and "cs ! i = Some p" and "Q p s"
  shows "wp E (load_cell (PHeap b 0) i) Q s"
proof -
  obtain R' where R': "holding (add_mset (b, BPtrs cs) M) R R'" "owns L R' s"
    using assms(1) by (auto simp: stage_def)
  with owns_raw [OF R'(2) holding_at [OF R'(1)]] assms(2-4) show ?thesis by (simp add: wp_def load_cell_def)
qed

text \<open>A block that is held is replaced by another value of it.\<close>

lemma stage_put:
  assumes "stage (add_mset (b, x) M) L R W s" and "\<not> is_owner y"
  shows "heap s b = Some x" and "stage (add_mset (b, y) M) L R W (put_block b y s)"
proof -
  obtain R' where R': "holding (add_mset (b, x) M) R R'" "owns L R' s" using assms(1) by (auto simp: stage_def)
  show "heap s b = Some x" by (rule owns_raw [OF R'(2) holding_at [OF R'(1)]])
  show "stage (add_mset (b, y) M) L R W (put_block b y s)"
    by (rule stage_world [OF assms(1) _ holding_put [OF R'(1)] owns_put_raw [OF R'(2) holding_at [OF R'(1)] assms(2)]]) simp
qed

lemma wp_stage_store_cell:
  assumes "stage (add_mset (b, BPtrs cs) M) L R W s" and "i < length cs"
    and "\<And>s'. stage (add_mset (b, BPtrs (cs[i := Some p])) M) L R W s' \<Longrightarrow> world s' = world s \<Longrightarrow> Q () s'"
  shows "wp E (store_cell (PHeap b 0) i p) Q s"
  using assms(2,3) stage_put [OF assms(1), of "BPtrs (cs[i := Some p])"] by (simp add: wp_def store_cell_def)

lemma wp_stage_load_proc:
  assumes "stage (add_mset (b, BProc st) M) L R W s" and "Q st s"
  shows "wp E (load_proc b) Q s"
  using assms(2) stage_put(1) [OF assms(1) is_owner_simps(2)] by (simp add: wp_def load_proc_def)

lemma wp_stage_store_proc:
  assumes "stage (add_mset (b, BProc st) M) L R W s"
    and "\<And>s'. stage (add_mset (b, BProc st') M) L R W s' \<Longrightarrow> world s' = world s \<Longrightarrow> Q () s'"
  shows "wp E (store_proc b st') Q s"
  using assms(2) stage_put [OF assms(1), of "BProc st'"] by (simp add: wp_def store_proc_def)

lemma wp_stage_init_proc:
  assumes "stage (add_mset (b, BUninit sizeof_process_state) M) L R W s"
    and "\<And>s'. stage (add_mset (b, BProc st') M) L R W s' \<Longrightarrow> world s' = world s \<Longrightarrow> Q () s'"
  shows "wp E (store_proc b st') Q s"
  using assms(2) stage_put [OF assms(1), of "BProc st'"] by (simp add: wp_def store_proc_def)

lemma wp_stage_str_copy:
  assumes "stage M L R W s" and "readable L R p n v"
    and "\<And>t s'. stage M (add_mset (t, v) L) R W s' \<Longrightarrow> world s' = world s \<Longrightarrow> Q (Inr t) s'"
    and "\<And>e s'. stage M L R W s' \<Longrightarrow> world s' = world s \<Longrightarrow> Q (Inl e) s'"
  shows "wp E (nq_try_str_copy c p n) Q s"
proof -
  obtain R' where R': "holding M R R'" "owns L R' s" using assms(1) by (auto simp: stage_def)
  show ?thesis
    by (rule wp_nq_try_str_copy [OF R'(2) readable_mono [OF assms(2) _ holding_below [OF R'(1)]]])
      (auto intro: assms(3,4) stage_world [OF assms(1) _ R'(1)])
qed

section \<open>Calls at a stage\<close>

text \<open>A call that makes no child and no temporary file and names no child: it is allowed at any time.\<close>

abbreviation quiet :: "event \<Rightarrow> bool" where
  "quiet ev \<equiv> \<not> reserved ev"

definition tolerant :: "(outside \<Rightarrow> bool) \<Rightarrow> bool" where
  "tolerant W \<longleftrightarrow> (\<forall>ev r rs tr rest. quiet ev \<longrightarrow> W (r # rs, tr, rest) \<longrightarrow> W (rs, tr @ [ev], rest))"

lemma tolerant_since:
  assumes "\<And>h ev r. quiet ev \<Longrightarrow> H h \<Longrightarrow> H (h @ [(ev, r)])"
  shows "tolerant (since s0 H)"
proof -
  have "since s0 H (rs, tr @ [ev], rest)" if "quiet ev" "since s0 H (r # rs, tr, rest)" for ev r rs tr rest
  proof -
    note ev = that(1) and made = that(2)
    obtain h where "script s0 = map snd h @ r # rs" "tr = trace s0 @ map fst h" "H h"
      using made by (auto simp: since_def)
    with assms [OF ev] show ?thesis unfolding since_def by (intro exI [of _ "h @ [(ev, r)]"]) simp
  qed
  then show ?thesis by (simp add: tolerant_def)
qed

lemma stage_sys:
  assumes "stage M L R (since s0 H) s" and "script s = r # rs" and "\<And>h. H h \<Longrightarrow> H' (h @ [(ev, r)])"
  shows "stage M L R (since s0 H') (s\<lparr>script := rs, trace := trace s @ [ev], errno := e\<rparr>)"
proof -
  obtain h where "calls s0 h s" "H h" using assms(1) by (auto simp: stage_def since_world)
  then have "calls s0 (h @ [(ev, r)]) (s\<lparr>script := rs, trace := trace s @ [ev], errno := e\<rparr>)" "H' (h @ [(ev, r)])"
    using assms(2,3) by (simp_all add: calls_def)
  with assms(1) show ?thesis unfolding stage_def since_world by auto
qed

lemma stage_reply: "stage M L R (since s0 H) s \<Longrightarrow> r \<in> set (script s) \<Longrightarrow> r \<in> set (script s0)"
  by (auto simp: stage_def since_world calls_def)

lemma wp_stage_sys:
  assumes "stage M L R W s" and "tolerant W" and "quiet ev" and "E Blocked"
    and "\<And>r s'. stage M L R W s' \<Longrightarrow> script s = r # script s' \<Longrightarrow> errno s' = r_errno r \<Longrightarrow> Q r s'"
  shows "wp E (sys ev) Q s"
proof (cases "script s")
  case (Cons r rs)
  have "W (rs, trace s @ [ev], environ s, process_args s, process_argc s)"
    using assms(1-3) Cons unfolding stage_def tolerant_def world_def by auto
  then have "stage M L R W (s\<lparr>script := rs, trace := trace s @ [ev], errno := r_errno r\<rparr>)"
    using assms(1) by (simp add: stage_def world_def)
  then show ?thesis using assms(5) by (simp add: wp_sys Cons)
qed (simp add: wp_sys assms(4))

lemma wp_stage_retry:
  assumes "stage M L R W s" and "tolerant W" and "quiet ev" and "E Blocked"
    and "\<And>r s'. stage M L R W s' \<Longrightarrow> errno s' = r_errno r \<Longrightarrow> r \<in> set (script s) \<Longrightarrow> Q r s'"
  shows "wp E (retry_call ev) Q s"
  unfolding retry_call_def
proof (rule wp_loop [where I = "\<lambda>_ s1. stage M L R W s1 \<and> set (script s1) \<subseteq> set (script s)"], simp add: assms(1), goal_cases)
  case (1 a s1)
  show ?case
    unfolding wp_bind wp_get_errno wp_ret
    by (rule wp_stage_sys [where E = E, OF conjunct1 [OF 1] assms(2-4)]) (use 1 in \<open>auto simp: assms(5)\<close>)
qed

lemma wp_stage_close:
  assumes "stage M L R W s" and "tolerant W" and "E Blocked"
    and "\<And>s'. stage M L R W s' \<Longrightarrow> Q () s'"
  shows "wp E (ignore (c_close fd)) Q s"
  unfolding ignore_def c_close_def wp_bind wp_ret
  by (rule wp_stage_sys [where E = E, OF assms(1,2) _ assms(3)]) (simp_all add: assms(4))

lemma wp_stage_close_all:
  assumes "stage M L R W s" and "tolerant W" and "E Blocked"
    and "\<And>s'. stage M L R W s' \<Longrightarrow> Q () s'"
  shows "wp E (close_all fds) Q s"
  using assms(1)
proof (induction fds arbitrary: s)
  case (Cons fd fds)
  show ?case
    unfolding close_all.simps wp_andthen close_if_open_def
  proof (cases "fd \<ge> 0")
    case True
    show "wp E (if fd \<ge> 0 then ignore (c_close fd) else ret ()) (\<lambda>_. wp E (close_all fds) Q) s"
      unfolding if_P [OF True]
      by (rule wp_stage_close [where E = E, OF Cons.prems assms(2,3)]) (rule Cons.IH)
  next
    case False
    show "wp E (if fd \<ge> 0 then ignore (c_close fd) else ret ()) (\<lambda>_. wp E (close_all fds) Q) s"
      unfolding if_not_P [OF False] wp_ret by (rule Cons.IH [OF Cons.prems])
  qed
qed (simp add: wp_ret assms(4))

end
