(* ===== verification/Vectors.thy ===== *)
theory Vectors
  imports Stages
begin

text \<open>
  The blocks \<open>nq_process_start\<close> holds for \<open>exec\<close>: two vectors of pointers, the copies of strings in
  them, and two names. How they are filled from the lists of the caller, and how the block after
  \<open>release:\<close> frees them, whatever part of them there is.
\<close>

section \<open>Vectors of strings\<close>

text \<open>A vector: a block of pointers; the strings at the addresses of \<open>xs\<close> belong to it.\<close>

abbreviation cells :: "ptr list \<Rightarrow> block" where
  "cells ps \<equiv> BPtrs (map Some ps)"

abbreviation texts :: "(nat \<times> string) list \<Rightarrow> blocks" where
  "texts xs \<equiv> mset (map text_cell xs)"

abbreviation nulls :: "nat \<Rightarrow> ptr list" where
  "nulls n \<equiv> replicate n PNull"

lemma wp_clear_cells:
  assumes "stage (add_mset (b, BPtrs (map Some (nulls i) @ replicate n None)) M) L R W s"
    and "\<And>s'. stage (add_mset (b, cells (nulls (i + n))) M) L R W s' \<Longrightarrow> world s' = world s \<Longrightarrow> Q () s'"
  shows "wp E (clear_cells (PHeap b 0) i n) Q s"
  using assms
proof (induction n arbitrary: i s)
  case (Suc n)
  have set: "(map Some (nulls i) @ replicate (Suc n) None)[i := Some PNull] =
      map Some (nulls (i + 1)) @ replicate n (None :: ptr option)"
    using list_update_length [of "map Some (nulls i)" None "replicate n None" "Some PNull"]
    by (simp add: replicate_append_same)
  show ?case
    unfolding clear_cells.simps wp_andthen
  proof (rule wp_stage_store_cell [OF Suc.prems(1)], simp, unfold set, rule Suc.IH, assumption, goal_cases)
    case (1 s1 s2)
    then show ?case by (intro Suc.prems(2)) simp_all
  qed
qed (simp add: wp_ret)

text \<open>Strings of the caller: the handles \<open>ts\<close>, which denote \<open>vs\<close>, in the front cells of a block of \<open>R\<close>.\<close>

definition lent :: "nqstr list \<Rightarrow> string list \<Rightarrow> strs \<Rightarrow> raws \<Rightarrow> nat \<Rightarrow> bool" where
  "lent ts vs L R b \<longleftrightarrow> length ts = length vs \<and>
     (\<exists>cs. R b = Some (BStrs cs) \<and> length vs \<le> length cs \<and> (\<forall>i < length vs. cs ! i = Some (ts ! i))) \<and>
     (\<forall>i < length vs. (ts ! i, vs ! i) \<in># L \<and> length (vs ! i) \<le> SIZE_MAX)"

lemma lent_cells:
  assumes "lent ts vs L R b" and "stage M L R W s"
  shows "\<exists>R'. list_cells ts vs L R' b s"
proof -
  obtain R' where "holding M R R'" "owns L R' s" using assms(2) by (auto simp: stage_def)
  with assms(1) holding_below [of M R R'] have "list_cells ts vs L R' b s"
    unfolding lent_def list_cells_def map_le_def by (metis domI)
  then show ?thesis by blast
qed

text \<open>The copies so far stand behind \<open>front\<close>; behind them there is room (\<open>u\<close> is what is in it).\<close>

lemma wp_copy_strs:
  assumes lent: "lent ts vs L R b0" and "i + n \<le> length vs" and "n \<le> m" and "length front = j"
    and "stage (add_mset (b, BPtrs (map Some front @ replicate m u)) M) L R W s"
    and "\<And>xs failed s'. stage (add_mset (b, BPtrs (map Some (front @ map address xs) @ replicate (m - length xs) u)) (texts xs + M)) L R W s' \<Longrightarrow>
        world s' = world s \<Longrightarrow> length xs \<le> n \<Longrightarrow> (failed = None \<longleftrightarrow> length xs = n) \<Longrightarrow>
        map snd xs = take (length xs) (drop i vs) \<Longrightarrow> Q (i + length xs, failed) s'"
  shows "wp E (copy_strs c (PHeap b0 0) i (PHeap b 0) j n) Q s"
  using assms(2-)
proof (induction n arbitrary: i j m front M s)
  case 0
  show ?case
    unfolding copy_strs.simps wp_ret using 0(5) [of "[]" s None] 0(4) by simp
next
  case (Suc n)
  obtain R' where list: "list_cells ts vs L R' b0 s" using lent_cells [OF lent Suc.prems(4)] by blast
  have i: "i < length vs" using Suc.prems(1) by simp
  have live: "(ts ! i, vs ! i) \<in># L" "length (vs ! i) \<le> SIZE_MAX" using lent i by (auto simp: lent_def)
  have len: "s_len (ts ! i) = int (length (vs ! i))"
    using list owns_live_len live(1) unfolding list_cells_def by blast
  have reads: "readable L R (s_data (ts ! i)) (to_size (s_len (ts ! i))) (vs ! i)"
    using readable_live [OF live(1), of R] live(2) by (simp add: len to_size_of_nat)
  obtain m' where m: "m = Suc m'" using Suc.prems(2) by (cases m) auto
  have drop: "drop i vs = vs ! i # drop (i + 1) vs" using i by (simp add: Cons_nth_drop_Suc)
  show ?case
    unfolding copy_strs.simps wp_bind
  proof (rule wp_cells_load [OF list i], rule wp_stage_cstr_copy [OF Suc.prems(4) reads], goal_cases)
    case (2 e s')
    then show ?case unfolding sum.case wp_ret using Suc.prems(5) [of "[]" s' "Some e"] by simp
  next
    case (1 a s1)
    let ?x = "(a, vs ! i)"
    have set: "(map Some front @ replicate m u)[j := Some (address ?x)] = map Some (front @ [address ?x]) @ replicate m' u"
      using Suc.prems(3) by (simp add: m list_update_append)
    have held: "stage (add_mset (b, BPtrs (map Some front @ replicate m u)) (add_mset (text_cell ?x) M)) L R W s1"
      using 1(1) by (simp add: add_mset_commute)
    show ?case
      unfolding sum.case wp_andthen
    proof (rule wp_stage_store_cell [OF held], use Suc.prems(3) m in simp, unfold set, rule Suc.IH [where m = m' and front = "front @ [address ?x]" and M = "add_mset (text_cell ?x) M"], goal_cases)
      case (5 s2 xs s3 failed)
      have "stage (add_mset (b, BPtrs (map Some (front @ map address (?x # xs)) @ replicate (m - length (?x # xs)) u)) (texts (?x # xs) + M)) L R W s3"
        using 5(3) by (simp add: m)
      then show ?case
        using Suc.prems(5) [of "?x # xs" s3 failed] 5 1(2) by (simp add: drop)
    qed (use Suc.prems m in simp_all)
  qed
qed

lemma wp_free_cells:
  assumes "stage (add_mset (b, cells ps) (texts xs + M)) L R W s" and "drop i ps = map address xs @ nulls m @ qs"
    and "n = length xs + m" and "\<And>s'. stage (add_mset (b, cells ps) M) L R W s' \<Longrightarrow> world s' = world s \<Longrightarrow> Q () s'"
  shows "wp E (free_cells (PHeap b 0) i n) Q s"
  using assms
proof (induction n arbitrary: i xs m s)
  case 0
  then show ?case by (simp add: wp_ret)
next
  case (Suc n)
  have i: "i < length ps"
    using Suc.prems(3) arg_cong [OF Suc.prems(2), of length] by simp
  have hd: "ps ! i = hd (map address xs @ nulls m @ qs)"
    using i Suc.prems(2) by (metis hd_drop_conv_nth)
  have tl: "drop (i + 1) ps = tl (map address xs @ nulls m @ qs)"
    using Suc.prems(2) by (metis Suc_eq_plus1 drop_Suc tl_drop)
  show ?case
    unfolding free_cells.simps wp_bind wp_andthen
  proof (rule wp_stage_load_cell [OF Suc.prems(1)], simp add: i, simp add: i, cases xs)
    case Nil
    then obtain k where m: "m = Suc k" using Suc.prems(3) by (cases m) auto
    have p: "ps ! i = PNull" using hd by (simp add: Nil m)
    show "wp E (c_free (ps ! i)) (\<lambda>_. wp E (free_cells (PHeap b 0) (i + 1) n) Q) s"
      unfolding p wp_c_free_null
      by (rule Suc.IH [where xs = "[]" and m = k]) (use Suc.prems tl in \<open>simp_all add: Nil m\<close>)
  next
    case (Cons x xs')
    have p: "ps ! i = PHeap (fst x) 0" using hd by (simp add: Cons address_def)
    show "wp E (c_free (ps ! i)) (\<lambda>_. wp E (free_cells (PHeap b 0) (i + 1) n) Q) s"
      unfolding p
    proof (rule wp_stage_free)
      have "(fst x, snd (text_cell x)) = text_cell x" by (simp add: text_cell_def)
      then show "stage (add_mset (fst x, snd (text_cell x)) (add_mset (b, cells ps) (texts xs' + M))) L R W s"
        using Suc.prems(1) by (simp add: Cons add_mset_commute)
    next
      fix s1 assume "stage (add_mset (b, cells ps) (texts xs' + M)) L R W s1" "world s1 = world s"
      then show "wp E (free_cells (PHeap b 0) (i + 1) n) Q s1"
        by (intro Suc.IH [where xs = xs' and m = m]) (use Suc.prems tl in \<open>simp_all add: Cons\<close>)
    qed
  qed
qed

section \<open>The arguments of the caller\<close>

definition lent_list :: "nq_list_str \<Rightarrow> string list \<Rightarrow> strs \<Rightarrow> raws \<Rightarrow> bool" where
  "lent_list l vs L R \<longleftrightarrow> l_len l = int (length vs) \<and>
     (vs = [] \<or> (\<exists>ts b. l_data l = PHeap b 0 \<and> lent ts vs L R b))"

lemma lent_list_len: "lent_list l vs L R \<Longrightarrow> nat (l_len l) = length vs"
  by (simp add: lent_list_def)

lemma wp_copy_list:
  assumes list: "lent_list l vs L R" and "length vs \<le> m" and "length front = j"
    and "stage (add_mset (b, BPtrs (map Some front @ replicate m u)) M) L R W s"
    and "\<And>xs failed s'. stage (add_mset (b, BPtrs (map Some (front @ map address xs) @ replicate (m - length xs) u)) (texts xs + M)) L R W s' \<Longrightarrow>
        world s' = world s \<Longrightarrow> length xs \<le> length vs \<Longrightarrow> (failed = None \<longleftrightarrow> length xs = length vs) \<Longrightarrow> Q (length xs, failed) s'"
  shows "wp E (copy_strs c (l_data l) 0 (PHeap b 0) j (nat (l_len l))) Q s"
proof (cases "vs = []")
  case True
  then show ?thesis
    unfolding lent_list_len [OF list] using assms(5) [of "[]" s None] assms(4) by (simp add: wp_ret)
next
  case False
  then obtain ts b0 where b0: "l_data l = PHeap b0 0" "lent ts vs L R b0" using list by (auto simp: lent_list_def)
  show ?thesis
    unfolding lent_list_len [OF list] b0(1)
    by (rule wp_copy_strs [OF b0(2) _ assms(2-4)]) (use assms(5) in auto)
qed

text \<open>For the vectors of \<open>nq_process_start\<close>, which are cleared first.\<close>

lemma wp_copy_list_cleared:
  assumes list: "lent_list l vs L R" and "length vs \<le> m" and "length front = j"
    and "stage (add_mset (b, cells (front @ nulls m)) M) L R W s"
    and "\<And>xs failed s'. stage (add_mset (b, cells (front @ map address xs @ nulls (m - length xs))) (texts xs + M)) L R W s' \<Longrightarrow>
        world s' = world s \<Longrightarrow> length xs \<le> length vs \<Longrightarrow> Q (length xs, failed) s'"
  shows "wp E (copy_strs c (l_data l) 0 (PHeap b 0) j (nat (l_len l))) Q s"
proof (rule wp_copy_list [OF list assms(2,3), where u = "Some PNull" and M = M and W = W], goal_cases)
  case (2 xs failed s')
  then show ?case by (intro assms(5)) simp_all
qed (use assms(4) in simp)

text \<open>Whether an entry is replaced is found out by reading only.\<close>

lemma wp_env_matches:
  assumes cells: "list_cells ts vs L R b s" and "i + n \<le> length vs" and "\<And>found. Q found s"
  shows "wp E (env_matches (PHeap b 0) i n key) Q s"
  using assms(2)
proof (induction n arbitrary: i)
  case (Suc n)
  then have i: "i < length vs" by simp
  let ?len = "if env_entry (vs ! i) then length (env_key (vs ! i)) else 0"
  have rest: "wp E (if same then ret True else env_matches (PHeap b 0) (i + 1) n key) Q s" for same
    using Suc assms(3) by (simp add: wp_ret)
  have "wp E (if ?len = length key then key_is (ts ! i) key else ret False)
      (\<lambda>same. wp E (if same then ret True else env_matches (PHeap b 0) (i + 1) n key) Q) s"
  proof (cases "?len = length key")
    case True
    then have "length key \<le> length (vs ! i)" using env_entry_key [of "vs ! i"] by (auto split: if_splits)
    then show ?thesis unfolding if_P [OF True] by (rule wp_key_is [OF cells i]) (rule rest)
  next
    case False
    show ?thesis unfolding if_not_P [OF False] wp_ret by (rule rest)
  qed
  then show ?case
    unfolding env_matches.simps wp_bind by (intro wp_cells_load [OF cells i] wp_entry_key [OF cells i])
qed (simp add: wp_ret assms(3))

lemma wp_nq_process_env_replaced:
  assumes list: "lent_list env vs L R" and "stage M L R W s" and "\<And>found. Q found s"
  shows "wp E (nq_process_env_replaced entry env) Q s"
proof (cases "CHR ''='' \<notin> set entry \<or> vs = []")
  case True
  then show ?thesis
    unfolding nq_process_env_replaced_def lent_list_len [OF list] using assms(3) by (auto simp: wp_ret)
next
  case False
  then obtain ts b0 where b0: "l_data env = PHeap b0 0" "lent ts vs L R b0" using list by (auto simp: lent_list_def)
  obtain R' where "list_cells ts vs L R' b0 s" using lent_cells [OF b0(2) assms(2)] by blast
  then show ?thesis
    using False unfolding nq_process_env_replaced_def lent_list_len [OF list] b0(1)
    by (auto intro!: wp_env_matches assms(3))
qed

text \<open>The entries that are kept are pointers into the environment of the process itself.\<close>

definition literals :: "ptr list \<Rightarrow> bool" where
  "literals es \<longleftrightarrow> (\<forall>e \<in> set es. \<exists>x. e = PLit x 0)"

lemma wp_borrow_env:
  assumes list: "lent_list env vs L R" and "literals es" and "used = length es"
    and "stage (add_mset (b, cells (es @ nulls (length inherited + m))) M) L R W s"
    and "\<And>es' m' s'. stage (add_mset (b, cells (es' @ nulls (m' + m))) M) L R W s' \<Longrightarrow> world s' = world s \<Longrightarrow>
        literals es' \<Longrightarrow> Q (length es') s'"
  shows "wp E (borrow_env env (PHeap b 0) inherited used) Q s"
  using assms(2-)
proof (induction inherited arbitrary: es used m s)
  case Nil
  then show ?case using Nil(4) [of es 0] by (simp add: wp_ret)
next
  case (Cons e inherited)
  show ?case
    unfolding borrow_env.simps wp_bind
  proof (rule wp_nq_process_env_replaced [OF list Cons.prems(3)], goal_cases)
    case (1 found)
    show ?case
    proof (cases found)
      case True
      show ?thesis
        unfolding if_P [OF True]
      proof (rule Cons.IH [OF Cons.prems(1,2)])
        show "stage (add_mset (b, cells (es @ nulls (length inherited + Suc m))) M) L R W s"
          using Cons.prems(3) by simp
        fix es' m' s' assume "stage (add_mset (b, cells (es' @ nulls (m' + Suc m))) M) L R W s'"
          "world s' = world s" "literals es'"
        then show "Q (length es') s'" using Cons.prems(4) [of es' "Suc m'"] by simp
      qed
    next
      case False
      have set: "(map Some (es @ nulls (length (e # inherited) + m)))[used := Some (PLit e 0)] =
          map Some ((es @ [PLit e 0]) @ nulls (length inherited + m))"
        using Cons.prems(2) by (simp add: list_update_append)
      show ?thesis
        unfolding if_not_P [OF False] wp_andthen
      proof (rule wp_stage_store_cell [OF Cons.prems(3)], use Cons.prems(2) in simp, unfold set,
          rule Cons.IH [where es = "es @ [PLit e 0]" and m = m], goal_cases)
        case (4 s1 es' m' s2)
        then show ?case using Cons.prems(4) [of es' m' s2] by simp
      qed (use Cons.prems(1,2) in \<open>auto simp: literals_def\<close>)
    qed
  qed
qed

section \<open>What a launch holds\<close>

definition argv_blocks :: "launch \<Rightarrow> nat \<Rightarrow> ptr \<Rightarrow> blocks \<Rightarrow> bool" where
  "argv_blocks l n first M \<longleftrightarrow> la_argv l = PNull \<and> M = {#} \<or>
     (\<exists>b xs m. la_argv l = PHeap b 0 \<and> n = length xs + m \<and>
        M = add_mset (b, cells (first # map address xs @ nulls (m + 1))) (texts xs))"

definition envp_blocks :: "launch \<Rightarrow> blocks \<Rightarrow> bool" where
  "envp_blocks l M \<longleftrightarrow> la_envp l = PNull \<and> la_env_borrowed l = la_env_used l \<and> M = {#} \<or>
     (\<exists>b es xs m. la_envp l = PHeap b 0 \<and> literals es \<and> la_env_borrowed l = length es \<and>
        la_env_used l = length es + length xs \<and>
        M = add_mset (b, cells (es @ map address xs @ nulls (m + 1))) (texts xs))"

definition name_block :: "ptr \<Rightarrow> blocks \<Rightarrow> bool" where
  "name_block p M \<longleftrightarrow> p = PNull \<and> M = {#} \<or> (\<exists>x. p = address x \<and> M = {#text_cell x#})"

definition remains :: "launch \<Rightarrow> nat \<Rightarrow> ptr \<Rightarrow> blocks \<Rightarrow> bool" where
  "remains l n first M \<longleftrightarrow> (\<exists>Ma Me Mx Md. argv_blocks l n first Ma \<and> envp_blocks l Me \<and>
     name_block (la_executable l) Mx \<and> name_block (la_directory l) Md \<and> M = Ma + (Me + (Mx + Md)))"

definition lone_block :: "ptr \<Rightarrow> blocks \<Rightarrow> bool" where
  "lone_block p M \<longleftrightarrow> p = PNull \<and> M = {#} \<or> (\<exists>b x. p = PHeap b 0 \<and> M = {#(b, x)#})"

lemma name_block_simps [simp]: "name_block PNull {#}" "name_block (address x) {#text_cell x#}"
  unfolding name_block_def by blast+

lemma remainsI:
  "argv_blocks l n first Ma \<Longrightarrow> envp_blocks l Me \<Longrightarrow> name_block (la_executable l) Mx \<Longrightarrow>
     name_block (la_directory l) Md \<Longrightarrow> remains l n first (Ma + (Me + (Mx + Md)))"
  unfolding remains_def by blast

lemma name_block_lone: "name_block p M \<Longrightarrow> lone_block p M"
  by (auto simp: name_block_def lone_block_def address_def text_cell_def)

lemma wp_free_lone:
  assumes "lone_block p M" and "stage (M + M') L R W s" and "\<And>s'. stage M' L R W s' \<Longrightarrow> Q () s'"
  shows "wp E (c_free p) Q s"
  using assms(1) unfolding lone_block_def
proof (elim disjE exE conjE)
  fix b x assume x: "p = PHeap b 0" "M = {#(b, x)#}"
  then have "stage (add_mset (b, x) M') L R W s" using assms(2) by simp
  then show ?thesis unfolding x(1) by (rule wp_stage_free) (rule assms(3))
qed (use assms(2,3) in \<open>simp add: wp_c_free_null\<close>)

lemma wp_free_argv_cells:
  assumes "argv_blocks l n first Ma" and "stage (Ma + M') L R W s"
    and "\<And>Ma' s'. lone_block (la_argv l) Ma' \<Longrightarrow> stage (Ma' + M') L R W s' \<Longrightarrow> Q () s'"
  shows "wp E (if la_argv l \<noteq> PNull then free_cells (la_argv l) 1 n else ret ()) Q s"
  using assms(1) unfolding argv_blocks_def
proof (elim disjE exE conjE)
  fix b xs m assume l: "la_argv l = PHeap b 0" and n: "n = length xs + m"
    and Ma: "Ma = add_mset (b, cells (first # map address xs @ nulls (m + 1))) (texts xs)"
  let ?ps = "first # map address xs @ nulls (m + 1)"
  have "wp E (free_cells (PHeap b 0) 1 n) Q s"
  proof (rule wp_free_cells [where xs = xs and m = m and M = M' and qs = "[PNull]"])
    show "stage (add_mset (b, cells ?ps) (texts xs + M')) L R W s" using assms(2) by (simp add: Ma)
    fix s' assume "stage (add_mset (b, cells ?ps) M') L R W s'"
    then show "Q () s'" by (intro assms(3) [of "{#(b, cells ?ps)#}"]) (simp_all add: lone_block_def l)
  qed (simp_all add: n replicate_append_same)
  then show ?thesis by (simp add: l)
qed (use assms(2,3) in \<open>simp add: wp_ret lone_block_def\<close>)

lemma wp_free_envp_cells:
  assumes "envp_blocks l Me" and "stage (Me + M') L R W s"
    and "\<And>Me' s'. lone_block (la_envp l) Me' \<Longrightarrow> stage (Me' + M') L R W s' \<Longrightarrow> Q () s'"
  shows "wp E (free_cells (la_envp l) (la_env_borrowed l) (la_env_used l - la_env_borrowed l)) Q s"
  using assms(1) unfolding envp_blocks_def
proof (elim disjE exE conjE)
  fix b es xs m assume l: "la_envp l = PHeap b 0" "la_env_borrowed l = length es" "la_env_used l = length es + length xs"
    and Me: "Me = add_mset (b, cells (es @ map address xs @ nulls (m + 1))) (texts xs)"
  let ?ps = "es @ map address xs @ nulls (m + 1)"
  have "wp E (free_cells (PHeap b 0) (length es) (length xs)) Q s"
  proof (rule wp_free_cells [where xs = xs and m = 0 and M = M' and qs = "nulls (m + 1)"])
    show "stage (add_mset (b, cells ?ps) (texts xs + M')) L R W s" using assms(2) by (simp add: Me)
    fix s' assume "stage (add_mset (b, cells ?ps) M') L R W s'"
    then show "Q () s'" by (intro assms(3) [of "{#(b, cells ?ps)#}"]) (simp_all add: lone_block_def l)
  qed simp_all
  then show ?thesis by (simp add: l)
qed (use assms(2,3) in \<open>simp add: wp_ret lone_block_def\<close>)

text \<open>The last statement of \<open>nq_process_start\<close>, with the process the caller is to get.\<close>

abbreviation start_end :: "config \<Rightarrow> nqstr \<Rightarrow> nq_process \<Rightarrow> launch_status \<Rightarrow> nq_result_process nq" where
  "start_end c program handle status \<equiv>
     if status = Going \<or> status = SystemError 0 then ret (Ok handle)
     else bind (nq_process_drop (Some handle)) (\<lambda>_.
       bind (case status of
               AllocationFailed st \<Rightarrow> nq_allocation_io_err c (Some ''process_start'') st
             | SystemError e \<Rightarrow> nq_errno_io_err c (Some ''process_start'') (Some program) None e
             | Going \<Rightarrow> stop Undefined) (\<lambda>err. ret (Err err)))"

text \<open>The block after \<open>release:\<close>, up to the process state.\<close>

lemma wp_start_release:
  assumes M: "remains l n first M" and s: "stage (M + M') L R W s" and H: "tolerant W" and E: "E Blocked"
    and n: "nat (l_len args) = n"
    and post: "\<And>s'. stage M' L R W s' \<Longrightarrow> wp E (start_end c program (la_child l) status) Q s'"
  shows "wp E (start_release c program args l status) Q s"
proof -
  obtain Ma Me Mx Md where blocks: "argv_blocks l n first Ma" "envp_blocks l Me"
     "name_block (la_executable l) Mx" "name_block (la_directory l) Md" "M = Ma + (Me + (Mx + Md))"
    using M by (auto simp: remains_def)
  show ?thesis
    unfolding start_release_def wp_andthen n
  proof (rule wp_stage_close_all [where E = E, OF s H E], rule wp_free_argv_cells [OF blocks(1)],
      simp only: blocks(5) add.assoc, goal_cases)
    case (1 s1 Ma' s2)
    then have s2: "stage (Me + (Ma' + (Mx + (Md + M')))) L R W s2" by (simp add: ac_simps)
    show ?case
    proof (rule wp_free_envp_cells [OF blocks(2) s2], goal_cases)
      case (1 Me' s3)
      then have s3: "stage (Ma' + (Me' + (Mx + (Md + M')))) L R W s3" by (simp add: ac_simps)
      show ?case
        by (rule wp_free_lone [OF \<open>lone_block _ Ma'\<close> s3], rule wp_free_lone [OF 1(1)], assumption,
            rule wp_free_lone [OF name_block_lone [OF blocks(3)]], assumption,
            rule wp_free_lone [OF name_block_lone [OF blocks(4)]], assumption, rule post)
    qed
  qed
qed

end
