(* ===== verification/Starting.thy ===== *)
theory Starting
  imports Vectors
begin

text \<open>
  \<open>nq_process_start\<close>: on every path, success, any failing allocation, any failing call, the copies
  of the program name, the directory, the arguments and the environment are released, and a child
  that was forked is either handed out or reaped.
\<close>

section \<open>The steps of the preparation\<close>

lemma wp_next_step:
  "wp E (next_step m f) Q s = wp E m (\<lambda>(l, status). if status = Going then wp E (f l) Q else Q (l, status)) s"
  unfolding next_step_def wp_bind by (rule arg_cong [where f = "\<lambda>Q. wp E m Q s"]) (auto simp: wp_ret fun_eq_iff)

abbreviation inherited :: "nqstate \<Rightarrow> string list" where
  "inherited s \<equiv> case environ s of None \<Rightarrow> [] | Some es \<Rightarrow> es"

lemma wp_start_count:
  assumes "Q (no_launch\<lparr>la_inherited := length (inherited s)\<rparr>, Going) s"
    and "\<And>k. Q (no_launch\<lparr>la_inherited := k\<rparr>, AllocationFailed ALLOC_SIZE) s"
  shows "wp E (start_count c no_launch) Q s"
proof -
  have "(case environ s of None \<Rightarrow> 0 | Some es \<Rightarrow> length es) = length (inherited s)"
    by (simp split: option.split)
  with assms show ?thesis by (simp add: start_count_def wp_bind wp_gets wp_ret Let_def)
qed

lemma wp_new_vector:
  assumes "stage M L R W s" and "0 < k"
    and "\<And>b s'. stage (add_mset (b, cells (nulls k)) M) L R W s' \<Longrightarrow> world s' = world s \<Longrightarrow> wp E (f (PHeap b 0)) Q s'"
    and "\<And>e s'. stage M L R W s' \<Longrightarrow> wp E (g e) Q s'"
  shows "wp E (bind (nq_try_realloc c KPtrs PNull (k * sizeof_ptr)) (\<lambda>r. case r of
      Inl e \<Rightarrow> g e | Inr p \<Rightarrow> andthen (clear_cells p 0 k) (f p))) Q s"
  unfolding wp_bind
proof (rule wp_stage_malloc [OF assms(1)], goal_cases)
  case (2 b s1)
  have fresh: "fresh_cells KPtrs (k * sizeof_ptr) = BPtrs (map Some (nulls 0) @ replicate k None)"
    by (simp add: sizeof_ptr_def)
  show ?case
    unfolding sum.case wp_andthen
    by (rule wp_clear_cells [OF 2(1) [unfolded fresh]]) (use 2(2) in \<open>simp add: assms(3)\<close>)
qed (use assms in \<open>simp_all add: sizeof_ptr_def\<close>)

lemma remains_none [simp]: "remains (no_launch\<lparr>la_inherited := k\<rparr>) n first {#}"
  by (simp add: remains_def argv_blocks_def envp_blocks_def name_block_def no_launch_def)

lemma wp_start_vectors:
  assumes "stage {#} L R W s"
    and going: "\<And>a e s'. stage {#(a, cells (nulls (n + 2))), (e, cells (nulls (k + m + 1)))#} L R W s' \<Longrightarrow>
        world s' = world s \<Longrightarrow> Q (no_launch\<lparr>la_inherited := k, la_argv := PHeap a 0, la_envp := PHeap e 0\<rparr>, Going) s'"
    and failed: "\<And>l st first M s'. remains l n first M \<Longrightarrow> la_child l = None \<Longrightarrow> stage M L R W s' \<Longrightarrow>
        Q (l, AllocationFailed st) s'"
  shows "wp E (start_vectors c n m (no_launch\<lparr>la_inherited := k\<rparr>)) Q s"
proof -
  let ?l = "no_launch\<lparr>la_inherited := k\<rparr>"
  have fail0: "wp E (ret (?l, AllocationFailed st)) Q s'" if "stage {#} L R W s'" for st s'
    using failed [OF remains_none _ that] by (simp add: wp_ret no_launch_def)
  have fail1: "wp E (ret (?l\<lparr>la_argv := PHeap a 0\<rparr>, AllocationFailed st)) Q s'"
    if "stage {#(a, cells (nulls (n + 2)))#} L R W s'" for a st s'
  proof -
    have "argv_blocks (?l\<lparr>la_argv := PHeap a 0\<rparr>) n PNull {#(a, cells (nulls (n + 2)))#}"
      by (auto simp: argv_blocks_def intro!: exI [of _ "[]"])
    moreover have "envp_blocks (?l\<lparr>la_argv := PHeap a 0\<rparr>) {#}" by (simp add: envp_blocks_def no_launch_def)
    ultimately have "remains (?l\<lparr>la_argv := PHeap a 0\<rparr>) n PNull ({#(a, cells (nulls (n + 2)))#} + ({#} + ({#} + {#})))"
      by (rule remainsI) (simp_all add: no_launch_def)
    then have "remains (?l\<lparr>la_argv := PHeap a 0\<rparr>) n PNull {#(a, cells (nulls (n + 2)))#}" by simp
    from failed [OF this _ that] show ?thesis by (simp add: wp_ret no_launch_def)
  qed
  show ?thesis
  proof (cases "(n + 2) * sizeof_ptr \<le> nq_allocation_limit c")
    case False
    then have "Option.bind (nq_size_add n 2 (nq_allocation_limit c)) (\<lambda>k. map_option (Pair k) (nq_size_mul c k sizeof_ptr)) = None"
      by (simp add: nq_size_add_eq allocation_limit_le nq_size_mul_eq)
    then show ?thesis unfolding start_vectors_def by (simp add: fail0 [OF assms(1)])
  next
    case True
    then have size: "Option.bind (nq_size_add n 2 (nq_allocation_limit c)) (\<lambda>k. map_option (Pair k) (nq_size_mul c k sizeof_ptr)) =
        Some (n + 2, (n + 2) * sizeof_ptr)"
      by (simp add: nq_size_add_eq allocation_limit_le nq_size_mul_eq sizeof_ptr_def)
    show ?thesis
      unfolding start_vectors_def size option.case prod.case Let_def
    proof (rule wp_new_vector [OF assms(1)], simp, goal_cases)
      case (1 a s1)
      have inh: "la_inherited (?l\<lparr>la_argv := PHeap a 0\<rparr>) = k" by simp
      show ?case
      proof (cases "(k + m + 1) * sizeof_ptr \<le> nq_allocation_limit c")
        case False
        then have "Option.bind (nq_size_add k m (nq_allocation_limit c)) (\<lambda>k.
                  Option.bind (nq_size_add k 1 (nq_allocation_limit c)) (\<lambda>k.
                  map_option (Pair k) (nq_size_mul c k sizeof_ptr))) = None"
          by (simp add: nq_size_add_eq allocation_limit_le nq_size_mul_eq)
        then show ?thesis by (simp add: fail1 [OF 1(1)])
      next
        case True
        then have size: "Option.bind (nq_size_add k m (nq_allocation_limit c)) (\<lambda>k.
                  Option.bind (nq_size_add k 1 (nq_allocation_limit c)) (\<lambda>k.
                  map_option (Pair k) (nq_size_mul c k sizeof_ptr))) = Some (k + m + 1, (k + m + 1) * sizeof_ptr)"
          by (simp add: nq_size_add_eq allocation_limit_le nq_size_mul_eq sizeof_ptr_def)
        show ?thesis
          unfolding inh size option.case prod.case
        proof (rule wp_new_vector [OF 1(1)], simp, goal_cases)
          case (1 e s2)
          then show ?case using going [of a e s2] \<open>world s1 = world s\<close> by (simp add: wp_ret add_mset_commute)
        qed (rule fail1)
      qed
    qed (rule fail0)
  qed
qed

lemma wp_start_names:
  assumes "stage (add_mset (a, cells (nulls (length vs + 2))) Me) L R W s" and "envp_blocks l Me"
    and l: "la_argv l = PHeap a 0" "la_executable l = PNull" "la_directory l = PNull" "la_child l = None"
    and program: "readable L R (s_data program) (to_size (s_len program)) vp"
    and cwd: "readable L R (s_data cwd) (to_size (s_len cwd)) vd" and args: "lent_list args vs L R"
    and going: "\<And>x d Ma s'. let l' = l\<lparr>la_executable := address x, la_directory := address d\<rparr> in
        argv_blocks l' (length vs) (address x) Ma \<longrightarrow> stage (Me + (Ma + {#text_cell x, text_cell d#})) L R W s' \<longrightarrow>
        world s' = world s \<longrightarrow> Q (l', Going) s'"
    and failed: "\<And>l st first M s'. remains l (length vs) first M \<Longrightarrow> la_child l = None \<Longrightarrow> stage M L R W s' \<Longrightarrow>
        Q (l, AllocationFailed st) s'"
  shows "wp E (start_names c program cwd args l) Q s"
proof -
  let ?n = "length vs"
  have envp: "envp_blocks (l\<lparr>la_executable := p, la_directory := q\<rparr>) Me" for p q
    using assms(2) by (simp add: envp_blocks_def)
  have envp1: "envp_blocks (l\<lparr>la_executable := p\<rparr>) Me" for p
    using assms(2) by (simp add: envp_blocks_def)
  let ?Ma = "{#(a, cells (nulls (?n + 2)))#}"
  have argv0: "argv_blocks l' ?n PNull ?Ma" if "la_argv l' = PHeap a 0" for l'
    using that by (auto simp: argv_blocks_def intro!: exI [of _ "[]"])
  show ?thesis
    unfolding start_names_def wp_bind
  proof (rule wp_stage_cstr_copy [OF assms(1) program], goal_cases)
    case (2 e s1)
    have "remains l ?n PNull (?Ma + (Me + ({#} + {#})))"
      by (rule remainsI [OF argv0 assms(2)]) (simp_all add: l)
    with 2 l failed [of l PNull _ s1] show ?case by (simp add: wp_ret)
  next
    case (1 x s1)
    let ?x = "(x, vp)" and ?l1 = "l\<lparr>la_executable := address (x, vp)\<rparr>"
    show ?case
      unfolding sum.case Let_def wp_bind
    proof (rule wp_stage_cstr_copy [OF 1(1) cwd], goal_cases)
      case (2 e s2)
      have "remains ?l1 ?n PNull (?Ma + (Me + ({#text_cell ?x#} + {#})))"
        by (rule remainsI [OF argv0 envp1]) (simp_all add: l)
      with 2 l failed [of ?l1 PNull _ s2] show ?case by (simp add: wp_ret add_mset_commute)
    next
      case (1 d s2)
      let ?d = "(d, vd)" and ?l2 = "l\<lparr>la_executable := address ?x, la_directory := address (d, vd)\<rparr>"
      have held: "stage (add_mset (a, cells (nulls (?n + 2))) (Me + {#text_cell ?x, text_cell ?d#})) L R W s2"
        using 1(1) by (simp add: add_mset_commute)
      have set: "(map Some (nulls (?n + 2)))[0 := Some (address ?x)] = map Some ([address ?x] @ nulls (?n + 1))"
        by simp
      have argv: "la_argv ?l2 = PHeap a 0" by (simp add: l)
      show ?case
        unfolding sum.case wp_andthen wp_bind argv
      proof (rule wp_stage_store_cell [OF held], simp, unfold set, rule wp_copy_list_cleared [OF args, where front = "[address ?x]" and m = "?n + 1" and
            M = "Me + {#text_cell ?x, text_cell ?d#}" and W = W], goal_cases)
        case (4 s3 xs failure s4)
        let ?Ma = "add_mset (a, cells (address ?x # map address xs @ nulls (?n - length xs + 1))) (texts xs)"
        have blocks: "argv_blocks ?l2 ?n (address ?x) ?Ma"
          using 4(5) argv unfolding argv_blocks_def by (auto intro!: exI [of _ xs] exI [of _ "?n - length xs"])
        have s4: "stage (Me + (?Ma + {#text_cell ?x, text_cell ?d#})) L R W s4"
          using 4(3,5) by (simp add: Suc_diff_le ac_simps add_mset_commute)
        have "world s4 = world s" using 4(2,4) 1(2) \<open>world s1 = world s\<close> by simp
        then have ok: "Q (?l2, Going) s4" using going [of ?d ?x ?Ma s4] blocks s4 by (simp add: Let_def)
        have "remains ?l2 ?n (address ?x) (?Ma + (Me + ({#text_cell ?x#} + {#text_cell ?d#})))"
          by (rule remainsI [OF blocks envp]) simp_all
        then have "Q (?l2, AllocationFailed st) s4" for st
          using s4 l by (intro failed) (simp_all add: ac_simps add_mset_commute)
        with ok show ?case unfolding prod.case wp_ret by (cases failure) simp_all
      qed simp_all
    qed
  qed
qed

lemma wp_start_env:
  assumes "stage (add_mset (e, cells (nulls (length (inherited s) + length vs + 1))) M) L R W s"
    and l: "la_envp l = PHeap e 0" and env: "lent_list env vs L R"
    and post: "\<And>u u' Me status s'. envp_blocks (l\<lparr>la_env_borrowed := u, la_env_used := u'\<rparr>) Me \<Longrightarrow>
        stage (Me + M) L R W s' \<Longrightarrow> (\<And>n. status \<noteq> SystemError n) \<Longrightarrow>
        Q (l\<lparr>la_env_borrowed := u, la_env_used := u'\<rparr>, status) s'"
  shows "wp E (start_env c env l) Q s"
proof -
  have start: "stage (add_mset (e, cells ([] @ nulls (length (inherited s) + (length vs + 1)))) M) L R W s"
    using assms(1) by (simp add: add.assoc)
  show ?thesis
    unfolding start_env_def wp_bind wp_gets l
  proof (rule wp_borrow_env [OF env _ _ start], simp add: literals_def, simp, goal_cases)
    case (1 es m s1)
    show ?case
    proof (rule wp_copy_list_cleared [OF env _ refl 1(1)], goal_cases)
      case (2 xs failure s2)
      let ?l = "l\<lparr>la_env_borrowed := length es, la_env_used := length es + length xs\<rparr>"
      let ?Me = "add_mset (e, cells (es @ map address xs @ nulls (m + length vs - length xs + 1))) (texts xs)"
      have "m + (length vs + 1) - length xs = m + length vs - length xs + 1" using 2(3) by simp
      then have s2: "stage (?Me + M) L R W s2" using 2(1) by simp
      have "envp_blocks ?l ?Me" unfolding envp_blocks_def using 1(3) l by auto
      then show ?case
        unfolding prod.case wp_ret by (rule post [OF _ s2]) (simp split: option.split)
    qed simp
  qed
qed

definition input_text :: "nq_option_str \<Rightarrow> string \<Rightarrow> strs \<Rightarrow> bool" where
  "input_text input v L \<longleftrightarrow> (case input of None \<Rightarrow> v = [] | Some t \<Rightarrow> (t, v) \<in># L)"

text \<open>The state of a child that has not been forked yet.\<close>

definition unstarted :: "int \<Rightarrow> nq_process_state \<Rightarrow> bool" where
  "unstarted limit st \<longleftrightarrow> (\<exists>t. st = (fresh_process limit)\<lparr>ps_input := t\<rparr>)"

lemma wp_start_state:
  assumes s: "stage M L R W s" and input: "input_text input v L" and v: "length v \<le> SIZE_MAX"
    and len: "\<forall>t. input = Some t \<longrightarrow> s_len t = int (length v)" and none: "la_child l = None"
    and going: "\<And>b st s'. stage (add_mset (b, BProc st) M) (add_mset (ps_input st, v) L) R W s' \<Longrightarrow>
        unstarted limit st \<Longrightarrow> Q (l\<lparr>la_child := Some b\<rparr>, Going) s'"
    and failed: "\<And>e s'. stage M L R W s' \<Longrightarrow> Q (l, AllocationFailed e) s'"
    and failed_input: "\<And>e b st s'. stage (add_mset (b, BProc st) M) (add_mset (ps_input st, []) L) R W s' \<Longrightarrow>
        unstarted limit st \<Longrightarrow> Q (l\<lparr>la_child := Some b\<rparr>, AllocationFailed e) s'"
  shows "wp E (start_state c input limit l) Q s"
  unfolding start_state_def wp_bind
proof (rule wp_stage_malloc [OF s], simp add: sizeof_process_state_def, goal_cases)
  case (2 e s1)
  then show ?case by (simp add: wp_ret failed)
next
  case (1 b s1)
  let ?st = "fresh_process limit"
  have fresh: "unstarted limit ?st" by (simp add: unstarted_def fresh_process_def)
  have st: "unstarted limit (?st\<lparr>ps_input := t\<rparr>)" for t unfolding unstarted_def by blast
  note fresh_block = 1(1) [unfolded fresh_cells.simps]
  have empty: "stage M' (add_mset (ps_input ?st, []) L) R W s'" if "stage M' L R W s'" for M' s'
    using that owns_add_inert [of L _ s' nq_empty_str] by (auto simp: stage_def fresh_process_def)
  have ok: "wp E (ret (l\<lparr>la_child := Some b\<rparr>, Going)) Q s'" if "stage (add_mset (b, BProc ?st) M) L R W s'" "v = []" for s'
    using going [OF _ fresh] empty [OF that(1)] that(2) by (simp add: wp_ret)
  show ?case
    unfolding sum.case block_of_def ptr.case nat.case wp_ret Let_def wp_bind wp_andthen
  proof (rule wp_stage_init_proc [OF fresh_block], goal_cases)
    case (1 s2)
    show ?case
    proof (cases input)
      case None
      with input 1 show ?thesis by (simp add: input_text_def ok)
    next
      case (Some t)
      then have t: "(t, v) \<in># L" "s_len t = int (length v)" using input len by (simp_all add: input_text_def)
      show ?thesis
      proof (cases "v = []")
        case True
        with 1 Some t show ?thesis by (simp add: ok)
      next
        case False
        then have pos: "s_len t > 0" by (simp add: t)
        have reads: "readable L R (s_data t) (to_size (s_len t)) v"
          using readable_live [OF t(1), of R] v by (simp add: t(2) to_size_of_nat)
        show ?thesis
          unfolding Some option.case if_P [OF pos] wp_bind
        proof (rule wp_stage_str_copy [OF 1(1) reads], goal_cases)
          case (1 u s3)
          show ?case
            unfolding sum.case wp_andthen wp_ret
            by (rule wp_stage_store_proc [OF 1(1)], rule going [OF _ st]) simp
        next
          case (2 e s3)
          show ?case unfolding sum.case wp_ret by (rule failed_input [OF empty [OF 2(1)] fresh])
        qed
      qed
    qed
  qed
qed

section \<open>Pipes\<close>

lemma wp_stage_setup_fd:
  assumes s: "stage M L R W s" and H: "tolerant W" and E: "E Blocked"
    and post: "\<And>fd' s'. stage M L R W s' \<Longrightarrow> Q fd' s'"
  shows "wp E (nq_process_setup_fd fd) Q s"
proof -
  have close: "wp E (ignore (c_close fd)) (\<lambda>_. wp E (andthen (set_errno e) (ret k)) Q) s1"
    if "stage M L R W s1" for e k s1
    by (rule wp_stage_close [where E = E, OF that H E]) (simp add: wp_simps post)
  consider "fd < 0" | "\<not> fd < 0" "fd \<le> 2" | "\<not> fd < 0" "\<not> fd \<le> 2" by blast
  then show ?thesis
  proof cases
    case 2
    show ?thesis
      unfolding nq_process_setup_fd_def if_not_P [OF 2(1)] if_P [OF 2(2)] wp_bind wp_get_errno wp_andthen [of _ "ignore _"]
      by (rule wp_stage_retry [where E = E, OF s H _ E]) (simp_all add: close)
  next
    case 3
    show ?thesis
      unfolding nq_process_setup_fd_def if_not_P [OF 3(1)] if_not_P [OF 3(2)] wp_bind
    proof (rule wp_stage_retry [where E = E, OF s H _ E], simp, goal_cases)
      case (1 r s1)
      show ?case
      proof (cases "r_ret r < 0")
        case True
        show ?thesis
          unfolding if_P [OF True] wp_bind wp_get_errno wp_andthen [of _ "ignore _"] by (rule close [OF 1(1)])
      qed (use 1(1) in \<open>simp add: wp_ret post\<close>)
    qed
  qed (use s in \<open>simp add: nq_process_setup_fd_def wp_ret post\<close>)
qed

lemma wp_stage_pipe:
  assumes s: "stage M L R W s" and H: "tolerant W" and E: "E Blocked"
    and post: "\<And>e pair s'. stage M L R W s' \<Longrightarrow> Q (e, pair) s'"
  shows "wp E (nq_process_pipe pair) Q s"
  unfolding nq_process_pipe_def wp_bind
proof (rule wp_stage_retry [where E = E, OF s H _ E], simp, goal_cases)
  case (1 r s1)
  show ?case
  proof (cases "r_ret r < 0")
    case True
    then show ?thesis using 1(1) by (simp add: wp_simps post)
  next
    case False
    show ?thesis
      unfolding if_not_P [OF False] Let_def wp_bind
    proof (rule wp_stage_setup_fd [where E = E, OF 1(1) H E], goal_cases)
      case (1 fd0 s2)
      show ?case
      proof (cases "fd0 < 0")
        case True
        then show ?thesis using 1(1) by (simp add: wp_simps post)
      next
        case False
        show ?thesis
          unfolding if_not_P [OF False] wp_bind wp_get_errno wp_ret
          by (rule wp_stage_setup_fd [where E = E, OF 1(1) H E]) (rule post)
      qed
    qed
  qed
qed

lemma wp_stage_nonblocking:
  assumes s: "stage M L R W s" and H: "tolerant W" and E: "E Blocked"
    and post: "\<And>e s'. stage M L R W s' \<Longrightarrow> Q e s'"
  shows "wp E (nq_process_nonblocking fd) Q s"
  unfolding nq_process_nonblocking_def wp_bind wp_get_errno
proof (rule wp_stage_retry [where E = E, OF s H _ E], simp, goal_cases)
  case (1 r s1)
  show ?case
  proof (cases "r_ret r < 0")
    case True
    then show ?thesis using 1(1) by (simp add: wp_ret post)
  next
    case False
    show ?thesis
      unfolding if_not_P [OF False] wp_bind wp_get_errno wp_ret
      by (rule wp_stage_retry [where E = E, OF 1(1) H _ E]) (simp_all add: post)
  qed
qed

lemma wp_start_pipes:
  assumes s: "stage M L R W s" and H: "tolerant W" and E: "E Blocked"
    and post: "\<And>ps status s'. stage M L R W s' \<Longrightarrow> status \<noteq> SystemError 0 \<Longrightarrow> length ps = length (la_pipes l) \<Longrightarrow>
        Q (l\<lparr>la_pipes := ps\<rparr>, status) s'"
  shows "wp E (start_pipes has_input capture index n l) Q s"
  using s post
proof (induction n arbitrary: index l s)
  case 0
  from 0(2) [OF 0(1), of Going "la_pipes l"] show ?case by (simp add: wp_ret)
next
  case (Suc n)
  have skip: "wp E (start_pipes has_input capture (index + 1) n l) Q s" by (rule Suc.IH [OF Suc.prems])
  let ?l = "\<lambda>pair. l\<lparr>la_pipes := (la_pipes l)[index := pair]\<rparr>"
  have leave: "wp E (ret (?l pair, SystemError e)) Q s'" if "stage M L R W s'" "e \<noteq> 0" for pair e s'
    using Suc.prems(2) [OF that(1), of "SystemError e" "(la_pipes l)[index := pair]"] that(2) by (simp add: wp_ret)
  have more: "wp E (if e \<noteq> 0 then ret (?l pair, SystemError e) else start_pipes has_input capture (index + 1) n (?l pair)) Q s'"
    if s': "stage M L R W s'" for pair e s'
  proof (cases "e \<noteq> 0")
    case False
    show ?thesis
      unfolding if_not_P [OF False]
    proof (rule Suc.IH [OF s'], goal_cases)
      case (1 s'' status ps)
      with Suc.prems(2) [OF 1(1,2), of ps] show ?case by simp
    qed
  qed (use leave [OF s'] in simp)
  show ?case
  proof (cases "index = 0 \<and> \<not> has_input \<or> (index = 1 \<or> index = 2) \<and> \<not> capture")
    case False
    show ?thesis
      unfolding start_pipes.simps if_not_P [OF False] wp_bind
    proof (rule wp_stage_pipe [where E = E, OF Suc.prems(1) H E], goal_cases)
      case (1 e pair s1)
      show ?case
      proof (cases "e \<noteq> 0")
        case True
        then show ?thesis using leave [OF 1] by simp
      next
        case no: False
        show ?thesis
        proof (cases "index < 3")
          case True
          show ?thesis
            unfolding prod.case Let_def if_not_P [OF no] if_P [OF True] wp_bind
            by (rule wp_stage_nonblocking [where E = E, OF 1 H E]) (rule more)
        next
          case False
          show ?thesis
            unfolding prod.case Let_def if_not_P [OF no] if_not_P [OF False] wp_bind wp_ret by (rule more [OF 1])
        qed
      qed
    qed
  qed (use skip in simp)
qed

section \<open>What exec reads\<close>

lemma has_c_string_text:
  assumes "stage M L R W s" and "text_cell x \<in># M"
  shows "has_c_string (heap s) (address x)"
proof -
  obtain M' where "M = add_mset (fst x, snd (text_cell x)) M'"
    using assms(2) by (auto dest!: multi_member_split simp: text_cell_def)
  then have "heap s (fst x) = Some (snd (text_cell x))"
    using stage_put(1) [of "fst x" "snd (text_cell x)" M' L R W s, OF _ is_owner_simps(2)] assms(1) by simp
  then have block: "heap s (fst x) = Some (BBytes (map Some (snd x @ [CHR 0x00])))" by (simp add: text_cell_def)
  have row: "takeWhile (\<lambda>c. c \<noteq> Some CHR 0x00) (map Some w) = map Some (takeWhile (\<lambda>c. c \<noteq> CHR 0x00) w)" for w
    by (induction w) simp_all
  have "length (takeWhile (\<lambda>c. c \<noteq> CHR 0x00) (v @ [CHR 0x00])) < length (v @ [CHR 0x00])" for v
    by (induction v) auto
  then have "c_string (heap s) (PHeap (fst x) 0) \<noteq> None"
    unfolding c_string.simps block option.case block.case drop_0 row Let_def by simp
  then show ?thesis by (simp add: has_c_string_def address_def)
qed

lemma has_vector_held:
  assumes "stage (add_mset (b, cells (qs @ PNull # rest)) M) L R W s" and "\<forall>q \<in> set qs. has_c_string (heap s) q"
  shows "has_vector (heap s) (PHeap b 0)"
proof -
  have "cell_strings (heap s) (map Some (qs @ PNull # rest)) \<noteq> None"
    using assms(2)
  proof (induction qs)
    case (Cons q qs)
    then have "q \<noteq> PNull" "c_string (heap s) q \<noteq> None" by (auto simp: has_c_string_def)
    with Cons show ?case by auto
  qed simp
  then show ?thesis using stage_put(1) [OF assms(1) is_owner_simps(2)] by (auto simp: has_vector_def)
qed

section \<open>The fork, the child and the parent\<close>

text \<open>Before the fork there is no child to name; afterwards the parent has one, which it has not named yet.\<close>

definition unborn :: "history \<Rightarrow> bool" where
  "unborn h \<longleftrightarrow> (\<forall>c \<in> set h. \<not> aimed (fst c) \<and> (fst c = Fork \<longrightarrow> r_ret (snd c) \<le> 0))"

definition born :: "int \<Rightarrow> history \<Rightarrow> bool" where
  "born pid h \<longleftrightarrow> (\<exists>h1 r h2. h = h1 @ (Fork, r) # h2 \<and> r_ret r = pid \<and> 0 < pid \<and> unborn h1 \<and>
     (\<forall>c \<in> set h2. quiet (fst c)))"

lemma born_quiet:
  assumes "\<not> reserved ev" and "born pid h"
  shows "born pid (h @ [(ev, r)])"
proof -
  obtain h1 r1 h2 where "h = h1 @ (Fork, r1) # h2" "r_ret r1 = pid" "0 < pid" "unborn h1" "\<forall>c \<in> set h2. quiet (fst c)"
    using assms(2) by (auto simp: born_def)
  with assms(1) show ?thesis
    unfolding born_def by (intro exI [of _ h1] exI [of _ r1] exI [of _ "h2 @ [(ev, r)]"]) auto
qed

lemma tolerant_phases [simp]: "tolerant (since s0 unborn)" "tolerant (since s0 (born pid))"
  by (rule tolerant_since, auto simp: unborn_def dest: quiet_call) (rule tolerant_since, rule born_quiet)

text \<open>The process state while nothing has come of the child yet.\<close>

definition pristine :: "int \<Rightarrow> int \<Rightarrow> nq_process_state \<Rightarrow> bool" where
  "pristine limit pid st \<longleftrightarrow> ps_pid st = pid \<and> \<not> ps_ready st \<and> \<not> ps_signalled st \<and> \<not> ps_terminal_signalled st \<and>
     ps_sent st = 0 \<and> ps_limit st = nat limit \<and> ps_output st = zero_buffer \<and> ps_error st = zero_buffer \<and>
     po_stdout (ps_outcome st) = nq_empty_str \<and> po_stderr (ps_outcome st) = nq_empty_str"

lemma pristine_simps [simp]:
  "pristine limit pid (st\<lparr>ps_group := g\<rparr>) = pristine limit pid st"
  "pristine limit pid (st\<lparr>ps_input_fd := fd\<rparr>) = pristine limit pid st"
  "pristine limit pid (st\<lparr>ps_output_fd := fd\<rparr>) = pristine limit pid st"
  "pristine limit pid (st\<lparr>ps_error_fd := fd\<rparr>) = pristine limit pid st"
  by (simp_all add: pristine_def)

lemma pristine_unstarted: "unstarted limit st \<Longrightarrow> pristine limit pid (st\<lparr>ps_pid := pid\<rparr>)"
  by (auto simp: unstarted_def pristine_def fresh_process_def zero_outcome_def)

lemma wp_stage_close_fd:
  assumes s: "stage M L R W s" and H: "tolerant W" and E: "E Blocked"
    and post: "\<And>fd' s'. stage M L R W s' \<Longrightarrow> Q fd' s'"
  shows "wp E (nq_process_close_fd fd) Q s"
proof (cases "fd \<ge> 0")
  case True
  show ?thesis
    unfolding nq_process_close_fd_def if_P [OF True] wp_andthen wp_ret
    by (rule wp_stage_close [where E = E, OF s H E]) (rule post)
qed (use s in \<open>simp add: nq_process_close_fd_def wp_ret post\<close>)

lemma wp_close_child_ends:
  assumes s: "stage M L R W s" and H: "tolerant W" and E: "E Blocked"
    and post: "\<And>ps' s'. stage M L R W s' \<Longrightarrow> length ps' = length ps \<Longrightarrow> Q ps' s'"
  shows "wp E (close_child_ends index ps) Q s"
  using s post
proof (induction ps arbitrary: index s Q)
  case (Cons p ps)
  obtain a b where p: "p = (a, b)" by (cases p)
  have rest: "wp E (close_child_ends (index + 1) ps) (\<lambda>rest. wp E (ret (pair # rest)) Q) s'" if "stage M L R W s'" for pair s'
    by (rule Cons.IH [OF that]) (simp add: wp_ret Cons.prems(2))
  show ?case
    unfolding p close_child_ends.simps wp_bind
  proof (cases "index = 0")
    case True
    show "wp E (if index = 0 then bind (nq_process_close_fd a) (\<lambda>a. ret (a, b))
           else bind (nq_process_close_fd b) (\<lambda>b. ret (a, b)))
       (\<lambda>pair. wp E (close_child_ends (index + 1) ps) (\<lambda>rest. wp E (ret (pair # rest)) Q)) s"
      unfolding if_P [OF True] wp_bind wp_ret [of _ "(_, b)"]
      by (rule wp_stage_close_fd [where E = E, OF Cons.prems(1) H E]) (rule rest)
  next
    case False
    show "wp E (if index = 0 then bind (nq_process_close_fd a) (\<lambda>a. ret (a, b))
           else bind (nq_process_close_fd b) (\<lambda>b. ret (a, b)))
       (\<lambda>pair. wp E (close_child_ends (index + 1) ps) (\<lambda>rest. wp E (ret (pair # rest)) Q)) s"
      unfolding if_not_P [OF False] wp_bind wp_ret [of _ "(a, _)"]
      by (rule wp_stage_close_fd [where E = E, OF Cons.prems(1) H E]) (rule rest)
  qed
qed (simp add: wp_ret)

lemma wp_stage_exec_error:
  assumes s: "stage M L R W s" and H: "tolerant W" and E: "E Blocked"
    and post: "\<And>e s'. stage M L R W s' \<Longrightarrow> Q e s'"
  shows "wp E (nq_process_exec_error fd) Q s"
  unfolding nq_process_exec_error_def
proof (rule wp_loop [where I = "\<lambda>_ s. stage M L R W s"], rule s, goal_cases)
  case (1 got s1)
  show ?case
  proof (cases "length got < 4")
    case True
    show ?thesis
      unfolding exec_error_round_def if_P [OF True] c_read_def wp_bind wp_get_errno wp_ret
    proof (rule wp_stage_sys [where E = E, OF 1 H _ E], simp, goal_cases)
      case (1 r s2)
      then show ?case by (auto simp: wp_ret post split: option.split)
    qed
  qed (use 1 in \<open>simp add: exec_error_round_def wp_ret post\<close>)
qed

lemma wp_start_parent:
  assumes s: "stage (add_mset (b, BProc st) M) L R (since s0 (born pid)) s" and st: "unstarted limit st"
    and l: "la_child l = Some b" and kernel: "explains s0" and E: "E Blocked"
    and post: "\<And>st' ps status s'. stage (add_mset (b, BProc st') M) L R (since s0 (born pid)) s' \<Longrightarrow> pristine limit pid st' \<Longrightarrow>
        ps_input st' = ps_input st \<Longrightarrow> status \<noteq> SystemError 0 \<Longrightarrow> (status = Going \<Longrightarrow> ps_group st') \<Longrightarrow>
        Q (l\<lparr>la_pipes := ps\<rparr>, status) s'"
  shows "wp E (start_parent pid l) Q s"
proof -
  let ?st = "st\<lparr>ps_pid := pid\<rparr>"
  note new = pristine_unstarted [OF st, of pid]
  have same: "l\<lparr>la_pipes := la_pipes l\<rparr> = l" by simp
  have twice: "l\<lparr>la_pipes := ps, la_pipes := qs\<rparr> = l\<lparr>la_pipes := qs\<rparr>" for ps qs by simp
  show ?thesis
    unfolding start_parent_def l option.case wp_bind wp_ret wp_andthen wp_get_errno
  proof (rule wp_stage_load_proc [OF s], rule wp_stage_store_proc [OF s],
      rule wp_stage_retry [where E = E, OF _ tolerant_phases(2) _ E], assumption, simp, goal_cases)
    case (1 s1 r s2)
    show ?case
    proof (cases "r_ret r < 0 \<and> errno s2 \<noteq> EACCES \<and> errno s2 \<noteq> ESRCH")
      case True
      have "errno s2 \<noteq> 0" using kernel stage_reply [OF 1(1,5)] 1(4) True by (simp add: explains_def)
      then have "Q (l\<lparr>la_pipes := la_pipes l\<rparr>, SystemError (errno s2)) s2" by (intro post [OF 1(3) new]) simp_all
      then show ?thesis unfolding if_P [OF True] wp_ret same .
    next
      case False
      show ?thesis
        unfolding if_not_P [OF False] wp_andthen wp_bind Let_def
      proof (rule wp_stage_store_proc [OF 1(3)], rule wp_close_child_ends [where E = E, OF _ tolerant_phases(2) E], assumption,
          rule wp_stage_exec_error [where E = E, OF _ tolerant_phases(2) E], assumption, goal_cases)
        case (1 s3 ps s4 e s5)
        show ?case
        proof (cases "e \<noteq> 0")
          case True
          show ?thesis
            unfolding if_P [OF True] wp_ret by (rule post [OF 1(5)]) (use new True in simp_all)
        next
          case no: False
          show ?thesis
            unfolding if_not_P [OF no] wp_andthen wp_ret twice
            by (rule wp_stage_store_proc [OF 1(5)], rule post, assumption) (use new in simp_all)
        qed
      qed
    qed
  qed
qed

text \<open>Where the child may end: in the child.\<close>

definition start_ends :: "stop \<Rightarrow> bool" where
  "start_ends r \<longleftrightarrow> child_ends r \<or> ends_or_blocks r"

lemma start_ends_simps [simp]:
  "start_ends Blocked" "start_ends (QuickExit 1)" "start_ends (QuickExit 127)" "start_ends Execed"
  by (simp_all add: start_ends_def child_ends_def ends_or_blocks_def)

text \<open>What the child finds: its program, its directory and two vectors.\<close>

definition launchable :: "launch \<Rightarrow> nqstate \<Rightarrow> bool" where
  "launchable l s \<longleftrightarrow> has_c_string (heap s) (la_directory l) \<and> has_c_string (heap s) (la_executable l) \<and>
     has_vector (heap s) (la_argv l) \<and> has_vector (heap s) (la_envp l)"

lemma launchable_remains:
  assumes M: "remains l n (la_executable l) M" and s: "stage (M + M') L R W s"
    and ready: "la_argv l \<noteq> PNull" "la_envp l \<noteq> PNull" "la_executable l \<noteq> PNull" "la_directory l \<noteq> PNull"
  shows "launchable l s"
proof -
  obtain Ma Me Mx Md where blocks: "argv_blocks l n (la_executable l) Ma" "envp_blocks l Me"
     "name_block (la_executable l) Mx" "name_block (la_directory l) Md" "M = Ma + (Me + (Mx + Md))"
    using M by (auto simp: remains_def)
  obtain x where x: "la_executable l = address x" "Mx = {#text_cell x#}"
    using blocks(3) ready(3) unfolding name_block_def by blast
  obtain d where d: "la_directory l = address d" "Md = {#text_cell d#}"
    using blocks(4) ready(4) unfolding name_block_def by blast
  obtain a xs m where argv: "la_argv l = PHeap a 0"
      "Ma = add_mset (a, cells (address x # map address xs @ nulls (m + 1))) (texts xs)"
    using blocks(1) ready(1) unfolding argv_blocks_def x(1) by blast
  obtain e es ys k where envp: "la_envp l = PHeap e 0" "literals es"
      "Me = add_mset (e, cells (es @ map address ys @ nulls (k + 1))) (texts ys)"
    using blocks(2) ready(2) unfolding envp_blocks_def by blast
  note M' = blocks(5) [unfolded x(2) d(2) argv(2) envp(3)]
  have str: "has_c_string (heap s) (address y)" if "y = x \<or> y = d \<or> y \<in> set xs \<or> y \<in> set ys" for y
    by (rule has_c_string_text [OF s]) (use that in \<open>auto simp: M'\<close>)
  have "has_vector (heap s) (la_argv l)"
    unfolding argv(1)
  proof (rule has_vector_held [where qs = "address x # map address xs" and rest = "nulls m"])
    show "stage (add_mset (a, cells ((address x # map address xs) @ PNull # nulls m))
        (texts xs + (add_mset (e, cells (es @ map address ys @ nulls (k + 1))) (texts ys) + ({#text_cell x#} + {#text_cell d#}) + M'))) L R W s"
      using s by (simp add: M' ac_simps add_mset_commute)
  qed (auto intro: str)
  moreover have "has_vector (heap s) (la_envp l)"
    unfolding envp(1)
  proof (rule has_vector_held [where qs = "es @ map address ys" and rest = "nulls k"])
    show "stage (add_mset (e, cells ((es @ map address ys) @ PNull # nulls k))
        (texts ys + (add_mset (a, cells (address x # map address xs @ nulls (m + 1))) (texts xs) + ({#text_cell x#} + {#text_cell d#}) + M'))) L R W s"
      using s by (simp add: M' ac_simps add_mset_commute)
    have "has_c_string h e" if "e \<in> set es" for e h
      using envp(2) that by (auto simp: literals_def has_c_string_def)
    then show "\<forall>q \<in> set (es @ map address ys). has_c_string (heap s) q" by (auto intro: str)
  qed
  ultimately show ?thesis using str by (simp add: launchable_def x(1) d(1))
qed

lemma wp_stage_fork:
  assumes s: "stage M L R (since s0 unborn) s" and E: "E Blocked"
    and none: "\<And>r s'. stage M L R (since s0 unborn) s' \<Longrightarrow> r_ret r \<le> 0 \<Longrightarrow> errno s' = r_errno r \<Longrightarrow> r \<in> set (script s0) \<Longrightarrow>
        Q r s'"
    and new: "\<And>r s'. stage M L R (since s0 (born (r_ret r))) s' \<Longrightarrow> 0 < r_ret r \<Longrightarrow> Q r s'"
  shows "wp E (retry_call Fork) Q s"
  unfolding retry_call_def
proof (rule wp_loop [where I = "\<lambda>_ s. stage M L R (since s0 unborn) s"], rule s, goal_cases)
  case (1 a s1)
  show ?case
  proof (cases "script s1")
    case (Cons r rs)
    let ?s = "s1\<lparr>script := rs, trace := trace s1 @ [Fork], errno := r_errno r\<rparr>"
    have r: "r \<in> set (script s0)" by (rule stage_reply [OF 1]) (simp add: Cons)
    show ?thesis
    proof (cases "0 < r_ret r")
      case True
      have "stage M L R (since s0 (born (r_ret r))) ?s"
        by (rule stage_sys [OF 1 Cons]) (unfold born_def, rule exI, rule exI [of _ r], rule exI [of _ "[]"], use True in simp)
      with new [OF this True] True show ?thesis by (simp add: wp_bind wp_sys Cons wp_get_errno wp_ret)
    next
      case False
      then have "stage M L R (since s0 unborn) ?s" by (intro stage_sys [OF 1 Cons]) (auto simp: unborn_def)
      with none [OF this _ _ r] False show ?thesis by (simp add: wp_bind wp_sys Cons wp_get_errno wp_ret)
    qed
  qed (simp add: wp_bind wp_sys E)
qed

lemma wp_start_fork:
  assumes s: "stage (add_mset (b, BProc st) M) L R (since s0 unborn) s" and st: "unstarted limit st"    and M: "\<And>s'. stage (add_mset (b, BProc st) M) L R (since s0 unborn) s' \<Longrightarrow> launchable l s'"
    and l: "la_child l = Some b" and kernel: "explains s0"
    and none: "\<And>e s'. stage (add_mset (b, BProc st) M) L R (since s0 unborn) s' \<Longrightarrow> e \<noteq> 0 \<Longrightarrow> Q (l, SystemError e) s'"
    and new: "\<And>pid st' ps status s'. stage (add_mset (b, BProc st') M) L R (since s0 (born pid)) s' \<Longrightarrow> pristine limit pid st' \<Longrightarrow>
        ps_input st' = ps_input st \<Longrightarrow> status \<noteq> SystemError 0 \<Longrightarrow> (status = Going \<Longrightarrow> ps_group st') \<Longrightarrow>
        Q (l\<lparr>la_pipes := ps\<rparr>, status) s'"
  shows "wp start_ends (start_fork l) Q s"
  unfolding start_fork_def wp_bind
proof (rule wp_stage_fork [where E = start_ends, OF s], simp, goal_cases)
  case (1 r s')
  consider "r_ret r < 0" | "r_ret r = 0" using 1(2) by linarith
  then show ?case
  proof cases
    case neg: 1
    then have "r_errno r \<noteq> 0" using kernel 1(4) by (auto simp: explains_def)
    with neg none [OF 1(1)] 1(3) show ?thesis by (simp add: wp_bind wp_get_errno wp_ret)
  next
    case 2
    note found = M [OF 1(1), unfolded launchable_def]
    have "wp child_ends (start_child l) Q s'" by (rule wp_start_child) (use found in simp_all)
    then have "wp start_ends (start_child l) Q s'" by (rule wp_weaken) (simp add: start_ends_def)
    with 2 show ?thesis by simp
  qed
next
  case (2 r s')
  have "wp start_ends (start_parent (r_ret r) l) Q s'"
    by (rule wp_start_parent [where E = start_ends, OF 2(1) st l kernel]) (simp_all add: new)
  with 2(2) show ?case by simp
qed

section \<open>Dropping what is left\<close>

definition forked :: "int \<Rightarrow> history \<Rightarrow> history \<Rightarrow> bool" where
  "forked pid later h \<longleftrightarrow> (\<exists>h1 r. h = h1 @ (Fork, r) # later \<and> r_ret r = pid \<and> 0 < pid \<and> unborn h1)"

text \<open>No child was made, or it is gone, and was named only while it was there.\<close>

definition outlived :: "history \<Rightarrow> bool" where
  "outlived h \<longleftrightarrow>
     (\<exists>pid later. forked pid later h \<and> disciplined pid later \<and> (\<exists>call \<in> set later. gone pid call))"

definition no_orphan :: "history \<Rightarrow> bool" where
  "no_orphan h \<longleftrightarrow> unborn h \<or> outlived h"

lemma quiet_disciplined: "\<forall>c \<in> set h. quiet (fst c) \<Longrightarrow> disciplined pid h \<and> \<not> reaped pid h"
  by (induction h) (auto simp: reaps_def reaped_def)

lemma unborn_no_orphan: "unborn h \<Longrightarrow> no_orphan h"
  by (simp add: no_orphan_def)

text \<open>The process state owns its input, and nothing else yet.\<close>

lemma pristine_owns:
  assumes "pristine limit pid st" and "owns (add_mset (ps_input st, v) L) R' s"
  shows "\<exists>L'. owns L' R' s \<and> process_owns st L R' L' R'"
proof -
  let ?L' = "add_mset (ps_input st, v) (add_mset (po_stdout (ps_outcome st), []) (add_mset (po_stderr (ps_outcome st), []) L))"
  have inert: "inert (po_stdout (ps_outcome st))" "inert (po_stderr (ps_outcome st))"
    using assms(1) by (simp_all add: pristine_def)
  have "owns ?L' R' s"
    using owns_add_inert [OF owns_add_inert [OF assms(2) inert(2)] inert(1)] by (simp add: add_mset_commute)
  moreover have "process_owns st L R' ?L' R'"
    unfolding process_owns_def buffer_slot_def
    using assms(1) by (intro exI [of _ "[]"] exI [of _ v] exI [of _ R'] conjI) (auto simp: pristine_def holds_zero_buffer)
  ultimately show ?thesis by blast
qed

lemma wp_drop_unstarted:
  assumes s: "stage {#(b, BProc st)#} (add_mset (ps_input st, v) L) R W s" and st: "unstarted limit st"
    and post: "\<And>s'. stage {#} L R W s' \<Longrightarrow> Q (Some None) s'"
  shows "wp E (nq_process_drop (Some (Some b))) Q s"
proof -
  obtain t where t: "st = (fresh_process limit)\<lparr>ps_input := t\<rparr>" using st by (auto simp: unstarted_def)
  obtain R' where R': "holding {#(b, BProc st)#} R R'" "owns (add_mset (ps_input st, v) L) R' s"
    using s by (auto simp: stage_def)
  have pid: "\<not> ps_pid st > 0" and fds: "ps_input_fd st = - 1" "ps_output_fd st = - 1" "ps_error_fd st = - 1"
    and bufs: "bb_data (ps_output st) = PNull" "bb_data (ps_error st) = PNull"
    by (simp_all add: t fresh_process_def zero_buffer_def)
  have closed: "wp E (ignore (nq_process_close_fd (- 1))) Q' s = Q' () s" for Q' s
    by (simp add: ignore_def nq_process_close_fd_def wp_bind wp_ret)
  have outcome: "wp E (nq_process_outcome_drop (Some (ps_outcome st))) (\<lambda>_. Q' ()) s" if "Q' () s" for Q' s
    by (rule outcome.drop_dead) (use that in \<open>auto simp: dead_outcome_def t fresh_process_def\<close>)
  have "wp E (nq_process_cleanup st) (\<lambda>_. wp E (andthen (c_free (PHeap b 0)) (ret (Some None))) Q) s"
    unfolding nq_process_cleanup_def if_not_P [OF pid] wp_andthen wp_bind wp_ret fds closed
    unfolding ignore_def wp_bind wp_ret
  proof (rule wp_nq_str_drop [OF R'(2)], unfold bufs wp_c_free_null, rule outcome, goal_cases)
    case (1 s1)
    have "stage {#(b, BProc st)#} L R W s1" by (rule stage_world [OF s 1(2) R'(1) 1(1)])
    then show ?case by (rule wp_stage_free) (simp add: wp_ret post)
  qed
  then show ?thesis
    unfolding nq_process_drop_def option.case wp_bind wp_andthen by (rule wp_stage_load_proc [OF s])
qed

lemma wp_drop_born:
  assumes s: "stage {#(b, BProc st)#} (add_mset (ps_input st, v) L) R (since s0 (born pid)) s" and st: "pristine limit pid st"
    and E: "E Blocked" "E (QuickExit 1)" and post: "\<And>h s'. owns L R s' \<Longrightarrow> calls s0 h s' \<Longrightarrow> no_orphan h \<Longrightarrow> Q (Some None) s'"
  shows "wp E (nq_process_drop (Some (Some b))) Q s"
proof -
  obtain R' where "holding {#(b, BProc st)#} R R'" and owns: "owns (add_mset (ps_input st, v) L) R' s"
    using s by (auto simp: stage_def)
  then have R': "R' = R(b \<mapsto> BProc st)" "R b = None" by (auto simp: holding_def fun_eq_iff)
  obtain h1 r h2 where h: "calls s0 (h1 @ (Fork, r) # h2) s" "r_ret r = pid" "0 < pid" "unborn h1" "\<forall>c \<in> set h2. quiet (fst c)"
    using s unfolding stage_def since_world born_def by blast
  obtain L' where L': "owns L' R' s" "process_owns st L R' L' R'" using pristine_owns [OF st owns] by blast
  define s1 where "s1 = s\<lparr>script := map snd h2 @ script s, trace := trace s0 @ map fst h1 @ [Fork]\<rparr>"
  have "calls s1 h2 s" using h(1) by (simp add: calls_def s1_def)
  then have child: "child L' R' pid s1 (moved h2) (ps_pid st) s"
    using h(3) quiet_disciplined [OF h(5), of pid] L'(1) st unfolding child_def pristine_def by auto
  have mine: "process_owns st L (R(b \<mapsto> BProc st)) L' R'" using L'(2) by (simp only: R'(1) [symmetric])
  show ?thesis
  proof (rule wp_nq_process_drop [where E = E, OF child mine R'(2) E], goal_cases)
    case (1 s')
    then obtain h3 where h3: "calls s1 h3 s'" "disciplined pid h3" "\<exists>call \<in> set h3. gone pid call"
      using h(3) unfolding child_def by auto
    have "calls s0 (h1 @ (Fork, r) # h3) s'" using h(1) h3(1) by (simp add: calls_def s1_def)
    moreover have "no_orphan (h1 @ (Fork, r) # h3)"
      using h(2-4) h3(2,3) unfolding no_orphan_def outlived_def forked_def by blast
    ultimately show ?case by (rule post [OF child_owns [OF 1]])
  qed
qed

section \<open>Checking the request\<close>

text \<open>What \<open>nq_process_start\<close> asks of its arguments.\<close>

definition plain_text :: "string \<Rightarrow> bool" where
  "plain_text v \<longleftrightarrow> CHR 0x00 \<notin> set v"

definition accepted :: "string \<Rightarrow> string \<Rightarrow> string list \<Rightarrow> string list \<Rightarrow> string \<Rightarrow> int \<Rightarrow> bool" where
  "accepted program cwd args env input limit \<longleftrightarrow> (\<exists>rest. program = CHR ''/'' # rest) \<and> plain_text program \<and>
     cwd \<noteq> [] \<and> plain_text cwd \<and> list_all plain_text args \<and> list_all plain_text env \<and>
     length input \<le> nat INT32_MAX \<and> 0 \<le> limit \<and> limit \<le> INT32_MAX"

lemma wp_all_valid:
  assumes cells: "list_cells ts vs L R b s" and "i + n \<le> length vs"
    and "\<And>ok. (ok \<Longrightarrow> list_all plain_text (take n (drop i vs))) \<Longrightarrow> Q ok s"
  shows "wp E (all_valid c (PHeap b 0) i n) Q s"
  using assms(2,3)
proof (induction n arbitrary: i)
  case (Suc n)
  then have i: "i < length vs" by simp
  have owns: "owns L R s" and live: "(ts ! i, vs ! i) \<in># L" using cells i by (auto simp: list_cells_def)
  have take: "take (Suc n) (drop i vs) = vs ! i # take n (drop (i + 1) vs)"
    using i by (simp add: Cons_nth_drop_Suc [symmetric])
  have nul: "wp E (bind (nq_str_has_nul (ts ! i)) (\<lambda>nul. if nul then ret False else all_valid c (PHeap b 0) (i + 1) n)) Q s"
    unfolding wp_bind
  proof (rule wp_nq_str_has_nul [OF owns live], cases "CHR 0x00 \<in> set (vs ! i)")
    case False
    show "wp E (if CHR 0x00 \<in> set (vs ! i) then ret False else all_valid c (PHeap b 0) (i + 1) n) Q s"
      unfolding if_not_P [OF False]
      by (rule Suc.IH) (use Suc.prems False in \<open>simp_all add: take plain_text_def\<close>)
  qed (simp add: wp_ret Suc.prems(2))
  show ?case
    unfolding all_valid.simps wp_bind
    by (rule wp_cells_load [OF cells i])
      (use nul Suc.prems(2) in \<open>simp add: wp_ret wp_bind\<close>)
qed (simp add: wp_ret)

lemma wp_nq_process_list_valid:
  assumes owns: "owns L R s" and list: "\<And>l. p = Some l \<Longrightarrow> lent_list l vs L R"
    and post: "\<And>ok. (ok \<Longrightarrow> p \<noteq> None \<and> list_all plain_text vs) \<Longrightarrow> Q ok s"
  shows "wp E (nq_process_list_valid c p) Q s"
proof (cases p)
  case (Some l)
  note l = list [OF Some]
  have "wp E (all_valid c (l_data l) 0 (length vs)) Q s"
  proof (cases "vs = []")
    case True
    then show ?thesis using post [of True] Some by (simp add: wp_ret)
  next
    case False
    then obtain ts b where b: "l_data l = PHeap b 0" "lent ts vs L R b" using l by (auto simp: lent_list_def)
    have "list_cells ts vs L R b s" using b(2) owns by (simp add: lent_def list_cells_def)
    then show ?thesis unfolding b(1) by (rule wp_all_valid) (use Some in \<open>auto intro: post\<close>)
  qed
  then show ?thesis
    using post [of False] by (simp add: nq_process_list_valid_def Some lent_list_len [OF l] wp_ret)
qed (simp add: nq_process_list_valid_def wp_ret post)

lemma wp_reject:
  "wp E (bind m (\<lambda>b. if b then ret True else f)) Q = wp E m (\<lambda>b s'. if b then Q True s' else wp E f Q s')"
  unfolding wp_bind by (rule arg_cong [where f = "wp E m"]) (simp add: fun_eq_iff wp_ret)

lemma wp_start_invalid:
  assumes owns: "owns L R s" and program: "(program, vp) \<in># L" and cwd: "(cwd, vd) \<in># L"
    and input: "input_text input vi L" and args: "\<And>l. args = Some l \<Longrightarrow> lent_list l va L R"
    and env: "\<And>l. env = Some l \<Longrightarrow> lent_list l ve L R"
    and post: "\<And>bad. (\<not> bad \<Longrightarrow> args \<noteq> None \<and> env \<noteq> None \<and> accepted vp vd va ve vi limit \<and>
        length vp \<le> SIZE_MAX \<and> length vd \<le> SIZE_MAX) \<Longrightarrow> Q bad s"
  shows "wp E (start_invalid c program args cwd env input capture limit) Q s"
proof -
  have reject: "Q True s" by (rule post) simp
  have lens: "s_len program = int (length vp)" "s_len cwd = int (length vd)"
    using owns_live_len [OF owns] program cwd by blast+
  have valid: "nq_str_storage_is_valid c program \<longleftrightarrow> length vp \<le> nq_str_limit c"
      "nq_str_storage_is_valid c cwd \<longleftrightarrow> length vd \<le> nq_str_limit c"
    using live_storage_valid [OF owns] program cwd by blast+
  have vi: "length vi \<le> nat INT32_MAX"
    if "\<not> (case input of Some t \<Rightarrow> \<not> nq_str_storage_is_valid c t | None \<Rightarrow> False)"
  proof (cases input)
    case (Some t)
    then have "length vi \<le> nq_str_limit c"
      using that input live_storage_valid [OF owns, of t vi c] by (simp add: input_text_def)
    with str_limit_le [of c] show ?thesis by (simp add: width_defs)
  qed (use input in \<open>simp add: input_text_def\<close>)
  have first: "readable L R (s_data program) 1 (take 1 vp)" if "vp \<noteq> []"
    unfolding readable_def
  proof (intro allI impI)
    fix L' R' s' assume "L \<subseteq># L'" "R \<subseteq>\<^sub>m R'" "owns L' R' s'"
    then have "read_bytes (heap s') (s_data program) (length vp) = Some vp"
      using readable_live [OF program, of R] lens(1) by (simp add: readable_def)
    from read_bytes_part [OF this, of 0 1] that
    show "read_bytes (heap s') (s_data program) 1 = Some (take 1 vp)"
      by (cases "s_data program") (simp_all add: Suc_leI)
  qed
  have check: "if b then Q True s else X" if "\<not> b \<Longrightarrow> X" for b X
    using that reject by simp
  show ?thesis
    unfolding start_invalid_def Let_def wp_reject wp_bind wp_ret valid lens
  proof (rule check, rule wp_load_bytes [OF owns first], simp, rule check, rule wp_nq_str_has_nul [OF owns program], rule check,
      rule check, rule wp_nq_str_has_nul [OF owns cwd], rule check,
      rule wp_nq_process_list_valid [OF owns args], assumption, rule check,
      rule wp_nq_process_list_valid [OF owns env], assumption, rule check, rule post, goal_cases)
    case (1 ok_args ok_env)
    have "\<exists>rest. vp = CHR ''/'' # rest" using 1(1,2) by (cases vp) simp_all
    then show ?case using 1 vi str_limit_size [of c] by (auto simp: accepted_def plain_text_def)
  qed
qed

lemma check_env_detail: "check_env env i n s = Ret (Some detail) s' \<Longrightarrow> CHR 0x00 \<notin> set detail"
  by (induction n arbitrary: i s) (auto simp: bind_def ret_def split: outcome.splits if_splits)

lemma wp_check_list:
  assumes owns: "owns L R s" and list: "lent_list env ve L R"
    and post: "\<And>defect. (defect = None \<Longrightarrow> list_all env_entry ve \<and> distinct (map env_key ve)) \<Longrightarrow>
        (\<And>detail. defect = Some detail \<Longrightarrow> CHR 0x00 \<notin> set detail) \<Longrightarrow> Q defect s"
  shows "wp E (check_env (l_data env) 0 (nat (l_len env))) Q s"
proof (cases "ve = []")
  case True
  then show ?thesis unfolding lent_list_len [OF list] using post [of None] by (simp add: wp_ret)
next
  case False
  then obtain ts b where b: "l_data env = PHeap b 0" "lent ts ve L R b" using list by (auto simp: lent_list_def)
  have cells: "list_cells ts ve L R b s" using b(2) owns by (simp add: lent_def list_cells_def)
  have "wp E (check_env (PHeap b 0) 0 (length ve))
      (\<lambda>r s'. (r = None \<longleftrightarrow> (\<forall>v \<in> set ve. env_entry v) \<and> distinct (map env_key ve)) \<and> s' = s) s"
    by (rule wp_check_env [OF cells]) simp_all
  then show ?thesis
    unfolding lent_list_len [OF list] b(1) wp_def
    by (auto split: outcome.splits intro!: post dest: check_env_detail simp: list_all_iff)
qed

section \<open>The launch\<close>

lemma remains_upd [simp]:
  "remains (l\<lparr>la_pipes := ps\<rparr>) n first M = remains l n first M"
  "remains (l\<lparr>la_child := ch\<rparr>) n first M = remains l n first M"
  by (simp_all add: remains_def argv_blocks_def envp_blocks_def)

text \<open>What there may be when control reaches \<open>release:\<close>.\<close>

definition left_over ::
  "nat \<Rightarrow> int \<Rightarrow> string \<Rightarrow> strs \<Rightarrow> raws \<Rightarrow> nqstate \<Rightarrow> launch \<Rightarrow> launch_status \<Rightarrow> nqstate \<Rightarrow> bool" where
  "left_over n limit input L R s0 l status s \<longleftrightarrow> status \<noteq> SystemError 0 \<and> (\<exists>first M. remains l n first M \<and>
     (la_child l = None \<and> status \<noteq> Going \<and> stage M L R (since s0 unborn) s \<or>
      (\<exists>b st v. la_child l = Some b \<and> unstarted limit st \<and> status \<noteq> Going \<and>
         stage (add_mset (b, BProc st) M) (add_mset (ps_input st, v) L) R (since s0 unborn) s) \<or>
      (\<exists>b st pid. la_child l = Some b \<and> pristine limit pid st \<and> (status = Going \<longrightarrow> ps_group st) \<and>
         stage (add_mset (b, BProc st) M) (add_mset (ps_input st, input) L) R (since s0 (born pid)) s)))"

lemma left_overI:
  "remains l n first M \<Longrightarrow> la_child l = None \<Longrightarrow> status \<noteq> Going \<Longrightarrow> status \<noteq> SystemError 0 \<Longrightarrow>
     stage M L R (since s0 unborn) s \<Longrightarrow> left_over n limit input L R s0 l status s"
  "remains l n first M \<Longrightarrow> la_child l = Some b \<Longrightarrow> unstarted limit st \<Longrightarrow> status \<noteq> Going \<Longrightarrow> status \<noteq> SystemError 0 \<Longrightarrow>
     stage (add_mset (b, BProc st) M) (add_mset (ps_input st, v) L) R (since s0 unborn) s \<Longrightarrow>
     left_over n limit input L R s0 l status s"
  "remains l n first M \<Longrightarrow> la_child l = Some b \<Longrightarrow> pristine limit pid st \<Longrightarrow> (status = Going \<Longrightarrow> ps_group st) \<Longrightarrow>
     status \<noteq> SystemError 0 \<Longrightarrow>
     stage (add_mset (b, BProc st) M) (add_mset (ps_input st, input) L) R (since s0 (born pid)) s \<Longrightarrow>
     left_over n limit input L R s0 l status s"
  unfolding left_over_def by blast+

text \<open>The vectors and names are complete.\<close>

definition prepared :: "nat \<Rightarrow> launch \<Rightarrow> blocks \<Rightarrow> bool" where
  "prepared n l M \<longleftrightarrow> remains l n (la_executable l) M \<and> la_argv l \<noteq> PNull \<and> la_envp l \<noteq> PNull \<and>
     la_executable l \<noteq> PNull \<and> la_directory l \<noteq> PNull"

lemma prepared_remains: "prepared n l M \<Longrightarrow> remains l n (la_executable l) M"
  by (simp add: prepared_def)

lemma prepared_upd [simp]:
  "prepared n (l\<lparr>la_pipes := ps\<rparr>) M = prepared n l M" "prepared n (l\<lparr>la_child := ch\<rparr>) M = prepared n l M"
  by (simp_all add: prepared_def)

lemma prepared_launchable: "prepared n l M \<Longrightarrow> stage (add_mset x M) L R W s \<Longrightarrow> launchable l s"
  using launchable_remains [of l n M "{#x#}" L R W s] by (simp add: prepared_def)

lemma wp_launch_fork:
  assumes l: "prepared n l M" "la_child l = Some b" and st: "unstarted limit st" and kernel: "explains s0"
    and s: "stage (add_mset (b, BProc st) M) (add_mset (ps_input st, input) L) R (since s0 unborn) s"
  shows "wp start_ends (next_step (start_pipes has_input capture 0 4 l) start_fork)
    (\<lambda>(l, status). left_over n limit input L R s0 l status) s"
  unfolding wp_next_step
proof (rule wp_start_pipes [where E = start_ends, OF s], simp, simp, goal_cases)
  case (1 ps status s2)
  let ?l = "l\<lparr>la_pipes := ps\<rparr>"
  have rem: "remains (?l\<lparr>la_pipes := qs\<rparr>) n (la_executable l) M" "remains ?l n (la_executable l) M" for qs
    using prepared_remains [OF l(1)] by simp_all
  show ?case
  proof (cases "status = Going")
    case True
    have found: "launchable ?l s3" if "stage (add_mset (b, BProc st) M) (add_mset (ps_input st, input) L) R (since s0 unborn) s3" for s3
      by (rule prepared_launchable [OF _ that]) (use l in simp)
    show ?thesis
      unfolding prod.case if_P [OF True]
    proof (rule wp_start_fork [OF 1(1) st found _ kernel], assumption, goal_cases)
      case (2 e s3)
      then show ?case unfolding prod.case by (intro left_overI(2) [OF rem(2) _ st]) (use l in simp_all)
    next
      case (3 pid st' qs status s3)
      then have "stage (add_mset (b, BProc st') M) (add_mset (ps_input st', input) L) R (since s0 (born pid)) s3" by simp
      from left_overI(3) [OF rem(1) _ 3(2,5,4) this] show ?case unfolding prod.case using l by simp
    qed (use l in simp)
  next
    case False
    with 1 l(2) show ?thesis
      unfolding prod.case if_not_P [OF False] by (intro left_overI(2) [OF rem(2) _ st]) simp_all
  qed
qed

lemma wp_launch_state:
  assumes l: "prepared n l M" "la_child l = None" and kernel: "explains s0" and s: "stage M L R (since s0 unborn) s"
    and input: "input_text input vi L" "\<forall>t. input = Some t \<longrightarrow> s_len t = int (length vi)" and vi: "length vi \<le> SIZE_MAX"
  shows "wp start_ends (next_step (start_state c input limit l) (\<lambda>l.
      next_step (start_pipes has_input capture 0 4 l) start_fork)) (\<lambda>(l, status). left_over n limit vi L R s0 l status) s"
  unfolding wp_next_step [of _ "start_state _ _ _ _"]
proof (rule wp_start_state [OF s input(1) vi input(2) l(2)], goal_cases)
  case (1 b st s2)
  show ?case
    unfolding prod.case if_P [OF refl] by (rule wp_launch_fork [OF _ _ 1(2) kernel 1(1)]) (use l in simp_all)
next
  case (2 e s2)
  then show ?case using left_overI(1) [OF prepared_remains [OF l(1)] l(2)] by simp
next
  case (3 e b st s2)
  show ?case
    using left_overI(2) [OF _ _ 3(2) _ _ 3(1), of "l\<lparr>la_child := Some b\<rparr>" n] prepared_remains [OF l(1)] by simp
qed

lemma wp_launch_env:
  assumes l: "la_envp l = PHeap e 0" "la_argv l \<noteq> PNull" "la_executable l = address x" "la_directory l = address d"
    and argv: "argv_blocks l n (address x) Ma" and child: "la_child l = None" and env: "lent_list env ve L R"
    and s: "stage (add_mset (e, cells (nulls (length (inherited s) + length ve + 1))) (Ma + {#text_cell x, text_cell d#})) L R (since s0 unborn) s"
    and kernel: "explains s0" and vi: "length vi \<le> SIZE_MAX"
    and input: "input_text input vi L" "\<forall>t. input = Some t \<longrightarrow> s_len t = int (length vi)"
  shows "wp start_ends (next_step (start_env c env l) (\<lambda>l. next_step (start_state c input limit l) (\<lambda>l.
      next_step (start_pipes has_input capture 0 4 l) start_fork))) (\<lambda>(l, status). left_over n limit vi L R s0 l status) s"
  unfolding wp_next_step [of _ "start_env _ _ _"]
proof (rule wp_start_env [OF s l(1) env], goal_cases)
  case (1 u u' Me status s2)
  let ?l = "l\<lparr>la_env_borrowed := u, la_env_used := u'\<rparr>"
  have "argv_blocks ?l n (address x) Ma" using argv by (simp add: argv_blocks_def)
  then have "remains ?l n (address x) (Ma + (Me + ({#text_cell x#} + {#text_cell d#})))"
    by (rule remainsI [OF _ 1(1)]) (simp_all add: l)
  then have "prepared n ?l (Ma + (Me + ({#text_cell x#} + {#text_cell d#})))"
    using l by (simp add: prepared_def) (simp add: address_def)
  moreover have "stage (Ma + (Me + ({#text_cell x#} + {#text_cell d#}))) L R (since s0 unborn) s2"
    using 1(2) by (simp add: ac_simps)
  ultimately have all: "prepared n ?l (Ma + (Me + ({#text_cell x#} + {#text_cell d#})))"
      "stage (Ma + (Me + ({#text_cell x#} + {#text_cell d#}))) L R (since s0 unborn) s2" by blast+
  show ?case
  proof (cases "status = Going")
    case True
    show ?thesis
      unfolding prod.case if_P [OF True]
      by (rule wp_launch_state [OF all(1) _ kernel all(2) input vi]) (use child in simp)
  next
    case False
    with left_overI(1) [OF prepared_remains [OF all(1)] _ False 1(3) all(2)] child show ?thesis by simp
  qed
qed

lemma wp_launch:
  assumes owns: "owns L R s" and program: "readable L R (s_data program) (to_size (s_len program)) vp"
    and cwd: "readable L R (s_data cwd) (to_size (s_len cwd)) vd"
    and args: "lent_list args va L R" and env: "lent_list env ve L R" and input: "input_text input vi L"
    and vi: "length vi \<le> SIZE_MAX" and kernel: "explains s"
  shows "wp start_ends (next_step (start_count c no_launch) (\<lambda>l.
                  next_step (start_vectors c (nat (l_len args)) (nat (l_len env)) l) (\<lambda>l.
                  next_step (start_names c program cwd args l) (\<lambda>l.
                  next_step (start_env c env l) (\<lambda>l.
                  next_step (start_state c input limit l) (\<lambda>l.
                  next_step (start_pipes (input \<noteq> None) capture 0 4 l) start_fork))))))
    (\<lambda>(l, status). left_over (length va) limit vi L R s l status) s"
proof -
  let ?n = "length va" and ?k = "length (inherited s)"
  have start: "stage {#} L R (since s unborn) s" by (rule stage_start [OF owns]) (simp add: unborn_def)
  have early: "left_over ?n limit vi L R s l (AllocationFailed e) s'"
    if "remains l ?n first M" "la_child l = None" "stage M L R (since s unborn) s'" for l e first M s'
    by (rule left_overI(1) [OF that(1,2) _ _ that(3)]) simp_all
  have len: "\<forall>t. input = Some t \<longrightarrow> s_len t = int (length vi)"
    using owns_live_len [OF owns] input by (auto simp: input_text_def)
  show ?thesis
    unfolding wp_next_step [of _ "start_count c no_launch"] lent_list_len [OF args] lent_list_len [OF env]
  proof (rule wp_start_count, unfold prod.case if_P [OF refl] launch_status.distinct if_False
      wp_next_step [of _ "start_vectors _ _ _ _"], goal_cases)
    case 1
    show ?case
    proof (rule wp_start_vectors [OF start, where m = "length ve"], goal_cases)
      case (1 a e s1)
      let ?l = "no_launch\<lparr>la_inherited := ?k, la_argv := PHeap a 0, la_envp := PHeap e 0\<rparr>"
      let ?Me = "{#(e, cells (nulls (?k + length ve + 1)))#}"
      have envp: "envp_blocks ?l ?Me"
        unfolding envp_blocks_def
        by (rule disjI2, rule exI [of _ e], rule exI [of _ "[]"], rule exI [of _ "[]"], rule exI [of _ "?k + length ve"])
          (simp add: literals_def no_launch_def)
      have same: "?k = length (inherited s2)" if "world s2 = world s1" for s2
        using world_fields(3) [OF 1(2)] world_fields(3) [OF that] by simp
      show ?case
        unfolding prod.case if_P [OF refl] wp_next_step [of _ "start_names _ _ _ _ _"]
      proof (rule wp_start_names [OF 1(1) envp _ _ _ _ program cwd args], goal_cases)
        case (5 x d Ma s2)
        show ?case
          unfolding Let_def prod.case if_P [OF refl]
        proof (intro impI, rule wp_launch_env [where e = e and x = x and d = d and Ma = Ma, OF _ _ _ _ _ _ env _ kernel vi input len], goal_cases)
          case 7
          then show ?case unfolding same [OF 7(3), symmetric] by (simp add: add_mset_commute)
        qed (simp_all add: no_launch_def)
      next
        case (6 l st first M s2)
        then show ?case by (simp add: early)
      qed (simp_all add: no_launch_def)
    next
      case (2 l e first M s1)
      then show ?case by (simp add: early)
    qed
  next
    case (2 k)
    show ?case using early [OF remains_none _ start] by (simp add: no_launch_def)
  qed
qed

section \<open>Properties\<close>

lemma wp_report_failure:
  assumes "good_config c" and owns: "owns L R s" and program: "(program, vp) \<in># L" and status: "status \<noteq> Going"
    and post: "\<And>e w s'. owns (with_err e w L) R s' \<Longrightarrow> world s' = world s \<Longrightarrow> Q (Err e) s'"
  shows "wp E (bind (case status of
                AllocationFailed st \<Rightarrow> nq_allocation_io_err c (Some ''process_start'') st
              | SystemError e \<Rightarrow> nq_errno_io_err c (Some ''process_start'') (Some program) None e
              | Going \<Rightarrow> stop Undefined) (\<lambda>err. ret (Err err))) Q s"
proof -
  have op: "label (op_name (Some ''process_start''))" by (simp add: label_def op_name_def)
  show ?thesis
  proof (cases status)
    case (AllocationFailed st)
    show ?thesis
      unfolding AllocationFailed launch_status.case wp_bind wp_nq_allocation_io_err [OF assms(1) op] wp_ret
      by (rule post [OF owns_fallback [OF owns] refl])
  next
    case (SystemError e)
    show ?thesis
      unfolding SystemError launch_status.case wp_bind wp_ret
      by (rule wp_nq_errno_io_err [OF assms(1) owns op path_view_live [OF owns program]])
        (simp, rule post, assumption+)
  qed (use status in simp)
qed

lemma wp_drop_and_report:
  assumes "good_config c" and program: "(program, vp) \<in># L" and status: "status \<noteq> Going" "status \<noteq> SystemError 0"
    and drop: "\<And>Q. (\<And>h s'. owns L R s' \<Longrightarrow> calls s0 h s' \<Longrightarrow> no_orphan h \<Longrightarrow> Q (Some None) s') \<Longrightarrow>
        wp E (nq_process_drop (Some handle)) Q s"
    and post: "\<And>e w h s'. owns (with_err e w L) R s' \<Longrightarrow> calls s0 h s' \<Longrightarrow> no_orphan h \<Longrightarrow> Q (Err e) s'"
  shows "wp E (start_end c program handle status) Q s"
proof -
  have "\<not> (status = Going \<or> status = SystemError 0)" using status by simp
  then show ?thesis
    unfolding wp_bind [of _ "nq_process_drop _"] by (simp only: if_False wp_bind [of _ "nq_process_drop _"])
      (rule drop, rule wp_report_failure [OF assms(1) _ program status(1)], assumption, rule post,
       assumption, erule (1) calls_world)
qed

lemma stage_unborn:
  assumes "stage {#} L R (since s0 unborn) s" and "\<And>h s'. owns L R s' \<Longrightarrow> calls s0 h s' \<Longrightarrow> no_orphan h \<Longrightarrow> Q (Some None) s'"
  shows "Q (Some None) s"
  using assms unborn_no_orphan by (auto simp: stage_def since_world)

lemma holding_one: "holding {#(b, x)#} R R' \<Longrightarrow> R' = R(b \<mapsto> x) \<and> R b = None"
  by (auto simp: holding_def fun_eq_iff)

text \<open>From \<open>release:\<close> to the end of the function, in the three cases.\<close>

lemma wp_end_none:
  assumes s: "stage {#} L R (since s0 unborn) s" and c: "good_config c" and program: "(program, vp) \<in># L"
    and status: "status \<noteq> Going" "status \<noteq> SystemError 0"
    and failed: "\<And>e w h s'. owns (with_err e w L) R s' \<Longrightarrow> calls s0 h s' \<Longrightarrow> no_orphan h \<Longrightarrow> Q (Err e) s'"
  shows "wp E (start_end c program None status) Q s"
proof (rule wp_drop_and_report [where R = R and ?s0.0 = s0, OF c program status])
  fix Q' :: "nq_process option \<Rightarrow> nqstate \<Rightarrow> bool"
  assume "\<And>h s'. owns L R s' \<Longrightarrow> calls s0 h s' \<Longrightarrow> no_orphan h \<Longrightarrow> Q' (Some None) s'"
  with s have "Q' (Some None) s" by (rule stage_unborn)
  then show "wp E (nq_process_drop (Some None)) Q' s" by (simp add: nq_process_drop_def wp_ret)
qed (rule failed)

lemma wp_end_unstarted:
  assumes s: "stage {#(b, BProc st)#} (add_mset (ps_input st, v) L) R (since s0 unborn) s" and st: "unstarted limit st"
    and c: "good_config c" and program: "(program, vp) \<in># L"
    and status: "status \<noteq> Going" "status \<noteq> SystemError 0"
    and failed: "\<And>e w h s'. owns (with_err e w L) R s' \<Longrightarrow> calls s0 h s' \<Longrightarrow> no_orphan h \<Longrightarrow> Q (Err e) s'"
  shows "wp E (start_end c program (Some b) status) Q s"
proof (rule wp_drop_and_report [where R = R and ?s0.0 = s0, OF c program status])
  fix Q' :: "nq_process option \<Rightarrow> nqstate \<Rightarrow> bool"
  assume Q': "\<And>h s'. owns L R s' \<Longrightarrow> calls s0 h s' \<Longrightarrow> no_orphan h \<Longrightarrow> Q' (Some None) s'"
  show "wp E (nq_process_drop (Some (Some b))) Q' s"
    by (rule wp_drop_unstarted [OF s st], rule stage_unborn, assumption, rule Q')
qed (rule failed)

lemma wp_end_born:
  assumes s: "stage {#(b, BProc st)#} (add_mset (ps_input st, vi) L) R (since s0 (born pid)) s" and st: "pristine limit pid st"
    and c: "good_config c" and program: "(program, vp) \<in># L"
    and status: "status = Going \<longrightarrow> ps_group st" "status \<noteq> SystemError 0" and E: "E Blocked" "E (QuickExit 1)"
    and ok: "\<And>h s'. R b = None \<Longrightarrow> owns (add_mset (ps_input st, vi) L) (R(b \<mapsto> BProc st)) s' \<Longrightarrow> calls s0 h s' \<Longrightarrow>
        pristine limit (ps_pid st) st \<Longrightarrow> ps_group st \<Longrightarrow> born (ps_pid st) h \<Longrightarrow> Q (Ok (Some b)) s'"
    and failed: "\<And>e w h s'. owns (with_err e w L) R s' \<Longrightarrow> calls s0 h s' \<Longrightarrow> no_orphan h \<Longrightarrow> Q (Err e) s'"
  shows "wp E (start_end c program (Some b) status) Q s"
proof (cases "status = Going")
  case True
  have "ps_pid st = pid" using st by (simp add: pristine_def)
  with s ok st status(1) True show ?thesis by (auto simp: stage_def since_world wp_ret dest!: holding_one)
next
  case False
  show ?thesis
    by (rule wp_drop_and_report [where R = R and ?s0.0 = s0, OF c program False status(2)],
        rule wp_drop_born [where E = E, OF s st E]) (simp_all add: failed)
qed

lemma wp_start_finish:
  assumes "good_config c" and program: "(program, vp) \<in># L" and left: "left_over n limit vi L R s0 l status s"
    and n: "nat (l_len args) = n"
    and ok: "\<And>b st h s'. R b = None \<Longrightarrow> owns (add_mset (ps_input st, vi) L) (R(b \<mapsto> BProc st)) s' \<Longrightarrow> calls s0 h s' \<Longrightarrow>
        pristine limit (ps_pid st) st \<Longrightarrow> ps_group st \<Longrightarrow> born (ps_pid st) h \<Longrightarrow> Q (Ok (Some b)) s'"
    and failed: "\<And>e w h s'. owns (with_err e w L) R s' \<Longrightarrow> calls s0 h s' \<Longrightarrow> no_orphan h \<Longrightarrow> Q (Err e) s'"
  shows "wp start_ends (start_release c program args l status) Q s"
proof -
  obtain first M where rem: "remains l n first M" and zero: "status \<noteq> SystemError 0"
    and cases: "la_child l = None \<and> status \<noteq> Going \<and> stage M L R (since s0 unborn) s \<or>
      (\<exists>b st v. la_child l = Some b \<and> unstarted limit st \<and> status \<noteq> Going \<and>
         stage (add_mset (b, BProc st) M) (add_mset (ps_input st, v) L) R (since s0 unborn) s) \<or>
      (\<exists>b st pid. la_child l = Some b \<and> pristine limit pid st \<and> (status = Going \<longrightarrow> ps_group st) \<and>
         stage (add_mset (b, BProc st) M) (add_mset (ps_input st, vi) L) R (since s0 (born pid)) s)"
    using left unfolding left_over_def by blast
  note release = wp_start_release [where E = start_ends, OF rem _ _ _ n]
  from cases show ?thesis
  proof (elim disjE exE conjE)
    assume l: "la_child l = None" "status \<noteq> Going" and "stage M L R (since s0 unborn) s"
    then have s: "stage (M + {#}) L R (since s0 unborn) s" by simp
    show ?thesis
      by (rule release [OF s], simp, simp, unfold l(1), rule wp_end_none [OF _ assms(1) program l(2) zero])
        (assumption, rule failed)
  next
    fix b st v assume l: "la_child l = Some b" "status \<noteq> Going" and st: "unstarted limit st"
      and "stage (add_mset (b, BProc st) M) (add_mset (ps_input st, v) L) R (since s0 unborn) s"
    then have s: "stage (M + {#(b, BProc st)#}) (add_mset (ps_input st, v) L) R (since s0 unborn) s" by simp
    show ?thesis
      by (rule release [OF s], simp, simp, unfold l(1), rule wp_end_unstarted [OF _ st assms(1) program l(2) zero])
        (assumption, rule failed)
  next
    fix b st pid assume l: "la_child l = Some b" "status = Going \<longrightarrow> ps_group st" and st: "pristine limit pid st"
      and "stage (add_mset (b, BProc st) M) (add_mset (ps_input st, vi) L) R (since s0 (born pid)) s"
    then have s: "stage (M + {#(b, BProc st)#}) (add_mset (ps_input st, vi) L) R (since s0 (born pid)) s" by simp
    show ?thesis
      by (rule release [OF s], simp, simp, unfold l(1),
          rule wp_end_born [where E = start_ends, OF _ st assms(1) program l(2) zero])
        (assumption, simp, simp, rule ok, assumption+, rule failed)
  qed
qed

text \<open>
  C14: Starting a process leaves nothing behind. When \<open>nq_process_start\<close> succeeds, the request was
  well formed (an absolute program, no NUL in it, the directory, the arguments or the entries, every
  environment entry a \<open>KEY=value\<close> with a key of its own), exactly one child was forked and only the
  process state for it is owned on top of what the caller had, with a copy of the input and nothing
  collected yet. When it fails, at whatever allocation or call, only the error is owned: every copied
  argument, entry and name is freed once, and no child was forked or it has been reaped. The child
  itself ends by \<open>exec\<close> or \<open>_exit(127)\<close>, and finds terminated strings and vectors.
\<close>

theorem process_start_leaves_nothing_behind:
  assumes "good_config c" and "owns L R s" and "explains s"
    and "(program, vp) \<in># L" and "(cwd, vd) \<in># L" and "input_text input vi L"
    and "\<forall>l. args = Some l \<longrightarrow> lent_list l va L R" and "\<forall>l. env = Some l \<longrightarrow> lent_list l ve L R"
  shows "wp start_ends (nq_process_start c program args cwd env input capture limit)
    (\<lambda>res s'. \<exists>h. calls s h s' \<and> (case res of
       Ok handle \<Rightarrow>
         accepted vp vd va ve vi limit \<and> list_all env_entry ve \<and> distinct (map env_key ve) \<and>
         (\<exists>b st. handle = Some b \<and> R b = None \<and> owns (add_mset (ps_input st, vi) L) (R(b \<mapsto> BProc st)) s' \<and>
            pristine limit (ps_pid st) st \<and> ps_group st \<and> born (ps_pid st) h)
     | Err e \<Rightarrow> (\<exists>w. owns (with_err e w L) R s') \<and> no_orphan h)) s"
    (is "wp _ _ ?Q s")
proof -
  have op: "label (op_name (Some ''process_start''))" by (simp add: label_def op_name_def)
  have failed: "?Q (Err e) s'" if "owns (with_err e w L) R s'" "calls s h s'" "no_orphan h" for e w h s'
    using that by auto
  have invalid: "wp start_ends (bind (nq_invalid_input_io_err c (Some ''process_start'') None None detail)
       (\<lambda>err. ret (Err err))) ?Q s" if "CHR 0x00 \<notin> set detail" for detail
    unfolding wp_bind wp_ret
  proof (rule wp_nq_invalid_input_io_err [OF assms(1,2) op _ _ that], simp, simp, goal_cases)
    case (1 e v s')
    show ?case
      by (rule failed [OF 1(1) calls_world [OF calls_none 1(2)]]) (simp add: no_orphan_def unborn_def)
  qed
  have reads: "readable L R (s_data t) (to_size (s_len t)) v" if "(t, v) \<in># L" "length v \<le> SIZE_MAX" for t v
    using readable_live [OF that(1), of R] owns_live_len [OF assms(2) that(1)] that(2) by (simp add: to_size_of_nat)
  show ?thesis
    unfolding nq_process_start_def Let_def wp_bind [of _ "start_invalid _ _ _ _ _ _ _ _"]
  proof (rule wp_start_invalid [OF assms(2,4,5,6)], use assms(7) in simp, use assms(8) in simp, goal_cases)
    case (1 bad)
    show ?case
    proof (cases bad)
      case True
      show ?thesis unfolding if_P [OF True] by (rule invalid) simp
    next
      case False
      then obtain la le where lists: "args = Some la" "env = Some le" and ok: "accepted vp vd va ve vi limit"
          and lens: "length vp \<le> SIZE_MAX" "length vd \<le> SIZE_MAX" using 1 by auto
      have la: "lent_list la va L R" and le: "lent_list le ve L R" using assms(7,8) lists by simp_all
      have vi: "length vi \<le> SIZE_MAX" using ok by (simp add: accepted_def width_defs SIZE_MAX_def)
      show ?thesis
        unfolding if_not_P [OF False] lists prod.case option.case wp_bind [of _ "check_env _ _ _"]
      proof (rule wp_check_list [OF assms(2) le], goal_cases)
        case (1 defect)
        show ?case
        proof (cases defect)
          case (Some detail)
          show ?thesis unfolding Some option.case by (rule invalid) (rule 1(2) [OF Some])
        next
          case None
          note entries = 1(1) [OF None]
          show ?thesis
            unfolding None option.case wp_bind [of _ "next_step _ _"]
          proof (rule wp_mono [OF wp_launch [OF assms(2) reads [OF assms(4) lens(1)] reads [OF assms(5) lens(2)] la le
                assms(6) vi assms(3)]], unfold split_paired_all prod.case, goal_cases)
            case (1 l status s1)
            show ?case
              by (rule wp_start_finish [OF assms(1,4) 1 lent_list_len [OF la]]) (use ok entries in \<open>auto\<close>)
          qed
        qed
      qed
    qed
  qed
qed

definition example_launch :: "reply list" where
  "example_launch = map (\<lambda>(n, xs). \<lparr>r_ret = n, r_errno = 0, r_bytes = [], r_ints = xs\<rparr>)
     [(0, [5, 6]), (0, []), (0, []), (9, []), (0, []), (0, []), (0, []), (0, [])]"

theorem process_start_leaves_nothing_behind_witness:
  "wp start_ends (nq_process_start plain_config (static_str ''/bin/true'') (Some nq_list__str_make) (static_str ''/'')
       (Some nq_list__str_make) None False 0)
     (\<lambda>res s'. \<forall>b. res = Ok (Some b) \<longrightarrow> (\<exists>st. heap s' b = Some (BProc st) \<and> ps_pid st = 9)) (boot [] example_launch)"
proof -
  let ?L = "{#(static_str ''/'', ''/''), (static_str ''/bin/true'', ''/bin/true'')#}"
  have owns: "owns ?L Map.empty (boot [] example_launch)"
    by (intro owns_add_static_str owns_boot)
  have kernel: "explains (boot [] example_launch)" by (simp add: explains_def boot_def example_launch_def)
  have list: "lent_list nq_list__str_make [] ?L Map.empty" by (simp add: lent_list_def nq_list__str_make_def)
  have pid: "r_ret r = 9" if "r \<in> set example_launch" "0 < r_ret r" for r
    using that by (auto simp: example_launch_def)
  show ?thesis
  proof (rule wp_mono [OF process_start_leaves_nothing_behind [where L = ?L and R = Map.empty and vi = "[]" and va = "[]" and ve = "[]" and
        vp = "''/bin/true''" and vd = "''/''", OF good_plain_config owns kernel]], goal_cases)
    case (6 res s')
    show ?case
    proof (intro allI impI)
      fix b assume "res = Ok (Some b)"
      then obtain h st where h: "calls (boot [] example_launch) h s'" "born (ps_pid st) h"
          and owned: "owns (add_mset (ps_input st, []) ?L) (Map.empty(b \<mapsto> BProc st)) s'"
        using 6 by auto
      have "\<exists>r. (Fork, r) \<in> set h \<and> r_ret r = ps_pid st \<and> 0 < ps_pid st"
        using h(2) unfolding born_def by (metis in_set_conv_decomp)
      then obtain r where "(Fork, r) \<in> set h" "r_ret r = ps_pid st" "0 < ps_pid st" by blast
      moreover have "example_launch = map snd h @ script s'" using h(1) by (simp add: calls_def)
      then have "set (map snd h) \<subseteq> set example_launch" by (metis Un_upper1 set_append)
      ultimately have "ps_pid st = 9" using pid [of r] by force
      moreover have "heap s' b = Some (BProc st)" by (rule owns_raw [OF owned]) simp
      ultimately show "\<exists>st. heap s' b = Some (BProc st) \<and> ps_pid st = 9" by blast
    qed
  qed (use list in \<open>simp_all add: input_text_def\<close>)
qed

end
