(* ===== verification/Windows.thy ===== *)
theory Windows
  imports Launch
begin

text \<open>
  The code of \<open>stdlib/runtime.c\<close> for Windows that has logic of its own: running a program to its end
  there. The arguments are quoted into one command line, as \<open>CreateProcessA\<close> wants it; the outputs
  go to two temporary files. The field \<open>errno\<close> of the machine stands for what \<open>GetLastError\<close> gives.
\<close>

section \<open>Quoting an argument\<close>

abbreviation backslash :: char where "backslash \<equiv> CHR 0x5C"

abbreviation quote :: char where "quote \<equiv> CHR 0x22"

abbreviation tab :: char where "tab \<equiv> CHR 0x09"

abbreviation put_char :: "ptr \<Rightarrow> nat \<Rightarrow> char \<Rightarrow> unit nq" where
  "put_char out i ch \<equiv> store_bytes (ptr_plus out i) [ch]"

fun put_backslashes :: "ptr \<Rightarrow> nat \<Rightarrow> nat \<Rightarrow> unit nq" where
  "put_backslashes out i 0 = ret ()"
| "put_backslashes out i (Suc n) = andthen (put_char out i backslash) (put_backslashes out (i + 1) n)"

text \<open>The loop over the argument, with \<open>out_index\<close> and \<open>slash_count\<close>; the next \<open>out_index\<close>.\<close>

fun quote_chars :: "ptr \<Rightarrow> nat \<Rightarrow> nat \<Rightarrow> string \<Rightarrow> nat nq" where
  "quote_chars out i slashes [] = andthen (put_backslashes out i (2 * slashes)) (ret (i + 2 * slashes))"
| "quote_chars out i slashes (ch # rest) =
     (if ch = backslash then quote_chars out i (slashes + 1) rest
      else if ch = quote
      then andthen (put_backslashes out i (2 * slashes + 1))
        (andthen (put_char out (i + (2 * slashes + 1)) quote)
        (quote_chars out (i + (2 * slashes + 1) + 1) 0 rest))
      else andthen (put_backslashes out i slashes)
        (andthen (put_char out (i + slashes) ch) (quote_chars out (i + slashes + 1) 0 rest)))"

definition needs_quotes :: "string \<Rightarrow> bool" where
  "needs_quotes arg \<longleftrightarrow> arg = [] \<or> (\<exists>ch \<in> set arg. ch = CHR '' '' \<or> ch = tab \<or> ch = quote)"

definition nq_quote_windows_arg :: "config \<Rightarrow> ptr \<Rightarrow> (alloc_failure + ptr) nq" where
  "nq_quote_windows_arg c p =
     bind (load_c_string p) (\<lambda>arg.
     case nq_cstr_length c arg of
       None \<Rightarrow> ret (Inl ALLOC_SIZE)
     | Some len \<Rightarrow>
       if \<not> needs_quotes arg then nq_try_cstr_copy c p len
       else case Option.bind (nq_size_mul c len 2) (\<lambda>doubled. nq_size_add doubled 3 (nq_allocation_limit c)) of
         None \<Rightarrow> ret (Inl ALLOC_SIZE)
       | Some sz \<Rightarrow>
         bind (nq_try_realloc c KBytes PNull sz) (\<lambda>r. case r of
           Inl st \<Rightarrow> ret (Inl st)
         | Inr out \<Rightarrow>
           andthen (put_char out 0 quote)
           (bind (quote_chars out 1 0 arg) (\<lambda>i.
           andthen (put_char out i quote)
           (andthen (put_char out (i + 1) CHR 0x00) (ret (Inr out)))))))"

text \<open>The loop over the arguments from \<open>index\<close> on, \<open>n\<close> of them.\<close>

fun join_windows_args :: "config \<Rightarrow> ptr \<Rightarrow> nat \<Rightarrow> nat \<Rightarrow> ptr \<Rightarrow> (alloc_failure + ptr) nq" where
  "join_windows_args c strings index 0 command = ret (Inr command)"
| "join_windows_args c strings index (Suc n) command =
     bind (load_str strings index) (\<lambda>t.
     bind (nq_try_cstr_copy c (s_data t) (to_size (s_len t))) (\<lambda>r. case r of
       Inl st \<Rightarrow> andthen (c_free command) (ret (Inl st))
     | Inr arg_cstr \<Rightarrow>
       bind (nq_quote_windows_arg c arg_cstr) (\<lambda>r. andthen (c_free arg_cstr) (case r of
         Inl st \<Rightarrow> andthen (c_free command) (ret (Inl st))
       | Inr quoted \<Rightarrow>
         bind (load_c_string command) (\<lambda>command_text.
         bind (load_c_string quoted) (\<lambda>quoted_text.
         let command_len = length command_text; quoted_len = length quoted_text in
         case Option.bind (nq_size_add command_len quoted_len (nq_allocation_limit c))
             (\<lambda>sz. nq_size_add sz 2 (nq_allocation_limit c)) of
           None \<Rightarrow> andthen (c_free command) (andthen (c_free quoted) (ret (Inl ALLOC_SIZE)))
         | Some sz \<Rightarrow>
           bind (nq_try_realloc c KBytes command sz) (\<lambda>r. case r of
             Inl st \<Rightarrow> andthen (c_free command) (andthen (c_free quoted) (ret (Inl st)))
           | Inr command \<Rightarrow>
             andthen (put_char command command_len CHR '' '')
             (bind (load_bytes quoted (quoted_len + 1)) (\<lambda>bs.
             andthen (store_bytes (ptr_plus command (command_len + 1)) bs)
             (andthen (c_free quoted) (join_windows_args c strings (index + 1) n command)))))))))))"

definition nq_join_windows_command :: "config \<Rightarrow> ptr \<Rightarrow> nq_list_str \<Rightarrow> (alloc_failure + ptr) nq" where
  "nq_join_windows_command c program args =
     bind (nq_quote_windows_arg c program) (\<lambda>r. case r of
       Inl st \<Rightarrow> ret (Inl st)
     | Inr command \<Rightarrow> join_windows_args c (l_data args) 0 (nat (l_len args)) command)"

section \<open>Temporary files\<close>

definition MAX_PATH :: nat where "MAX_PATH = 260"

text \<open>What a call writes into a buffer of \<open>MAX_PATH\<close> bytes, and a result that is a \<open>DWORD\<close>.\<close>

definition windows_path :: "reply \<Rightarrow> string" where
  "windows_path r = takeWhile (\<lambda>ch. ch \<noteq> CHR 0x00) (take (MAX_PATH - 1) (r_bytes r))"

definition dword :: "int \<Rightarrow> int" where
  "dword n = n mod 2 ^ 32"

definition delete_file :: "string \<Rightarrow> unit nq" where
  "delete_file name = ignore (sys (DeleteFile name))"

definition c_delete_file :: "ptr \<Rightarrow> unit nq" where
  "c_delete_file p = bind (load_c_string p) delete_file"

text \<open>\<open>Inl\<close> is a failed allocation, \<open>Inr PNull\<close> a failed call.\<close>

definition nq_make_windows_temp_file :: "config \<Rightarrow> string \<Rightarrow> (alloc_failure + ptr) nq" where
  "nq_make_windows_temp_file c prefix =
     bind (sys GetTempPath) (\<lambda>r.
     if dword (r_ret r) = 0 \<or> dword (r_ret r) > int MAX_PATH then ret (Inr PNull)
     else bind (sys (GetTempFileName (windows_path r) prefix)) (\<lambda>r.
     if r_ret r = 0 then ret (Inr PNull)
     else let path = windows_path r in
       bind (case nq_cstr_length c path of
               None \<Rightarrow> ret (Inl ALLOC_SIZE)
             | Some len \<Rightarrow> nq_try_cstr_copy c (PLit path 0) len) (\<lambda>copy. case copy of
         Inl st \<Rightarrow> andthen (delete_file path) (ret (Inl st))
       | Inr p \<Rightarrow> ret (Inr p))))"

section \<open>Running a program to its end\<close>

text \<open>
  The errors of the system are those of \<open>GetLastError\<close>, but the switch is over the values of \<open>errno\<close>
  there, which differ from those of Linux in \<open>ENOTSUP\<close>, \<open>EOPNOTSUPP\<close> and \<open>ENOTEMPTY\<close>.
\<close>

definition windows_io_kind_for_code :: "int \<Rightarrow> string" where
  "windows_io_kind_for_code code =
     (if code = 129 \<or> code = 130 then ''unsupported''
      else if code = 41 then ''directory_not_empty''
      else if code = ENOTSUP \<or> code = ENOTEMPTY then ''other''
      else nq_io_kind_for_code code)"

definition windows_process_io_err :: "config \<Rightarrow> int \<Rightarrow> string \<Rightarrow> nq_result_process_result nq" where
  "windows_process_io_err c code detail =
     bind (if code = 8 \<or> code = 14 then nq_allocation_io_err c (Some ''run_process'') ALLOC_OOM
           else nq_make_io_err_details c code (windows_io_kind_for_code code) (Some ''run_process'')
                  None None (PLit detail 0)) (\<lambda>err. ret (Err err))"

definition windows_last_error :: "config \<Rightarrow> string \<Rightarrow> nq_result_process_result nq" where
  "windows_last_error c detail = bind get_errno (\<lambda>e. windows_process_io_err c (to_i32 e) detail)"

text \<open>The C strings the function holds; a null pointer where it has none.\<close>

record windows_run =
  wr_program :: ptr
  wr_cwd :: ptr
  wr_command :: ptr
  wr_stdout :: ptr
  wr_stderr :: ptr

definition windows_free_request :: "windows_run \<Rightarrow> unit nq" where
  "windows_free_request l = andthen (c_free (wr_program l)) (andthen (c_free (wr_cwd l)) (c_free (wr_command l)))"

definition windows_release :: "windows_run \<Rightarrow> unit nq" where
  "windows_release l =
     andthen (windows_free_request l)
     (andthen (c_delete_file (wr_stdout l)) (andthen (c_delete_file (wr_stderr l))
     (andthen (c_free (wr_stdout l)) (c_free (wr_stderr l)))))"

text \<open>Giving up before both files are there.\<close>

definition windows_no_files :: "windows_run \<Rightarrow> unit nq" where
  "windows_no_files l =
     andthen (windows_free_request l)
     (andthen (if wr_stdout l \<noteq> PNull then c_delete_file (wr_stdout l) else ret ())
     (andthen (if wr_stderr l \<noteq> PNull then c_delete_file (wr_stderr l) else ret ())
     (andthen (c_free (wr_stdout l)) (c_free (wr_stderr l)))))"

definition windows_collect :: "config \<Rightarrow> windows_run \<Rightarrow> int \<Rightarrow> nq_result_process_result nq" where
  "windows_collect c l exit_code =
     bind (bind (load_c_string (wr_stdout l)) (nq_try_read_text_file c)) (\<lambda>r. case r of
       Inl e \<Rightarrow> andthen (windows_release l) (ret (Err e))
     | Inr stdout_text \<Rightarrow>
       bind (bind (load_c_string (wr_stderr l)) (nq_try_read_text_file c)) (\<lambda>r. case r of
         Inl e \<Rightarrow> bind (nq_str_drop (Some stdout_text)) (\<lambda>_. andthen (windows_release l) (ret (Err e)))
       | Inr stderr_text \<Rightarrow>
         andthen (c_delete_file (wr_stdout l)) (andthen (c_delete_file (wr_stderr l))
         (andthen (windows_free_request l)
         (andthen (c_free (wr_stdout l)) (andthen (c_free (wr_stderr l))
         (ret (nq_process_ok exit_code stdout_text stderr_text))))))))"

definition close_handle :: "int \<Rightarrow> unit nq" where
  "close_handle h = ignore (sys (CloseHandle h))"

definition windows_start ::
  "config \<Rightarrow> windows_run \<Rightarrow> int \<Rightarrow> int \<Rightarrow> nq_result_process_result nq" where
  "windows_start c l stdout_handle stderr_handle =
     bind (sys GetStdHandle) (\<lambda>stdin_handle.
     bind (load_c_string (wr_command l)) (\<lambda>command.
     bind (load_c_string (wr_cwd l)) (\<lambda>dir.
     bind (sys (CreateProcess command (if dir = [] then None else Some dir)
                  [r_ret stdin_handle, stdout_handle, stderr_handle])) (\<lambda>created.
     andthen (close_handle stdout_handle) (andthen (close_handle stderr_handle)
     (if r_ret created = 0
      then bind get_errno (\<lambda>e. andthen (windows_release l)
        (windows_process_io_err c (to_i32 e) ''failed to start process''))
      else let process = reply_int created 0; thread = reply_int created 1 in
        andthen (ignore (sys (WaitForSingleObject process)))
        (bind (sys (GetExitCodeProcess process)) (\<lambda>code.
        andthen (close_handle process) (andthen (close_handle thread)
        (windows_collect c l (if r_ret code = 0 then 0 else to_i32 (reply_int code 0))))))))))))"

definition windows_open :: "config \<Rightarrow> windows_run \<Rightarrow> nq_result_process_result nq" where
  "windows_open c l =
     bind (load_c_string (wr_stdout l)) (\<lambda>name. bind (sys (CreateFile name)) (\<lambda>r.
     if r_ret r = -1
     then andthen (windows_release l) (windows_last_error c ''failed to open temporary stdout capture'')
     else let stdout_handle = r_ret r in
       bind (load_c_string (wr_stderr l)) (\<lambda>name. bind (sys (CreateFile name)) (\<lambda>r.
       if r_ret r = -1
       then andthen (close_handle stdout_handle) (andthen (windows_release l)
         (windows_last_error c ''failed to open temporary stderr capture''))
       else windows_start c l stdout_handle (r_ret r)))))"

definition windows_prepare :: "config \<Rightarrow> ptr \<Rightarrow> ptr \<Rightarrow> nq_list_str \<Rightarrow> nat \<Rightarrow> nq_result_process_result nq" where
  "windows_prepare c program_cstr cwd_cstr args argv_size =
     bind (nq_join_windows_command c program_cstr args) (\<lambda>command.
     bind (case command of
             Inl st \<Rightarrow> ret (Inl st)
           | Inr _ \<Rightarrow> nq_make_windows_temp_file c ''nqo'') (\<lambda>out.
     bind (case out of
             Inl st \<Rightarrow> ret (Inl st)
           | Inr p \<Rightarrow> if p = PNull then ret (Inr PNull) else nq_make_windows_temp_file c ''nqe'') (\<lambda>err.
     let made = (\<lambda>r. case r of Inl _ \<Rightarrow> PNull | Inr p \<Rightarrow> p);
         l = \<lparr>wr_program = program_cstr, wr_cwd = cwd_cstr, wr_command = made command,
              wr_stdout = made out, wr_stderr = made err\<rparr>
     in case err of
          Inl st \<Rightarrow> andthen (windows_no_files l)
            (bind (nq_allocation_io_err c (Some ''run_process'') st) (\<lambda>err. ret (nq_process_err err)))
        | Inr p \<Rightarrow>
          if p = PNull
          then andthen (windows_no_files l) (windows_process_io_err c 10 ''failed to allocate temporary output files'')
          else windows_open c l)))"

text \<open>\<open>nq_run_process\<close>, as it is built for Windows.\<close>

definition windows_run_process ::
  "config \<Rightarrow> nqstr \<Rightarrow> nq_list_str option \<Rightarrow> nqstr \<Rightarrow> nq_result_process_result nq" where
  "windows_run_process c = run_request (windows_prepare c) c"

end
