(* ===== verification/Running.thy ===== *)
theory Running
  imports Starting Windows
begin

text \<open>
  \<open>nq_run_process\<close>: on every path the copied strings, the argument vector and the two temporary
  files are given back, and the child that was forked is gone; what the caller gets is the two
  outputs, byte for byte, and the exit code of the child, or an error.
\<close>

section \<open>What calls leave behind\<close>

text \<open>The temporary files and, on Windows, the handles that calls make and that the function must give back.\<close>

datatype resource = Temp string | Handle int

definition temp_name :: "string \<Rightarrow> reply \<Rightarrow> string" where
  "temp_name template r = take (length template - 6) template @ temp_suffix r"

fun makes :: "event \<Rightarrow> reply \<Rightarrow> resource set" where
  "makes (Mkstemp template) r = (if r_ret r < 0 then {} else {Temp (temp_name template r)})"
| "makes (GetTempFileName dir prefix) r = (if r_ret r = 0 then {} else {Temp (windows_path r)})"
| "makes (CreateFile name) r = (if r_ret r = -1 then {} else {Handle (r_ret r)})"
| "makes (CreateProcess line dir handles) r =
     (if r_ret r = 0 then {} else {Handle (reply_int r 0), Handle (reply_int r 1)})"
| "makes _ r = {}"

fun releases :: "event \<Rightarrow> resource set" where
  "releases (Unlink name) = {Temp name}"
| "releases (DeleteFile name) = {Temp name}"
| "releases (CloseHandle h) = {Handle h}"
| "releases _ = {}"

definition touch :: "event \<times> reply \<Rightarrow> resource set \<Rightarrow> resource set" where
  "touch call N = N - releases (fst call) \<union> makes (fst call) (snd call)"

definition left_behind :: "history \<Rightarrow> resource set" where
  "left_behind h = fold touch h {}"

lemma left_behind_none [simp]: "left_behind [] = {}"
  by (simp add: left_behind_def)

lemma left_behind_snoc [simp]: "left_behind (h @ [call]) = touch call (left_behind h)"
  by (simp add: left_behind_def)

lemma makes_quiet: "quiet ev \<Longrightarrow> makes ev r = {}"
  by (cases ev) auto

lemma touch_quiet: "quiet ev \<Longrightarrow> touch (ev, r) N = N - releases ev"
  by (simp add: touch_def makes_quiet)

lemma disciplined_no_files: "disciplined pid h \<Longrightarrow> fold touch h N \<subseteq> N"
proof (induction h arbitrary: N)
  case (Cons call h)
  obtain ev r where call: "call = (ev, r)" by (cases call)
  have "touch (ev, r) N \<subseteq> N" if "aims_at pid ev" using that by (cases ev) (auto simp: touch_def)
  then have first: "touch call N \<subseteq> N" using Cons.prems touch_quiet by (cases "reserved ev") (auto simp: call)
  have "disciplined pid h" if "\<forall>later \<in> set h. \<not> reserved (fst later)"
    using that by (induction h) auto
  then have "disciplined pid h" using Cons.prems by (auto split: if_splits)
  from Cons.IH [OF this, of "touch call N"] first show ?case by simp
qed simp

section \<open>The phases of a run\<close>

text \<open>
  \<open>N\<close> is what may have been left behind. \<open>seen s0 P N\<close>: the calls so far satisfy \<open>P\<close>; before the fork
  they are \<open>unborn\<close>, while the child is there and has not been named \<open>born\<close>, then \<open>outlived\<close>. What
  is done in the end, reading and removing the files, is known by its calls only: \<open>late\<close>.
\<close>

definition seen :: "nqstate \<Rightarrow> (history \<Rightarrow> bool) \<Rightarrow> resource set \<Rightarrow> outside \<Rightarrow> bool" where
  "seen s0 P N = since s0 (\<lambda>h. P h \<and> left_behind h \<subseteq> N)"

definition late :: "nqstate \<Rightarrow> (history \<Rightarrow> bool) \<Rightarrow> resource set \<Rightarrow> outside \<Rightarrow> bool" where
  "late s0 F N w \<longleftrightarrow> (\<exists>h made rest. script s0 = map snd h @ rest \<and> fst (snd w) = trace s0 @ map fst h @ made \<and>
     (\<forall>ev \<in> set made. quiet ev) \<and> F h \<and> left_behind h \<subseteq> N \<union> \<Union> (releases ` set made))"

text \<open>What calls have shown, quiet ones keep; what \<open>K\<close> says of them, all keep.\<close>

definition growing :: "(history \<Rightarrow> bool) \<Rightarrow> bool" where
  "growing P \<longleftrightarrow> (\<forall>h ev r. quiet ev \<longrightarrow> P h \<longrightarrow> P (h @ [(ev, r)]))"

definition lasting :: "(history \<Rightarrow> bool) \<Rightarrow> bool" where
  "lasting K \<longleftrightarrow> (\<forall>h h'. K h \<longrightarrow> K (h @ h'))"

lemma growing_both: "growing P \<Longrightarrow> lasting K \<Longrightarrow> growing (\<lambda>h. P h \<and> K h)"
  by (auto simp: growing_def lasting_def)

lemma growing_unborn: "growing unborn"
  by (auto simp: growing_def unborn_def dest: quiet_call)

lemma growing_born: "growing (born pid)"
  by (simp add: growing_def born_quiet)

lemma growing_outlived: "growing outlived"
proof -
  have "outlived (h @ [(ev, r)])" if ev: "quiet ev" and h: "outlived h" for h ev r
  proof -
    obtain pid later where 1: "forked pid later h" "disciplined pid later" "\<exists>call \<in> set later. gone pid call"
      using h by (auto simp: outlived_def)
    have "forked pid (later @ [(ev, r)]) (h @ [(ev, r)])" using 1(1) by (auto simp: forked_def)
    moreover have "disciplined pid (later @ [(ev, r)])" using 1(2) ev by (simp add: disciplined_snoc)
    ultimately show ?thesis using 1(3) unfolding outlived_def by (intro exI [of _ pid] exI [of _ "later @ [(ev, r)]"]) auto
  qed
  then show ?thesis by (simp add: growing_def)
qed

text \<open>In each of them any quiet call may be made, and what it gives back counts.\<close>

definition phase :: "(resource set \<Rightarrow> outside \<Rightarrow> bool) \<Rightarrow> bool" where
  "phase W \<longleftrightarrow> (\<forall>N. tolerant (W N)) \<and>
     (\<forall>N ev r rs tr rest. quiet ev \<longrightarrow> W N (r # rs, tr, rest) \<longrightarrow> W (N - releases ev) (rs, tr @ [ev], rest))"

lemma phase_tolerant: "phase W \<Longrightarrow> tolerant (W N)"
  by (simp add: phase_def)

lemma phase_seen:
  assumes P: "growing P"
  shows "phase (seen s0 P)"
  unfolding phase_def
proof (rule conjI, intro allI, unfold seen_def, rule tolerant_since, goal_cases)
  case (1 N h ev r)
  then show ?case using P touch_quiet [of ev r "left_behind h"] by (auto simp: growing_def)
next
  case 2
  show ?case
  proof (intro allI impI)
    fix N ev r rs tr rest assume ev: "quiet ev" and "since s0 (\<lambda>h. P h \<and> left_behind h \<subseteq> N) (r # rs, tr, rest)"
    then obtain h where "script s0 = map snd h @ r # rs" "tr = trace s0 @ map fst h" "P h" "left_behind h \<subseteq> N"
      by (auto simp: since_def)
    then show "since s0 (\<lambda>h. P h \<and> left_behind h \<subseteq> N - releases ev) (rs, tr @ [ev], rest)"
      unfolding since_def using P ev by (intro exI [of _ "h @ [(ev, r)]"]) (auto simp: growing_def touch_quiet)
  qed
qed

lemma late_step:
  assumes "late s0 F N (rs, tr, rest)" and "quiet ev"
  shows "late s0 F (N - releases ev) (rs', tr @ [ev], rest)"
proof -
  obtain h made rest' where h: "script s0 = map snd h @ rest'" "tr = trace s0 @ map fst h @ made"
     "\<forall>ev \<in> set made. quiet ev" "F h" "left_behind h \<subseteq> N \<union> \<Union> (releases ` set made)"
    using assms(1) unfolding late_def by auto
  show ?thesis
    unfolding late_def by (rule exI [of _ h], rule exI [of _ "made @ [ev]"], rule exI [of _ rest']) (use h assms(2) in auto)
qed

lemma late_weaken: "late s0 F N w \<Longrightarrow> N \<subseteq> N' \<Longrightarrow> late s0 F N' w"
  unfolding late_def by blast

lemma late_mono: "late s0 F N w \<Longrightarrow> (\<And>h. F h \<Longrightarrow> G h) \<Longrightarrow> late s0 G N w"
  unfolding late_def by blast

lemma phase_late [simp]: "phase (late s0 F)"
  unfolding phase_def tolerant_def by (auto intro: late_step late_weaken [OF late_step])

lemma seen_late: "seen s0 P N w \<Longrightarrow> (\<And>h. P h \<Longrightarrow> F h) \<Longrightarrow> late s0 F N w"
  unfolding seen_def late_def since_def by (metis append_Nil2 empty_iff empty_set le_supI1)

section \<open>Calls in a phase\<close>

lemma stage_weaken: "stage M L R W s \<Longrightarrow> (\<And>w. W w \<Longrightarrow> W' w) \<Longrightarrow> stage M L R W' s"
  by (auto simp: stage_def)

lemma seen_weaken: "seen s0 P N w \<Longrightarrow> (\<And>h. P h \<Longrightarrow> P' h) \<Longrightarrow> N \<subseteq> N' \<Longrightarrow> seen s0 P' N' w"
  unfolding seen_def since_def by blast

lemma stage_seen_weaken:
  "stage M L R (seen s0 P N) s \<Longrightarrow> (\<And>h. P h \<Longrightarrow> P' h) \<Longrightarrow> N \<subseteq> N' \<Longrightarrow> stage M L R (seen s0 P' N') s"
  by (erule stage_weaken) (rule seen_weaken)

lemma stage_seen_sys:
  assumes "stage M L R (seen s0 P N) s" and "script s = r # rs" and "\<And>h. P h \<Longrightarrow> P' (h @ [(ev, r)])"
  shows "stage M L R (seen s0 P' (touch (ev, r) N)) (s\<lparr>script := rs, trace := trace s @ [ev], errno := e\<rparr>)"
  using assms(1) unfolding seen_def
  by (rule stage_sys [OF _ assms(2)]) (use assms(3) in \<open>auto simp: touch_def\<close>)

lemma wp_stage_release:
  assumes s: "stage M L R (W N) s" and W: "phase W" and ev: "quiet ev" and E: "E Blocked"
    and post: "\<And>r s'. stage M L R (W (N - releases ev)) s' \<Longrightarrow> script s = r # script s' \<Longrightarrow> trace s' = trace s @ [ev] \<Longrightarrow> Q () s'"
  shows "wp E (ignore (sys ev)) Q s"
proof (cases "script s")
  case (Cons r rs)
  have "W (N - releases ev) (rs, trace s @ [ev], environ s, process_args s, process_argc s)"
    using s W ev Cons unfolding stage_def phase_def world_def by auto
  then have "stage M L R (W (N - releases ev)) (s\<lparr>script := rs, trace := trace s @ [ev], errno := r_errno r\<rparr>)"
    using s by (simp add: stage_def world_def)
  then show ?thesis by (simp add: ignore_def wp_bind wp_ret wp_sys Cons post)
qed (simp add: ignore_def wp_bind wp_sys E)

lemma wp_stage_unlink:
  assumes s: "stage M L R (W N) s" and W: "phase W" and E: "E Blocked"
    and post: "\<And>r s'. stage M L R (W (N - {Temp name})) s' \<Longrightarrow> script s = r # script s' \<Longrightarrow>
        trace s' = trace s @ [Unlink name] \<Longrightarrow> Q () s'"
  shows "wp E (c_unlink name) Q s"
  unfolding c_unlink_def
  by (rule wp_stage_release [where E = E and W = W and N = N, OF s W _ E]) (simp_all add: post)

text \<open>A temporary file made from a template, and its name.\<close>

definition made_file :: "string \<Rightarrow> string \<Rightarrow> history \<Rightarrow> bool" where
  "made_file template name h \<longleftrightarrow> (\<exists>r. (Mkstemp template, r) \<in> set h \<and> name = temp_name template r)"

lemma wp_mkstemp_local:
  assumes s: "stage M L R (seen s0 P N) s" and E: "E Blocked" and P: "\<And>h r. P h \<Longrightarrow> P (h @ [(Mkstemp template, r)])"
    and post: "\<And>fd name s'. stage M L R (seen s0 (\<lambda>h. P h \<and> (fd \<ge> 0 \<longrightarrow> made_file template name h))
        (if fd \<ge> 0 then insert (Temp name) N else N)) s' \<Longrightarrow> Q (fd, name) s'"
  shows "wp E (mkstemp_local template) Q s"
proof (cases "script s")
  case (Cons r rs)
  let ?s = "s\<lparr>script := rs, trace := trace s @ [Mkstemp template], errno := r_errno r\<rparr>"
  have "stage M L R (seen s0 (\<lambda>h. P h \<and> made_file template (temp_name template r) h) (touch (Mkstemp template, r) N)) ?s"
    by (rule stage_seen_sys [OF s Cons]) (auto simp: made_file_def P)
  then have ok: "r_ret r \<ge> 0 \<Longrightarrow> Q (r_ret r, temp_name template r) ?s"
    by (intro post) (simp add: touch_def)
  have "stage M L R (seen s0 P (touch (Mkstemp template, r) N)) ?s"
    by (rule stage_seen_sys [OF s Cons]) (rule P)
  then have "r_ret r < 0 \<Longrightarrow> Q (-1, template) ?s"
    by (intro post) (simp add: touch_def)
  with ok show ?thesis
    by (simp add: mkstemp_local_def wp_bind wp_ret wp_sys Cons temp_name_def)
qed (simp add: mkstemp_local_def wp_bind wp_sys E)

lemma wp_run_fork_call:
  assumes s: "stage M L R (seen s0 (\<lambda>h. unborn h \<and> K h) N) s" and K: "lasting K" and E: "E Blocked"
    and none: "\<And>r s'. stage M L R (seen s0 (\<lambda>h. unborn h \<and> K h) N) s' \<Longrightarrow> r_ret r \<le> 0 \<Longrightarrow> Q r s'"
    and new: "\<And>r s'. stage M L R (seen s0 (\<lambda>h. born (r_ret r) h \<and> K h) N) s' \<Longrightarrow> 0 < r_ret r \<Longrightarrow> Q r s'"
  shows "wp E (sys Fork) Q s"
proof (cases "script s")
  case (Cons r rs)
  let ?s = "s\<lparr>script := rs, trace := trace s @ [Fork], errno := r_errno r\<rparr>"
  have same: "touch (Fork, r) N = N" by (simp add: touch_def)
  show ?thesis
  proof (cases "0 < r_ret r")
    case True
    have "born (r_ret r) (h @ [(Fork, r)])" if "unborn h" for h
      unfolding born_def using that True by (intro exI [of _ h] exI [of _ r] exI [of _ "[]"]) simp
    then have "stage M L R (seen s0 (\<lambda>h. born (r_ret r) h \<and> K h) (touch (Fork, r) N)) ?s"
      by (intro stage_seen_sys [OF s Cons]) (use K in \<open>auto simp: lasting_def\<close>)
    with new [OF _ True] show ?thesis by (simp add: wp_sys Cons same)
  next
    case False
    then have "stage M L R (seen s0 (\<lambda>h. unborn h \<and> K h) (touch (Fork, r) N)) ?s"
      by (intro stage_seen_sys [OF s Cons]) (use K in \<open>auto simp: unborn_def lasting_def\<close>)
    with none [of ?s r] False show ?thesis by (simp add: wp_sys Cons same)
  qed
qed (simp add: wp_sys E)

section \<open>Errors\<close>

lemma stage_fallback: "stage M L R W s \<Longrightarrow> stage M (with_err (fallback op st) (fallback_view op st) L) R W s"
  by (auto simp: stage_def intro: owns_fallback)

lemma wp_stage_too_big:
  assumes "good_config c" and "stage M L R W s" and "\<And>e w s'. stage M (with_err e w L) R W s' \<Longrightarrow> Q (Err e) s'"
  shows "wp E (bind (nq_allocation_io_err c (Some ''run_process'') st) (\<lambda>err. ret (nq_process_err err))) Q s"
proof -
  have op: "label (op_name (Some ''run_process''))" by (simp add: label_def)
  show ?thesis
    unfolding wp_bind wp_nq_allocation_io_err [OF assms(1) op] wp_ret nq_process_err_def
    by (rule assms(3) [OF stage_fallback [OF assms(2)]])
qed

lemma wp_stage_invalid:
  assumes c: "good_config c" and s: "stage M L R W s" and program: "(program, vp) \<in># L" and plain: "CHR 0x00 \<notin> set detail"
    and post: "\<And>e w s'. stage M (with_err e w L) R W s' \<Longrightarrow> Q (Err e) s'"
  shows "wp E (bind (nq_invalid_input_io_err c (Some ''run_process'') (Some program) None detail)
    (\<lambda>err. ret (nq_process_err err))) Q s"
proof -
  obtain R' where R': "holding M R R'" "owns L R' s" using s by (auto simp: stage_def)
  show ?thesis
    unfolding wp_bind wp_ret nq_process_err_def
    by (rule wp_nq_invalid_input_io_err [OF c R'(2) _ path_view_live [OF R'(2) program] _ plain])
      (auto simp: label_def intro!: post stage_world [OF s _ R'(1)])
qed

lemma wp_stage_details:
  assumes c: "good_config c" and s: "stage M L R W s" and kind: "label kind" and plain: "CHR 0x00 \<notin> set body"
    and post: "\<And>e w s'. stage M (with_err e w L) R W s' \<Longrightarrow> Q (Err e) s'"
  shows "wp E (bind (if oom then nq_allocation_io_err c (Some ''run_process'') ALLOC_OOM
      else nq_make_io_err_details c code kind (Some ''run_process'') None None (PLit body 0)) (\<lambda>err. ret (Err err))) Q s"
proof -
  obtain R' where R': "holding M R R'" "owns L R' s" using s by (auto simp: stage_def)
  have op: "label (op_name (Some ''run_process''))" by (simp add: label_def)
  show ?thesis
  proof (cases oom)
    case True
    show ?thesis
      unfolding if_P [OF True] wp_bind wp_nq_allocation_io_err [OF c op] wp_ret by (rule post [OF stage_fallback [OF s]])
  next
    case False
    show ?thesis
      unfolding if_not_P [OF False] wp_bind wp_ret
      by (rule wp_nq_make_io_err_details [OF c R'(2) op kind _ plain])
        (auto simp: c_readable_lit plain intro!: post stage_world [OF s _ R'(1)])
  qed
qed

lemma wp_stage_io_err:
  assumes "good_config c" and "stage M L R W s" and "CHR 0x00 \<notin> set body"
    and "\<And>e w s'. stage M (with_err e w L) R W s' \<Longrightarrow> Q (Err e) s'"
  shows "wp E (nq_process_io_err c code (PLit body 0)) Q s"
  unfolding nq_process_io_err_def by (rule wp_stage_details [OF assms(1,2) label_kind assms(3)]) (rule assms(4))

lemma wp_stage_os_string:
  assumes c: "good_config c" and s: "stage M L R W s" and live: "(t, v) \<in># L"
    and ok: "\<And>b s'. CHR 0x00 \<notin> set v \<Longrightarrow> stage (add_mset (text_cell (b, v)) M) L R W s' \<Longrightarrow> Q (Inr (address (b, v))) s'"
    and err: "\<And>e w s'. stage M (with_err e w L) R W s' \<Longrightarrow> Q (Inl e) s'"
  shows "wp E (nq_os_string c t (Some ''run_process'') (Some t) None) Q s"
proof -
  obtain R' where R': "holding M R R'" "owns L R' s" using s by (auto simp: stage_def)
  show ?thesis
  proof (rule wp_nq_os_string [OF c R'(2) live _ path_view_live [OF R'(2) live]], goal_cases)
    case (3 b s')
    have "stage (add_mset (text_cell (b, v)) M) L R W s'"
      unfolding text_cell_def fst_conv snd_conv
      by (rule stage_world [OF s 3(4) holding_new [OF R'(1) 3(2)]]) (use 3(3) in simp)
    with 3(1) show ?case using ok by (simp add: address_def)
  qed (auto simp: label_def intro!: err stage_world [OF s _ R'(1)])
qed

section \<open>Reading the outputs\<close>

lemma late_trace:
  assumes "late s0 F N (world s)" and "trace s' = trace s @ made" and "\<forall>ev \<in> set made. quiet ev"
  shows "late s0 F N (world s')"
proof -
  obtain h before rest where h: "script s0 = map snd h @ rest" "trace s = trace s0 @ map fst h @ before"
     "\<forall>ev \<in> set before. quiet ev" "F h" "left_behind h \<subseteq> N \<union> \<Union> (releases ` set before)"
    using assms(1) unfolding late_def by (auto simp: world_def)
  show ?thesis
    unfolding late_def
    by (rule exI [of _ h], rule exI [of _ "before @ made"], rule exI [of _ rest]) (use h assms(2,3) in \<open>auto simp: world_def\<close>)
qed

lemma reads_quiet: "only_reads stream made \<Longrightarrow> \<forall>ev \<in> set (Fopen name mode # made @ [Fclose h]). \<not> reserved ev"
  by (auto simp: only_reads_def)

lemma opening_trace:
  assumes "opening_failed c op mode detail v L R s e s'"
  shows "\<exists>w made. owns (with_err e w L) R s' \<and> trace s' = trace s @ made \<and> (\<forall>ev \<in> set made. \<not> reserved ev)"
proof -
  obtain w where w: "owns (with_err e w L) R s'" "world s' = world s \<or> trace s' = trace s @ [Fopen v mode]"
    using assms unfolding opening_failed_def by blast
  then have "trace s' = trace s @ [] \<or> trace s' = trace s @ [Fopen v mode]" by (auto simp: world_def)
  with w(1) show ?thesis by fastforce
qed

text \<open>
  How far the replies and the trace have got. \<open>read_back name v w w'\<close>: between \<open>w\<close> and \<open>w'\<close> the file
  \<open>name\<close> was opened, read to its end and closed, and what it delivered was \<open>v\<close>.
\<close>

type_synonym progress = "reply list \<times> event list"

definition progress :: "nqstate \<Rightarrow> progress" where
  "progress s = (script s, trace s)"

lemma progress_world: "world s' = world s \<Longrightarrow> progress s' = progress s"
  by (simp add: progress_def world_def)

definition read_back :: "string \<Rightarrow> string \<Rightarrow> progress \<Rightarrow> progress \<Rightarrow> bool" where
  "read_back name v w w' \<longleftrightarrow> (\<exists>opened more closed made. fst w = opened # more \<and> 2 < r_ret opened \<and>
     fread_all more = Some (v, None, closed # fst w') \<and> r_ret closed = 0 \<and>
     snd w' = snd w @ Fopen name ''rb'' # made @ [Fclose (r_ret opened)] \<and> only_reads (r_ret opened) made)"

lemma read_back_quiet: "read_back name v w w' \<Longrightarrow> \<exists>made. snd w' = snd w @ made \<and> (\<forall>ev \<in> set made. quiet ev)"
  unfolding read_back_def using reads_quiet by metis

text \<open>What is read, with the name of the file as a string that is not the caller's.\<close>

lemma wp_read_named:
  assumes c: "good_config c" and owns: "owns L R s" and W: "late s0 F N (world s)" and E: "E Blocked" and n: "n \<le> length path"
    and ok: "\<And>t v s'. owns (add_mset (t, v) L) R s' \<Longrightarrow> late s0 F N (world s') \<Longrightarrow>
        read_back (take n path) v (progress s) (progress s') \<Longrightarrow> Q (Ok t) s'"
    and err: "\<And>e w s'. owns (with_err e w L) R s' \<Longrightarrow> late s0 F N (world s') \<Longrightarrow> Q (Err e) s'"
  shows "wp E (nq_read_file_bytes_operation c \<lparr>s_data = PLit path 0, s_len = int n, s_owner = None\<rparr> ''run_process'' limit)
    (\<lambda>r. wp E (nq_bytes_result_into_str c r ''run_process'') Q) s"
proof -
  let ?t = "\<lparr>s_data = PLit path 0, s_len = int n, s_owner = None\<rparr>"
  let ?L = "add_mset (?t, take n path) L"
  have op: "label ''run_process''" by (simp add: label_def)
  have owned: "owns ?L R s" by (rule owns_add_static [OF owns]) (simp_all add: str_view_def n le_SucI)
  have drop: "owns L' R s'" if "owns (add_mset (?t, take n path) L') R s'" for L' s'
    by (rule owns_remove_static [OF that]) simp
  have swap: "add_mset (t, v) ?L = add_mset (?t, take n path) (add_mset (t, v) L)" for t v
    by (rule add_mset_commute)
  have swap_err: "with_err e w ?L = add_mset (?t, take n path) (with_err e w L)" for e w
    unfolding with_err_def by (simp only: add_mset_commute)
  have into: "wp E (nq_bytes_result_into_str c r ''run_process'') Q s'"
    if live: "live_result live_bytes r v ?L R s'" and W': "late s0 F N (world s')"
      and gives: "\<And>x. v = Inl x \<Longrightarrow> read_back (take n path) x (progress s) (progress s')" for r v s'
  proof (rule wp_nq_bytes_result_into_str [OF c op live], goal_cases)
    case (1 t x s2)
    have "owns (add_mset (t, x) L) R s2" by (rule drop) (use 1(2) swap in simp)
    then show ?case
      by (rule ok) (use 1(3) W' gives [OF 1(1)] progress_world [OF 1(3)] in simp_all)
  next
    case (2 e w s2)
    have "owns (with_err e w L) R s2" by (rule drop) (use 2(1) swap_err in simp)
    then show ?case by (rule err) (use 2(2) W' in simp)
  qed
  show ?thesis
  proof (rule wp_nq_read_file_bytes_operation [where E = E and v = "take n path", OF c owned _ op E], simp, goal_cases)
    case (1 res s')
    show ?case
    proof (cases res)
      case (Ok b)
      then obtain bs made h where read: "live_bytes b bs ?L R s'" "only_reads h made"
          "trace s' = trace s @ Fopen (take n path) ''rb'' # made @ [Fclose h]"
          "read_back (take n path) bs (progress s) (progress s')"
        using 1 unfolding read_back_def progress_def by auto
      have "late s0 F N (world s')" by (rule late_trace [OF W read(3) reads_quiet [OF read(2)]])
      with read(1,4) show ?thesis unfolding Ok by (intro into [where v = "Inl bs"]) simp_all
    next
      case (Err e)
      have "\<exists>w made. owns (with_err e w ?L) R s' \<and> trace s' = trace s @ made \<and> (\<forall>ev \<in> set made. quiet ev)"
        using 1 [unfolded Err file_read.simps] opening_trace reads_quiet by metis
      then obtain w made where failed: "owns (with_err e w ?L) R s'" "trace s' = trace s @ made"
          "\<forall>ev \<in> set made. quiet ev" by blast
      have "late s0 F N (world s')" by (rule late_trace [OF W failed(2,3)])
      with failed(1) show ?thesis unfolding Err by (intro into [where v = "Inr w"]) (simp_all add: live_err_def)
    qed
  qed
qed

abbreviation up_to_nul :: "string \<Rightarrow> string" where
  "up_to_nul \<equiv> takeWhile (\<lambda>ch. ch \<noteq> CHR 0x00)"

lemma wp_stage_read_output:
  assumes c: "good_config c" and s: "stage M L R (late s0 F N) s" and E: "E Blocked"
    and ok: "\<And>t v s'. stage M (add_mset (t, v) L) R (late s0 F N) s' \<Longrightarrow>
        read_back (up_to_nul path) v (progress s) (progress s') \<Longrightarrow> Q (Inr t) s'"
    and err: "\<And>e w s'. stage M (with_err e w L) R (late s0 F N) s' \<Longrightarrow> Q (Inl e) s'"
  shows "wp E (nq_try_read_text_file c path) Q s"
proof -
  obtain R' where R': "holding M R R'" "owns L R' s" and W: "late s0 F N (world s)" using s by (auto simp: stage_def)
  have op: "label (op_name (Some ''run_process''))" by (simp add: label_def)
  have held: "stage M L' R (late s0 F N) s'" if "owns L' R' s'" "late s0 F N (world s')" for L' s'
    using that R'(1) unfolding stage_def by blast
  show ?thesis
  proof (cases "nq_cstr_length c path")
    case None
    show ?thesis
      unfolding nq_try_read_text_file_def None option.case wp_bind wp_nq_allocation_io_err [OF c op] wp_ret
      by (rule err [OF stage_fallback [OF s]])
  next
    case (Some n)
    then have len: "n = length (up_to_nul path)" by (auto simp: nq_cstr_length_eq Let_def split: if_splits)
    then have n: "n \<le> length path" by (simp add: length_takeWhile_le)
    have name: "take n path = up_to_nul path" by (simp add: len takeWhile_eq_take [symmetric])
    show ?thesis
      unfolding nq_try_read_text_file_def Some option.case wp_bind wp_ret
      by (rule wp_read_named [where E = E and N = N and ?s0.0 = s0, OF c R'(2) W E n, unfolded name]) (auto intro: ok err held)
  qed
qed


section \<open>What a run holds\<close>

definition run_names :: "run \<Rightarrow> blocks \<Rightarrow> bool" where
  "run_names l M \<longleftrightarrow> (\<exists>x d. rn_program l = address x \<and> rn_cwd l = address d \<and> M = {#text_cell x, text_cell d#})"

definition run_blocks :: "run \<Rightarrow> blocks \<Rightarrow> bool" where
  "run_blocks l M \<longleftrightarrow> (\<exists>a xs names. rn_argv l = PHeap a 0 \<and> rn_count l = length xs \<and> run_names l names \<and>
     M = add_mset (a, cells (rn_program l # map address xs @ [PNull])) (texts xs + names))"

abbreviation run_files :: "run \<Rightarrow> resource set" where
  "run_files l \<equiv> {Temp (rn_stdout l), Temp (rn_stderr l)}"

text \<open>What is removed at the end: the two files, in this order, and no more calls.\<close>

definition removed :: "event list \<Rightarrow> progress \<Rightarrow> progress \<Rightarrow> bool" where
  "removed evs w w' \<longleftrightarrow> (\<exists>rs. fst w = rs @ fst w' \<and> length rs = length evs \<and> snd w' = snd w @ evs)"

abbreviation run_removals :: "run \<Rightarrow> event list" where
  "run_removals l \<equiv> [Unlink (rn_stdout l), Unlink (rn_stderr l)]"

lemma run_blocks_fds [simp]: "run_blocks (l\<lparr>rn_stdout_fd := fd, rn_stderr_fd := fd'\<rparr>) M = run_blocks l M"
  by (simp add: run_blocks_def run_names_def)

lemma wp_run_release_names:
  assumes M: "run_names l M" and s: "stage M L R (W (run_files l)) s" and W: "phase W" and E: "E Blocked"
    and post: "\<And>s'. stage {#} L R (W {}) s' \<Longrightarrow> removed (run_removals l) (progress s) (progress s') \<Longrightarrow> Q () s'"
  shows "wp E (run_release_names l) Q s"
proof -
  obtain x d where l: "rn_program l = address x" "rn_cwd l = address d" and M': "M = {#text_cell x, text_cell d#}"
    using M unfolding run_names_def by blast
  have none: "run_files l - {Temp (rn_stdout l)} - {Temp (rn_stderr l)} = {}" by blast
  show ?thesis
    unfolding run_release_names_def wp_andthen l address_def
  proof (rule wp_stage_unlink [where W = W and E = E, OF s W E], rule wp_stage_unlink [where W = W and E = E, OF _ W E],
      assumption, unfold none M', goal_cases)
    case (1 r1 s1 r2 s2)
    have gone: "removed (run_removals l) (progress s) (progress s2)"
      unfolding removed_def progress_def using 1 by (intro exI [of _ "[r1, r2]"]) simp
    have "stage (add_mset (fst x, snd (text_cell x)) {#text_cell d#}) L R (W {}) s2"
      using 1(4) by (simp add: text_cell_def)
    then show ?case
    proof (rule wp_stage_free)
      fix s3 assume s3: "stage {#text_cell d#} L R (W {}) s3" "world s3 = world s2"
      then have "stage (add_mset (fst d, snd (text_cell d)) {#}) L R (W {}) s3" by (simp add: text_cell_def)
      then show "wp E (c_free (PHeap (fst d) 0)) Q s3"
      proof (rule wp_stage_free)
        fix s4 assume "stage {#} L R (W {}) s4" "world s4 = world s3"
        then show "Q () s4" by (intro post) (use gone progress_world [of s4 s2] s3(2) in simp_all)
      qed
    qed
  qed
qed

lemma wp_run_free_vector:
  assumes M: "run_blocks l M" and s: "stage M L R W s"
    and post: "\<And>names s'. run_names l names \<Longrightarrow> stage names L R W s' \<Longrightarrow> Q () s'"
  shows "wp E (free_cells (rn_argv l) 1 (rn_count l)) (\<lambda>_. wp E (c_free (rn_argv l)) Q) s"
proof -
  obtain a xs names where l: "rn_argv l = PHeap a 0" "rn_count l = length xs" and names: "run_names l names"
      and M': "M = add_mset (a, cells (rn_program l # map address xs @ [PNull])) (texts xs + names)"
    using M unfolding run_blocks_def by blast
  show ?thesis
    unfolding l
    by (rule wp_free_cells [where xs = xs and m = 0 and qs = "[PNull]", OF s [unfolded M']])
      (simp, simp, erule wp_stage_free, rule post [OF names])
qed

lemma wp_close_if_open:
  assumes "stage M L R W s" and "tolerant W" and "E Blocked" and "\<And>s'. stage M L R W s' \<Longrightarrow> Q () s'"
  shows "wp E (close_if_open fd) Q s"
proof (cases "fd \<ge> 0")
  case True
  show ?thesis unfolding close_if_open_def if_P [OF True] by (rule wp_stage_close [where E = E and W = W, OF assms(1-3)]) (rule assms(4))
qed (use assms in \<open>simp add: close_if_open_def wp_ret\<close>)

lemma wp_run_release_all:
  assumes M: "run_blocks l M" and s: "stage M L R (W (run_files l)) s" and W: "phase W" and E: "E Blocked"
    and post: "\<And>s'. stage {#} L R (W {}) s' \<Longrightarrow> Q () s'"
  shows "wp E (run_release_all l) Q s"
  unfolding run_release_all_def wp_andthen
proof (rule wp_run_free_vector [OF M s], goal_cases)
  case (1 names s1)
  note closing = wp_close_if_open [where E = E, OF _ phase_tolerant [OF W] E]
  show ?case
    by (rule closing [OF 1(2)], erule closing, rule wp_run_release_names [where W = W and E = E, OF 1(1) _ W E])
      (assumption, rule post)
qed

text \<open>Giving up while the vector is being filled.\<close>

lemma wp_free_cells_back:
  assumes "stage (add_mset (b, BPtrs cs) (texts xs + M)) L R W s" and "n = length xs" and "n < length cs"
    and "\<And>i. i < n \<Longrightarrow> cs ! Suc i = Some (address (xs ! i))"
    and "\<And>s'. stage (add_mset (b, BPtrs cs) M) L R W s' \<Longrightarrow> Q () s'"
  shows "wp E (free_cells_back (PHeap b 0) n) Q s"
  using assms
proof (induction n arbitrary: xs s)
  case 0
  then show ?case by (simp add: wp_ret)
next
  case (Suc n)
  then obtain xs' x where xs: "xs = xs' @ [x]" by (metis length_Suc_conv_rev)
  then have n: "n = length xs'" using Suc.prems(2) by simp
  have cell: "cs ! Suc n = Some (address x)" using Suc.prems(4) [of n] by (simp add: xs n)
  have before: "cs ! Suc i = Some (address (xs' ! i))" if "i < n" for i
    using Suc.prems(4) [of i] that by (simp add: xs n nth_append)
  show ?case
    unfolding free_cells_back.simps wp_bind wp_andthen
  proof (rule wp_stage_load_cell [OF Suc.prems(1) Suc.prems(3) cell])
    have "(fst x, snd (text_cell x)) = text_cell x" by (simp add: text_cell_def)
    then have "stage (add_mset (fst x, snd (text_cell x)) (add_mset (b, BPtrs cs) (texts xs' + M))) L R W s"
      using Suc.prems(1) by (simp add: xs add_mset_commute)
    then show "wp E (c_free (address x)) (\<lambda>_. wp E (free_cells_back (PHeap b 0) n) Q) s"
      unfolding address_def
    proof (rule wp_stage_free)
      fix s1 assume "stage (add_mset (b, BPtrs cs) (texts xs' + M)) L R W s1"
      then show "wp E (free_cells_back (PHeap b 0) n) Q s1"
        by (rule Suc.IH [OF _ n]) (use Suc.prems(3,5) before in simp_all)
    qed
  qed
qed

section \<open>Checking the arguments\<close>

lemma wp_run_validate:
  assumes cells: "list_cells ts vs L R b s" and "i + n \<le> length vs"
    and "\<And>defect. (defect = None \<Longrightarrow> list_all plain_text (take n (drop i vs))) \<Longrightarrow> Q defect s"
  shows "wp E (run_validate c (PHeap b 0) i n) Q s"
  using assms(2,3)
proof (induction n arbitrary: i)
  case (Suc n)
  then have i: "i < length vs" by simp
  have owns: "owns L R s" and live: "(ts ! i, vs ! i) \<in># L" using cells i by (auto simp: list_cells_def)
  have take: "take (Suc n) (drop i vs) = vs ! i # take n (drop (i + 1) vs)"
    using i by (simp add: Cons_nth_drop_Suc [symmetric])
  have bad: "Q (Some x) s" for x by (rule Suc.prems(2)) simp
  have nul: "wp E (bind (nq_str_has_nul (ts ! i)) (\<lambda>nul. if nul then ret (Some False) else run_validate c (PHeap b 0) (i + 1) n)) Q s"
    unfolding wp_bind
  proof (rule wp_nq_str_has_nul [OF owns live], cases "CHR 0x00 \<in> set (vs ! i)")
    case False
    show "wp E (if CHR 0x00 \<in> set (vs ! i) then ret (Some False) else run_validate c (PHeap b 0) (i + 1) n) Q s"
      unfolding if_not_P [OF False]
      by (rule Suc.IH) (use Suc.prems False in \<open>simp_all add: take plain_text_def\<close>)
  qed (simp add: wp_ret bad)
  show ?case
    unfolding run_validate.simps wp_bind
    by (rule wp_cells_load [OF cells i]) (use nul bad in \<open>simp add: wp_ret wp_bind\<close>)
qed (simp add: wp_ret)

lemma wp_validate_list:
  assumes list: "lent_list l vs L R" and s: "stage M L R W s"
    and post: "\<And>defect. (defect = None \<Longrightarrow> list_all plain_text vs) \<Longrightarrow> Q defect s"
  shows "wp E (run_validate c (l_data l) 0 (nat (l_len l))) Q s"
proof (cases "vs = []")
  case True
  then show ?thesis unfolding lent_list_len [OF list] using post [of None] by (simp add: wp_ret)
next
  case False
  then obtain ts b where b: "l_data l = PHeap b 0" "lent ts vs L R b" using list by (auto simp: lent_list_def)
  obtain R' where "list_cells ts vs L R' b s" using lent_cells [OF b(2) s] by blast
  then show ?thesis
    unfolding lent_list_len [OF list] b(1) by (rule wp_run_validate) (auto intro: post)
qed


section \<open>The parent\<close>

lemma disciplined_after_quiet:
  "\<forall>c \<in> set h. \<not> reserved (fst c) \<Longrightarrow> disciplined pid (h @ later) = disciplined pid later"
  by (induction h) (auto simp: reaps_def)

text \<open>The status is that of the reply that reaped the child.\<close>

definition ended :: "int \<Rightarrow> history \<Rightarrow> bool" where
  "ended status h \<longleftrightarrow> (\<exists>pid later r. forked pid later h \<and> (Waitpid pid, r) \<in> set later \<and> r_ret r = pid \<and>
     status = to_i32 (reply_int r 0))"

lemma lasting_ended: "lasting (ended status)"
proof -
  have "ended status (h @ h')" if "ended status h" for h h'
  proof -
    obtain pid later r where "forked pid later h" "(Waitpid pid, r) \<in> set later" "r_ret r = pid" "status = to_i32 (reply_int r 0)"
      using \<open>ended status h\<close> unfolding ended_def by blast
    moreover from this(1) have "forked pid (later @ h') (h @ h')" by (auto simp: forked_def)
    ultimately show ?thesis unfolding ended_def by (intro exI [of _ pid] exI [of _ "later @ h'"] exI [of _ r]) auto
  qed
  then show ?thesis by (simp add: lasting_def)
qed

lemma lasting_both: "lasting K \<Longrightarrow> lasting K' \<Longrightarrow> lasting (\<lambda>h. K h \<and> K' h)"
  by (auto simp: lasting_def)

lemma lasting_if: "lasting K \<Longrightarrow> lasting (\<lambda>h. b \<longrightarrow> K h)"
  by (auto simp: lasting_def)

text \<open>The wait: either there is no child any more, or the run will not go on.\<close>

definition over :: "nqstate \<Rightarrow> (history \<Rightarrow> bool) \<Rightarrow> int \<Rightarrow> resource set \<Rightarrow> outside \<Rightarrow> bool" where
  "over s0 P p N w \<longleftrightarrow> (p \<le> 0 \<longrightarrow> seen s0 P N w)"

lemma phase_over: "growing P \<Longrightarrow> phase (over s0 P p)"
  using phase_seen [of P s0] unfolding phase_def tolerant_def over_def by blast

lemma calls_unique:
  assumes "calls s h s'" and "calls s h' s'"
  shows "h = h'"
proof -
  have "map fst h = map fst h'" "map snd h = map snd h'" using assms by (auto simp: calls_def)
  then show ?thesis by (metis zip_map_fst_snd)
qed

text \<open>The wait gives the status of the child, when the kernel says why a call has failed.\<close>

lemma wp_legacy_status:
  assumes pid: "0 < pid" and owns: "owns L R s" and E: "E Blocked" and kernel: "explains s" and going: "\<not> abort_child"
  shows "wp E (nq_process_legacy_wait pid status abort_child)
    (\<lambda>(err, p, status') s'. err = 0 \<longrightarrow> (\<exists>h r. calls s h s' \<and> (Waitpid pid, r) \<in> set h \<and> r_ret r = pid \<and>
       status' = to_i32 (reply_int r 0))) s"
proof -
  let ?J = "\<lparr>jb_fd = (\<lambda>_. 0), jb_text = [], jb_limit = 0, jb_strs = {#}, jb_raws = Map.empty, jb_pid = pid, jb_from = s\<rparr>"
  have child: "child L R (jb_pid ?J) (jb_from ?J) (\<lambda>_. []) (jb_pid ?J) s" using child_start [OF pid owns] by simp
  have kernel': "explains (jb_from ?J)" using kernel by simp
  have pos: "\<not> pid \<le> 0" using pid by simp
  show ?thesis
    unfolding nq_process_legacy_wait_def if_P [OF going] nq_process_reap_pid_def if_not_P [OF pos] wp_bind [of _ "bind _ _"] wp_bind [of _ "nq_process_waitpid _ _"]
  proof (rule wp_waitpid_status [where E = E and J = ?J, unfolded job.simps, OF child [unfolded job.simps] E kernel' [unfolded job.simps]], goal_cases)
    case (1 r s')
    then have "\<exists>h. calls s h s' \<and> (Waitpid pid, r) \<in> set h \<and> r_ret r = pid" by (auto simp: reaped_by_def)
    with going show ?case by (auto simp: wp_ret)
  next
    case (2 err status s')
    have c: "child L R pid s (\<lambda>_. []) (if err = ECHILD then 0 else pid) s'" using 2(2) by simp
    have p: "(if err = 0 \<or> err = ECHILD then 0 else pid) = (if err = ECHILD then 0 else pid)" using 2(1) by simp
    show ?case
      unfolding prod.case wp_ret p
      by (rule wp_legacy_rest [where E = E, OF c E]) (use 2(1) in simp)
  qed
qed

lemma explains_later: "explains s0 \<Longrightarrow> calls s0 h s \<Longrightarrow> explains s"
  by (auto simp: explains_def calls_def)

lemma wp_run_wait:
  assumes s: "stage M L R (seen s0 (\<lambda>h. born pid h \<and> K h) N) s" and K: "lasting K" and E: "E Blocked"
    and post: "\<And>err p status' s'. stage M L R (over s0 (\<lambda>h. outlived h \<and> K h \<and>
        (\<not> abort_child \<and> err = 0 \<and> explains s0 \<longrightarrow> ended status' h)) p N) s' \<Longrightarrow>
        (err = 0 \<Longrightarrow> p = 0) \<Longrightarrow> Q (err, p, status') s'"
  shows "wp E (nq_process_legacy_wait pid status abort_child) Q s"
proof -
  obtain R' where R': "holding M R R'" "owns L R' s" using s by (auto simp: stage_def)
  obtain h where h: "calls s0 h s" "born pid h" "K h" "left_behind h \<subseteq> N"
    using s unfolding stage_def seen_def since_world by blast
  then obtain h1 r h2 where split: "h = h1 @ (Fork, r) # h2" "r_ret r = pid" "0 < pid" "unborn h1"
     "\<forall>c \<in> set h2. quiet (fst c)" unfolding born_def by blast
  let ?child = "\<lambda>(err, p, status') s'. child L R' pid s (\<lambda>_. []) p s' \<and> (err = 0 \<longrightarrow> p = 0)"
  let ?status = "\<lambda>(err, p, status') s'. \<not> abort_child \<and> err = 0 \<and> explains s0 \<longrightarrow>
    (\<exists>h r. calls s h s' \<and> (Waitpid pid, r) \<in> set h \<and> r_ret r = pid \<and> status' = to_i32 (reply_int r 0))"
  have 1: "wp E (nq_process_legacy_wait pid status abort_child) ?child s"
    by (rule wp_nq_process_legacy_wait [where E = E, OF child_start [OF split(3) R'(2)] E]) simp
  have 2: "wp E (nq_process_legacy_wait pid status abort_child) ?status s"
  proof (cases "\<not> abort_child \<and> explains s0")
    case True
    then have "explains s" using h(1) explains_later by blast
    with True show ?thesis
      by (intro wp_mono [OF wp_legacy_status [where E = E, OF split(3) R'(2) E]]) auto
  qed (rule wp_mono [OF 1], auto)
  show ?thesis
  proof (rule wp_mono [OF wp_conj [OF 1 2]], goal_cases)
    case (1 a s')
    obtain err p status' where a: "a = (err, p, status')" by (cases a)
    have c: "child L R' pid s (\<lambda>_. []) p s'" and err: "err = 0 \<Longrightarrow> p = 0" using 1 by (simp_all add: a)
    have "seen s0 (\<lambda>h. outlived h \<and> K h \<and> (\<not> abort_child \<and> err = 0 \<and> explains s0 \<longrightarrow> ended status' h)) N (world s')"
      if p: "p \<le> 0"
    proof -
      obtain h3 where h3: "calls s h3 s'" "disciplined pid h3" "\<exists>call \<in> set h3. gone pid call"
        using c p split(3) unfolding child_def by auto
      have made: "calls s0 (h @ h3) s'" using h(1) h3(1) by (simp add: calls_def)
      have forked: "forked pid (h2 @ h3) (h @ h3)" unfolding forked_def split(1) using split(2-4) by simp
      moreover have "disciplined pid (h2 @ h3)" using h3(2) disciplined_after_quiet [OF split(5)] by simp
      ultimately have "outlived (h @ h3)" using h3(3) unfolding outlived_def by (intro exI [of _ pid] exI [of _ "h2 @ h3"]) auto
      moreover have "K (h @ h3)" using K h(3) by (simp add: lasting_def)
      moreover have "ended status' (h @ h3)" if going: "\<not> abort_child \<and> err = 0 \<and> explains s0"
      proof -
        obtain h' r where "calls s h' s'" "(Waitpid pid, r) \<in> set h'" "r_ret r = pid" "status' = to_i32 (reply_int r 0)"
          using 1 going by (auto simp: a)
        then show ?thesis
          using forked calls_unique [OF h3(1)] unfolding ended_def by (intro exI [of _ pid] exI [of _ "h2 @ h3"] exI [of _ r]) auto
      qed
      moreover have "left_behind (h @ h3) \<subseteq> N"
        using disciplined_no_files [OF h3(2), of "left_behind h"] h(4) by (auto simp: left_behind_def)
      ultimately show ?thesis unfolding seen_def since_world using made by blast
    qed
    then have "stage M L R (over s0 (\<lambda>h. outlived h \<and> K h \<and> (\<not> abort_child \<and> err = 0 \<and> explains s0 \<longrightarrow> ended status' h)) p N) s'"
      using child_owns [OF c] R'(1) unfolding stage_def over_def by blast
    then show ?case unfolding a by (rule post) (rule err)
  qed
qed

text \<open>How a run ends: the caller owns the outputs or the error, and nothing else is left.\<close>

definition outputs :: "(string \<Rightarrow> event) \<Rightarrow> nqstate \<Rightarrow> (history \<Rightarrow> bool) \<Rightarrow> string \<times> string \<Rightarrow> string \<times> string \<Rightarrow> progress \<Rightarrow> bool" where
  "outputs remove s0 P out err w \<longleftrightarrow> (\<exists>h rs w1 w2. script s0 = map snd h @ rs \<and> P h \<and>
     read_back (fst out) (snd out) (rs, trace s0 @ map fst h) w1 \<and> read_back (fst err) (snd err) w1 w2 \<and>
     removed [remove (fst out), remove (fst err)] w2 w)"

definition captured_in :: "string \<Rightarrow> string \<Rightarrow> history \<Rightarrow> bool" where
  "captured_in out err h \<longleftrightarrow> made_file ''/tmp/nq-stdout-XXXXXX'' out h \<and> made_file ''/tmp/nq-stderr-XXXXXX'' err h"

definition run_exit_code :: "int \<Rightarrow> int" where
  "run_exit_code status =
     (if WIFEXITED status then WEXITSTATUS status else if WIFSIGNALED status then 128 + WTERMSIG status else 1)"

definition run_history :: "nqstate \<Rightarrow> int \<Rightarrow> string \<Rightarrow> string \<Rightarrow> history \<Rightarrow> bool" where
  "run_history s0 status out err h \<longleftrightarrow> outlived h \<and> captured_in out err h \<and> (explains s0 \<longrightarrow> ended status h) \<and>
     left_behind h \<subseteq> {Temp out, Temp err}"

definition run_done :: "strs \<Rightarrow> raws \<Rightarrow> nqstate \<Rightarrow> nq_result_process_result \<Rightarrow> nqstate \<Rightarrow> bool" where
  "run_done L R s0 res s' \<longleftrightarrow> (case res of
     Ok p \<Rightarrow> \<exists>v w out err status. owns (add_mset (pr_stdout p, v) (add_mset (pr_stderr p, w) L)) R s' \<and>
       pr_exit_code p = run_exit_code status \<and>
       outputs Unlink s0 (run_history s0 status out err) (out, v) (err, w) (progress s')
   | Err e \<Rightarrow> \<exists>w. stage {#} (with_err e w L) R (late s0 no_orphan {}) s')"

lemma run_done_err: "stage {#} (with_err e w L) R (late s0 no_orphan {}) s' \<Longrightarrow> run_done L R s0 (Err e) s'"
  unfolding run_done_def by auto

lemma run_done_seen: "stage {#} (with_err e w L) R (seen s0 P {}) s' \<Longrightarrow> (\<And>h. P h \<Longrightarrow> no_orphan h) \<Longrightarrow> run_done L R s0 (Err e) s'"
  by (rule run_done_err, erule stage_weaken) (rule seen_late)

lemma captured_plain:
  assumes "captured_in out err h"
  shows "up_to_nul out = out" and "up_to_nul err = err"
  using assms temp_suffix(2) by (auto simp: captured_in_def made_file_def temp_name_def takeWhile_eq_all_conv)

text \<open>The outputs are read, the files removed.\<close>

lemma wp_run_collect:
  assumes c: "good_config c" and M: "run_names l M" and s: "stage M L R (late s0 F (run_files l)) s" and E: "E Blocked"
    and ok: "\<And>t v u w w1 w2 s'. stage {#} (add_mset (t, v) (add_mset (u, w) L)) R (late s0 F {}) s' \<Longrightarrow>
        read_back (up_to_nul (rn_stdout l)) v (progress s) w1 \<Longrightarrow> read_back (up_to_nul (rn_stderr l)) w w1 w2 \<Longrightarrow>
        removed (run_removals l) w2 (progress s') \<Longrightarrow> Q (nq_process_ok (run_exit_code status) t u) s'"
    and err: "\<And>e w s'. stage {#} (with_err e w L) R (late s0 F {}) s' \<Longrightarrow> Q (Err e) s'"
  shows "wp E (run_collect c l status) Q s"
proof -
  note release = wp_run_release_names [where W = "late s0 F" and E = E, OF M _ phase_late E]
  have failed: "wp E (andthen (run_release_names l) (ret (Err e))) Q s'"
    if "stage M (with_err e w L) R (late s0 F (run_files l)) s'" for e w s'
    unfolding wp_andthen by (rule release [OF that]) (simp add: wp_ret err)
  show ?thesis
    unfolding run_collect_def wp_bind run_exit_code_def [symmetric]
  proof (rule wp_stage_read_output [where E = E, OF c s E], goal_cases)
    case (2 e w s1)
    then show ?case unfolding sum.case by (intro failed)
  next
    case (1 t v s1)
    note first = 1(2)
    show ?case
      unfolding sum.case wp_bind
    proof (rule wp_stage_read_output [where E = E, OF c 1(1) E], goal_cases)
      case (1 u w s2)
      show ?case
        unfolding sum.case wp_andthen
        by (rule release [OF 1(1)], unfold wp_ret, rule ok [OF _ first 1(2)], subst add_mset_commute)
    next
      case (2 e w s2)
      have swap: "with_err e w (add_mset (t, v) L) = add_mset (t, v) (with_err e w L)"
        unfolding with_err_def by (simp only: add_mset_commute)
      obtain R' where R': "holding M R R'" "owns (add_mset (t, v) (with_err e w L)) R' s2"
        using 2 by (auto simp: stage_def swap)
      show ?case
        unfolding sum.case wp_bind
        by (rule wp_nq_str_drop [OF R'(2)], rule failed) (rule stage_world [OF 2 _ R'(1)])
    qed
  qed
qed

lemma stage_at: "stage M L R W s \<Longrightarrow> W' (world s) \<Longrightarrow> stage M L R W' s"
  by (auto simp: stage_def)

lemma late_start: "calls s0 h s \<Longrightarrow> F h \<Longrightarrow> left_behind h \<subseteq> N \<Longrightarrow> late s0 F N (world s)"
  unfolding late_def calls_def world_def by (rule exI [of _ h], rule exI [of _ "[]"], rule exI [of _ "script s"]) auto

lemma stage_lone: "stage {#} L R W s \<longleftrightarrow> owns L R s \<and> W (world s)"
  by (simp add: stage_def)

lemma wp_run_collected:
  assumes c: "good_config c" and M: "run_names l M" and E: "E Blocked"
    and s: "stage M L R (seen s0 (\<lambda>h. outlived h \<and> captured_in (rn_stdout l) (rn_stderr l) h \<and>
      (explains s0 \<longrightarrow> ended status h)) (run_files l)) s"
  shows "wp E (run_collect c l status) (run_done L R s0) s"
proof -
  let ?P = "run_history s0 status (rn_stdout l) (rn_stderr l)"
  obtain h where h: "calls s0 h s" "?P h" using s unfolding stage_def seen_def since_world run_history_def by blast
  have late: "stage M L R (late s0 ((=) h) (run_files l)) s"
    by (rule stage_at [OF s], rule late_start [OF h(1)]) (use h(2) in \<open>simp_all add: run_history_def\<close>)
  have names: "up_to_nul (rn_stdout l) = rn_stdout l" "up_to_nul (rn_stderr l) = rn_stderr l"
    using captured_plain h(2) unfolding run_history_def by blast+
  show ?thesis
  proof (rule wp_run_collect [where E = E, OF c M late E], goal_cases)
    case (1 t v u w w1 w2 s')
    have "progress s = (script s, trace s0 @ map fst h)" "script s0 = map snd h @ script s"
      using h(1) by (simp_all add: calls_def progress_def)
    then have "outputs Unlink s0 ?P (rn_stdout l, v) (rn_stderr l, w) (progress s')"
      using 1(2-4) h(2) unfolding outputs_def names fst_conv snd_conv by metis
    moreover have "owns (add_mset (t, v) (add_mset (u, w) L)) R s'" using 1(1) by (simp add: stage_lone)
    ultimately show ?case
      unfolding run_done_def nq_process_ok_def nq_result.case nq_process_result_t.simps by blast
  next
    case (2 e w s')
    have "no_orphan h" using h(2) by (simp add: run_history_def no_orphan_def)
    with 2 show ?case by (intro run_done_err [where w = w]) (auto intro: stage_weaken late_mono)
  qed
qed

lemma lasting_captured_in: "lasting (captured_in out err)"
  by (auto simp: lasting_def captured_in_def made_file_def)

lemma wp_run_parent:
  assumes c: "good_config c" and M: "run_blocks l M"
    and s: "stage M L R (seen s0 (\<lambda>h. born pid h \<and> captured_in (rn_stdout l) (rn_stderr l) h) (run_files l)) s"
  shows "wp start_ends (run_parent c l pid pipe0 pipe1) (run_done L R s0) s"
proof -
  let ?K = "captured_in (rn_stdout l) (rn_stderr l)"
  let ?ended = "\<lambda>b status h. b \<and> explains s0 \<longrightarrow> ended status h"
  have W: "tolerant (seen s0 (\<lambda>h. born pid h \<and> ?K h) N)" for N
    by (rule phase_tolerant [OF phase_seen [OF growing_both [OF growing_born lasting_captured_in]]])
  have over: "phase (over s0 (\<lambda>h. outlived h \<and> ?K h \<and> ?ended b status h) p)" for b status p
    by (intro phase_over growing_both growing_outlived lasting_both lasting_captured_in lasting_if lasting_ended)
  note close = wp_stage_close [where E = start_ends, OF _ W start_ends_simps(1)]
  show ?thesis
    unfolding run_parent_def wp_andthen
  proof (rule close [OF s], erule close, erule close, unfold wp_bind wp_andthen,
      erule wp_stage_exec_error [where E = start_ends, OF _ W start_ends_simps(1)], erule close,
      erule wp_run_wait [where E = start_ends, OF _ lasting_captured_in start_ends_simps(1)], unfold prod.case wp_andthen,
      erule wp_run_free_vector [OF M], goal_cases)
    case (1 s1 s2 s3 child_errno s4 s5 err p status' s6 names s7)
    let ?P = "\<lambda>h. outlived h \<and> ?K h \<and> ?ended (\<not> child_errno \<noteq> 0 \<and> err = 0) status' h"
    have names: "run_names l names" and held: "stage names L R (over s0 ?P p (run_files l)) s7"
      using 1(2,3) by simp_all
    show ?case
    proof (cases "child_errno \<noteq> 0 \<or> err \<noteq> 0")
      case False
      then have "over s0 ?P p (run_files l) = seen s0 (\<lambda>h. outlived h \<and> ?K h \<and> (explains s0 \<longrightarrow> ended status' h)) (run_files l)"
        using 1(1) by (simp add: over_def fun_eq_iff)
      then show ?thesis
        unfolding if_not_P [OF False] by (intro wp_run_collected [where E = start_ends, OF c names]) (use held in simp_all)
    next
      case True
      show ?thesis
        unfolding if_P [OF True] wp_andthen
      proof (rule wp_run_release_names [where W = "over s0 ?P p" and E = start_ends, OF names held over], simp, goal_cases)
        case (1 s8)
        show ?case
        proof (cases "p > 0")
          case True
          obtain R' where R': "owns L R' s8" using 1(1) by (auto simp: stage_def)
          show ?thesis
            unfolding if_P [OF True]
            by (rule wp_nq_process_cleanup_fail [where E = start_ends, OF child_start [OF zero_less_one R']]) simp_all
        next
          case False
          then have "over s0 ?P p {} = seen s0 ?P {}" by (simp add: over_def fun_eq_iff)
          with 1(1) have gone: "stage {#} L R (seen s0 ?P {}) s8" by simp
          show ?thesis
            unfolding if_not_P [OF False] wp_ret
            by (rule wp_stage_io_err [OF c gone], simp, erule run_done_seen) (simp add: no_orphan_def)
        qed
      qed
    qed
  qed
qed

section \<open>The fork\<close>

lemma wp_run_pipe:
  assumes s: "stage M L R W s" and W: "tolerant W" and E: "E Blocked"
    and post: "\<And>e fd fd' s'. stage M L R W s' \<Longrightarrow> Q (e, fd, fd') s'"
  shows "wp E (if setup_error = 0
           then bind (sys Pipe) (\<lambda>r. bind get_errno (\<lambda>e.
             ret (if r_ret r \<noteq> 0 then (e, -1, -1) else (0, max 0 (reply_int r 0), max 0 (reply_int r 1)))))
           else ret (setup_error, -1, -1)) Q s"
proof (cases "setup_error = 0")
  case True
  show ?thesis
    unfolding if_P [OF True] wp_bind wp_get_errno wp_ret
    by (rule wp_stage_sys [where E = E, OF s W _ E]) (simp_all add: post)
qed (use s in \<open>simp add: wp_ret post\<close>)

lemma wp_run_pipe_fds:
  assumes s: "stage M L R W s" and W: "tolerant W" and E: "E Blocked"
    and post: "\<And>e fd fd' s'. stage M L R W s' \<Longrightarrow> Q (e, fd, fd') s'"
  shows "wp E (if setup_error = 0
           then bind (nq_process_setup_fd pipe0) (\<lambda>pipe0. bind get_errno (\<lambda>e.
             let setup_error = (if pipe0 < 0 then e else 0) in
             bind (nq_process_setup_fd pipe1) (\<lambda>pipe1. bind get_errno (\<lambda>e.
               ret (if pipe1 < 0 \<and> setup_error = 0 then e else setup_error, pipe0, pipe1)))))
           else ret (setup_error, pipe0, pipe1)) Q s"
proof (cases "setup_error = 0")
  case True
  show ?thesis
    unfolding if_P [OF True] wp_bind wp_get_errno wp_ret Let_def
    by (rule wp_stage_setup_fd [where E = E, OF s W E], erule wp_stage_setup_fd [where E = E, OF _ W E]) (rule post)
qed (use s in \<open>simp add: wp_ret post\<close>)

lemma run_blocks_child:
  assumes M: "run_blocks l M" and s: "stage M L R W s"
  shows "has_c_string (heap s) (rn_cwd l)" and "has_c_string (heap s) (rn_program l)" and "has_vector (heap s) (rn_argv l)"
proof -
  obtain a xs x d where l: "rn_argv l = PHeap a 0" "rn_program l = address x" "rn_cwd l = address d"
      and M': "M = add_mset (a, cells (address x # map address xs @ [PNull])) (texts xs + {#text_cell x, text_cell d#})"
    using M unfolding run_blocks_def run_names_def by auto
  have str: "has_c_string (heap s) (address y)" if "y = x \<or> y = d \<or> y \<in> set xs" for y
    by (rule has_c_string_text [OF s]) (use that in \<open>auto simp: M'\<close>)
  show "has_c_string (heap s) (rn_cwd l)" "has_c_string (heap s) (rn_program l)" using str by (simp_all add: l)
  show "has_vector (heap s) (rn_argv l)"
    unfolding l(1)
  proof (rule has_vector_held [where qs = "address x # map address xs" and rest = "[]"])
    show "stage (add_mset (a, cells ((address x # map address xs) @ [PNull])) (texts xs + {#text_cell x, text_cell d#})) L R W s"
      using s by (simp add: M')
  qed (auto intro: str)
qed

lemma wp_run_fork:
  assumes c: "good_config c" and M: "run_blocks l M" 
    and s: "stage M L R (seen s0 (\<lambda>h. unborn h \<and> captured_in (rn_stdout l) (rn_stderr l) h) (run_files l)) s"
  shows "wp start_ends (run_fork c l) (run_done L R s0) s"
proof -
  let ?P = "\<lambda>h. unborn h \<and> captured_in (rn_stdout l) (rn_stderr l) h"
  let ?W = "seen s0 ?P (run_files l)"
  have phase: "phase (seen s0 ?P)"
    by (rule phase_seen [OF growing_both [OF growing_unborn lasting_captured_in]])
  note W = phase_tolerant [OF phase] and B = start_ends_simps(1)
  have give_up: "wp start_ends (andthen (run_release_all l') (nq_process_io_err c e (PLit body 0))) (run_done L R s0) s'"
    if l': "l' = l\<lparr>rn_stdout_fd := fd, rn_stderr_fd := fd'\<rparr>" and s': "stage M L R ?W s'" and plain: "CHR 0x00 \<notin> set body"
    for l' fd fd' e body s'
    unfolding wp_andthen
  proof (rule wp_run_release_all [where W = "seen s0 ?P" and E = start_ends and M = M and L = L and R = R, OF _ _ phase B], goal_cases)
    case (3 s'')
    then show ?case by (rule wp_stage_io_err [OF c _ plain]) (erule run_done_seen, simp add: unborn_no_orphan)
  qed (use M s' l' in simp_all)
  show ?thesis
    unfolding run_fork_def wp_bind wp_get_errno Let_def
  proof (rule wp_stage_setup_fd [where E = start_ends, OF s W B], erule wp_stage_setup_fd [where E = start_ends, OF _ W B],
      erule wp_run_pipe [where E = start_ends, OF _ W B], unfold prod.case wp_bind,
      erule wp_run_pipe_fds [where E = start_ends, OF _ W B, unfolded Let_def], unfold prod.case, goal_cases)
    case (1 fd s1 fd' s2 e p0 p1 s3 e' p0' p1' s4)
    let ?l = "l\<lparr>rn_stdout_fd := fd, rn_stderr_fd := fd'\<rparr>"
    have M': "run_blocks ?l M" using M by simp
    show ?case
    proof (cases "e' \<noteq> 0")
      case True
      show ?thesis
        unfolding if_P [OF True] wp_andthen [of _ "close_if_open _"]
        by (rule wp_close_if_open [where E = start_ends, OF 1 W B], erule wp_close_if_open [where E = start_ends, OF _ W B],
            rule give_up [OF refl]) simp_all
    next
      case no: False
      show ?thesis
        unfolding if_not_P [OF no] wp_bind
      proof (rule wp_run_fork_call [where E = start_ends, OF 1 lasting_captured_in B], goal_cases)
        case (2 r s5)
        have "wp start_ends (run_parent c ?l (r_ret r) p0' p1') (run_done L R s0) s5"
          by (rule wp_run_parent [OF c M']) (use 2(1) in simp)
        with 2(2) show ?case by simp
      next
        case (1 r s5)
        show ?case
        proof (cases "r_ret r < 0")
          case True
          show ?thesis
            unfolding if_P [OF True] wp_bind wp_get_errno wp_andthen [of _ "ignore _"]
            by (rule wp_stage_close [where E = start_ends, OF 1(1) W B], erule wp_stage_close [where E = start_ends, OF _ W B],
                rule give_up [OF refl]) simp_all
        next
          case False
          have "wp child_ends (run_child ?l p0' p1') (run_done L R s0) s5"
            using wp_run_child run_blocks_child [OF M' 1(1)] by blast
          then have "wp start_ends (run_child ?l p0' p1') (run_done L R s0) s5"
            by (rule wp_weaken) (simp add: start_ends_def)
          then show ?thesis using 1(2) False by simp
        qed
      qed
    qed
  qed
qed


section \<open>The temporary files and the argument vector\<close>

lemma wp_drop_file:
  assumes s: "stage M L R (W N) s" and W: "phase W" and E: "E Blocked"
    and post: "\<And>s'. stage M L R (W (if fd \<ge> 0 then N - {Temp name} else N)) s' \<Longrightarrow> Q () s'"
  shows "wp E (if fd \<ge> 0 then andthen (ignore (c_close fd)) (c_unlink name) else ret ()) Q s"
proof (cases "fd \<ge> 0")
  case True
  show ?thesis
    unfolding if_P [OF True] wp_andthen
    by (rule wp_stage_close [where E = E, OF s phase_tolerant [OF W] E],
        erule wp_stage_unlink [where W = W and E = E, OF _ W E]) (simp add: post True)
qed (use s in \<open>simp add: wp_ret post\<close>)

definition ready :: "run \<Rightarrow> history \<Rightarrow> bool" where
  "ready l h \<longleftrightarrow> unborn h \<and> captured_in (rn_stdout l) (rn_stderr l) h"

lemma ready_eq: "ready l = (\<lambda>h. unborn h \<and> captured_in (rn_stdout l) (rn_stderr l) h)"
  by (simp add: ready_def fun_eq_iff)

lemma ready_argv [simp]: "ready (l\<lparr>rn_argv := p\<rparr>) = ready l"
  by (simp add: ready_def fun_eq_iff)

lemma phase_ready: "phase (seen s0 (ready l))"
  unfolding ready_def by (rule phase_seen [OF growing_both [OF growing_unborn lasting_captured_in]])

lemma wp_run_vector:
  assumes c: "good_config c" and l: "rn_program l = address x" "rn_cwd l = address d" "rn_count l = length va"
    and args: "lent_list args va L R" and s: "stage {#text_cell x, text_cell d#} L R (seen s0 (ready l) (run_files l)) s"
    and give_up: "\<And>st s'. stage {#text_cell x, text_cell d#} L R (seen s0 (ready l) (run_files l)) s' \<Longrightarrow>
        wp start_ends (give_up st) (run_done L R s0) s'"
  shows "wp start_ends (bind (nq_try_realloc c KPtrs PNull ((length va + 2) * sizeof_ptr)) (\<lambda>r. case r of
          Inl st \<Rightarrow> give_up st
        | Inr argv \<Rightarrow>
          andthen (store_cell argv 0 (address x))
          (bind (copy_strs c (l_data args) 0 argv 1 (nat (l_len args))) (\<lambda>(made, failed). case failed of
             Some st \<Rightarrow>
               andthen (free_cells_back argv made) (andthen (c_free argv) (give_up st))
           | None \<Rightarrow>
               andthen (store_cell argv (nat (l_len args) + 1) PNull) (run_fork c (l\<lparr>rn_argv := argv\<rparr>)))))) (run_done L R s0) s"
  unfolding wp_bind
proof (rule wp_stage_malloc [OF s], simp add: sizeof_ptr_def, goal_cases)
  case (2 st s1)
  then show ?case using give_up by simp
next
  case (1 b s1)
  let ?n = "length va" and ?M = "{#text_cell x, text_cell d#}" and ?W = "seen s0 (ready l) (run_files l)"
  have fresh: "fresh_cells KPtrs ((?n + 2) * sizeof_ptr) = BPtrs (replicate (?n + 2) None)"
    by (simp add: sizeof_ptr_def)
  have set: "(replicate (?n + 2) None)[0 := Some (address x)] = map Some [address x] @ replicate (?n + 1) None"
    by simp
  show ?case
    unfolding sum.case wp_andthen wp_bind
  proof (rule wp_stage_store_cell [OF 1(1) [unfolded fresh]], simp, unfold set,
      rule wp_copy_list [OF args, where front = "[address x]" and m = "?n + 1" and M = ?M and W = ?W and u = None], goal_cases)
    case (4 s2 xs failure s3)
    show ?case
    proof (cases failure)
      case (Some st)
      let ?cs = "map Some ([address x] @ map address xs) @ replicate (?n + 1 - length xs) None"
      show ?thesis
        unfolding Some prod.case option.case wp_andthen
      proof (rule wp_free_cells_back [where cs = ?cs, OF 4(3)])
        show "?cs ! Suc i = Some (address (xs ! i))" if "i < length xs" for i using that by (simp add: nth_append)
      qed (use 4(5) in simp, simp, erule wp_stage_free, rule give_up)
    next
      case None
      then have xs: "length xs = ?n" using 4(6) by simp
      let ?cs = "map Some ([address x] @ map address xs) @ [None]" and ?l = "l\<lparr>rn_argv := PHeap b 0\<rparr>"
      have last: "?cs[?n + 1 := Some PNull] = map Some (rn_program ?l # map address xs @ [PNull])"
        using list_update_length [of "map Some ([address x] @ map address xs)" None "[]" "Some PNull"] l(1) by (simp add: xs)
      have room: "stage (add_mset (b, BPtrs ?cs) (texts xs + ?M)) L R ?W s3" using 4(3) by (simp add: xs)
      show ?thesis
        unfolding None prod.case option.case wp_andthen lent_list_len [OF args]
      proof (rule wp_stage_store_cell [OF room], simp add: xs, unfold last, rule wp_run_fork [where
          M = "add_mset (b, cells (rn_program ?l # map address xs @ [PNull])) (texts xs + ?M)", OF c], goal_cases)
        case 1
        have "run_names ?l ?M" unfolding run_names_def using l by (intro exI [of _ x] exI [of _ d]) simp
        then show ?case
          unfolding run_blocks_def by (intro exI [of _ b] exI [of _ xs] exI [of _ ?M]) (simp add: xs l(3))
      qed (simp add: ready_eq)
    qed
  qed simp_all
qed

lemma unborn_mkstemp: "unborn h \<Longrightarrow> unborn (h @ [(Mkstemp template, r)])"
  by (auto simp: unborn_def)

lemma made_file_later: "made_file template name h \<Longrightarrow> made_file template name (h @ h')"
  by (auto simp: made_file_def)

lemma wp_run_prepare:
  assumes c: "good_config c" and args: "lent_list args va L R"
    and s: "stage {#text_cell x, text_cell d#} L R (seen s0 unborn {}) s"
  shows "wp start_ends (run_prepare c (address x) (address d) args ((length va + 2) * sizeof_ptr)) (run_done L R s0) s"
proof -
  let ?M = "{#text_cell x, text_cell d#}"
  note W = phase_seen [OF growing_unborn] and B = start_ends_simps(1)
  have both: "wp start_ends (andthen (c_free (address x)) (andthen (c_free (address d))
       (nq_process_io_err c e (PLit ''failed to allocate temporary output files'' 0)))) (run_done L R s0) s'"
    if "stage ?M L R (seen s0 unborn {}) s'" for e s'
    unfolding wp_andthen address_def
    by (rule wp_stage_free [OF that [unfolded text_cell_def]], erule wp_stage_free, erule wp_stage_io_err [OF c], simp)
      (erule run_done_seen, rule unborn_no_orphan)
  have failed: "wp start_ends (andthen (if fd \<ge> 0 then andthen (ignore (c_close fd)) (c_unlink out) else ret ())
          (andthen (if fd' \<ge> 0 then andthen (ignore (c_close fd')) (c_unlink err) else ret ())
          (andthen (c_free (address x)) (andthen (c_free (address d))
          (nq_process_io_err c e (PLit ''failed to allocate temporary output files'' 0)))))) (run_done L R s0) s'"
    if s': "stage ?M L R (seen s0 unborn N) s'"
      and N: "N \<subseteq> {x. fd \<ge> 0 \<and> x = Temp out} \<union> {x. fd' \<ge> 0 \<and> x = Temp err}" for fd fd' out err N e s'
    unfolding wp_andthen [of _ "if _ then _ else _"]
  proof (rule wp_drop_file [where W = "seen s0 unborn" and E = start_ends, OF s' W B],
      rule wp_drop_file [where W = "seen s0 unborn" and E = start_ends, OF _ W B], assumption, goal_cases)
    case (1 s1 s2)
    have "(if fd' \<ge> 0 then (if fd \<ge> 0 then N - {Temp out} else N) - {Temp err} else (if fd \<ge> 0 then N - {Temp out} else N)) = {}"
      using N by auto
    with 1(2) show ?case by (intro both) simp
  qed
  show ?thesis
    unfolding run_prepare_def wp_bind wp_get_errno
  proof (rule wp_mkstemp_local [where E = start_ends, OF s B unborn_mkstemp], assumption, unfold prod.case wp_bind wp_get_errno Let_def,
      erule wp_mkstemp_local [where E = start_ends, OF _ B], simp add: unborn_mkstemp made_file_later,
      unfold prod.case wp_bind wp_get_errno Let_def, goal_cases)
    case (1 fd out s1 fd' err s2)
    show ?case
    proof (cases "fd < 0 \<or> fd' < 0")
      case True
      show ?thesis unfolding if_P [OF True] by (rule failed [OF stage_seen_weaken [OF 1 _ subset_refl]]) auto
    next
      case False
      let ?l = "\<lparr>rn_program = address x, rn_cwd = address d, rn_stdout = out, rn_stderr = err,
              rn_stdout_fd = fd, rn_stderr_fd = fd', rn_argv = PNull, rn_count = nat (l_len args)\<rparr>"
      have files: "stage ?M L R (seen s0 (ready ?l) (run_files ?l)) s2"
        by (rule stage_seen_weaken [OF 1]) (use False in \<open>auto simp: ready_def captured_in_def\<close>)
      note W = phase_tolerant [OF phase_ready]
      show ?thesis
        unfolding if_not_P [OF False]
      proof (rule wp_run_vector [where l = ?l and x = x and d = d, OF c _ _ _ args files], goal_cases)
        case (4 st s3)
        show ?case
          unfolding wp_andthen
        proof (rule wp_stage_close [where E = start_ends, OF 4 W B], erule wp_stage_close [where E = start_ends, OF _ W B],
            rule wp_run_release_names [where W = "seen s0 (ready ?l)" and E = start_ends and M = ?M and L = L and R = R, OF _ _ phase_ready B], goal_cases)
          case (1 s4 s5) show ?case unfolding run_names_def by (intro exI [of _ x] exI [of _ d]) simp
        next
          case (3 s4 s5 s6)
          then show ?case
            by (intro wp_stage_too_big [OF c]) (assumption, erule run_done_seen, simp add: ready_def unborn_no_orphan)
        qed assumption
      qed (simp_all add: lent_list_len [OF args])
    qed
  qed
qed

section \<open>The request\<close>

text \<open>The copies of the two names, the check of the arguments, and what comes then.\<close>

lemma wp_run_copies:
  assumes c: "good_config c" and start: "stage {#} L R W s" and program: "(program, vp) \<in># L"
    and cwd: "(cwd, vd) \<in># L" and list: "lent_list args va L R"
    and refused: "\<And>sz s'. stage {#} L R W s' \<Longrightarrow> wp E (refuse sz) Q s'"
    and failed: "\<And>e w s'. stage {#} (with_err e w L) R W s' \<Longrightarrow> Q (Err e) s'"
    and prepared: "\<And>x d s'. stage {#text_cell (x, vp), text_cell (d, vd)#} L R W s' \<Longrightarrow> list_all plain_text (vp # vd # va) \<Longrightarrow>
        wp E (prepare (address (x, vp)) (address (d, vd)) args size) Q s'"
  shows "wp E (bind (nq_os_string c program (Some ''run_process'') (Some program) None) (\<lambda>r. case r of
                 Inl err \<Rightarrow> ret (nq_process_err err)
               | Inr program_cstr \<Rightarrow>
                 bind (nq_os_string c cwd (Some ''run_process'') (Some cwd) None) (\<lambda>r. case r of
                   Inl err \<Rightarrow> andthen (c_free program_cstr) (ret (nq_process_err err))
                 | Inr cwd_cstr \<Rightarrow>
                   bind (run_validate c (l_data args) 0 (nat (l_len args))) (\<lambda>defect. case defect of
                     Some sz \<Rightarrow> andthen (c_free program_cstr) (andthen (c_free cwd_cstr) (refuse sz))
                   | None \<Rightarrow> prepare program_cstr cwd_cstr args size)))) Q s"
  unfolding wp_bind [of _ "nq_os_string _ program _ _ _"]
proof (rule wp_stage_os_string [OF c start program], goal_cases)
  case (2 e w s1)
  then show ?case by (simp add: wp_ret nq_process_err_def failed)
next
  case (1 x s1)
  note px = 1
  show ?case
    unfolding sum.case wp_bind [of _ "nq_os_string _ cwd _ _ _"]
  proof (rule wp_stage_os_string [OF c px(2) cwd], goal_cases)
    case (2 e w s2)
    show ?case
      unfolding sum.case wp_andthen address_def wp_ret nq_process_err_def
      by (rule wp_stage_free [OF 2 [unfolded text_cell_def]]) (rule failed)
  next
    case (1 d s2)
    have held: "stage {#text_cell (x, vp), text_cell (d, vd)#} L R W s2"
      using 1(2) by (simp add: add_mset_commute)
    show ?case
      unfolding sum.case wp_bind [of _ "run_validate _ _ _ _"]
    proof (rule wp_validate_list [OF list held], goal_cases)
      case (1 defect)
      show ?case
      proof (cases defect)
        case None
        have "plain_text vp" "plain_text vd" using px(1) \<open>CHR 0x00 \<notin> set vd\<close> by (simp_all add: plain_text_def)
        then show ?thesis
          unfolding None option.case by (intro prepared held) (use 1 [OF None] in simp)
      next
        case (Some sz)
        show ?thesis
          unfolding Some option.case wp_andthen address_def
          by (rule wp_stage_free [OF held [unfolded text_cell_def]], erule wp_stage_free) (rule refused)
      qed
    qed
  qed
qed

lemma wp_run_request:
  assumes c: "good_config c" and start: "stage {#} L R W s" and program: "(program, vp) \<in># L" and cwd: "(cwd, vd) \<in># L"
    and list: "\<forall>l. args = Some l \<longrightarrow> lent_list l va L R"
    and failed: "\<And>e w s'. stage {#} (with_err e w L) R W s' \<Longrightarrow> Q (Err e) s'"
    and prepared: "\<And>l x d s'. lent_list l va L R \<Longrightarrow> stage {#text_cell (x, vp), text_cell (d, vd)#} L R W s' \<Longrightarrow>
        list_all plain_text (vp # vd # va) \<Longrightarrow> wp E (prepare (address (x, vp)) (address (d, vd)) l ((length va + 2) * sizeof_ptr)) Q s'"
  shows "wp E (run_request prepare c program args cwd) Q s"
proof -
  have big: "wp E (bind (nq_allocation_io_err c (Some ''run_process'') st) (\<lambda>err. ret (nq_process_err err))) Q s'"
    if "stage {#} L R W s'" for st s'
    by (rule wp_stage_too_big [OF c that]) (rule failed)
  have invalid: "wp E (bind (nq_invalid_input_io_err c (Some ''run_process'') (Some program) None detail)
      (\<lambda>err. ret (nq_process_err err))) Q s'" if "stage {#} L R W s'" "CHR 0x00 \<notin> set detail" for detail s'
    by (rule wp_stage_invalid [OF c that(1) program that(2)]) (rule failed)
  show ?thesis
  proof (cases args)
    case None
    show ?thesis unfolding None run_request_def Let_def option.case by (rule invalid [OF start]) simp
  next
    case (Some l)
    then have l: "lent_list l va L R" using list by simp
    show ?thesis
      unfolding Some run_request_def Let_def option.case wp_bind [of _ "nq_list_capacity _ _ _ _ _"]
    proof (rule wp_nq_list_capacity, simp add: sizeof_str_def, goal_cases)
      case 2
      show ?case unfolding sum.case by (rule big [OF start])
    next
      case (1 cap)
      let ?size = "(length va + 2) * sizeof_ptr"
      have n: "length va + 2 \<le> SIZE_MAX"
        using 1(6) list_limit_le [of c sizeof_str] l by (simp add: lent_list_def SIZE_MAX_def)
      have size: "Option.bind (nq_size_add (to_size (l_len l)) 2 (nq_allocation_limit c)) (\<lambda>n. nq_size_mul c n sizeof_ptr) =
          (if ?size \<le> nq_allocation_limit c then Some ?size else None)"
        using l n by (simp add: lent_list_def to_size_of_nat nq_size_add_eq allocation_limit_le nq_size_mul_eq sizeof_ptr_def)
      have valid: "\<not> (l_len l < 0 \<or> l_len l > 0 \<and> l_data l = PNull)"
        using l by (auto simp: lent_list_def)
      show ?case
      proof (cases "?size \<le> nq_allocation_limit c")
        case False
        show ?thesis unfolding sum.case if_not_P [OF valid] size if_not_P [OF False] option.case by (rule big [OF start])
      next
        case True
        show ?thesis
          unfolding sum.case if_not_P [OF valid] size if_P [OF True] option.case
        proof (rule wp_run_copies [OF c start program cwd l], goal_cases)
          case (3 x d s')
          then show ?case by (intro prepared [OF l])
        qed (auto intro: big invalid failed)
      qed
    qed
  qed
qed

lemma wp_nq_run_process:
  assumes c: "good_config c" and owns: "owns L R s" and program: "(program, vp) \<in># L" and cwd: "(cwd, vd) \<in># L"
    and list: "\<forall>l. args = Some l \<longrightarrow> lent_list l va L R"
  shows "wp start_ends (nq_run_process c program args cwd)
    (\<lambda>res s'. run_done L R s res s' \<and> (\<forall>p. res = Ok p \<longrightarrow> list_all plain_text (vp # vd # va))) s"
  unfolding nq_run_process_def
proof (rule wp_run_request [where W = "seen s unborn {}", OF c _ program cwd list], goal_cases)
  case 1
  show ?case unfolding seen_def by (rule stage_start [OF owns]) (simp add: unborn_def)
next
  case (2 e w s')
  then show ?case by (auto intro: run_done_seen unborn_no_orphan)
next
  case (3 l x d s')
  show ?case by (rule wp_mono [OF wp_run_prepare [OF c 3(1,2)]]) (use 3(3) in auto)
qed

section \<open>Properties\<close>

text \<open>
  What the system has seen: a history that satisfies \<open>F\<close>, then calls that make no process and name
  none (the outputs are read, the files removed); whatever was made has been given back.
\<close>

definition clean_run :: "nqstate \<Rightarrow> (history \<Rightarrow> bool) \<Rightarrow> nqstate \<Rightarrow> bool" where
  "clean_run s F s' \<longleftrightarrow> (\<exists>h made rest. script s = map snd h @ rest \<and> trace s' = trace s @ map fst h @ made \<and> F h \<and>
     (\<forall>ev \<in> set made. \<not> reserved ev) \<and> left_behind h \<subseteq> \<Union> (releases ` set made))"

lemma late_clean: "late s F {} (world s') \<Longrightarrow> clean_run s F s'"
  unfolding late_def clean_run_def world_def by auto

lemma outputs_mono:
  "outputs remove s0 P out err w \<Longrightarrow> (\<And>h. P h \<Longrightarrow> P' h) \<Longrightarrow> outputs remove s0 P' out err w"
  unfolding outputs_def by blast

lemma outputs_clean:
  assumes "outputs remove s P out err (progress s')" and "\<And>h. P h \<Longrightarrow> F h \<and> left_behind h \<subseteq> {Temp (fst out), Temp (fst err)}"
    and remove: "\<And>name. quiet (remove name) \<and> releases (remove name) = {Temp name}"
  shows "clean_run s F s'"
proof -
  obtain h rs w1 w2 where h: "script s = map snd h @ rs" "P h"
     "read_back (fst out) (snd out) (rs, trace s @ map fst h) w1" "read_back (fst err) (snd err) w1 w2"
     "removed [remove (fst out), remove (fst err)] w2 (progress s')"
    using assms(1) unfolding outputs_def by blast
  obtain made1 made2 where made: "snd w1 = trace s @ map fst h @ made1" "snd w2 = snd w1 @ made2"
     "\<forall>ev \<in> set made1. quiet ev" "\<forall>ev \<in> set made2. quiet ev"
    using read_back_quiet [OF h(3)] read_back_quiet [OF h(4)] by auto
  then have "trace s' = trace s @ map fst h @ made1 @ made2 @ [remove (fst out), remove (fst err)]"
    using h(5) by (auto simp: removed_def progress_def)
  then show ?thesis
    unfolding clean_run_def using h(1,2) assms(2) [OF h(2)] made(3,4) remove
    by (intro exI [of _ h] exI [of _ "made1 @ made2 @ [remove (fst out), remove (fst err)]"] exI [of _ rs]) auto
qed

text \<open>
  C15: Running a program to its end leaves nothing behind. On every path of \<open>nq_run_process\<close>, whatever
  allocation or call fails: the caller owns the two outputs or the error and nothing else, every
  copied string and the argument vector are freed once, every temporary file that was made is
  removed after it was made, and no child is left: none was forked, or it was signalled and waited
  for only while it was there and is gone. Success moreover means that a child was forked and is
  gone, and that program, directory and arguments are free of NUL. A child that cannot be waited for
  ends the process with status 1; the child itself ends by \<open>exec\<close> or \<open>_exit(127)\<close>.
\<close>

theorem run_process_leaves_nothing_behind:
  assumes "good_config c" and "owns L R s" and "(program, vp) \<in># L" and "(cwd, vd) \<in># L"
    and "\<forall>l. args = Some l \<longrightarrow> lent_list l va L R"
  shows "wp start_ends (nq_run_process c program args cwd)
    (\<lambda>res s'. case res of
       Ok p \<Rightarrow> list_all plain_text (vp # vd # va) \<and> clean_run s outlived s' \<and>
         (\<exists>v w. owns (add_mset (pr_stdout p, v) (add_mset (pr_stderr p, w) L)) R s')
     | Err e \<Rightarrow> clean_run s no_orphan s' \<and> (\<exists>w. owns (with_err e w L) R s')) s"
proof (rule wp_mono [OF wp_nq_run_process [OF assms]], goal_cases)
  case (1 res s')
  show ?case
  proof (cases res)
    case (Err e)
    with 1 show ?thesis by (auto simp: run_done_def stage_lone late_clean)
  next
    case (Ok p)
    with 1 obtain v w out err status where run: "owns (add_mset (pr_stdout p, v) (add_mset (pr_stderr p, w) L)) R s'"
        "outputs Unlink s (run_history s status out err) (out, v) (err, w) (progress s')"
      by (auto simp: run_done_def)
    have "clean_run s outlived s'"
      by (rule outputs_clean [OF run(2)]) (simp_all add: run_history_def)
    with run(1) 1 Ok show ?thesis by auto
  qed
qed

definition example_run :: "reply list" where
  "example_run = map (\<lambda>(n, xs, ys). \<lparr>r_ret = n, r_errno = 0, r_bytes = ys, r_ints = xs\<rparr>)
     [(5, [], ''abcdef''), (6, [], ''ghijkl''), (0, [], []), (0, [], []), (0, [7, 8], []), (0, [], []), (0, [], []),
      (9, [], []), (0, [], []), (0, [], []), (0, [], []), (0, [], []), (0, [], []), (9, [0], []),
      (10, [], []), (3, [], ''ok!''), (0, [], []), (0, [], []), (11, [], []), (0, [], []), (0, [], []), (0, [], []),
      (0, [], []), (0, [], [])]"

theorem run_process_leaves_nothing_behind_witness:
  "wp start_ends (nq_run_process plain_config (static_str ''/bin/true'') (Some nq_list__str_make) (static_str ''/''))
     (\<lambda>res s'. \<forall>p. res = Ok p \<longrightarrow> Fork \<in> set (trace s')) (boot [] example_run)"
proof -
  let ?L = "{#(static_str ''/'', ''/''), (static_str ''/bin/true'', ''/bin/true'')#}"
  have owns: "owns ?L Map.empty (boot [] example_run)" by (intro owns_add_static_str owns_boot)
  have list: "lent_list nq_list__str_make [] ?L Map.empty" by (simp add: lent_list_def nq_list__str_make_def)
  show ?thesis
    by (rule wp_mono [OF run_process_leaves_nothing_behind [where va = "[]" and vp = "''/bin/true''" and vd = "''/''",
          OF good_plain_config owns]])
      (use list in \<open>auto simp: clean_run_def outlived_def forked_def\<close>)
qed

text \<open>
  C16: A run that succeeds delivers what the child left. The two files were made by this call, under
  the names that the system gave them; the child was forked and waited for; after that, and not
  before, the file for its output and then the file for its error output were opened, read to their
  end without an error and closed, and the two strings the caller gets are the bytes they delivered;
  then both files were removed, and nothing else was called. The exit code is that of the status in the
  reply that reaped the child: its own code, or 128 and the signal that ended it.
\<close>

theorem run_process_delivers_output:
  assumes "good_config c" and "owns L R s" and "(program, vp) \<in># L" and "(cwd, vd) \<in># L"
    and "\<forall>l. args = Some l \<longrightarrow> lent_list l va L R" and "explains s"
  shows "wp start_ends (nq_run_process c program args cwd)
    (\<lambda>res s'. \<forall>p. res = Ok p \<longrightarrow> (\<exists>v w out err status.
       owns (add_mset (pr_stdout p, v) (add_mset (pr_stderr p, w) L)) R s' \<and>
       pr_exit_code p = run_exit_code status \<and>
       outputs Unlink s (\<lambda>h. outlived h \<and> ended status h \<and> captured_in out err h) (out, v) (err, w) (progress s'))) s"
proof (rule wp_mono [OF wp_nq_run_process [OF assms(1-5)]], intro allI impI, goal_cases)
  case (1 res s' p)
  then obtain v w out err status where run: "owns (add_mset (pr_stdout p, v) (add_mset (pr_stderr p, w) L)) R s'"
      "pr_exit_code p = run_exit_code status"
      "outputs Unlink s (run_history s status out err) (out, v) (err, w) (progress s')"
    by (auto simp: run_done_def)
  have "outputs Unlink s (\<lambda>h. outlived h \<and> ended status h \<and> captured_in out err h) (out, v) (err, w) (progress s')"
    by (rule outputs_mono [OF run(3)]) (use assms(6) in \<open>simp add: run_history_def\<close>)
  with run(1,2) show ?case by blast
qed

theorem run_process_delivers_output_witness:
  "wp start_ends (nq_run_process plain_config (static_str ''/bin/true'') (Some nq_list__str_make) (static_str ''/''))
     (\<lambda>res s'. \<forall>p. res = Ok p \<longrightarrow> pr_exit_code p = 0) (boot [] example_run)"
proof -
  let ?L = "{#(static_str ''/'', ''/''), (static_str ''/bin/true'', ''/bin/true'')#}" and ?s = "boot [] example_run"
  have owns: "owns ?L Map.empty ?s" by (intro owns_add_static_str owns_boot)
  have list: "lent_list nq_list__str_make [] ?L Map.empty" by (simp add: lent_list_def nq_list__str_make_def)
  have kernel: "explains ?s" by (simp add: explains_def boot_def example_run_def)
  have "status = 0" if out: "outputs Unlink ?s (\<lambda>h. outlived h \<and> ended status h \<and> captured_in out err h) v w p" for status out err v w p
  proof -
    obtain h rs where h: "example_run = map snd h @ rs" "ended status h"
      using out unfolding outputs_def by (auto simp: boot_def)
    then obtain pid later r where r: "forked pid later h" "(Waitpid pid, r) \<in> set later" "r_ret r = pid" "status = to_i32 (reply_int r 0)"
      unfolding ended_def by blast
    then have "(Waitpid pid, r) \<in> set h" "0 < r_ret r" by (auto simp: forked_def)
    then have "r \<in> set example_run" "0 < r_ret r" by (force simp: h(1))+
    then show ?thesis by (auto simp: r(4) example_run_def reply_int_def to_i32_def)
  qed
  moreover have "run_exit_code 0 = 0" by (simp add: run_exit_code_def WIFEXITED_def WEXITSTATUS_def WTERMSIG_def)
  ultimately show ?thesis
    by (intro wp_mono [OF run_process_delivers_output [where va = "[]" and vp = "''/bin/true''" and vd = "''/''",
          OF good_plain_config owns _ _ _ kernel]]) (use list in simp_all, metis)
qed

end
