(* ===== verification/Command_Line.thy ===== *)
theory Command_Line
  imports Running Windows
begin

text \<open>
  The command line of a Windows child: what \<open>nq_join_windows_command\<close> writes, the documented rules
  by which a program splits it, and that the one undoes the other.
\<close>

section \<open>The texts\<close>

fun quote_body :: "nat \<Rightarrow> string \<Rightarrow> string" where
  "quote_body n [] = replicate (2 * n) backslash"
| "quote_body n (ch # rest) =
     (if ch = backslash then quote_body (n + 1) rest
      else if ch = quote then replicate (2 * n + 1) backslash @ quote # quote_body 0 rest
      else replicate n backslash @ ch # quote_body 0 rest)"

definition quote_text :: "string \<Rightarrow> string" where
  "quote_text arg = (if needs_quotes arg then quote # quote_body 0 arg @ [quote] else arg)"

definition command_text :: "string \<Rightarrow> string list \<Rightarrow> string" where
  "command_text program args = quote_text program @ concat (map (\<lambda>arg. CHR '' '' # quote_text arg) args)"

lemma length_quote_body: "length (quote_body n arg) \<le> 2 * n + 2 * length arg"
proof (induction n arg rule: quote_body.induct)
  case (2 n ch rest)
  then show ?case by (cases "ch = backslash"; cases "ch = quote") auto
qed simp

lemma set_quote_body: "set (quote_body n arg) \<subseteq> {backslash, quote} \<union> set arg"
  by (induction n arg rule: quote_body.induct) (auto split: if_splits)

lemma quote_text_plain: "plain_text arg \<Longrightarrow> plain_text (quote_text arg)"
  using set_quote_body [of 0 arg] by (auto simp: plain_text_def quote_text_def)

section \<open>The rules a command line is split by\<close>

text \<open>
  The documented rules for the arguments of a program: an argument ends at a space or a tab
  outside quotes; \<open>2n\<close> backslashes before a quotation mark are \<open>n\<close> of them and the mark opens or
  closes quotes, \<open>2n + 1\<close> are \<open>n\<close> of them and the mark itself; any other backslash is itself. Where a
  mark is doubled inside quotes the libraries differ: with \<open>doubled\<close> it is a mark and the quotes
  go on. The name of the program has no escapes. \<open>split_arg\<close> gives the argument and the rest.
\<close>

abbreviation blank :: "char \<Rightarrow> bool" where "blank ch \<equiv> ch = CHR '' '' \<or> ch = tab"

fun split_arg :: "bool \<Rightarrow> bool \<Rightarrow> nat \<Rightarrow> string \<Rightarrow> string \<times> string" where
  "split_arg doubled quoted n [] = (replicate n backslash, [])"
| "split_arg doubled quoted n (ch # rest) =
     (if ch = backslash then split_arg doubled quoted (n + 1) rest
      else if ch = quote
      then if odd n then apfst (\<lambda>arg. replicate (n div 2) backslash @ quote # arg) (split_arg doubled quoted 0 rest)
        else if doubled \<and> quoted \<and> rest \<noteq> [] \<and> hd rest = quote
        then apfst (\<lambda>arg. replicate (n div 2) backslash @ quote # arg) (split_arg doubled quoted 0 (tl rest))
        else apfst (\<lambda>arg. replicate (n div 2) backslash @ arg) (split_arg doubled (\<not> quoted) 0 rest)
      else if \<not> quoted \<and> blank ch then (replicate n backslash, ch # rest)
      else apfst (\<lambda>arg. replicate n backslash @ ch # arg) (split_arg doubled quoted 0 rest))"

fun split_program :: "bool \<Rightarrow> string \<Rightarrow> string \<times> string" where
  "split_program quoted [] = ([], [])"
| "split_program quoted (ch # rest) =
     (if ch = quote then split_program (\<not> quoted) rest
      else if \<not> quoted \<and> blank ch then ([], ch # rest)
      else apfst (\<lambda>arg. ch # arg) (split_program quoted rest))"

lemma split_arg_shorter: "length (snd (split_arg doubled quoted n line)) \<le> length line"
proof (induction doubled quoted n line rule: split_arg.induct)
  case (2 doubled quoted n ch rest)
  then show ?case
    by (auto simp: le_Suc_eq intro: le_trans [OF _ diff_le_self] split: if_splits)
qed simp

lemma split_arg_consumes:
  assumes "\<not> blank ch"
  shows "length (snd (split_arg doubled quoted n (ch # line))) < Suc (length line)"
proof -
  have "length (snd (split_arg doubled quoted n (tl line))) \<le> length line" for doubled quoted n
    using split_arg_shorter [of doubled quoted n "tl line"] by (cases line) simp_all
  then show ?thesis using assms split_arg_shorter [of _ _ _ line] by (simp add: less_Suc_eq_le)
qed

function split_args :: "bool \<Rightarrow> string \<Rightarrow> string list" where
  "split_args doubled line =
     (case dropWhile blank line of
        [] \<Rightarrow> []
      | ch # rest \<Rightarrow>
          fst (split_arg doubled False 0 (ch # rest)) # split_args doubled (snd (split_arg doubled False 0 (ch # rest))))"
  by pat_completeness auto

termination
proof (relation "measure (length \<circ> snd)", simp, goal_cases)
  case (1 doubled line ch rest)
  have "\<not> blank ch" using hd_dropWhile [of blank line] by (simp add: 1)
  note split_arg_consumes [OF this, of doubled False 0 rest]
  also have "Suc (length rest) \<le> length line" using length_dropWhile_le [of blank line] by (simp add: 1)
  finally show ?case by simp
qed

declare split_args.simps [simp del]

definition windows_argv :: "bool \<Rightarrow> string \<Rightarrow> string list" where
  "windows_argv doubled line = fst (split_program False line) # split_args doubled (snd (split_program False line))"

section \<open>Splitting what was quoted\<close>

lemma split_backslashes:
  "split_arg doubled quoted n (replicate m backslash @ line) = split_arg doubled quoted (n + m) line"
  by (induction m arbitrary: n) simp_all

text \<open>What follows an argument on a command line.\<close>

definition separated :: "string \<Rightarrow> bool" where
  "separated rest \<longleftrightarrow> rest = [] \<or> hd rest = CHR '' ''"

lemma split_separated: "separated rest \<Longrightarrow> split_arg doubled False n rest = (replicate n backslash, rest)"
  by (cases rest) (auto simp: separated_def)

lemma split_quote_body:
  assumes "separated rest"
  shows "split_arg doubled True 0 (quote_body n arg @ quote # rest) = (replicate n backslash @ arg, rest)"
proof (induction n arg rule: quote_body.induct)
  case (1 n)
  have "rest = [] \<or> hd rest \<noteq> quote" using assms by (auto simp: separated_def)
  with split_separated [OF assms] show ?case by (auto simp: split_backslashes)
next
  case (2 n ch arg)
  consider "ch = backslash" | "ch = quote" | "ch \<noteq> backslash" "ch \<noteq> quote" by blast
  then show ?case
  proof cases
    case 1
    have "replicate (n + 1) backslash @ arg = replicate n backslash @ ch # arg"
      by (simp add: 1 replicate_app_Cons_same)
    then show ?thesis using 2(1) [OF 1] 1 by simp
  next
    case q: 2
    with 2(2) show ?thesis by (simp add: split_backslashes)
  next
    case 3
    with 2(3) show ?thesis by (simp add: split_backslashes)
  qed
qed

lemma split_unquoted:
  assumes "separated rest" and "\<not> (\<exists>ch \<in> set arg. ch = CHR '' '' \<or> ch = tab \<or> ch = quote)"
  shows "split_arg doubled False n (arg @ rest) = (replicate n backslash @ arg, rest)"
  using assms(2)
proof (induction arg arbitrary: n)
  case (Cons ch arg)
  then show ?case by (cases "ch = backslash") (simp_all add: replicate_app_Cons_same)
qed (simp add: split_separated [OF assms(1)])

lemma split_quote_text:
  assumes "separated rest"
  shows "split_arg doubled False 0 (quote_text arg @ rest) = (arg, rest)"
proof (cases "needs_quotes arg")
  case True
  then show ?thesis using split_quote_body [OF assms, of doubled 0 arg] by (simp add: quote_text_def)
next
  case False
  then have "\<not> (\<exists>ch \<in> set arg. ch = CHR '' '' \<or> ch = tab \<or> ch = quote)" unfolding needs_quotes_def by blast
  from split_unquoted [OF assms this, of doubled 0] False show ?thesis by (simp add: quote_text_def)
qed

lemma quote_text_starts: "\<exists>ch rest. quote_text arg = ch # rest \<and> \<not> blank ch"
proof (cases "needs_quotes arg")
  case False
  then obtain ch rest where "arg = ch # rest" "\<not> blank ch" unfolding needs_quotes_def by (cases arg) auto
  with False show ?thesis by (simp add: quote_text_def)
qed (simp add: quote_text_def)

lemma separated_args: "separated (concat (map (\<lambda>arg. CHR '' '' # quote_text arg) args))"
  by (cases args) (simp_all add: separated_def)

lemma split_args_joined: "split_args doubled (concat (map (\<lambda>arg. CHR '' '' # quote_text arg) args)) = args"
proof (induction args)
  case (Cons arg args)
  let ?rest = "concat (map (\<lambda>arg. CHR '' '' # quote_text arg) args)"
  obtain ch more where first: "quote_text arg = ch # more" "\<not> blank ch" using quote_text_starts by blast
  then have "dropWhile blank (CHR '' '' # quote_text arg @ ?rest) = ch # more @ ?rest" by simp
  then show ?case
    using split_quote_text [OF separated_args, of doubled arg args] Cons.IH
    by (simp add: split_args.simps [of doubled "CHR '' '' # _"] first(1))
qed (simp add: split_args.simps)

text \<open>
  The program's name is quoted by the rules for arguments, but the rules it is read by have no escapes.
  It comes back exactly when it has no quotation mark, which no file name of Windows has, and,
  where it is put in quotes, does not end in a backslash. A name with a quotation mark is not
  rejected: the line then names another program, and may have more arguments.
\<close>

definition program_name :: "string \<Rightarrow> bool" where
  "program_name v \<longleftrightarrow> quote \<notin> set v \<and> (needs_quotes v \<longrightarrow> v = [] \<or> last v \<noteq> backslash)"

lemma quote_body_program:
  "quote \<notin> set v \<Longrightarrow> v \<noteq> [] \<Longrightarrow> last v \<noteq> backslash \<Longrightarrow> quote_body n v = replicate n backslash @ v"
proof (induction n v rule: quote_body.induct)
  case (2 n ch rest)
  show ?case
  proof (cases "rest = []")
    case False
    then show ?thesis using 2 by (cases "ch = backslash") (auto simp: replicate_app_Cons_same)
  qed (use 2 in auto)
qed simp

lemma split_program_quoted: "quote \<notin> set v \<Longrightarrow> split_program True (v @ quote # rest) = apfst (append v) (split_program False rest)"
  by (induction v) (auto simp: apfst_def map_prod_def split: prod.splits)

lemma split_program_plain:
  "quote \<notin> set v \<Longrightarrow> \<not> (\<exists>ch \<in> set v. blank ch) \<Longrightarrow> split_program False (v @ rest) = apfst (append v) (split_program False rest)"
  by (induction v) (auto simp: apfst_def map_prod_def split: prod.splits)

lemma split_program_text:
  assumes "program_name v" and "separated rest"
  shows "split_program False (quote_text v @ rest) = (v, rest)"
proof -
  have fin: "split_program False rest = ([], rest)" using assms(2) by (cases rest) (auto simp: separated_def)
  have q: "quote \<notin> set v" using assms(1) by (simp add: program_name_def)
  show ?thesis
  proof (cases "needs_quotes v")
    case True
    then have "quote_body 0 v = v" using assms(1) quote_body_program [of v 0] by (cases "v = []") (auto simp: program_name_def)
    with True show ?thesis using split_program_quoted [OF q, of rest] fin by (simp add: quote_text_def)
  next
    case False
    then have "\<not> (\<exists>ch \<in> set v. blank ch)" unfolding needs_quotes_def by blast
    from split_program_plain [OF q this, of rest] fin False show ?thesis by (simp add: quote_text_def)
  qed
qed

text \<open>The other names never come back: no mark survives the reading, and backslashes are doubled.\<close>

lemma split_program_no_quote: "quote \<notin> set (fst (split_program quoted line))"
  by (induction quoted line rule: split_program.induct) (auto simp: apfst_def map_prod_def split: prod.splits)

lemma quote_body_no_quote: "quote \<notin> set v \<Longrightarrow> quote \<notin> set (quote_body n v)"
  by (induction n v rule: quote_body.induct) auto

lemma quote_body_longer:
  "v \<noteq> [] \<Longrightarrow> last v = backslash \<Longrightarrow> n + length v < length (quote_body n v)"
proof (induction n v rule: quote_body.induct)
  case (2 n ch rest)
  then show ?case by (cases "rest = []"; cases "ch = backslash"; cases "ch = quote") auto
qed simp

lemma split_program_name:
  assumes "separated rest" and "fst (split_program False (quote_text v @ rest)) = v"
  shows "program_name v"
proof -
  have q: "quote \<notin> set v" using split_program_no_quote [of False "quote_text v @ rest"] assms(2) by simp
  have "last v \<noteq> backslash" if "needs_quotes v" "v \<noteq> []"
  proof
    assume "last v = backslash"
    then have "length v < length (quote_body 0 v)" using quote_body_longer [OF that(2), of 0] by simp
    moreover have "length (quote_body 0 v) \<le> length (fst (split_program False (quote_text v @ rest)))"
      using that(1) split_program_quoted [OF quote_body_no_quote [OF q, of 0], of rest] by (simp add: quote_text_def)
    ultimately show False using assms(2) by simp
  qed
  with q show ?thesis by (auto simp: program_name_def)
qed

lemma windows_argv_command:
  "windows_argv doubled (command_text program args) = program # args \<longleftrightarrow> program_name program"
  using split_program_name [OF separated_args, of program args]
  by (auto simp: windows_argv_def command_text_def split_program_text separated_args split_args_joined)

section \<open>Byte blocks that are held\<close>

lemma wp_if_else: "(b \<Longrightarrow> wp E m Q s) \<Longrightarrow> (\<not> b \<Longrightarrow> wp E m' Q s) \<Longrightarrow> wp E (if b then m else m') Q s"
  by simp

text \<open>A C string in a block that may be longer: the bytes, the NUL, and what comes behind it.\<close>

abbreviation line_block :: "string \<Rightarrow> char option list \<Rightarrow> block" where
  "line_block v behind \<equiv> BBytes (map Some v @ Some (CHR 0x00) # behind)"

lemma c_string_line:
  assumes "h b = Some (line_block v behind)" and "plain_text v"
  shows "c_string h (PHeap b 0) = Some v"
proof -
  have "takeWhile (\<lambda>c. c \<noteq> Some (CHR 0x00)) (map Some v @ Some (CHR 0x00) # behind) = map Some v"
    using assms(2) by (subst takeWhile_append2) (auto simp: plain_text_def)
  moreover have "map the (map Some v) = v" by (induction v) simp_all
  ultimately show ?thesis by (simp add: assms(1) Let_def)
qed

lemma stage_block: "stage (add_mset (b, BBytes cs) M) L R W s \<Longrightarrow> heap s b = Some (BBytes cs)"
  by (rule stage_put(1) [where y = "BBytes cs"]) simp_all

lemma wp_stage_load_line:
  assumes "stage (add_mset (b, line_block v behind) M) L R W s" and "plain_text v" and "Q v s"
  shows "wp E (load_c_string (PHeap b 0)) Q s"
proof -
  have "c_string (heap s) (PHeap b 0) = Some v" by (rule c_string_line [where h = "heap s" and b = b, OF stage_block [OF assms(1)] assms(2)])
  then show ?thesis using assms(3) by (simp add: wp_def load_c_string_def del: c_string.simps)
qed

lemma wp_stage_store_bytes:
  assumes s: "stage (add_mset (b, BBytes cs) M) L R W s" and "i + length bs \<le> length cs"
    and "\<And>s'. stage (add_mset (b, BBytes (overwrite cs i (map Some bs))) M) L R W s' \<Longrightarrow> world s' = world s \<Longrightarrow> Q () s'"
  shows "wp E (store_bytes (PHeap b i) bs) Q s"
proof -
  have "stage (add_mset (b, BBytes (overwrite cs i (map Some bs))) M) L R W
      (put_block b (BBytes (overwrite cs i (map Some bs))) s)"
    by (rule stage_put(2) [OF s]) simp
  then show ?thesis
    using stage_block [OF s] assms(2,3) by (simp add: wp_def store_bytes_def)
qed

lemma wp_stage_load_bytes:
  assumes s: "stage (add_mset (b, BBytes (map Some bs @ behind)) M) L R W s" and "n = length bs" and "Q bs s"
  shows "wp E (load_bytes (PHeap b 0) n) Q s"
  using assms(3) stage_block [OF s] by (simp add: assms(2) wp_def load_bytes_def)

lemma wp_stage_realloc_bytes:
  assumes s: "stage (add_mset (b, BBytes cs) M) L R W s" and "0 < n"
    and ok: "\<And>b' s'. stage (add_mset (b', BBytes (resize_cells n cs)) M) L R W s' \<Longrightarrow> world s' = world s \<Longrightarrow> Q (Inr (PHeap b' 0)) s'"
    and err: "\<And>e s'. stage (add_mset (b, BBytes cs) M) L R W s' \<Longrightarrow> world s' = world s \<Longrightarrow> Q (Inl e) s'"
  shows "wp E (nq_try_realloc c KBytes (PHeap b 0) n) Q s"
proof -
  obtain R' where R': "holding (add_mset (b, BBytes cs) M) R R'" "owns L R' s" using s by (auto simp: stage_def)
  show ?thesis
  proof (rule wp_nq_try_realloc_grow [OF R'(2) holding_at [OF R'(1)] assms(2)], rule disjI1, blast, goal_cases)
    case (1 b' s')
    have "(R'(b := None)) b' = None" using 1(2) by simp
    note new = holding_new [OF holding_free [OF R'(1)] this]
    show ?case by (rule ok [OF stage_world [OF s 1(3) new 1(1)] 1(3)])
  next
    case (2 e s')
    show ?case by (rule err [OF stage_world [OF s 2(2) R'(1) 2(1)] 2(2)])
  qed
qed

section \<open>Quoting writes the text, in bounds\<close>

text \<open>A block being filled: the bytes so far and the room behind them.\<close>

abbreviation filled :: "nat \<Rightarrow> string \<Rightarrow> nat \<Rightarrow> blocks \<Rightarrow> blocks" where
  "filled b v room M \<equiv> add_mset (b, BBytes (map Some v @ replicate room None)) M"

lemma wp_put_char:
  assumes "stage (filled b v (Suc room) M) L R W s" and "i = length v"
    and "\<And>s'. stage (filled b (v @ [ch]) room M) L R W s' \<Longrightarrow> world s' = world s \<Longrightarrow> Q () s'"
  shows "wp E (put_char (PHeap b 0) i ch) Q s"
proof -
  have set: "overwrite (map Some v @ replicate (Suc room) None) i (map Some [ch]) =
      map Some (v @ [ch]) @ replicate room None"
    using overwrite_replicate [of "[Some ch]" "Suc room" "map Some v" None] by (simp add: assms(2))
  show ?thesis
    unfolding ptr_plus.simps add_0
    by (rule wp_stage_store_bytes [OF assms(1)], simp add: assms(2), unfold set, rule assms(3))
qed

lemma wp_put_backslashes:
  assumes "stage (filled b v (n + room) M) L R W s" and "i = length v"
    and "\<And>s'. stage (filled b (v @ replicate n backslash) room M) L R W s' \<Longrightarrow> world s' = world s \<Longrightarrow> Q () s'"
  shows "wp E (put_backslashes (PHeap b 0) i n) Q s"
  using assms
proof (induction n arbitrary: v i s)
  case 0
  then show ?case by (simp add: wp_ret)
next
  case (Suc n)
  show ?case
    unfolding put_backslashes.simps wp_andthen
  proof (rule wp_put_char [where v = v and room = "n + room", OF _ Suc.prems(2)], use Suc.prems(1) in simp,
      rule Suc.IH [where v = "v @ [backslash]"], assumption, simp add: Suc.prems(2), goal_cases)
    case (1 s1 s2)
    then show ?case by (intro Suc.prems(3)) simp_all
  qed
qed

lemma wp_quote_chars:
  assumes "stage (filled b v room M) L R W s" and "i = length v" and "length (quote_body n arg) \<le> room"
    and "\<And>s'. stage (filled b (v @ quote_body n arg) (room - length (quote_body n arg)) M) L R W s' \<Longrightarrow> world s' = world s \<Longrightarrow>
        Q (i + length (quote_body n arg)) s'"
  shows "wp E (quote_chars (PHeap b 0) i n arg) Q s"
  using assms
proof (induction n arg arbitrary: v i room s rule: quote_body.induct)
  case (1 n)
  then obtain k where k: "room = 2 * n + k" using le_Suc_ex by fastforce
  show ?case
    unfolding quote_chars.simps wp_andthen wp_ret
    by (rule wp_put_backslashes [OF 1(1) [unfolded k] 1(2)]) (use 1(4) in \<open>simp add: k\<close>)
next
  case (2 n ch arg)
  have step: "wp E (put_backslashes (PHeap b 0) i m)
      (\<lambda>_. wp E (put_char (PHeap b 0) (i + m) ch)
        (\<lambda>_. wp E (quote_chars (PHeap b 0) (i + m + 1) 0 arg) Q)) s"
    if body: "quote_body n (ch # arg) = replicate m backslash @ ch # quote_body 0 arg"
      and IH: "\<And>v i room s. stage (filled b v room M) L R W s \<Longrightarrow> i = length v \<Longrightarrow> length (quote_body 0 arg) \<le> room \<Longrightarrow>
        (\<And>s'. stage (filled b (v @ quote_body 0 arg) (room - length (quote_body 0 arg)) M) L R W s' \<Longrightarrow> world s' = world s \<Longrightarrow>
          Q (i + length (quote_body 0 arg)) s') \<Longrightarrow> wp E (quote_chars (PHeap b 0) i 0 arg) Q s" for m
  proof -
    obtain k where "room = length (quote_body n (ch # arg)) + k" using 2(6) le_Suc_ex by blast
    then have k: "room = m + Suc (length (quote_body 0 arg) + k)" unfolding body by simp
    have i: "i = length v" by (rule 2(5))
    show ?thesis
    proof (rule wp_put_backslashes [OF 2(4) [unfolded k] i], rule wp_put_char, assumption, simp add: i,
        rule IH, assumption, simp add: i, simp, goal_cases)
      case (1 s1 s2 s3)
      then show ?case using 2(7) [of s3] unfolding body by (simp add: k add.assoc)
    qed
  qed
  consider "ch = backslash" | "ch = quote" | "ch \<noteq> backslash" "ch \<noteq> quote" by blast
  then show ?case
  proof cases
    case a: 1
    show ?thesis
      unfolding quote_chars.simps if_P [OF a]
      by (rule 2(1) [OF a 2(4,5)]) (use 2(6,7) a in simp_all)
  next
    case a: 2
    then have nb: "ch \<noteq> backslash" by simp
    have body: "quote_body n (ch # arg) = replicate (2 * n + 1) backslash @ ch # quote_body 0 arg" by (simp add: a)
    show ?thesis
      unfolding quote_chars.simps if_not_P [OF nb] if_P [OF a] wp_andthen
      by (fold a, rule step [OF body 2(2) [OF nb a]])
  next
    case a: 3
    show ?thesis
      unfolding quote_chars.simps if_not_P [OF a(1)] if_not_P [OF a(2)] wp_andthen
      by (rule step [OF _ 2(3) [OF a]]) (simp add: a)
  qed
qed

lemma wp_stage_copy_line:
  assumes s: "stage (add_mset (b, line_block v behind) M) L R W s"
    and ok: "\<And>b' s'. stage (add_mset (b', line_block v []) (add_mset (b, line_block v behind) M)) L R W s' \<Longrightarrow> Q (Inr (PHeap b' 0)) s'"
    and err: "\<And>e s'. stage (add_mset (b, line_block v behind) M) L R W s' \<Longrightarrow> Q (Inl e) s'"
  shows "wp E (nq_try_cstr_copy c (PHeap b 0) (length v)) Q s"
proof -
  obtain R' where R': "holding (add_mset (b, line_block v behind) M) R R'" "owns L R' s" using s by (auto simp: stage_def)
  have "readable L R' (PHeap b 0) (length v) v"
    unfolding readable_def
  proof (intro allI impI)
    fix L' R'' s' assume "L \<subseteq># L'" "R' \<subseteq>\<^sub>m R''" "owns L' R'' s'"
    then have "heap s' b = Some (line_block v behind)"
      using owns_raw holding_at [OF R'(1)] by (metis domI map_le_def)
    then show "read_bytes (heap s') (PHeap b 0) (length v) = Some v" by simp
  qed
  then show ?thesis
  proof (rule wp_nq_try_cstr_copy [OF R'(2)], goal_cases)
    case (1 b' s')
    show ?case by (rule ok [OF stage_world [OF s 1(3) holding_new [OF R'(1) 1(2)] 1(1)]])
  next
    case (2 e s')
    show ?case by (rule err [OF stage_world [OF s 2(2) R'(1) 2(1)]])
  qed
qed

text \<open>The buffer has room for the text whatever the argument is.\<close>

lemma wp_quote_buffer:
  assumes s: "stage (filled b [] (2 * length v + 3) M) L R W s"
    and fin: "\<And>behind s'. stage (add_mset (b, line_block (quote # quote_body 0 v @ [quote]) behind) M) L R W s' \<Longrightarrow> Q (Inr (PHeap b 0)) s'"
  shows "wp E (andthen (put_char (PHeap b 0) 0 quote)
           (bind (quote_chars (PHeap b 0) 1 0 v) (\<lambda>i.
           andthen (put_char (PHeap b 0) i quote)
           (andthen (put_char (PHeap b 0) (i + 1) CHR 0x00) (ret (Inr (PHeap b 0))))))) Q s"
proof -
  let ?body = "quote_body 0 v"
  obtain k where k: "2 * length v = length ?body + k" using length_quote_body [of 0 v] le_Suc_ex by fastforce
  have "2 * length v + 3 = Suc (length ?body + Suc (Suc k))" using k by simp
  with s have s': "stage (filled b [] (Suc (length ?body + Suc (Suc k))) M) L R W s" by simp
  show ?thesis
    unfolding wp_andthen wp_bind wp_ret
  proof (rule wp_put_char [OF s'], simp, rule wp_quote_chars [where v = "[quote]" and room = "length ?body + Suc (Suc k)"], simp, simp, simp,
      rule wp_put_char [where v = "[quote] @ ?body" and room = "Suc k"], simp, simp,
      rule wp_put_char [where v = "[quote] @ ?body @ [quote]" and room = k], simp, simp, goal_cases)
    case (1 s1 s2 s3 s4)
    then show ?case by (intro fin [of "replicate k None"]) simp
  qed
qed

lemma wp_nq_quote_windows_arg:
  assumes s: "stage (add_mset (b, line_block v behind) M) L R W s" and v: "plain_text v"
    and ok: "\<And>b' behind' s'. stage (add_mset (b', line_block (quote_text v) behind') (add_mset (b, line_block v behind) M)) L R W s' \<Longrightarrow>
        Q (Inr (PHeap b' 0)) s'"
    and err: "\<And>e s'. stage (add_mset (b, line_block v behind) M) L R W s' \<Longrightarrow> Q (Inl e) s'"
  shows "wp E (nq_quote_windows_arg c (PHeap b 0)) Q s"
proof (cases "length v \<le> nq_str_limit c")
  case False
  then have none: "nq_cstr_length c v = None" using v by (simp add: cstr_length_plain plain_text_def)
  show ?thesis
    unfolding nq_quote_windows_arg_def wp_bind
    by (rule wp_stage_load_line [OF s v]) (simp add: none wp_ret err [OF s])
next
  case True
  then have len: "nq_cstr_length c v = Some (length v)" using v by (simp add: cstr_length_plain plain_text_def)
  show ?thesis
    unfolding nq_quote_windows_arg_def wp_bind [of _ "load_c_string _"]
  proof (rule wp_stage_load_line [OF s v], unfold len option.case, rule wp_if_else, goal_cases)
    case 1
    then show ?case
      by (intro wp_stage_copy_line [OF s] ok err) (simp_all add: quote_text_def)
  next
    case 2
    have size: "Option.bind (nq_size_mul c (length v) 2) (\<lambda>doubled. nq_size_add doubled 3 (nq_allocation_limit c)) =
        (if 2 * length v + 3 \<le> nq_allocation_limit c then Some (2 * length v + 3) else None)"
      by (simp add: nq_size_mul_eq nq_size_add_eq allocation_limit_le mult.commute)
    show ?case
    proof (cases "2 * length v + 3 \<le> nq_allocation_limit c")
      case False
      show ?thesis unfolding size if_not_P [OF False] option.case wp_ret by (rule err [OF s])
    next
      case True
      show ?thesis
        unfolding size if_P [OF True] option.case wp_bind [of _ "nq_try_realloc _ _ _ _"]
      proof (rule wp_stage_malloc [OF s], simp, goal_cases)
        case (1 b' s1)
        show ?case
          unfolding sum.case
          by (rule wp_quote_buffer [where v = v and b = b'], use 1(1) in simp, rule ok)
            (use 2 in \<open>simp add: quote_text_def\<close>)
      next
        case (2 e s1)
        show ?case unfolding sum.case wp_ret by (rule err [OF 2(1)])
      qed
    qed
  qed
qed

section \<open>Joining the arguments\<close>

lemma append_line:
  assumes "n = length line + length q + 2"
  shows "overwrite (overwrite (resize_cells n (map Some line @ Some (CHR 0x00) # behind)) (length line) (map Some '' ''))
      (length line + 1) (map Some (q @ [CHR 0x00])) = map Some (line @ CHR '' '' # q) @ [Some (CHR 0x00)]"
proof -
  let ?cs = "resize_cells n (map Some line @ Some (CHR 0x00) # behind)"
  have "take (length line) ?cs = map Some line" "length ?cs = n" by (simp_all add: resize_cells_def assms)
  then show ?thesis by (simp add: overwrite_def assms)
qed

lemma wp_stage_free_line:
  assumes "stage (add_mset (b, line_block v behind) M) L R W s" and "\<And>s'. stage M L R W s' \<Longrightarrow> Q () s'"
  shows "wp E (c_free (PHeap b 0)) Q s"
  by (rule wp_stage_free [OF assms(1)]) (rule assms(2))

lemma wp_append_quoted:
  assumes s: "stage (add_mset (b, line_block line behind) (add_mset (q, line_block text behind') M)) L R W s"
    and plain: "plain_text line" "plain_text text"
    and ok: "\<And>b' s'. stage (add_mset (b', line_block (line @ CHR '' '' # text) []) M) L R W s' \<Longrightarrow> wp E (go (PHeap b' 0)) Q s'"
    and err: "\<And>e s'. stage M L R W s' \<Longrightarrow> Q (Inl e) s'"
  shows "wp E (bind (load_c_string (PHeap b 0)) (\<lambda>command_text.
         bind (load_c_string (PHeap q 0)) (\<lambda>quoted_text.
         let command_len = length command_text; quoted_len = length quoted_text in
         case Option.bind (nq_size_add command_len quoted_len (nq_allocation_limit c))
             (\<lambda>sz. nq_size_add sz 2 (nq_allocation_limit c)) of
           None \<Rightarrow> andthen (c_free (PHeap b 0)) (andthen (c_free (PHeap q 0)) (ret (Inl ALLOC_SIZE)))
         | Some sz \<Rightarrow>
           bind (nq_try_realloc c KBytes (PHeap b 0) sz) (\<lambda>r. case r of
             Inl st \<Rightarrow> andthen (c_free (PHeap b 0)) (andthen (c_free (PHeap q 0)) (ret (Inl st)))
           | Inr command \<Rightarrow>
             andthen (put_char command command_len CHR '' '')
             (bind (load_bytes (PHeap q 0) (quoted_len + 1)) (\<lambda>bs.
             andthen (store_bytes (ptr_plus command (command_len + 1)) bs)
             (andthen (c_free (PHeap q 0)) (go command)))))))) Q s"
proof -
  let ?n = "length line + length text + 2"
  have s': "stage (add_mset (q, line_block text behind') (add_mset (b, line_block line behind) M)) L R W s"
    using s by (simp add: add_mset_commute)
  have drop: "wp E (andthen (c_free (PHeap b 0)) (andthen (c_free (PHeap q 0)) (ret (Inl e)))) Q s1"
    if "stage (add_mset (b, line_block line behind) (add_mset (q, line_block text behind') M)) L R W s1" for e s1
    unfolding wp_andthen wp_ret by (rule wp_stage_free_line [OF that], erule wp_stage_free_line, rule err)
  have size: "Option.bind (nq_size_add (length line) (length text) (nq_allocation_limit c))
             (\<lambda>sz. nq_size_add sz 2 (nq_allocation_limit c)) = (if ?n \<le> nq_allocation_limit c then Some ?n else None)"
    by (simp add: nq_size_add_eq allocation_limit_le)
  show ?thesis
    unfolding wp_bind [of _ "load_c_string _"] Let_def
  proof (rule wp_stage_load_line [OF s plain(1)], rule wp_stage_load_line [OF s' plain(2)], cases "?n \<le> nq_allocation_limit c", goal_cases)
    case 2
    then show ?case unfolding size by (simp only: if_False option.case drop [OF s])
  next
    case 1
    show ?case
      unfolding size if_P [OF 1] option.case wp_bind
    proof (rule wp_stage_realloc_bytes [OF s], simp, goal_cases)
      case (2 e s1)
      then show ?case by (simp only: sum.case drop)
    next
      case (1 b' s1)
      let ?cs = "resize_cells ?n (map Some line @ Some (CHR 0x00) # behind)"
      have len: "length ?cs = ?n" by (simp add: resize_cells_def)
      show ?case
        unfolding sum.case wp_andthen wp_bind ptr_plus.simps add_0
      proof (rule wp_stage_store_bytes [OF 1(1)], use len in simp,
          rule wp_stage_load_bytes [where b = q and bs = "text @ [CHR 0x00]" and behind = behind'
            and M = "add_mset (b', BBytes (overwrite ?cs (length line) (map Some '' ''))) M"],
          simp add: add_mset_commute, simp, rule wp_stage_store_bytes, assumption, use len in simp,
          unfold append_line [OF refl], goal_cases)
        case (1 s2 s3)
        have "stage (add_mset (q, line_block text behind') (add_mset (b', line_block (line @ CHR '' '' # text) []) M)) L R W s3"
          using 1(3) by (simp add: add_mset_commute)
        then show ?case by (rule wp_stage_free_line) (rule ok)
      qed
    qed
  qed
qed

lemma wp_join_windows_args:
  assumes list: "lent ts va L R b0" and "list_all plain_text va" and "i + n \<le> length va"
    and "stage (add_mset (b, line_block line behind) M) L R W s" and "plain_text line"
    and "\<And>b' behind' s'. stage (add_mset (b', line_block (line @ concat (map (\<lambda>arg. CHR '' '' # quote_text arg) (take n (drop i va)))) behind') M) L R W s' \<Longrightarrow>
        Q (Inr (PHeap b' 0)) s'"
    and err: "\<And>e s'. stage M L R W s' \<Longrightarrow> Q (Inl e) s'"
  shows "wp E (join_windows_args c (PHeap b0 0) i n (PHeap b 0)) Q s"
  using assms(3-6)
proof (induction n arbitrary: i b line behind s)
  case 0
  then show ?case by (simp add: wp_ret)
next
  case (Suc n)
  obtain R' where cells: "list_cells ts va L R' b0 s" using lent_cells [OF list Suc.prems(2)] by blast
  have i: "i < length va" using Suc.prems(1) by simp
  have live: "(ts ! i, va ! i) \<in># L" "length (va ! i) \<le> SIZE_MAX" using list i by (auto simp: lent_def)
  have plain: "plain_text (va ! i)" using assms(2) i by (simp add: list_all_length)
  have "s_len (ts ! i) = int (length (va ! i))"
    using cells owns_live_len live(1) unfolding list_cells_def by blast
  then have reads: "readable L R (s_data (ts ! i)) (to_size (s_len (ts ! i))) (va ! i)"
    using readable_live [OF live(1), of R] live(2) by (simp add: to_size_of_nat)
  have drop: "take (Suc n) (drop i va) = va ! i # take n (drop (i + 1) va)" using i by (simp add: Cons_nth_drop_Suc [symmetric])
  show ?case
    unfolding join_windows_args.simps wp_bind [of _ "load_str _ _"]
  proof (rule wp_cells_load [OF cells i], unfold wp_bind [of _ "nq_try_cstr_copy _ _ _"],
      rule wp_stage_cstr_copy [OF Suc.prems(2) reads], goal_cases)
    case (2 e s1)
    show ?case
      unfolding sum.case wp_andthen wp_ret by (rule wp_stage_free_line [OF 2(1)]) (rule err)
  next
    case (1 a s1)
    let ?v = "va ! i" and ?M = "add_mset (b, line_block line behind) M"
    have copy: "stage (add_mset (a, line_block ?v []) ?M) L R W s1" using 1(1) by (simp add: text_cell_def)
    show ?case
      unfolding sum.case address_def fst_conv wp_bind [of _ "nq_quote_windows_arg _ _"]
    proof (rule wp_nq_quote_windows_arg [OF copy plain], goal_cases)
      case (2 e s2)
      show ?case
        unfolding wp_andthen sum.case wp_ret by (rule wp_stage_free_line [OF 2], erule wp_stage_free_line, rule err)
    next
      case (1 q behind' s2)
      then have "stage (add_mset (a, line_block ?v []) (add_mset (q, line_block (quote_text ?v) behind') ?M)) L R W s2"
        by (simp add: add_mset_commute)
      then show ?case
        unfolding wp_andthen [of _ "c_free (PHeap a 0)"] sum.case
      proof (rule wp_stage_free_line, goal_cases)
        case (1 s3)
        then have "stage (add_mset (b, line_block line behind) (add_mset (q, line_block (quote_text ?v) behind') M)) L R W s3"
          by (simp add: add_mset_commute)
        then show ?case
        proof (rule wp_append_quoted [OF _ Suc.prems(3) quote_text_plain [OF plain]], goal_cases)
          case (1 b' s4)
          show ?case
          proof (rule Suc.IH [OF _ 1], goal_cases)
            case (3 b' behind' s')
            then show ?case by (intro Suc.prems(4)) (simp add: drop)
          qed (use Suc.prems(1,3) quote_text_plain [OF plain] in \<open>simp_all add: plain_text_def\<close>)
        qed (rule err)
      qed
    qed
  qed
qed

lemma wp_nq_join_windows_command:
  assumes list: "lent_list args va L R" and plain: "plain_text vp" "list_all plain_text va"
    and s: "stage (add_mset (b, line_block vp behind) M) L R W s"
    and ok: "\<And>b' behind' s'. stage (add_mset (b', line_block (command_text vp va) behind') (add_mset (b, line_block vp behind) M)) L R W s' \<Longrightarrow>
        Q (Inr (PHeap b' 0)) s'"
    and err: "\<And>e s'. stage (add_mset (b, line_block vp behind) M) L R W s' \<Longrightarrow> Q (Inl e) s'"
  shows "wp E (nq_join_windows_command c (PHeap b 0) args) Q s"
  unfolding nq_join_windows_command_def lent_list_len [OF list] wp_bind
proof (rule wp_nq_quote_windows_arg [OF s plain(1)], goal_cases)
  case (2 e s1)
  then show ?case by (simp add: wp_ret err)
next
  case (1 q behind' s1)
  show ?case
  proof (cases "va = []")
    case True
    with 1 show ?thesis by (auto simp: wp_ret command_text_def intro: ok)
  next
    case False
    then obtain ts b0 where b0: "l_data args = PHeap b0 0" "lent ts va L R b0" using list by (auto simp: lent_list_def)
    show ?thesis
      unfolding sum.case b0(1)
    proof (rule wp_join_windows_args [OF b0(2) plain(2) _ 1 quote_text_plain [OF plain(1)]], simp, goal_cases)
      case (1 b' behind'' s')
      then show ?case by (intro ok) (simp add: command_text_def)
    qed (rule err)
  qed
qed

section \<open>Properties\<close>

lemma stage_one: "R b = None \<Longrightarrow> stage {#(b, x)#} L R W s \<longleftrightarrow> owns L (R(b \<mapsto> x)) s \<and> W (world s)"
proof -
  assume "R b = None"
  then have "holding {#(b, x)#} R R' \<longleftrightarrow> R' = R(b \<mapsto> x)" for R' by (auto simp: holding_def fun_eq_iff)
  then show ?thesis by (simp add: stage_def)
qed

text \<open>
  C18: A Windows command line splits back into what it was made of, exactly for the program names
  that the code can quote. For a program and arguments free of NUL, \<open>nq_join_windows_command\<close> gives
  either an error, with everything as before, or one fresh block with a line. If the program's name
  has no quotation mark and, where it needs quotes, does not end in a backslash (\<open>program_name\<close>), then
  the documented splitting rules turn the line into exactly the name and the arguments, empty ones and
  those with blanks, quotation marks and backslashes included, with either reading of a doubled
  quotation mark. For every other name they give something else: such names are quoted by the
  rules for arguments, and not rejected. Every intermediate copy is freed, every byte is written inside
  its block, and the system is not called.
\<close>

theorem windows_command_line_roundtrip:
  assumes "lent_list args va L R" and "R b = None" and "owns L (R(b \<mapsto> os_block vp)) s"
    and "list_all plain_text va" and "plain_text vp"
  shows "wp no_stop (nq_join_windows_command c (PHeap b 0) args)
    (\<lambda>r s'. world s' = world s \<and> (case r of
        Inl e \<Rightarrow> owns L (R(b \<mapsto> os_block vp)) s'
      | Inr p \<Rightarrow> \<exists>b' line behind. p = PHeap b' 0 \<and> b' \<noteq> b \<and> R b' = None \<and>
          owns L (R(b \<mapsto> os_block vp, b' \<mapsto> line_block line behind)) s' \<and>
          (\<forall>doubled. windows_argv doubled line = vp # va \<longleftrightarrow> program_name vp))) s"
proof -
  let ?W = "\<lambda>w. w = world s"
  have s: "stage {#(b, line_block vp [])#} L R ?W s" using assms(2,3) by (simp add: stage_one)
  show ?thesis
  proof (rule wp_nq_join_windows_command [OF assms(1,5,4) s], goal_cases)
    case (1 b' behind s')
    then obtain R' where R': "holding {#(b', line_block (command_text vp va) behind), (b, line_block vp [])#} R R'"
      "owns L R' s'" "world s' = world s" by (auto simp: stage_def)
    have apart: "b' \<noteq> b" "R b' = None" using holding_apart [OF R'(1)] by auto
    have "R' = R(b \<mapsto> os_block vp, b' \<mapsto> line_block (command_text vp va) behind)"
      using R'(1) by (auto simp: holding_def fun_eq_iff)
    with R'(2,3) apart windows_argv_command show ?case by auto
  next
    case (2 e s')
    with assms(2) show ?case by (simp add: stage_one)
  qed
qed

definition example_line_state :: nqstate where
  "example_line_state = (boot [True, True, True, True, True, True, False] [])
     \<lparr>heap := [0 \<mapsto> os_block ''C:/a b'', 1 \<mapsto> BStrs [Some (static_str '' ''), Some (static_str [quote])]], next_block := 2\<rparr>"

theorem windows_command_line_roundtrip_witness:
  "wp no_stop (nq_join_windows_command plain_config (PHeap 0 0) \<lparr>l_data = PHeap 1 0, l_len = 2, l_cap = 2\<rparr>)
     (\<lambda>r s'. \<forall>p. r = Inr p \<longrightarrow> (\<exists>line b. p = PHeap b 0 \<and> windows_argv True line = [''C:/a b'', '' '', [quote]])) example_line_state"
proof -
  let ?L = "{#(static_str '' '', '' ''), (static_str [quote], [quote])#}" and ?args = "[Some (static_str '' ''), Some (static_str [quote])]"
  have owns: "owns ?L (Map.empty(1 \<mapsto> BStrs ?args, 0 \<mapsto> os_block ''C:/a b'')) example_line_state"
    unfolding example_line_state_def
    by (intro owns_add_static_str) (simp add: owns_def boot_def accounted_def)
  have "lent [static_str '' '', static_str [quote]] ['' '', [quote]] ?L [1 \<mapsto> BStrs ?args] 1"
    by (simp add: lent_def less_Suc_eq numeral_2_eq_2 SIZE_MAX_def)
  then have list: "lent_list \<lparr>l_data = PHeap 1 0, l_len = 2, l_cap = 2\<rparr> ['' '', [quote]] ?L [1 \<mapsto> BStrs ?args]"
    by (auto simp: lent_list_def)
  show ?thesis
    by (rule wp_mono [OF windows_command_line_roundtrip [OF list _ owns]])
      (auto simp: plain_text_def program_name_def split: sum.splits)
qed

end
