(* ===== verification/Windows_Run.thy ===== *)
theory Windows_Run
  imports Command_Line
begin

text \<open>
  \<open>nq_run_process\<close> as it is built for Windows: which calls it makes when it succeeds, and that it
  leaves no file, no handle and no memory behind when it fails.
\<close>

section \<open>Calls, one by one\<close>

text \<open>Until the process has ended the calls are known exactly; after a failure they no longer matter.\<close>

abbreviation any :: "history \<Rightarrow> bool" where "any h \<equiv> True"

lemma phase_any: "phase (seen s0 any)"
  by (rule phase_seen) (simp add: growing_def)

lemma stage_any: "stage M L R (seen s0 P N) s \<Longrightarrow> N \<subseteq> N' \<Longrightarrow> stage M L R (seen s0 any N') s"
  by (erule stage_seen_weaken) simp_all

lemma wp_stage_exact:
  assumes s: "stage M L R (seen s0 ((=) h) N) s" and E: "E Blocked"
    and post: "\<And>r s'. stage M L R (seen s0 ((=) (h @ [(ev, r)])) (touch (ev, r) N)) s' \<Longrightarrow> Q r s'"
  shows "wp E (sys ev) Q s"
proof (cases "script s")
  case (Cons r rs)
  show ?thesis by (simp add: wp_sys Cons) (rule post, rule stage_seen_sys [OF s Cons], simp)
qed (simp add: wp_sys E)

lemma wp_exact_ignore:
  assumes s: "stage M L R (seen s0 ((=) h) N) s" and E: "E Blocked"
    and post: "\<And>r s'. stage M L R (seen s0 ((=) (h @ [(ev, r)])) (touch (ev, r) N)) s' \<Longrightarrow> Q () s'"
  shows "wp E (ignore (sys ev)) Q s"
  unfolding ignore_def wp_bind wp_ret by (rule wp_stage_exact [where E = E, OF s E]) (rule post)

lemma wp_c_delete_file:
  assumes s: "stage (add_mset (b, line_block v behind) M) L R (W N) s" and v: "plain_text v"
    and W: "phase W" and E: "E Blocked"
    and post: "\<And>r s'. stage (add_mset (b, line_block v behind) M) L R (W (N - {Temp v})) s' \<Longrightarrow>
        script s = r # script s' \<Longrightarrow> trace s' = trace s @ [DeleteFile v] \<Longrightarrow> Q () s'"
  shows "wp E (c_delete_file (PHeap b 0)) Q s"
  unfolding c_delete_file_def delete_file_def wp_bind
  by (rule wp_stage_load_line [OF s v], rule wp_stage_release [where E = E and W = W and N = N, OF s W _ E])
    (simp_all add: post)

lemma wp_delete_file:
  assumes s: "stage M L R (W N) s" and W: "phase W" and E: "E Blocked"
    and post: "\<And>s'. stage M L R (W (N - {Temp v})) s' \<Longrightarrow> Q () s'"
  shows "wp E (delete_file v) Q s"
  unfolding delete_file_def
  by (rule wp_stage_release [where E = E and W = W and N = N, OF s W _ E]) (simp_all add: post)

section \<open>What is held\<close>

text \<open>A C string behind a pointer, or nothing.\<close>

definition at_most :: "ptr \<Rightarrow> string \<Rightarrow> blocks \<Rightarrow> blocks \<Rightarrow> bool" where
  "at_most p v M M' \<longleftrightarrow> plain_text v \<and>
     (p = PNull \<and> M' = M \<or> (\<exists>b behind. p = PHeap b 0 \<and> M' = add_mset (b, line_block v behind) M))"

lemma wp_free_at_most:
  assumes "at_most p v M M'" and "stage M' L R W s" and "\<And>s'. stage M L R W s' \<Longrightarrow> Q () s'"
  shows "wp E (c_free p) Q s"
proof (cases "p = PNull")
  case True
  with assms show ?thesis by (simp add: at_most_def wp_def c_free_def)
next
  case False
  then obtain b behind where "p = PHeap b 0" "M' = add_mset (b, line_block v behind) M"
    using assms(1) by (auto simp: at_most_def)
  with assms(2,3) show ?thesis by (auto intro: wp_stage_free_line)
qed

lemma wp_delete_at_most:
  assumes "at_most p v M M'" and s: "stage M' L R (W N) s" and W: "phase W" and E: "E Blocked"
    and N: "p = PNull \<Longrightarrow> Temp v \<notin> N"
    and post: "\<And>s'. stage M' L R (W (N - {Temp v})) s' \<Longrightarrow> Q () s'"
  shows "wp E (if p \<noteq> PNull then c_delete_file p else ret ()) Q s"
proof (cases "p = PNull")
  case True
  then show ?thesis using s post N by (simp add: wp_ret)
next
  case False
  then obtain b behind where "p = PHeap b 0" "M' = add_mset (b, line_block v behind) M" "plain_text v"
    using assms(1) by (auto simp: at_most_def)
  with s post show ?thesis by (auto intro: wp_c_delete_file [where W = W and E = E, OF _ _ W E])
qed

text \<open>The copies of the names, the command line, the names of the files.\<close>

definition windows_blocks :: "windows_run \<Rightarrow> string \<Rightarrow> string \<Rightarrow> string \<Rightarrow> string \<Rightarrow> blocks \<Rightarrow> bool" where
  "windows_blocks l vd line out err M \<longleftrightarrow> list_all plain_text [vd, line, out, err] \<and> (\<exists>x vp d k behind a e.
     wr_program l = PHeap x 0 \<and> wr_cwd l = PHeap d 0 \<and> wr_command l = PHeap k 0 \<and>
     wr_stdout l = PHeap a 0 \<and> wr_stderr l = PHeap e 0 \<and>
     M = {#(x, line_block vp []), (d, line_block vd []), (k, line_block line behind),
           (a, line_block out []), (e, line_block err [])#})"

abbreviation both_files :: "string \<Rightarrow> string \<Rightarrow> resource set" where
  "both_files out err \<equiv> {Temp out, Temp err}"

lemma wp_windows_free_request:
  assumes "wr_program l = PHeap x 0" and "wr_cwd l = PHeap d 0" and k: "at_most (wr_command l) line M M'"
    and s: "stage (add_mset (x, line_block vp bp) (add_mset (d, line_block vd bd) M')) L R W s"
    and post: "\<And>s'. stage M L R W s' \<Longrightarrow> Q () s'"
  shows "wp E (windows_free_request l) Q s"
  unfolding windows_free_request_def wp_andthen assms(1,2)
  by (rule wp_stage_free_line [OF s], erule wp_stage_free_line, erule wp_free_at_most [OF k]) (rule post)

lemma stage_held:
  assumes "(b, line_block v behind) \<in># M" and "stage M L R W s" and "plain_text v" and "Q v s"
  shows "wp E (load_c_string (PHeap b 0)) Q s"
proof -
  obtain M' where "M = add_mset (b, line_block v behind) M'" using multi_member_split [OF assms(1)] by blast
  with assms(2-4) show ?thesis by (auto intro: wp_stage_load_line)
qed

lemma wp_delete_held:
  assumes "(b, line_block v behind) \<in># M" and s: "stage M L R (W N) s" and "plain_text v" and W: "phase W" and E: "E Blocked"
    and post: "\<And>r s'. stage M L R (W (N - {Temp v})) s' \<Longrightarrow> script s = r # script s' \<Longrightarrow> trace s' = trace s @ [DeleteFile v] \<Longrightarrow> Q () s'"
  shows "wp E (c_delete_file (PHeap b 0)) Q s"
  unfolding c_delete_file_def delete_file_def wp_bind
  by (rule stage_held [OF assms(1) s assms(3)], rule wp_stage_release [where E = E and W = W and N = N, OF s W _ E])
    (simp_all add: post)

text \<open>The parts of the blocks of a run.\<close>

abbreviation file_blocks :: "nat \<Rightarrow> string \<Rightarrow> nat \<Rightarrow> string \<Rightarrow> blocks" where
  "file_blocks a out e err \<equiv> {#(a, line_block out []), (e, line_block err [])#}"

lemma windows_blocksE:
  assumes "windows_blocks l vd line out err M"
  obtains x vp d k behind a e where "wr_program l = PHeap x 0" "wr_cwd l = PHeap d 0" "wr_command l = PHeap k 0"
    "wr_stdout l = PHeap a 0" "wr_stderr l = PHeap e 0" "list_all plain_text [vd, line, out, err]"
    "M = add_mset (x, line_block vp []) (add_mset (d, line_block vd []) (add_mset (k, line_block line behind) (file_blocks a out e err)))"
  using assms unfolding windows_blocks_def by blast

text \<open>Every C string of the run is found where its pointer says.\<close>

lemma windows_load:
  assumes "windows_blocks l vd line out err M" and s: "stage M L R W s"
    and "(p, v) \<in> {(wr_cwd l, vd), (wr_command l, line), (wr_stdout l, out), (wr_stderr l, err)}" and Q: "Q v s"
  shows "wp E (load_c_string p) Q s"
  using assms(1)
proof (cases rule: windows_blocksE)
  case (1 x vp d k behind a e)
  have "\<exists>b behind. p = PHeap b 0 \<and> (b, line_block v behind) \<in># M" "plain_text v"
    using assms(3) 1 by auto
  with stage_held [OF _ s] Q show ?thesis by blast
qed

lemma wp_windows_delete:
  assumes M: "windows_blocks l vd line out err M" and s: "stage M L R (W N) s" and W: "phase W" and E: "E Blocked"
    and p: "(p, v) \<in> {(wr_stdout l, out), (wr_stderr l, err)}"
    and post: "\<And>r s'. stage M L R (W (N - {Temp v})) s' \<Longrightarrow> script s = r # script s' \<Longrightarrow> trace s' = trace s @ [DeleteFile v] \<Longrightarrow> Q () s'"
  shows "wp E (c_delete_file p) Q s"
  unfolding c_delete_file_def delete_file_def wp_bind
  by (rule windows_load [OF M s, where v = v], use p in blast,
      rule wp_stage_release [where E = E and W = W and N = N, OF s W _ E]) (simp_all add: post)

lemma wp_windows_free:
  assumes "windows_blocks l vd line out err M" and s: "stage M L R W s"
    and post: "\<And>s'. stage {#} L R W s' \<Longrightarrow> world s' = world s \<Longrightarrow> Q () s'"
  shows "wp E (windows_free_request l) (\<lambda>_. wp E (c_free (wr_stdout l)) (\<lambda>_. wp E (c_free (wr_stderr l)) Q)) s"
  using assms(1)
proof (cases rule: windows_blocksE)
  case (1 x vp d k behind a e)
  show ?thesis
    unfolding windows_free_request_def wp_andthen 1(1-5)
    by (rule wp_stage_free [OF s [unfolded 1(7)]], (erule wp_stage_free)+, rule post) simp_all
qed

lemma wp_windows_release:
  assumes "windows_blocks l vd line out err M" and s: "stage M L R (W (both_files out err)) s" and W: "phase W" and E: "E Blocked"
    and post: "\<And>s'. stage {#} L R (W {}) s' \<Longrightarrow> Q () s'"
  shows "wp E (windows_release l) Q s"
  using assms(1)
proof (cases rule: windows_blocksE)
  case (1 x vp d k behind a e)
  have none: "both_files out err - {Temp out} - {Temp err} = {}" by blast
  have plain: "plain_text out" "plain_text err" using 1(6) by simp_all
  have k: "at_most (wr_command l) line (file_blocks a out e err) (add_mset (k, line_block line behind) (file_blocks a out e err))"
    using 1(3,6) by (auto simp: at_most_def)
  show ?thesis
    unfolding windows_release_def wp_andthen
  proof (rule wp_windows_free_request [OF 1(1,2) k s [unfolded 1(7)]], unfold 1(4,5))
    fix s1 assume s1: "stage (file_blocks a out e err) L R (W (both_files out err)) s1"
    show "wp E (c_delete_file (PHeap a 0)) (\<lambda>_. wp E (c_delete_file (PHeap e 0)) (\<lambda>_. wp E (c_free (PHeap a 0)) (\<lambda>_. wp E (c_free (PHeap e 0)) Q))) s1"
    proof (rule wp_delete_held [where W = W and E = E and behind = "[]", OF _ s1 plain(1) W E], simp,
      rule wp_delete_held [where M = "file_blocks a out e err" and W = W and E = E and behind = "[]", OF _ _ plain(2) W E], simp, assumption, unfold none, goal_cases)
      case (1 r2 s2 r3 s3)
      show ?case by (rule wp_stage_free_line [OF 1(4)], erule wp_stage_free_line) (rule post)
    qed
  qed
qed

lemma wp_windows_no_files:
  assumes "wr_program l = PHeap x 0" and "wr_cwd l = PHeap d 0" and "wr_stderr l = PNull"
    and k: "at_most (wr_command l) line M M'" and a: "at_most (wr_stdout l) out {#} M"
    and s: "stage (add_mset (x, line_block vp bp) (add_mset (d, line_block vd bd) M')) L R (seen s0 any N) s"
    and N: "N \<subseteq> (if wr_stdout l = PNull then {} else {Temp out})" and E: "E Blocked"
    and post: "\<And>s'. stage {#} L R (seen s0 any {}) s' \<Longrightarrow> Q () s'"
  shows "wp E (windows_no_files l) Q s"
  unfolding windows_no_files_def wp_andthen
proof (rule wp_windows_free_request [OF assms(1,2) k s])
  fix s1 assume "stage M L R (seen s0 any N) s1"
  then show "wp E (if wr_stdout l \<noteq> PNull then c_delete_file (wr_stdout l) else ret ())
      (\<lambda>_. wp E (if wr_stderr l \<noteq> PNull then c_delete_file (wr_stderr l) else ret ())
        (\<lambda>_. wp E (c_free (wr_stdout l)) (\<lambda>_. wp E (c_free (wr_stderr l)) Q))) s1"
  proof (rule wp_delete_at_most [where W = "seen s0 any" and E = E, OF a _ phase_any E])
    fix s2 assume "stage M L R (seen s0 any (N - {Temp out})) s2"
    moreover have "N - {Temp out} = {}" using N by (auto split: if_splits)
    ultimately have "stage M L R (seen s0 any {}) s2" by simp
    then show "wp E (if wr_stderr l \<noteq> PNull then c_delete_file (wr_stderr l) else ret ())
        (\<lambda>_. wp E (c_free (wr_stdout l)) (\<lambda>_. wp E (c_free (wr_stderr l)) Q)) s2"
      unfolding assms(3) by (simp add: wp_ret) (rule wp_free_at_most [OF a], assumption, simp add: wp_def c_free_def post)
  qed (use N in auto)
qed

section \<open>A temporary file\<close>

lemma wp_stage_copy_path:
  assumes s: "stage M L R W s" and v: "plain_text path"
    and ok: "\<And>b s'. stage (add_mset (b, line_block path []) M) L R W s' \<Longrightarrow> Q (Inr (PHeap b 0)) s'"
    and err: "\<And>e s'. stage M L R W s' \<Longrightarrow> Q (Inl e) s'"
  shows "wp E (case nq_cstr_length c path of
               None \<Rightarrow> ret (Inl ALLOC_SIZE)
             | Some len \<Rightarrow> nq_try_cstr_copy c (PLit path 0) len) Q s"
proof (cases "length path \<le> nq_str_limit c")
  case True
  then have len: "nq_cstr_length c path = Some (length path)" using v by (simp add: cstr_length_plain plain_text_def)
  have reads: "readable L R (PLit path 0) (length path) path" by (simp add: readable_def)
  show ?thesis
    unfolding len option.case
    by (rule wp_stage_cstr_copy [OF s reads]) (simp_all add: text_cell_def address_def ok err)
next
  case False
  then have len: "nq_cstr_length c path = None" using v by (simp add: cstr_length_plain plain_text_def)
  show ?thesis by (simp add: len wp_ret err [OF s])
qed

lemma windows_path_plain: "plain_text (windows_path r)"
  by (auto simp: windows_path_def plain_text_def dest: set_takeWhileD)

lemma wp_make_windows_temp_file:
  assumes s: "stage M L R (seen s0 ((=) h) N) s" and E: "E Blocked"
    and failed: "\<And>r s'. r = Inr PNull \<or> (\<exists>st. r = Inl st) \<Longrightarrow> stage M L R (seen s0 any N) s' \<Longrightarrow> Q r s'"
    and ok: "\<And>b p r s'. r_ret r \<noteq> 0 \<Longrightarrow> stage (add_mset (b, line_block (windows_path r) []) M) L R
        (seen s0 ((=) (h @ [(GetTempPath, p), (GetTempFileName (windows_path p) prefix, r)])) (insert (Temp (windows_path r)) N)) s' \<Longrightarrow>
        Q (Inr (PHeap b 0)) s'"
  shows "wp E (nq_make_windows_temp_file c prefix) Q s"
  unfolding nq_make_windows_temp_file_def wp_bind
proof (rule wp_stage_exact [where E = E, OF s E], goal_cases)
  case (1 p s1)
  have s1: "stage M L R (seen s0 ((=) (h @ [(GetTempPath, p)])) N) s1" using 1 by (simp add: touch_def)
  show ?case
  proof (cases "dword (r_ret p) = 0 \<or> dword (r_ret p) > int MAX_PATH")
    case True
    show ?thesis unfolding if_P [OF True] wp_ret by (rule failed [OF _ stage_any [OF s1]]) simp_all
  next
    case False
    show ?thesis
      unfolding if_not_P [OF False] wp_bind
    proof (rule wp_stage_exact [where E = E, OF s1 E], goal_cases)
      case (1 r s2)
      show ?case
      proof (cases "r_ret r = 0")
        case True
        then have "stage M L R (seen s0 any N) s2" by (intro stage_any [OF 1]) (simp add: touch_def)
        then show ?thesis unfolding if_P [OF True] wp_ret by (intro failed) simp_all
      next
        case False
        let ?h = "h @ [(GetTempPath, p), (GetTempFileName (windows_path p) prefix, r)]" and ?N = "insert (Temp (windows_path r)) N"
        have s2: "stage M L R (seen s0 ((=) ?h) ?N) s2" using 1 False by (simp add: touch_def)
        show ?thesis
          unfolding if_not_P [OF False] Let_def wp_bind
        proof (rule wp_stage_copy_path [OF s2 windows_path_plain], goal_cases)
          case (1 b s3)
          show ?case unfolding sum.case wp_ret by (rule ok [OF False 1])
        next
          case (2 e s3)
          show ?case
            unfolding sum.case wp_andthen wp_ret
            by (rule wp_delete_file [where W = "seen s0 any" and E = E, OF stage_any [OF 2 subset_refl] phase_any E])
              (rule failed, simp, erule stage_any, blast)
        qed
      qed
    qed
  qed
qed

section \<open>The outputs\<close>

lemma up_to_nul_plain: "plain_text v \<Longrightarrow> up_to_nul v = v"
  by (auto simp: plain_text_def takeWhile_eq_all_conv)

lemma wp_windows_removals:
  assumes M: "windows_blocks l vd line out err M" and s: "stage M L R (W (both_files out err)) s" and W: "phase W" and E: "E Blocked"
    and post: "\<And>s'. stage {#} L R (W {}) s' \<Longrightarrow> removed [DeleteFile out, DeleteFile err] (progress s) (progress s') \<Longrightarrow> Q () s'"
  shows "wp E (c_delete_file (wr_stdout l)) (\<lambda>_. wp E (c_delete_file (wr_stderr l)) (\<lambda>_. wp E (windows_free_request l)
    (\<lambda>_. wp E (c_free (wr_stdout l)) (\<lambda>_. wp E (c_free (wr_stderr l)) Q)))) s"
proof -
  have none: "both_files out err - {Temp out} - {Temp err} = {}" by blast
  show ?thesis
  proof (rule wp_windows_delete [where W = W and E = E and v = out, OF M s W E], simp,
      rule wp_windows_delete [where W = W and E = E and v = err, OF M _ W E], assumption, simp, unfold none, goal_cases)
    case (1 r1 s1 r2 s2)
    have gone: "removed [DeleteFile out, DeleteFile err] (progress s) (progress s2)"
      unfolding removed_def progress_def using 1 by (intro exI [of _ "[r1, r2]"]) simp
    show ?case
    proof (rule wp_windows_free [OF M 1(4)])
      fix s3 assume s3: "stage {#} L R (W {}) s3" "world s3 = world s2"
      show "Q () s3" by (rule post [OF s3(1)]) (use gone progress_world [OF s3(2)] in simp)
    qed
  qed
qed

lemma wp_windows_collect:
  assumes c: "good_config c" and M: "windows_blocks l vd line out err M" and E: "E Blocked"
    and s: "stage M L R (late s0 F (both_files out err)) s"
    and ok: "\<And>t v u w w1 w2 s'. stage {#} (add_mset (t, v) (add_mset (u, w) L)) R (late s0 F {}) s' \<Longrightarrow>
        read_back out v (progress s) w1 \<Longrightarrow> read_back err w w1 w2 \<Longrightarrow>
        removed [DeleteFile out, DeleteFile err] w2 (progress s') \<Longrightarrow> Q (nq_process_ok code t u) s'"
    and failed: "\<And>e w s'. stage {#} (with_err e w L) R (late s0 F {}) s' \<Longrightarrow> Q (Err e) s'"
  shows "wp E (windows_collect c l code) Q s"
proof -
  have names: "up_to_nul out = out" "up_to_nul err = err"
    using M by (simp_all add: windows_blocks_def up_to_nul_plain)
  have release: "wp E (andthen (windows_release l) (ret (Err e))) Q s'"
    if "stage M (with_err e w L) R (late s0 F (both_files out err)) s'" for e w s'
    unfolding wp_andthen
    by (rule wp_windows_release [where W = "late s0 F" and E = E, OF M that phase_late E]) (simp add: wp_ret failed)
  show ?thesis
    unfolding windows_collect_def wp_bind
  proof (rule windows_load [where v = out, OF M s], simp, rule wp_stage_read_output [where E = E, OF c s E], goal_cases)
    case (2 e w s1)
    then show ?case unfolding sum.case by (rule release)
  next
    case (1 t v s1)
    note first = 1(2) [unfolded names]
    show ?case
      unfolding sum.case wp_bind
    proof (rule windows_load [where v = err, OF M 1(1)], simp, rule wp_stage_read_output [where E = E, OF c 1(1) E], goal_cases)
      case (1 u w s2)
      show ?case
        unfolding sum.case wp_andthen wp_ret
        by (rule wp_windows_removals [where W = "late s0 F" and E = E, OF M 1(1) phase_late E],
            rule ok [OF _ first 1(2) [unfolded names]], subst add_mset_commute)
    next
      case (2 e w s2)
      have swap: "with_err e w (add_mset (t, v) L) = add_mset (t, v) (with_err e w L)"
        unfolding with_err_def by (simp only: add_mset_commute)
      obtain R' where R': "holding M R R'" "owns (add_mset (t, v) (with_err e w L)) R' s2"
        using 2 by (auto simp: stage_def swap)
      show ?case
        unfolding sum.case wp_bind
        by (rule wp_nq_str_drop [OF R'(2)], rule release) (rule stage_world [OF 2 _ R'(1)])
    qed
  qed
qed

section \<open>The process\<close>

text \<open>The calls of a run that comes to its end, up to the reading of the files, with their replies.\<close>

definition windows_calls ::
  "string \<Rightarrow> string option \<Rightarrow> string \<Rightarrow> string \<Rightarrow> int \<Rightarrow> history \<Rightarrow> bool" where
  "windows_calls line dir out err code h \<longleftrightarrow> (\<exists>p1 r1 p2 r2 a b i r c1 c2 w k c3 c4.
     h = [(GetTempPath, p1), (GetTempFileName (windows_path p1) ''nqo'', r1),
          (GetTempPath, p2), (GetTempFileName (windows_path p2) ''nqe'', r2),
          (CreateFile out, a), (CreateFile err, b), (GetStdHandle, i),
          (CreateProcess line dir [r_ret i, r_ret a, r_ret b], r),
          (CloseHandle (r_ret a), c1), (CloseHandle (r_ret b), c2),
          (WaitForSingleObject (reply_int r 0), w), (GetExitCodeProcess (reply_int r 0), k),
          (CloseHandle (reply_int r 0), c3), (CloseHandle (reply_int r 1), c4)] \<and>
     out = windows_path r1 \<and> err = windows_path r2 \<and> r_ret r1 \<noteq> 0 \<and> r_ret r2 \<noteq> 0 \<and>
     r_ret a \<noteq> -1 \<and> r_ret b \<noteq> -1 \<and> r_ret r \<noteq> 0 \<and>
     code = (if r_ret k = 0 then 0 else to_i32 (reply_int k 0)))"

text \<open>How a run ends.\<close>

definition windows_done :: "strs \<Rightarrow> raws \<Rightarrow> nqstate \<Rightarrow> string \<Rightarrow> string \<Rightarrow> nq_result_process_result \<Rightarrow> nqstate \<Rightarrow> bool" where
  "windows_done L R s0 line vd res s' \<longleftrightarrow> (case res of
     Ok p \<Rightarrow> \<exists>v w out err. owns (add_mset (pr_stdout p, v) (add_mset (pr_stderr p, w) L)) R s' \<and>
       outputs DeleteFile s0 (windows_calls line (if vd = [] then None else Some vd) out err (pr_exit_code p))
         (out, v) (err, w) (progress s')
   | Err e \<Rightarrow> \<exists>w. stage {#} (with_err e w L) R (late s0 any {}) s')"

lemma windows_done_err: "stage {#} (with_err e w L) R (seen s0 P {}) s' \<Longrightarrow> windows_done L R s0 line vd (Err e) s'"
  unfolding windows_done_def nq_result.case by (rule exI, erule stage_weaken) (rule seen_late, simp_all)

lemma wp_windows_collected:
  assumes c: "good_config c" and M: "windows_blocks l vd line out err M" and E: "E Blocked"
    and s: "stage M L R (seen s0 ((=) h) N) s" and N: "N \<subseteq> both_files out err"
    and h: "windows_calls line (if vd = [] then None else Some vd) out err code h"
  shows "wp E (windows_collect c l code) (windows_done L R s0 line vd) s"
proof -
  have "left_behind h \<subseteq> both_files out err" and calls: "calls s0 h s"
    using s N unfolding stage_def seen_def since_world by blast+
  then have late: "stage M L R (late s0 ((=) h) (both_files out err)) s"
    by (intro stage_at [OF s] late_start) simp_all
  show ?thesis
  proof (rule wp_windows_collect [where E = E, OF c M E late], goal_cases)
    case (1 t v u w w1 w2 s')
    have "progress s = (script s, trace s0 @ map fst h)" "script s0 = map snd h @ script s"
      using calls by (simp_all add: calls_def progress_def)
    then have "outputs DeleteFile s0 (windows_calls line (if vd = [] then None else Some vd) out err code) (out, v) (err, w) (progress s')"
      using 1(2-4) h unfolding outputs_def fst_conv snd_conv by metis
    moreover have "owns (add_mset (t, v) (add_mset (u, w) L)) R s'" using 1(1) by (simp add: stage_lone)
    ultimately show ?case
      unfolding windows_done_def nq_process_ok_def nq_result.case nq_process_result_t.simps by blast
  next
    case (2 e w s')
    show ?case
      unfolding windows_done_def nq_result.case by (rule exI, rule stage_weaken [OF 2]) (erule late_mono, simp)
  qed
qed

lemma label_windows_kind [simp]: "label (windows_io_kind_for_code code)"
  using label_kind [of code] by (simp add: windows_io_kind_for_code_def label_def)

lemma wp_windows_io_err:
  assumes "good_config c" and "stage M L R W s" and "CHR 0x00 \<notin> set detail"
    and "\<And>e w s'. stage M (with_err e w L) R W s' \<Longrightarrow> Q (Err e) s'"
  shows "wp E (windows_process_io_err c code detail) Q s"
  unfolding windows_process_io_err_def by (rule wp_stage_details [OF assms(1,2) label_windows_kind assms(3)]) (rule assms(4))

text \<open>Giving up with both files there.\<close>

lemma wp_windows_abandon:
  assumes c: "good_config c" and M: "windows_blocks l vd line out err M" and E: "E Blocked"
    and s: "stage M L R (seen s0 any (both_files out err)) s" and detail: "CHR 0x00 \<notin> set detail"
  shows "wp E (windows_release l) (\<lambda>_. wp E (windows_process_io_err c code detail) (windows_done L R s0 line vd)) s"
    and "wp E (windows_release l) (\<lambda>_. wp E (windows_last_error c detail) (windows_done L R s0 line vd)) s"
proof -
  have err: "wp E (windows_process_io_err c code detail) (windows_done L R s0 line vd) s'"
    if "stage {#} L R (seen s0 any {}) s'" for code s'
    by (rule wp_windows_io_err [OF c that detail]) (rule windows_done_err)
  note release = wp_windows_release [where W = "seen s0 any" and E = E, OF M s phase_any E]
  show "wp E (windows_release l) (\<lambda>_. wp E (windows_process_io_err c code detail) (windows_done L R s0 line vd)) s"
    by (rule release) (rule err)
  show "wp E (windows_release l) (\<lambda>_. wp E (windows_last_error c detail) (windows_done L R s0 line vd)) s"
    unfolding windows_last_error_def wp_bind wp_get_errno by (rule release) (rule err)
qed

lemma wp_windows_start:
  assumes c: "good_config c" and M: "windows_blocks l vd line out err M" and E: "E Blocked"
    and s: "stage M L R (seen s0 ((=) h) {Temp out, Temp err, Handle (r_ret a), Handle (r_ret b)}) s"
    and h: "h = [(GetTempPath, p1), (GetTempFileName (windows_path p1) ''nqo'', r1),
          (GetTempPath, p2), (GetTempFileName (windows_path p2) ''nqe'', r2), (CreateFile out, a), (CreateFile err, b)]"
    and names: "out = windows_path r1" "err = windows_path r2" "r_ret r1 \<noteq> 0" "r_ret r2 \<noteq> 0" "r_ret a \<noteq> -1" "r_ret b \<noteq> -1"
  shows "wp E (windows_start c l (r_ret a) (r_ret b)) (windows_done L R s0 line vd) s"
  unfolding windows_start_def wp_bind close_handle_def
proof (rule wp_stage_exact [where E = E, OF s E], rule windows_load [where v = line, OF M], assumption, simp,
    rule windows_load [where v = vd, OF M], assumption, simp, erule wp_stage_exact [where E = E, OF _ E],
    unfold wp_andthen, erule wp_exact_ignore [where E = E, OF _ E], erule wp_exact_ignore [where E = E, OF _ E], goal_cases)
  case (1 i s1 r s2 c1 s3 c2 s4)
  let ?N = "touch (CloseHandle (r_ret b), c2) (touch (CloseHandle (r_ret a), c1)
      (touch (CreateProcess line (if vd = [] then None else Some vd) [r_ret i, r_ret a, r_ret b], r)
      (touch (GetStdHandle, i) {Temp out, Temp err, Handle (r_ret a), Handle (r_ret b)})))"
  show ?case
  proof (cases "r_ret r = 0")
    case True
    have "?N \<subseteq> both_files out err" using True by (auto simp: touch_def)
    note gone = stage_any [OF 1 this]
    show ?thesis
      unfolding if_P [OF True] wp_bind wp_get_errno wp_andthen by (rule wp_windows_abandon(1) [where E = E, OF c M E gone]) simp
  next
    case False
    show ?thesis
      unfolding if_not_P [OF False] Let_def wp_andthen wp_bind
    proof (rule wp_exact_ignore [where E = E, OF 1 E], erule wp_stage_exact [where E = E, OF _ E],
        erule wp_exact_ignore [where E = E, OF _ E], erule wp_exact_ignore [where E = E, OF _ E], goal_cases)
      case (1 w s5 k s6 c3 s7 c4 s8)
      show ?case
      proof (rule wp_windows_collected [where E = E, OF c M E 1], goal_cases)
        case 1
        show ?case using False by (auto simp: touch_def)
      next
        case 2
        show ?case unfolding windows_calls_def h append_Cons append_Nil using names False by blast
      qed
    qed
  qed
qed

lemma wp_windows_open:
  assumes c: "good_config c" and M: "windows_blocks l vd line out err M" and E: "E Blocked"
    and s: "stage M L R (seen s0 ((=) h) (both_files out err)) s"
    and h: "h = [(GetTempPath, p1), (GetTempFileName (windows_path p1) ''nqo'', r1),
          (GetTempPath, p2), (GetTempFileName (windows_path p2) ''nqe'', r2)]"
    and names: "out = windows_path r1" "err = windows_path r2" "r_ret r1 \<noteq> 0" "r_ret r2 \<noteq> 0"
  shows "wp E (windows_open c l) (windows_done L R s0 line vd) s"
  unfolding windows_open_def wp_bind
proof (rule windows_load [where v = out, OF M s], simp, rule wp_stage_exact [where E = E, OF s E], goal_cases)
  case (1 a s1)
  show ?case
  proof (cases "r_ret a = -1")
    case True
    have "touch (CreateFile out, a) (both_files out err) \<subseteq> both_files out err" using True by (simp add: touch_def)
    note gone = stage_any [OF 1 this]
    show ?thesis unfolding if_P [OF True] wp_andthen by (rule wp_windows_abandon(2) [where E = E, OF c M E gone]) simp
  next
    case first: False
    show ?thesis
      unfolding if_not_P [OF first] Let_def wp_bind
    proof (rule windows_load [where v = err, OF M 1], simp, rule wp_stage_exact [where E = E, OF 1 E], goal_cases)
      case (1 b s2)
      show ?case
      proof (cases "r_ret b = -1")
        case True
        show ?thesis
          unfolding if_P [OF True] wp_andthen close_handle_def
        proof (rule wp_exact_ignore [where E = E, OF 1 E], goal_cases)
          case (1 c1 s3)
          have "touch (CloseHandle (r_ret a), c1) (touch (CreateFile err, b) (touch (CreateFile out, a) (both_files out err))) \<subseteq> both_files out err"
            using True first by (auto simp: touch_def)
          note gone = stage_any [OF 1 this]
          show ?case by (rule wp_windows_abandon(2) [where E = E, OF c M E gone]) simp
        qed
      next
        case second: False
        have "touch (CreateFile err, b) (touch (CreateFile out, a) (both_files out err)) = {Temp out, Temp err, Handle (r_ret a), Handle (r_ret b)}"
          using first second by (auto simp: touch_def)
        with 1 have s2: "stage M L R (seen s0 ((=) (h @ [(CreateFile out, a), (CreateFile err, b)]))
            {Temp out, Temp err, Handle (r_ret a), Handle (r_ret b)}) s2" by simp
        show ?thesis
          unfolding if_not_P [OF second]
          by (rule wp_windows_start [where E = E, OF c M E s2 _ names first second]) (simp add: h)
      qed
    qed
  qed
qed

section \<open>The files and the command line\<close>

lemma ptr_heap_not_null: "PHeap b i \<noteq> PNull"
  by simp

lemma wp_windows_prepare:
  assumes c: "good_config c" and args: "lent_list args va L R" and plain: "list_all plain_text (vp # vd # va)" and E: "E Blocked"
    and s: "stage {#text_cell (x, vp), text_cell (d, vd)#} L R (seen s0 ((=) []) {}) s"
  shows "wp E (windows_prepare c (address (x, vp)) (address (d, vd)) args n)
    (windows_done L R s0 (command_text vp va) vd) s"
proof -
  let ?line = "command_text vp va" and ?done = "windows_done L R s0 (command_text vp va) vd"
  let ?names = "\<lambda>M. add_mset (x, line_block vp []) (add_mset (d, line_block vd []) M)"
  let ?l = "\<lambda>k a. \<lparr>wr_program = PHeap x 0, wr_cwd = PHeap d 0, wr_command = k, wr_stdout = a, wr_stderr = PNull\<rparr>"
  have line: "plain_text ?line"
    using plain quote_text_plain by (auto simp: command_text_def plain_text_def list_all_iff)
  have none: "at_most PNull v M M" if "plain_text v" for v M using that by (simp add: at_most_def)
  have some: "at_most (PHeap b 0) v M (add_mset (b, line_block v behind) M)" if "plain_text v" for b v behind M
    using that by (simp add: at_most_def)
  have start: "stage (add_mset (x, line_block vp []) {#(d, line_block vd [])#}) L R (seen s0 ((=) []) {}) s"
    using s by (simp add: text_cell_def)
  have give_up: "wp E (case r of
          Inl st \<Rightarrow> andthen (windows_no_files (?l k a))
            (bind (nq_allocation_io_err c (Some ''run_process'') st) (\<lambda>err. ret (nq_process_err err)))
        | Inr p \<Rightarrow>
          if p = PNull
          then andthen (windows_no_files (?l k a)) (windows_process_io_err c 10 ''failed to allocate temporary output files'')
          else open_files) ?done s'"
    if r: "r = Inr PNull \<or> (\<exists>st. r = Inl st)" and k: "at_most k ?line M M'" and a: "at_most a out {#} M"
      and s': "stage (?names M') L R (seen s0 any N) s'" and N: "N \<subseteq> (if a = PNull then {} else {Temp out})" for r k a M M' out N s' open_files
  proof -
    have release: "wp E (windows_no_files (?l k a)) Q s'" if "\<And>s'. stage {#} L R (seen s0 any {}) s' \<Longrightarrow> Q () s'" for Q
      by (rule wp_windows_no_files [where E = E and l = "?l k a" and M = M and M' = M' and out = out and line = ?line, OF _ _ _ _ _ s'])
        (use k a N E that in simp_all)
    show ?thesis
    proof (cases r)
      case (Inl st)
      show ?thesis
        unfolding Inl sum.case wp_andthen by (rule release, rule wp_stage_too_big [OF c], assumption) (rule windows_done_err)
    next
      case (Inr p)
      then have p: "p = PNull" using r by simp
      show ?thesis
        unfolding Inr sum.case if_P [OF p] wp_andthen
        by (rule release, rule wp_windows_io_err [OF c], assumption, simp) (rule windows_done_err)
    qed
  qed
  show ?thesis
    unfolding windows_prepare_def wp_bind address_def fst_conv
  proof (rule wp_nq_join_windows_command [OF args _ _ start], use plain in simp, use plain in simp, goal_cases)
    case (2 e s1)
    show ?case
      unfolding sum.case wp_ret Let_def
      by (rule give_up [where r = "Inl e" and M = "{#}" and M' = "{#}" and out = "[]" and N = "{}", unfolded sum.case])
        (use 2 none line in \<open>simp_all add: plain_text_def stage_any\<close>)
  next
    case (1 k behind s1)
    let ?K = "{#(k, line_block ?line behind)#}"
    have s1: "stage (?names ?K) L R (seen s0 ((=) []) {}) s1" using 1 by (simp add: add_mset_commute)
    show ?case
      unfolding sum.case
    proof (rule wp_make_windows_temp_file [where E = E, OF s1 E], goal_cases)
      case (1 r s2)
      have r: "wp E (case r of Inl st \<Rightarrow> ret (Inl st)
           | Inr p \<Rightarrow> if p = PNull then ret (Inr PNull) else nq_make_windows_temp_file c ''nqe'') Q s2 = Q r s2" for Q
        using 1(1) by (auto simp: wp_ret)
      have out: "(case r of Inl _ \<Rightarrow> PNull | Inr p \<Rightarrow> p) = PNull" using 1(1) by auto
      show ?case
        unfolding r Let_def out sum.case
        by (rule give_up [where M = "{#}" and M' = ?K and out = "[]" and N = "{}", OF 1(1)])
          (use 1(2) none some line in \<open>simp_all add: plain_text_def\<close>)
    next
      case (2 a p1 r1 s2)
      let ?out = "windows_path r1" and ?A = "{#(a, line_block (windows_path r1) [])#}"
      let ?h = "[(GetTempPath, p1), (GetTempFileName (windows_path p1) ''nqo'', r1)]"
      have s2: "stage (?names (add_mset (k, line_block ?line behind) ?A)) L R (seen s0 ((=) ?h) {Temp ?out}) s2"
        using 2(2) by (simp add: add_mset_commute)
      show ?case
        unfolding sum.case if_not_P [OF ptr_heap_not_null]
      proof (rule wp_make_windows_temp_file [where E = E, OF s2 E], goal_cases)
        case (1 r s3)
        have err: "(case r of Inl _ \<Rightarrow> PNull | Inr p \<Rightarrow> p) = PNull" using 1(1) by auto
        show ?case
          unfolding Let_def sum.case err
          by (rule give_up [where M = ?A and M' = "add_mset (k, line_block ?line behind) ?A" and out = ?out and N = "{Temp ?out}", OF 1(1)])
            (use 1(2) some line windows_path_plain in simp_all)
      next
        case (2 e p2 r2 s3)
        let ?err = "windows_path r2"
        let ?M = "?names (add_mset (k, line_block ?line behind) (file_blocks a ?out e ?err))"
        let ?run = "\<lparr>wr_program = PHeap x 0, wr_cwd = PHeap d 0, wr_command = PHeap k 0, wr_stdout = PHeap a 0, wr_stderr = PHeap e 0\<rparr>"
        have s3: "stage ?M L R (seen s0 ((=) (?h @ [(GetTempPath, p2), (GetTempFileName (windows_path p2) ''nqe'', r2)])) (both_files ?out ?err)) s3"
          using 2(2) by (simp add: add_mset_commute insert_commute)
        have M: "windows_blocks ?run vd ?line ?out ?err ?M"
          unfolding windows_blocks_def using plain line windows_path_plain by auto
        show ?case
          unfolding Let_def sum.case if_not_P [OF ptr_heap_not_null]
          by (rule wp_windows_open [where E = E, OF c M E s3 _ refl refl \<open>r_ret r1 \<noteq> 0\<close> 2(1)]) simp
      qed
    qed
  qed
qed

section \<open>Properties\<close>

text \<open>
  C17: On Windows, too, running a program delivers what the child left and leaves nothing behind. When
  it succeeds, the calls were exactly those of a run: two temporary files were made and opened; the
  process was made with the command line of the request, its directory, the caller's input and the
  two files; after its end its exit code was asked for and every handle was closed; then both files
  were read to their end, what they delivered is what the caller gets, and both were deleted. The
  command line splits into the program's name and the arguments if the name is one that can be quoted
  (\<open>program_name\<close>: no quotation mark, no backslash at the end of a name in quotes), and only then. When it fails, whatever allocation or
  call fails, only the error is owned, and every file that was made is deleted and every handle
  closed after it was opened.
\<close>

theorem windows_run_leaves_nothing_behind:
  assumes "good_config c" and "owns L R s" and "(program, vp) \<in># L" and "(cwd, vd) \<in># L"
    and "\<forall>l. args = Some l \<longrightarrow> lent_list l va L R"
  shows "wp only_blocks (windows_run_process c program args cwd)
    (\<lambda>res s'. case res of
       Ok p \<Rightarrow> \<exists>v w out err line. owns (add_mset (pr_stdout p, v) (add_mset (pr_stderr p, w) L)) R s' \<and>
         outputs DeleteFile s (windows_calls line (if vd = [] then None else Some vd) out err (pr_exit_code p))
           (out, v) (err, w) (progress s') \<and>
         (\<forall>doubled. windows_argv doubled line = vp # va \<longleftrightarrow> program_name vp)
     | Err e \<Rightarrow> clean_run s any s' \<and> (\<exists>w. owns (with_err e w L) R s')) s"
  unfolding windows_run_process_def
proof (rule wp_run_request [where W = "seen s ((=) []) {}", OF assms(1) _ assms(3-5)], goal_cases)
  case 1
  show ?case unfolding seen_def by (rule stage_start [OF assms(2)]) simp
next
  case (2 e w s')
  then show ?case unfolding stage_lone by (auto intro: late_clean seen_late)
next
  case (3 l x d s')
  show ?case
  proof (rule wp_mono [OF wp_windows_prepare [where E = only_blocks, OF assms(1) 3(1,3) _ 3(2)]], simp, goal_cases)
    case (1 res s')
    show ?case
    proof (cases res)
      case (Ok p)
      then obtain v w out err where "owns (add_mset (pr_stdout p, v) (add_mset (pr_stderr p, w) L)) R s'"
        "outputs DeleteFile s (windows_calls (command_text vp va) (if vd = [] then None else Some vd) out err (pr_exit_code p))
           (out, v) (err, w) (progress s')"
        using 1 by (auto simp: windows_done_def)
      moreover have "\<forall>doubled. windows_argv doubled (command_text vp va) = vp # va \<longleftrightarrow> program_name vp"
        using windows_argv_command by blast
      ultimately show ?thesis unfolding Ok nq_result.case by blast
    next
      case (Err e)
      with 1 show ?thesis by (auto simp: windows_done_def stage_lone late_clean)
    qed
  qed
qed

definition example_windows_run :: "reply list" where
  "example_windows_run = map (\<lambda>(n, xs, ys). \<lparr>r_ret = n, r_errno = 0, r_bytes = ys, r_ints = xs\<rparr>)
     [(3, [], ''C:/''), (1, [], ''C:/o''), (3, [], ''C:/''), (2, [], ''C:/e''), (20, [], []), (21, [], []), (1, [], []),
      (1, [30, 31], []), (1, [], []), (1, [], []), (0, [], []), (1, [3], []), (1, [], []), (1, [], []),
      (10, [], []), (3, [], ''ok!''), (0, [], []), (0, [], []), (11, [], []), (0, [], []), (0, [], []), (0, [], []),
      (1, [], []), (1, [], [])]"

theorem windows_run_leaves_nothing_behind_witness:
  "wp only_blocks (windows_run_process plain_config (static_str ''C:/a'') (Some nq_list__str_make) (static_str []))
     (\<lambda>res s'. \<forall>p. res = Ok p \<longrightarrow> pr_exit_code p = 3) (boot [] example_windows_run)"
proof -
  let ?L = "{#(static_str [], []), (static_str ''C:/a'', ''C:/a'')#}" and ?s = "boot [] example_windows_run"
  have owns: "owns ?L Map.empty ?s" by (intro owns_add_static_str owns_boot)
  have list: "lent_list nq_list__str_make [] ?L Map.empty" by (simp add: lent_list_def nq_list__str_make_def)
  have "code = 3" if out: "outputs DeleteFile ?s (windows_calls line dir out err code) v w p" for line dir out err code v w p
  proof -
    obtain h rs where "example_windows_run = map snd h @ rs" "windows_calls line dir out err code h"
      using out unfolding outputs_def by (auto simp: boot_def)
    then show ?thesis
      unfolding windows_calls_def by (auto simp: example_windows_run_def reply_int_def to_i32_def)
  qed
  note code = this
  have list': "\<forall>l. Some nq_list__str_make = Some l \<longrightarrow> lent_list l [] ?L Map.empty" using list by simp
  have "(static_str ''C:/a'', ''C:/a'') \<in># ?L" "(static_str [], []) \<in># ?L" by simp_all
  note run = windows_run_leaves_nothing_behind [OF good_plain_config owns this list']
  show ?thesis
  proof (rule wp_mono [OF run], intro allI impI, goal_cases)
    case (1 res s' p)
    from 1(1) obtain v w out err line dir where
      "outputs DeleteFile ?s (windows_calls line dir out err (pr_exit_code p)) (out, v) (err, w) (progress s')"
      unfolding 1(2) nq_result.case by blast
    then show ?case by (rule code)
  qed
qed

end
