(* ===== verification/Directory_Rules.thy ===== *)
theory Directory_Rules
  imports File_Rules
begin

text \<open>
  \<open>nq_read_dir\<close>: the names it delivers are those the directory gave, in their order and without
  the two entries every directory has; the directory is closed once on every path.
\<close>

section \<open>The names\<close>

text \<open>What reading a directory delivers, as a function of the replies: the names, the reply that ended them, the rest.\<close>

definition entry_name :: "reply \<Rightarrow> string" where
  "entry_name r = takeWhile (\<lambda>ch. ch \<noteq> CHR 0x00) (r_bytes r)"

abbreviation dots :: "string \<Rightarrow> bool" where "dots name \<equiv> name = ''.'' \<or> name = ''..''"

fun directory_names :: "reply list \<Rightarrow> (string list \<times> reply \<times> reply list) option" where
  "directory_names [] = None"
| "directory_names (r # rs) =
     (if r_ret r = 0 then Some ([], r, rs)
      else map_option (\<lambda>(names, last, rest). (if dots (entry_name r) then names else entry_name r # names, last, rest))
        (directory_names rs))"

text \<open>The loop invariant: the list has the names so far, and the rest will be added to them.\<close>

definition reading_dir :: "strs \<Rightarrow> raws \<Rightarrow> int \<Rightarrow> nqstate \<Rightarrow> nq_list_str \<Rightarrow> nqstate \<Rightarrow> bool" where
  "reading_dir L R h s0 l s \<longleftrightarrow> (\<exists>vs n. live_list l vs L R s \<and> trace s = trace s0 @ replicate n (Readdir h) \<and>
     (\<forall>names last rest. directory_names (script s) = Some (names, last, rest) \<longrightarrow>
        directory_names (script s0) = Some (vs @ names, last, rest)))"

section \<open>Adding an entry\<close>

lemma entry_name_plain: "CHR 0x00 \<notin> set (entry_name r)"
  by (auto simp: entry_name_def dest: set_takeWhileD)

lemma live_list_add: "owns (add_mset (t, x) (mset (zip ts vs) + L)) R' s \<Longrightarrow> length ts = length vs \<Longrightarrow> holds_list l ts R R' \<Longrightarrow>
    live_list l vs (add_mset (t, x) L) R s"
  by (auto simp: live_list_def)

lemma wp_add_entry:
  assumes live: "live_list l vs L R s" and name: "CHR 0x00 \<notin> set d"
    and ok: "\<And>l' t s'. live_list l' (vs @ [d]) L R s' \<Longrightarrow> world s' = world s \<Longrightarrow> Q (l', t, None) s'"
    and err: "\<And>t x e s'. live_list l vs (add_mset (t, x) L) R s' \<Longrightarrow> world s' = world s \<Longrightarrow> Q (l, t, Some e) s'"
  shows "wp E (add_entry c l d) Q s"
proof (rule live_listE [OF live])
  fix ts R' assume l: "length ts = length vs" "holds_list l ts R R'" and owns: "owns (mset (zip ts vs) + L) R' s"
  have bad: "Q (l, nq_empty_str, Some e) s'" if "owns (mset (zip ts vs) + L) R' s'" "world s' = world s" for e s'
    by (rule err [OF live_list_add [OF owns_add_inert [OF that(1)] l] that(2)]) simp
  have len: "nq_cstr_length c d = (if length d \<le> nq_str_limit c then Some (length d) else None)"
    using name by (simp add: nq_cstr_length_eq takeWhile_plain)
  show ?thesis
    unfolding add_entry_def wp_bind Let_def len
  proof (rule wp_nq_list_capacity, simp add: sizeof_str_def, goal_cases)
    case 2
    show ?case using bad [OF owns] by (simp add: wp_ret)
  next
    case (1 cap)
    show ?case
    proof (cases "length d \<le> nq_str_limit c")
      case False
      then show ?thesis using bad [OF owns] by (simp add: wp_ret)
    next
      case True
      have reads: "readable (mset (zip ts vs) + L) R' (PLit d 0) (length d) d" by (simp add: readable_def)
      show ?thesis
        unfolding if_P [OF True] option.case sum.case wp_bind
      proof (rule wp_nq_try_str_copy [OF owns reads], goal_cases)
        case (2 e s1)
        then show ?case by (simp add: wp_ret bad)
      next
        case (1 t s1)
        show ?case
          unfolding sum.case wp_bind
        proof (rule wp_nq_try_list_str_push [OF l(2) 1(1)], goal_cases)
          case (1 l' R'' s2)
          have "live_list l' (vs @ [d]) L R s2"
            unfolding live_list_def using 1(1,2) l(1) by (intro exI [of _ "ts @ [t]"] exI [of _ R'']) simp
          with 1(3) \<open>world s1 = world s\<close> show ?case by (simp add: wp_ret ok)
        next
          case (2 e s2)
          have "live_list l vs (add_mset (t, d) L) R s2" by (rule live_list_add [OF 2(1) l])
          with 2(2) \<open>world s1 = world s\<close> show ?case by (simp add: wp_ret err)
        qed
      qed
    qed
  qed
qed

section \<open>The loop\<close>

lemma wp_live_sys:
  assumes "live_list l vs L R s" and "E Blocked"
    and "\<And>r s'. live_list l vs L R s' \<Longrightarrow> script s = r # script s' \<Longrightarrow> trace s' = trace s @ [ev] \<Longrightarrow> errno s' = r_errno r \<Longrightarrow> Q r s'"
  shows "wp E (sys ev) Q s"
proof (rule live_listE [OF assms(1)])
  fix ts R' assume l: "length ts = length vs" "holds_list l ts R R'" and owns: "owns (mset (zip ts vs) + L) R' s"
  show ?thesis
    by (rule wp_sys_owns [where E = E, OF owns assms(2)]) (rule assms(3), use l in \<open>auto simp: live_list_def\<close>)
qed

lemma wp_live_drop:
  assumes "live_list l vs L R s" and "\<And>x s'. owns L R s' \<Longrightarrow> world s' = world s \<Longrightarrow> Q x s'"
  shows "wp E (nq_list__str_drop (Some l)) Q s"
  by (rule strs.drop_live [OF assms(1)]) (rule assms(2))

text \<open>The directory is closed, the list dropped, the error built.\<close>

lemma wp_close_and_drop:
  assumes live: "live_list l vs L R s" and E: "E Blocked"
    and post: "\<And>s'. owns L R s' \<Longrightarrow> trace s' = trace s @ [Closedir h] \<Longrightarrow> wp E m Q s'"
  shows "wp E (bind (c_closedir h) (\<lambda>_. bind (nq_list__str_drop (Some l)) (\<lambda>_. m))) Q s"
  unfolding c_closedir_def wp_bind wp_ret
proof (rule wp_live_sys [where E = E, OF live E], rule wp_live_drop, assumption, goal_cases)
  case (1 r s1 x s2)
  then show ?case by (intro post) (simp_all add: world_def)
qed

lemma wp_readdir_round:
  assumes c: "good_config c" and reading: "reading_dir L R h s0 l s" and E: "E Blocked"
    and more: "\<And>l' s'. reading_dir L R h s0 l' s' \<Longrightarrow> length (script s') < length (script s) \<Longrightarrow> Q (Inl l') s'"
    and fin: "\<And>vs last n s'. live_list l vs L R s' \<Longrightarrow> directory_names (script s0) = Some (vs, last, script s') \<Longrightarrow>
        errno s' = r_errno last \<Longrightarrow> trace s' = trace s0 @ replicate n (Readdir h) \<Longrightarrow> Q (Inr (Inr l)) s'"
    and err: "\<And>e w n s'. owns (with_err e w L) R s' \<Longrightarrow> v_operation w = ''read_dir'' \<Longrightarrow>
        trace s' = trace s0 @ replicate n (Readdir h) @ [Closedir h] \<Longrightarrow> Q (Inr (Inl (Err e))) s'"
  shows "wp E (readdir_round c h l) Q s"
proof -
  obtain vs n where live: "live_list l vs L R s" and tr: "trace s = trace s0 @ replicate n (Readdir h)"
    and names: "\<And>names last rest. directory_names (script s) = Some (names, last, rest) \<Longrightarrow>
        directory_names (script s0) = Some (vs @ names, last, rest)"
    using reading by (auto simp: reading_dir_def)
  have op: "label (op_name (Some ''read_dir''))" by (simp add: label_def)
  show ?thesis
    unfolding readdir_round_def c_readdir_def wp_bind wp_ret
  proof (rule wp_live_sys [where E = E, OF live E], goal_cases)
    case (1 r s1)
    have tr1: "trace s1 = trace s0 @ replicate (Suc n) (Readdir h)" using 1(3) tr by (simp add: replicate_append_same [symmetric])
    show ?case
    proof (cases "r_ret r = 0")
      case True
      with names [of "[]" r "script s1"] 1(2) have "directory_names (script s0) = Some (vs, r, script s1)" by simp
      with fin [OF 1(1) _ 1(4) tr1] True show ?thesis by (simp add: wp_ret)
    next
      case False
      have later: "reading_dir L R h s0 l' s2"
        if "live_list l' (if dots (entry_name r) then vs else vs @ [entry_name r]) L R s2" "script s2 = script s1" "trace s2 = trace s1" for l' s2
        unfolding reading_dir_def
        using that tr1 1(2) False names
        by (intro exI [of _ "if dots (entry_name r) then vs else vs @ [entry_name r]"] exI [of _ "Suc n"]) auto
      have shorter: "length (script s1) < length (script s)" using 1(2) by simp
      show ?thesis
      proof (cases "dots (entry_name r)")
        case True
        have "Q (Inl l) s1" by (rule more [OF later shorter]) (use 1(1) True in simp_all)
        with True \<open>r_ret r \<noteq> 0\<close> show ?thesis by (simp add: wp_ret entry_name_def)
      next
        case no: False
        have "wp E (add_entry c l (entry_name r)) (\<lambda>a. wp E (case a of (entries, name, status) \<Rightarrow> (case status of
           Some st \<Rightarrow>
             bind (nq_str_drop (Some name)) (\<lambda>_.
             bind (c_closedir h) (\<lambda>_.
             bind (nq_list__str_drop (Some entries)) (\<lambda>_.
             bind (nq_allocation_io_err c (Some ''read_dir'') st) (\<lambda>err. ret (Inr (Inl (Err err)))))))
         | None \<Rightarrow> andthen (set_errno 0) (ret (Inl entries)))) Q) s1"
        proof (rule wp_add_entry [OF 1(1) entry_name_plain], goal_cases)
          case (1 l' t s2)
          have "reading_dir L R h s0 l' (s2\<lparr>errno := 0\<rparr>)"
            by (rule later) (use 1 no in \<open>simp_all add: world_def live_list_def\<close>)
          moreover have "length (script (s2\<lparr>errno := 0\<rparr>)) < length (script s)" using 1(2) shorter by (simp add: world_def)
          ultimately show ?case by (simp add: wp_andthen wp_set_errno wp_ret more)
        next
          case (2 t x e s2)
          obtain ts R' where l: "length ts = length vs" "holds_list l ts R R'" "owns (add_mset (t, x) (mset (zip ts vs) + L)) R' s2"
            using 2(1) by (auto simp: live_list_def)
          show ?case
            unfolding prod.case option.case wp_bind [of _ "nq_str_drop _"]
          proof (rule wp_nq_str_drop [OF l(3)], goal_cases)
            case (1 s3)
            have "live_list l vs L R s3" using l(1,2) 1(1) by (auto simp: live_list_def)
            then show ?case
            proof (rule wp_close_and_drop [where E = E, OF _ E], goal_cases)
              case (1 s4)
              have "trace s4 = trace s0 @ replicate (Suc n) (Readdir h) @ [Closedir h]"
                using 1(2) tr1 2(2) \<open>world s3 = world s2\<close> by (simp add: world_def)
              then show ?case
                unfolding wp_bind wp_nq_allocation_io_err [OF c op] wp_ret
                by (intro err [where n = "Suc n", OF owns_fallback [OF 1(1)]]) (simp_all add: fallback_view_def)
            qed
          qed
        qed
        with no False show ?thesis by (simp add: wp_bind entry_name_def)
      qed
    qed
  qed
qed

section \<open>Properties\<close>

text \<open>What reading a directory does: the names it gave, or an error after which nothing is open.\<close>

fun directory_read :: "string \<Rightarrow> strs \<Rightarrow> raws \<Rightarrow> nqstate \<Rightarrow> nq_list_str nq_result \<Rightarrow> nqstate \<Rightarrow> bool" where
  "directory_read v L R s (Ok l) s' \<longleftrightarrow> CHR 0x00 \<notin> set v \<and>
     (\<exists>opened rs vs last closed n. live_list l vs L R s' \<and>
        script s = opened # rs \<and> r_ret opened \<noteq> 0 \<and>
        directory_names rs = Some (vs, last, closed # script s') \<and> r_errno last = 0 \<and> r_ret closed = 0 \<and>
        trace s' = trace s @ Opendir v # replicate n (Readdir (r_ret opened)) @ [Closedir (r_ret opened)])"
| "directory_read v L R s (Err e) s' \<longleftrightarrow>
     (\<exists>w. owns (with_err e w L) R s' \<and> v_operation w = ''read_dir'' \<and>
        (trace s' = trace s \<or> trace s' = trace s @ [Opendir v] \<or>
         (\<exists>h n. trace s' = trace s @ Opendir v # replicate n (Readdir h) @ [Closedir h])))"

lemma wp_dir_errno:
  assumes c: "good_config c" and owns: "owns L R s" and live: "(path, v) \<in># L"
    and post: "\<And>e w s'. owns (with_err e w L) R s' \<Longrightarrow> v_operation w = ''read_dir'' \<Longrightarrow> trace s' = trace s \<Longrightarrow> Q (Err e) s'"
  shows "wp E (bind (nq_errno_io_err c (Some ''read_dir'') (Some path) None code) (\<lambda>err. ret (Err err))) Q s"
  unfolding wp_bind wp_ret
proof (rule wp_nq_errno_io_err [where ov = None, OF c owns _ path_view_live [OF owns live]], goal_cases)
  case (3 e w s')
  then show ?case by (intro post) (auto dest: err_outcome_operation simp: world_def)
qed (simp_all add: label_def)

lemma wp_nq_read_dir:
  assumes c: "good_config c" and owns: "owns L R s" and live: "(path, v) \<in># L" and E: "E Blocked"
  shows "wp E (nq_read_dir c path) (directory_read v L R s) s"
  unfolding nq_read_dir_def
proof (rule wp_with_os_string [OF c owns live], simp add: label_def, goal_cases)
  case (1 e w s')
  then show ?case by (auto simp: world_def)
next
  case (2 b s1)
  note plain = 2(1) and w1 = 2(4)
  show ?case
    unfolding wp_bind [of _ "c_call_name _ _"] wp_andthen [of _ "c_free _"]
  proof (rule wp_c_call_name [where E = E, OF 2(3) plain E], rule wp_free_os [where R = R, OF _ 2(2)], assumption, goal_cases)
    case (1 opened s2 s3)
    let ?h = "r_ret opened"
    have made: "script s = opened # script s3" "trace s3 = trace s @ [Opendir v]" "errno s3 = r_errno opened"
      using 1 w1 by (simp_all add: world_def)
    note owns3 = 1(5)
    show ?case
    proof (cases "?h = 0")
      case True
      show ?thesis
        unfolding if_P [OF True] wp_bind [of _ get_errno] wp_get_errno
        by (rule wp_dir_errno [OF c owns3 live]) (auto simp: made(2))
    next
      case False
      let ?s = "s3\<lparr>errno := 0\<rparr>"
      have start: "reading_dir L R ?h ?s nq_list__str_make ?s"
        unfolding reading_dir_def using live_list_empty [of L R ?s] owns3
        by (intro exI [of _ "[]"] exI [of _ 0]) simp
      show ?thesis
        unfolding if_not_P [OF False] wp_andthen wp_set_errno wp_bind [of _ "loop _ _"]
      proof (rule wp_loop [where I = "reading_dir L R ?h ?s", OF start], goal_cases)
        case (1 l s4)
        show ?case
        proof (rule wp_readdir_round [where E = E, OF c 1 E], goal_cases)
          case (1 l' s5)
          then show ?case by simp
        next
          case (3 e w n s5)
          then show ?case using made(2) by (auto simp: wp_ret)
        next
          case (2 vs last n s5)
          have names: "directory_names (script s3) = Some (vs, last, script s5)" using 2(2) by simp
          have tr: "trace s5 = trace s @ Opendir v # replicate n (Readdir ?h)" using 2(4) made(2) by simp
          have gone: "wp E (bind (nq_errno_io_err c (Some ''read_dir'') (Some path) None code) (\<lambda>err. ret (Err err)))
              (directory_read v L R s) s6" if "owns L R s6" "trace s6 = trace s5 @ [Closedir ?h]" for code s6
            by (rule wp_dir_errno [OF c that(1) live]) (use that(2) tr in auto)
          show ?case
            unfolding sum.case wp_bind [of _ get_errno] wp_get_errno
          proof (cases "errno s5 \<noteq> 0")
            case True
            show "wp E (if errno s5 \<noteq> 0 then bind (c_closedir ?h) (\<lambda>_.
                 bind (nq_list__str_drop (Some l)) (\<lambda>_.
                 bind (nq_errno_io_err c (Some ''read_dir'') (Some path) None (errno s5)) (\<lambda>err. ret (Err err))))
               else bind (c_closedir ?h) (\<lambda>closed.
                 if closed \<noteq> 0
                 then bind get_errno (\<lambda>error_code.
                   bind (nq_list__str_drop (Some l)) (\<lambda>_.
                   bind (nq_errno_io_err c (Some ''read_dir'') (Some path) None error_code) (\<lambda>err. ret (Err err))))
                 else ret (Ok l))) (directory_read v L R s) s5"
              unfolding if_P [OF True] by (rule wp_close_and_drop [where E = E, OF 2(1) E]) (rule gone)
          next
            case False
            show "wp E (if errno s5 \<noteq> 0 then bind (c_closedir ?h) (\<lambda>_.
                 bind (nq_list__str_drop (Some l)) (\<lambda>_.
                 bind (nq_errno_io_err c (Some ''read_dir'') (Some path) None (errno s5)) (\<lambda>err. ret (Err err))))
               else bind (c_closedir ?h) (\<lambda>closed.
                 if closed \<noteq> 0
                 then bind get_errno (\<lambda>error_code.
                   bind (nq_list__str_drop (Some l)) (\<lambda>_.
                   bind (nq_errno_io_err c (Some ''read_dir'') (Some path) None error_code) (\<lambda>err. ret (Err err))))
                 else ret (Ok l))) (directory_read v L R s) s5"
              unfolding if_not_P [OF False] c_closedir_def wp_bind wp_ret
            proof (rule wp_live_sys [where E = E, OF 2(1) E], goal_cases)
              case (1 closed s6)
              show ?case
              proof (cases "r_ret closed \<noteq> 0")
                case True
                show ?thesis
                  unfolding if_P [OF True] wp_bind wp_get_errno
                  by (rule wp_live_drop [OF 1(1)], rule gone [unfolded wp_bind], assumption) (simp add: world_def 1(3))
              next
                case ok: False
                have "directory_read v L R s (Ok l) s6"
                  unfolding directory_read.simps
                  using plain made(1) \<open>?h \<noteq> 0\<close> names 1 2(3) False ok tr by fastforce
                then show ?thesis unfolding if_not_P [OF ok] wp_ret .
              qed
            qed
          qed
        qed
      qed
    qed
  qed
qed

text \<open>
  C26: Reading a directory delivers its entries. \<open>nq_read_dir\<close> succeeds only if the directory was
  opened, read to its end without an error and closed; the list then has the names the system gave,
  each once and in that order, without the two for the directory itself and its parent. Otherwise
  the caller has an error that names the operation. A directory that was opened is closed once on
  every path, and the names read so far are released when an allocation or a call fails.
\<close>

theorem read_dir_delivers_the_entries:
  assumes "good_config c" and "owns L R s" and "(path, v) \<in># L"
  shows "wp only_blocks (nq_read_dir c path) (directory_read v L R s) s"
  by (rule wp_nq_read_dir [where E = only_blocks, OF assms]) simp

definition example_directory :: "reply list" where
  "example_directory = map (\<lambda>(n, bs). \<lparr>r_ret = n, r_errno = 0, r_bytes = bs, r_ints = []\<rparr>)
     [(5, []), (1, ''b''), (1, ''.''), (1, ''a''), (0, []), (0, [])]"

theorem read_dir_delivers_the_entries_witness:
  "wp only_blocks (nq_read_dir plain_config (literal ''d''))
     (\<lambda>res s'. \<forall>l. res = Ok l \<longrightarrow> live_list l [''b'', ''a''] {#(literal ''d'', ''d'')#} Map.empty s') (boot [] example_directory)"
  by (rule wp_mono [OF read_dir_delivers_the_entries [where v = "''d''", OF good_plain_config owns_literal [OF owns_boot]]])
    (auto simp: example_directory_def entry_name_def)

end
