(* ===== verification/Client.thy ===== *)
theory Client
  imports Lists
begin

text \<open>
  Programs that use the runtime: the sequences of calls that compiled code makes on its string
  variables and on a list of strings. A program sees lists of bytes; the invariant ties them to
  the reference-counted handles on the heap, so that no program, however it interleaves the
  operations, reaches undefined behaviour, leaks or frees twice.
\<close>

section \<open>Programs\<close>

text \<open>
  The variables of a program and one list. A variable is named by its position. \<open>Push\<close> and
  \<open>Replace\<close> move a variable into the list and leave the inert string behind, as the compiler does.
\<close>

datatype command =
    Literal string
  | Clone nat
  | Concat nat nat
  | Slice nat int int
  | Release nat
  | Push nat
  | Pop
  | Get int
  | Replace int nat
  | Join

record client =
  cl_vars :: "nqstr list"
  cl_items :: nq_list_str

definition new_var :: "client \<Rightarrow> nqstr option \<Rightarrow> client" where
  "new_var k r = k\<lparr>cl_vars := cl_vars k @ [case r of Some t \<Rightarrow> t | None \<Rightarrow> nq_empty_str]\<rparr>"

fun execute :: "config \<Rightarrow> command \<Rightarrow> client \<Rightarrow> client nq" where
  "execute c (Literal xs) k = ret (new_var k (Some (literal xs)))"
| "execute c (Clone i) k = bind (nq_str_clone c (cl_vars k ! i)) (\<lambda>t. ret (new_var k (Some t)))"
| "execute c (Concat i j) k =
     bind (nq_str_concat c (cl_vars k ! i) (cl_vars k ! j)) (\<lambda>t. ret (new_var k (Some t)))"
| "execute c (Slice i a b) k = bind (nq_str_slice c (cl_vars k ! i) a b) (\<lambda>r. ret (new_var k r))"
| "execute c (Release i) k =
     bind (at_ptr nq_str_drop (cl_vars k ! i)) (\<lambda>t. ret (k\<lparr>cl_vars := (cl_vars k)[i := t]\<rparr>))"
| "execute c (Push i) k =
     bind (nq_list__str_push c (cl_items k) (cl_vars k ! i)) (\<lambda>l.
       ret (k\<lparr>cl_vars := (cl_vars k)[i := nq_empty_str], cl_items := l\<rparr>))"
| "execute c Pop k =
     bind (nq_list__str_pop (cl_items k)) (\<lambda>(l, r). ret (new_var (k\<lparr>cl_items := l\<rparr>) r))"
| "execute c (Get n) k = bind (nq_list__str_get c (cl_items k) n) (\<lambda>r. ret (new_var k r))"
| "execute c (Replace n i) k =
     bind (nq_list__str_replace (cl_items k) n (cl_vars k ! i)) (\<lambda>r.
       ret (new_var (k\<lparr>cl_vars := (cl_vars k)[i := nq_empty_str]\<rparr>) r))"
| "execute c Join k = bind (nq_str_join c (Some (cl_items k))) (\<lambda>t. ret (new_var k (Some t)))"

text \<open>
  A command is well typed when its variables exist. \<open>typed n cmds m\<close>: \<open>cmds\<close> is a well-typed
  program for \<open>n\<close> variables that leaves \<open>m\<close> of them.
\<close>

fun uses :: "command \<Rightarrow> nat set" where
  "uses (Clone i) = {i}"
| "uses (Concat i j) = {i, j}"
| "uses (Slice i a b) = {i}"
| "uses (Release i) = {i}"
| "uses (Push i) = {i}"
| "uses (Replace n i) = {i}"
| "uses _ = {}"

inductive typed :: "nat \<Rightarrow> command list \<Rightarrow> nat \<Rightarrow> bool" where
  finish: "typed n [] n"
| same: "typed n cmds m \<Longrightarrow> i < n \<Longrightarrow> cmd = Release i \<or> cmd = Push i \<Longrightarrow> typed n (cmd # cmds) m"
| more: "typed (Suc n) cmds m \<Longrightarrow> \<forall>i \<in> uses cmd. i < n \<Longrightarrow> \<forall>i. cmd \<noteq> Release i \<and> cmd \<noteq> Push i \<Longrightarrow>
    typed n (cmd # cmds) m"

section \<open>What a program means\<close>

text \<open>The specification: variables and list hold lists of bytes, and every operation is total.\<close>

type_synonym meaning = "string list \<times> string list"

fun means :: "command \<Rightarrow> meaning \<Rightarrow> meaning" where
  "means (Literal xs) (vs, ws) = (vs @ [xs], ws)"
| "means (Clone i) (vs, ws) = (vs @ [vs ! i], ws)"
| "means (Concat i j) (vs, ws) = (vs @ [vs ! i @ vs ! j], ws)"
| "means (Slice i a b) (vs, ws) =
     (vs @ [if 0 \<le> a \<and> a \<le> b \<and> b \<le> int (length (vs ! i))
            then take (nat (b - a)) (drop (nat a) (vs ! i)) else []], ws)"
| "means (Release i) (vs, ws) = (vs[i := []], ws)"
| "means (Push i) (vs, ws) = (vs[i := []], ws @ [vs ! i])"
| "means Pop (vs, ws) = (vs @ [if ws = [] then [] else last ws], butlast ws)"
| "means (Get n) (vs, ws) = (vs @ [if 0 \<le> n \<and> n < int (length ws) then ws ! nat n else []], ws)"
| "means (Replace n i) (vs, ws) =
     (if 0 \<le> n \<and> n < int (length ws) then (vs[i := []] @ [ws ! nat n], ws[nat n := vs ! i])
      else (vs[i := []] @ [[]], ws))"
| "means Join (vs, ws) = (vs @ [concat ws], ws)"

text \<open>The abstraction: the handles of the variables and of the list are all that is owned.\<close>

definition represents :: "client \<Rightarrow> meaning \<Rightarrow> nqstate \<Rightarrow> bool" where
  "represents k a s \<longleftrightarrow> length (fst a) = length (cl_vars k) \<and>
     live_list (cl_items k) (snd a) (mset (zip (cl_vars k) (fst a))) Map.empty s"

section \<open>Every command refines its meaning\<close>

lemma live_list_more:
  "length ts = length vs \<Longrightarrow> holds_list l ts R R' \<Longrightarrow> owns (add_mset x (mset (zip ts vs) + L)) R' s \<Longrightarrow>
     live_list l vs (add_mset x L) R s"
  by (auto simp: live_list_def)

lemma live_list_inert: "live_list l vs L R s \<Longrightarrow> inert t \<Longrightarrow> live_list l vs (add_mset (t, []) L) R s"
  by (erule live_listE) (rule live_list_more, auto intro: owns_add_inert)

lemma new_var_simps [simp]:
  "cl_items (new_var k r) = cl_items k"
  "cl_vars (new_var k r) = cl_vars k @ [case r of Some t \<Rightarrow> t | None \<Rightarrow> nq_empty_str]"
  by (simp_all add: new_var_def)

text \<open>One variable apart from the others.\<close>

lemma var_split:
  assumes "i < length ts" and "length vs = length ts"
  obtains M where "mset (zip ts vs) = add_mset (ts ! i, vs ! i) M"
    and "\<And>t v. mset (zip (ts[i := t]) (vs[i := v])) = add_mset (t, v) M"
proof -
  have i: "i < length (zip ts vs)" and nth: "zip ts vs ! i = (ts ! i, vs ! i)" using assms by simp_all
  have "mset (zip (ts[i := t]) (vs[i := v])) = add_mset (t, v) (mset (zip ts vs) - {#(ts ! i, vs ! i)#})" for t v
    using mset_update [OF i, of "(t, v)"] nth by (simp add: update_zip)
  moreover have "mset (zip ts vs) = add_mset (ts ! i, vs ! i) (mset (zip ts vs) - {#(ts ! i, vs ! i)#})"
    using nth_mem_mset [OF i] nth by simp
  ultimately show ?thesis by (rule that [rotated])
qed

lemma var_in: "i < length ts \<Longrightarrow> length vs = length ts \<Longrightarrow> (ts ! i, vs ! i) \<in># mset (zip ts vs)"
  by (metis in_multiset_in_set length_zip min.idem nth_mem nth_zip)

lemma representsE:
  assumes "represents k (vs, ws) s"
  obtains ts R' where "length vs = length (cl_vars k)" and "length ts = length ws" and "holds_list (cl_items k) ts Map.empty R'"
    and "owns (mset (zip ts ws) + mset (zip (cl_vars k) vs)) R' s"
  using assms by (auto simp: represents_def live_list_def)

lemma represents_new:
  assumes "length vs = length (cl_vars k)" and "live_list (cl_items k) ws (add_mset (t, v) (mset (zip (cl_vars k) vs))) Map.empty s"
  shows "represents (new_var k (Some t)) (vs @ [v], ws) s"
  using assms by (simp add: represents_def add_mset_add_single [symmetric])

lemma represents_new_inert:
  assumes "represents k (vs, ws) s"
  shows "represents (new_var k None) (vs @ [[]], ws) s"
  using assms
proof (rule representsE)
  fix ts R' assume "length vs = length (cl_vars k)" "length ts = length ws" "holds_list (cl_items k) ts Map.empty R'"
    "owns (mset (zip ts ws) + mset (zip (cl_vars k) vs)) R' s"
  then show ?thesis
    using live_list_inert [of "cl_items k" ws "mset (zip (cl_vars k) vs)" Map.empty s nq_empty_str]
    by (auto simp: represents_def live_list_def)
qed

text \<open>Moving a variable into the list: its handle is for others to own.\<close>

definition movable :: "client \<Rightarrow> meaning \<Rightarrow> nat \<Rightarrow> strs \<Rightarrow> nqstr list \<Rightarrow> raws \<Rightarrow> nqstate \<Rightarrow> bool" where
  "movable k a i L ts R s \<longleftrightarrow> length ts = length (snd a) \<and> holds_list (cl_items k) ts Map.empty R \<and>
     owns (add_mset (cl_vars k ! i, fst a ! i) (mset (zip ts (snd a)) + L)) R s \<and>
     length (fst a) = length (cl_vars k) \<and>
     mset (zip ((cl_vars k)[i := nq_empty_str]) ((fst a)[i := []])) = add_mset (nq_empty_str, []) L"

lemma movable_moved:
  assumes "movable k (vs, ws) i L ts R s" and "live_list (cl_items k') ws' L Map.empty s'"
    and "cl_vars k' = (cl_vars k)[i := nq_empty_str]"
  shows "represents k' (vs[i := []], ws') s'"
  using assms(1,3) live_list_inert [OF assms(2), of nq_empty_str] by (simp add: movable_def represents_def)

lemma represents_movable:
  assumes "represents k (vs, ws) s" and i: "i < length (cl_vars k)"
  shows "\<exists>L ts R. movable k (vs, ws) i L ts R s"
  using assms(1)
proof (rule representsE)
  fix ts R' assume len: "length vs = length (cl_vars k)" and ts: "length ts = length ws"
    "holds_list (cl_items k) ts Map.empty R'" and owns: "owns (mset (zip ts ws) + mset (zip (cl_vars k) vs)) R' s"
  obtain M where M: "mset (zip (cl_vars k) vs) = add_mset (cl_vars k ! i, vs ! i) M"
    and put: "\<And>t v. mset (zip ((cl_vars k)[i := t]) (vs[i := v])) = add_mset (t, v) M"
    using var_split [OF i len] by blast
  show ?thesis
    using ts owns M len put by (intro exI [of _ M] exI [of _ ts] exI [of _ R']) (simp add: movable_def)
qed

lemma wp_execute:
  assumes rep: "represents k a s" and ok: "\<forall>i \<in> uses cmd. i < length (cl_vars k)" and E: "E (Exit 1)"
    and post: "\<And>k' s'. represents k' (means cmd a) s' \<Longrightarrow> world s' = world s \<Longrightarrow> Q k' s'"
  shows "wp E (execute c cmd k) Q s"
proof -
  obtain vs ws where a: "a = (vs, ws)" by (cases a)
  obtain ts R' where len: "length vs = length (cl_vars k)" and ts: "length ts = length ws"
      and items: "holds_list (cl_items k) ts Map.empty R'"
      and owns: "owns (mset (zip ts ws) + mset (zip (cl_vars k) vs)) R' s"
    using rep unfolding a by (rule representsE)
  have var: "(cl_vars k ! i, vs ! i) \<in># mset (zip ts ws) + mset (zip (cl_vars k) vs)" if "i \<in> uses cmd" for i
    using var_in [of i "cl_vars k" vs] ok that len by simp
  have new: "Q (new_var k (Some t)) s'"
    if "owns (add_mset (t, v) (mset (zip ts ws) + mset (zip (cl_vars k) vs))) R' s'" "world s' = world s"
      "means cmd a = (vs @ [v], ws)" for t v s'
    using that len ts items by (intro post) (auto intro!: represents_new live_list_more)
  have none: "Q (new_var k None) s" if "means cmd a = (vs @ [[]], ws)"
    using that rep a by (intro post) (auto intro: represents_new_inert)
  have moving: "\<exists>L ts R. movable k (vs, ws) i L ts R s" if "i \<in> uses cmd" for i
    using represents_movable [OF rep [unfolded a]] ok that by blast
  show ?thesis
  proof (cases cmd)
    case (Literal xs)
    then show ?thesis using owns_literal [OF owns, of xs] a by (auto simp: wp_ret intro!: new)
  next
    case (Clone i)
    show ?thesis
      unfolding Clone execute.simps wp_bind wp_ret
      by (rule wp_nq_str_clone [where E = E, OF owns var E]) (use Clone a in \<open>auto intro: new\<close>)
  next
    case (Concat i j)
    show ?thesis
      unfolding Concat execute.simps wp_bind wp_ret
      by (rule wp_nq_str_concat [where E = E, OF owns var var E]) (use Concat a in \<open>auto intro: new\<close>)
  next
    case (Slice i p q)
    show ?thesis
      unfolding Slice execute.simps wp_bind wp_ret
      by (rule wp_nq_str_slice [where E = E, OF owns var E]) (use Slice a in \<open>auto intro!: new none\<close>)
  next
    case (Get n)
    show ?thesis
      unfolding Get execute.simps wp_bind wp_ret
      by (rule wp_nq_list__str_get [where E = E, OF items ts owns E]) (use Get a in \<open>auto intro!: new none\<close>)
  next
    case Join
    show ?thesis
      unfolding Join execute.simps wp_bind wp_ret
      by (rule wp_nq_str_join [where E = E, OF items ts owns E]) (use Join a in \<open>auto intro: new\<close>)
  next
    case Pop
    show ?thesis
      unfolding Pop execute.simps wp_bind
    proof (rule wp_nq_list__str_pop [OF items ts owns], goal_cases)
      case 1
      then show ?case using none Pop a by (simp add: wp_ret)
    next
      case (2 l')
      then show ?case
        using Pop a len by (auto simp: wp_ret intro!: post represents_new)
    qed
  next
    case (Release i)
    then obtain L ts R' where m: "movable k (vs, ws) i L ts R' s" using moving by auto
    then have o: "owns (add_mset (cl_vars k ! i, vs ! i) (mset (zip ts ws) + L)) R' s" by (simp add: movable_def)
    show ?thesis
      unfolding Release execute.simps wp_bind wp_ret
    proof (rule wp_at_nq_str_drop [OF o], goal_cases)
      case (1 s')
      have "live_list (cl_items k) ws L Map.empty s'" using m 1(1) by (auto simp: movable_def live_list_def)
      with 1(2) Release a show ?case by (intro post) (auto intro: movable_moved [OF m])
    qed
  next
    case (Push i)
    then obtain L ts R' where m: "movable k (vs, ws) i L ts R' s" using moving by auto
    then have t: "holds_list (cl_items k) ts Map.empty R'" "length ts = length ws"
      and o: "owns (add_mset (cl_vars k ! i, vs ! i) (mset (zip ts ws) + L)) R' s" by (simp_all add: movable_def)
    show ?thesis
      unfolding Push execute.simps wp_bind wp_ret
    proof (rule wp_nq_list__str_push [where E = E, OF t o E], goal_cases)
      case (1 l' s')
      with Push a show ?case by (intro post) (auto intro: movable_moved [OF m])
    qed
  next
    case (Replace n i)
    then obtain L ts R' where m: "movable k (vs, ws) i L ts R' s" using moving by auto
    then have t: "holds_list (cl_items k) ts Map.empty R'" "length ts = length ws"
      and o: "owns (add_mset (cl_vars k ! i, vs ! i) (mset (zip ts ws) + L)) R' s" by (simp_all add: movable_def)
    let ?k = "k\<lparr>cl_vars := (cl_vars k)[i := nq_empty_str]\<rparr>"
    show ?thesis
      unfolding Replace execute.simps wp_bind wp_ret
    proof (rule wp_nq_list__str_replace [OF t o], goal_cases)
      case (1 s')
      have "live_list (cl_items k) ws L Map.empty s'" using t 1(2) by (auto simp: live_list_def)
      then have "represents ?k (vs[i := []], ws) s'" by (auto intro: movable_moved [OF m])
      from represents_new_inert [OF this] show ?case using 1(1,3) Replace a by (intro post) auto
    next
      case (2 s')
      have "represents (new_var ?k (Some (ts ! nat n))) (vs[i := []] @ [ws ! nat n], ws[nat n := vs ! i]) s'"
        by (rule represents_new)
          (use m live_list_inert [OF 2(3), of nq_empty_str] in \<open>auto simp: movable_def add_mset_commute\<close>)
      then show ?case using 2(1,2,4) Replace a by (intro post) auto
    qed
  qed
qed

section \<open>Whole programs\<close>

definition new_client :: client where
  "new_client = \<lparr>cl_vars = [], cl_items = nq_list__str_make\<rparr>"

fun run_program :: "config \<Rightarrow> command list \<Rightarrow> client \<Rightarrow> client nq" where
  "run_program c [] k = ret k"
| "run_program c (cmd # cmds) k = bind (execute c cmd k) (run_program c cmds)"

text \<open>At its end a program drops its variables and the list.\<close>

fun drop_all :: "nqstr list \<Rightarrow> unit nq" where
  "drop_all [] = ret ()"
| "drop_all (t # ts) = bind (nq_str_drop (Some t)) (\<lambda>_. drop_all ts)"

definition release :: "client \<Rightarrow> unit nq" where
  "release k = andthen (drop_all (cl_vars k)) (bind (nq_list__str_drop (Some (cl_items k))) (\<lambda>_. ret ()))"

lemma wp_drop_all:
  assumes "length vs = length ts" and "owns (mset (zip ts vs) + L) R s"
    and "\<And>s'. owns L R s' \<Longrightarrow> world s' = world s \<Longrightarrow> Q () s'"
  shows "wp E (drop_all ts) Q s"
  using assms
proof (induction ts arbitrary: vs s)
  case Nil
  then show ?case by (simp add: wp_ret)
next
  case (Cons t ts)
  then obtain v us where vs: "vs = v # us" "length us = length ts" by (cases vs) auto
  have "owns (add_mset (t, v) (mset (zip ts us) + L)) R s" using Cons.prems(2) vs by simp
  then show ?case
    unfolding drop_all.simps wp_bind
    by (rule wp_nq_str_drop) (rule Cons.IH [OF vs(2)], auto intro: Cons.prems(3))
qed

lemma wp_release:
  assumes "represents k a s" and "\<And>s'. heap s' = Map.empty \<Longrightarrow> world s' = world s \<Longrightarrow> Q () s'"
  shows "wp E (release k) Q s"
proof -
  obtain vs ws where a: "a = (vs, ws)" by (cases a)
  obtain ts R' where len: "length vs = length (cl_vars k)" and ts: "length ts = length ws"
      and items: "holds_list (cl_items k) ts Map.empty R'"
      and owns: "owns (mset (zip ts ws) + mset (zip (cl_vars k) vs)) R' s"
    using assms(1) unfolding a by (rule representsE)
  have "owns (mset (zip (cl_vars k) vs) + mset (zip ts ws)) R' s" using owns by (simp add: add.commute)
  with len show ?thesis
    unfolding release_def wp_andthen wp_bind
  proof (rule wp_drop_all, goal_cases)
    case (1 s1)
    have "live_list (cl_items k) ws {#} Map.empty s1" using ts items 1(1) by (auto simp: live_list_def)
    then show ?case
      by (rule strs.drop_live) (use 1(2) in \<open>auto simp: wp_ret dest: owns_empty_heap intro!: assms(2)\<close>)
  qed
qed

lemma represents_start: "represents new_client ([], []) (boot ms rs)"
  using live_list_empty [OF owns_boot] by (simp add: represents_def new_client_def)

lemma length_means: "length (fst (means cmd a)) =
    (case cmd of Release i \<Rightarrow> length (fst a) | Push i \<Rightarrow> length (fst a) | _ \<Rightarrow> Suc (length (fst a)))"
  by (cases "(cmd, a)" rule: means.cases) auto

inductive_simps typed_simps: "typed n [] m" "typed n (cmd # cmds) m"

lemma wp_run:
  assumes "typed n cmds m" and "represents k a s" and "length (fst a) = n" and "E (Exit 1)"
    and "\<And>k' s'. represents k' (fold means cmds a) s' \<Longrightarrow> length (cl_vars k') = m \<Longrightarrow> world s' = world s \<Longrightarrow> Q k' s'"
  shows "wp E (run_program c cmds k) Q s"
  using assms
proof (induction arbitrary: k a s rule: typed.induct)
  case (finish n)
  then show ?case by (simp add: wp_ret represents_def)
next
  case (same n cmds m i cmd)
  show ?case
    unfolding run_program.simps wp_bind
  proof (rule wp_execute [where E = E, OF same.prems(1) _ same.prems(3)], goal_cases)
    case 1
    then show ?case using same by (auto simp: represents_def)
  next
    case (2 k' s')
    show ?case
      by (rule same.IH [OF 2(1)]) (use same 2 in \<open>auto simp: length_means\<close>)
  qed
next
  case (more n cmds m cmd)
  show ?case
    unfolding run_program.simps wp_bind
  proof (rule wp_execute [where E = E, OF more.prems(1) _ more.prems(3)], goal_cases)
    case 1
    then show ?case using more by (auto simp: represents_def)
  next
    case (2 k' s')
    show ?case
      by (rule more.IH [OF 2(1)]) (use more 2 in \<open>auto simp: length_means split: command.split\<close>)
  qed
qed

section \<open>Properties\<close>

definition example_program :: "command list" where
  "example_program = [Literal ''ab'', Concat 0 0, Push 1, Slice 0 1 2, Replace 0 0, Release 2, Join, Pop]"

text \<open>
  C1: Well-typed programs do not go wrong. A program whose commands only use variables that exist
  runs to its end, or the process fails fast with status 1 for want of memory; it never reaches
  undefined behaviour. Its variables then denote what the specification on lists of bytes
  computes, and dropping them and the list leaves an empty heap, whatever allocations failed.
\<close>

theorem typed_programs_do_not_go_wrong:
  assumes "typed 0 cmds n"
  shows "wp fails_fast (run_program c cmds new_client)
     (\<lambda>k s'. length (cl_vars k) = n \<and> represents k (fold means cmds ([], [])) s' \<and>
        wp no_stop (release k) (\<lambda>_ s2. heap s2 = Map.empty) s') (boot ms rs)"
  by (rule wp_run [where E = fails_fast, OF assms represents_start]) (auto intro: wp_release)

theorem typed_programs_do_not_go_wrong_witness:
  "wp fails_fast (run_program plain_config example_program new_client)
     (\<lambda>k s'. represents k ([[], [], [], ''abab'', ''ab'', ''ab''], []) s' \<and>
        wp no_stop (release k) (\<lambda>_ s2. heap s2 = Map.empty) s') (boot [True, False] [])"
proof -
  have typed: "typed 0 example_program 6"
    by (simp add: example_program_def typed_simps)
  show ?thesis
    by (rule wp_mono [OF typed_programs_do_not_go_wrong [OF typed]]) (simp add: example_program_def)
qed

end
