(* ===== verification/Spec2Isabelle.thy ===== *)
theory Spec2Isabelle
  imports Integers Launch Float_Text Float_Int Atomic_Write Clock_Rules Reaping Handshake Pumping Starting Running Windows_Run Directory_Rules Client
begin

text \<open>
  The runtime of the Nauqtype compiler, verified.

  Nauqtype is a small systems language. Its compiler is written in the language itself and emits
  C; what it emits, the compiler included, is linked with one hand-written C file,
  \<open>src/stdlib/runtime.c\<close>, whose types and inline functions are in \<open>src/stdlib/runtime.h\<close>. Strings,
  lists, results, files, processes, clocks and floats of every Nauqtype program are the functions
  of this file, and so is every promise of the language about them: values are released exactly
  once, failures of the operating system are values, arithmetic is defined on every operand. The
  development is a model of this file, for the Linux build, with the theorems that make it keep
  these promises.

  \<^bold>\<open>How C is modelled.\<close> Theory Runtime_Types has the structs as records, the tagged unions as
  options and results, and the constants of the platform. Theory Machine has the store (blocks of
  bytes, of string cells, of pointers, one block per allocation), the C library and the kernel.
  A C function is a function from the machine state to an outcome: a value and the next state, or
  a reason why the process stopped, undefined behaviour among them. Function names are those of
  the C file. The kernel is the script of its replies, part of the state; the allocator is the
  list of the answers of the coming \<open>malloc\<close>s, and may fail at any time; every call is recorded
  in a trace. A theorem about an arbitrary state is thus a theorem about an arbitrary environment.
  \<open>wp E m Q s\<close> (the weakest precondition) says that \<open>m\<close>, run in \<open>s\<close>, returns with \<open>Q\<close> or stops
  for a reason in \<open>E\<close>; as \<open>E\<close> never has undefined behaviour or divergence in it, it is a statement
  of total correctness, up to \<open>Blocked\<close>: the kernel has not answered the next call.

  \<^bold>\<open>Loops and fuel.\<close> There is no fuel. A loop over data is structural recursion. A loop around
  system calls (\<open>loop\<close>) is total because each round takes a reply from the script; a round that
  takes none is the stop \<open>Diverged\<close>, which no theorem allows. \<open>nq_growth_loop\<close>, which can run
  forever, is a partial function, and its termination within the limits is a property.

  \<^bold>\<open>Ownership.\<close> Theory Ownership has the invariant of the heap: \<open>owns L R s\<close> says that the heap
  of \<open>s\<close> consists of the storage of the live strings \<open>L\<close> (with what each denotes), every count
  being the number of its handles, and of the blocks \<open>R\<close>, and nothing else. Leaks, double frees
  and dangling handles all violate it. Theory Owned states the contract of every value type as
  locales: \<open>owned_value\<close> (a drop releases all and may be repeated), \<open>cloneable\<close>, and \<open>growable\<close>
  for sequences that grow at the end; options and results lift the contracts inside the locales,
  and each type of the runtime interprets them in its own theory (Owned, Bytes, Lists, Values,
  Buffer).

  \<^bold>\<open>The parts, in the order of the C file.\<close>

  \<^item> Prelude, Runtime_Types, Machine, Ownership, Owned: see above.
  \<^item> Alloc: the limits, checked size arithmetic, growth, \<open>nq_realloc\<close> with its test hooks.
  \<^item> Strings: \<open>NQStr\<close>, reference-counted slices of shared storage. Each operation is shown to
    refine the operation on lists of bytes, to leave the other strings alone and to leak nothing.
  \<^item> Integers: the constant-expression macros and the arithmetic the compiler emits.
  \<^item> Errors: \<open>NQIoErr\<close>. Building an error always returns, though it allocates; the conversion of
    paths (\<open>nq_os_string\<close>) rejects an embedded NUL.
  \<^item> Bytes, Lists, Values, Buffer: byte arrays, lists of strings, compound values, byte buffers.
  \<^item> Streams, Files with File_Rules, Directory_Rules and Atomic_Write: streams, files, directories,
    the environment.
    The rules say which calls are made with which bytes, what is delivered, that handles are
    closed once, and for which reasons a call is not made; an atomic replacement names its target in a single \<open>rename\<close>.
  \<^item> Clock with Clock_Rules: time in nanoseconds, exact or rejected. Sums, differences and products of
    \<open>int64_t\<close> are undefined in the model where they overflow, and never do.
  \<^item> Process and Launch: child processes. Reaping shows that a child is signalled and waited for
    only as long as its identifier is its own; Handshake is about the pipe on which the child
    reports that it could not run its program, and about the child itself; Pumping is about
    \<open>nq_process_wait\<close>, which feeds the child, collects its output and reaps it. Starting is about
    \<open>nq_process_start\<close>: success hands out one child and its state, failure leaves only the error.
    Running is about \<open>nq_run_process\<close>: whatever fails, the temporary files it made are removed,
    its copies freed and its child gone, and what it returns is what the files hold and how the
    child ended. Both rest on Stages, rules for functions that hold many
    blocks at once (\<open>stage M L R W s\<close>: the blocks \<open>M\<close> are held, and what has been seen of the
    process from outside satisfies \<open>W\<close>), and on Vectors, the vectors that \<open>exec\<close> reads.
  \<^item> Windows: \<open>nq_run_process\<close> as it is built for Windows. It has the request in common with the
    version for Linux (\<open>run_request\<close>), then quotes the arguments into the one command line that
    \<open>CreateProcessA\<close> wants. In Command_Line the documented rules by which a program splits its
    command line are functions, and give back what was quoted, for exactly the program names that
    can be quoted; Windows_Run shows which calls a run
    makes, and that files, handles and memory are given back on every path.
  \<^item> Floats: \<open>f64\<close> as binary64. Rounding has the facts on rounding to nearest, Float_Text those on
    shortest text, scanners and the JSON grammar, Float_Int those on conversions.

  \<^item> Client: the composition as a compiled program sees it. A program over string variables and a
    list is a list of commands; \<open>typed\<close> is the discipline the compiler enforces (a moved value is
    not used again). Typed programs do not go wrong: they refine the programs on lists of bytes, and
    at their end leave an empty heap.

  \<^bold>\<open>What the model takes from the environment.\<close> \<open>free\<close> keeps \<open>errno\<close>, as glibc does since 2.33;
  \<open>malloc\<close> gives fresh memory with undefined contents; a reply carries what the kernel wrote through
  the pointers of the call, cut to the size of the caller's object; the machine is little-endian
  with 64-bit pointers. The texts of \<open>strerror\<close> are part of a configuration (\<open>config\<close>), with the
  limits the test hooks set; \<open>good_config\<close> says that a limit on the length of sequences leaves room
  for the constant texts of the file. \<open>explains\<close>, in Pumping, says that a failing call sets \<open>errno\<close>. The text routines of
  the C library that the float functions call (\<open>snprintf\<close> with \<open>%.*e\<close>, \<open>strtod\<close>) are modelled as
  correctly rounded, as IEEE 754 demands and glibc documents; the locale objects around them are
  opaque calls.

  \<^bold>\<open>Not modelled.\<close> The code under \<open>_WIN32\<close> other than \<open>nq_run_process\<close> (elsewhere the Windows versions
  call another function of the C library in place of one of POSIX, or return
  \<open>nq_unsupported_io_err\<close>, and the model is of the Linux build); the C seed of the compiler, which is generated from its
  Nauqtype sources; and the runtime kept beside the seed, an older copy of the file modelled here.
  What another process does to files meanwhile is in the replies only. Signal handlers do not run:
  the mask and disposition calls around writes are events.
\<close>

end
